(* ===== verification/QJS_Prelude.thy ===== *)
theory QJS_Prelude
  imports Main "HOL-Library.Word" "HOL-Library.Multiset"
begin

text \<open>
  Shared vocabulary of the development: names for the C integer types, the
  treatment of undefined behaviour, checked array accesses, and the generic
  lemmas on lists and words that the component theories use.

  Conventions used by every component:
  \<^item> \<open>uint8_t\<close>, \<open>uint16_t\<close>, \<open>uint32_t\<close>, \<open>uint64_t\<close> are words of that width;
    \<open>int\<close> values that the code never lets overflow are mathematical integers
    or naturals; \<open>size_t\<close> is a natural number whose additions are reduced
    modulo \<open>2 ^ 64\<close> by \<open>size_wrap\<close> wherever the source adds sizes.
  \<^item> an allocated C array is a list whose length is the number of allocated
    elements; an access outside of it is undefined behaviour.
  \<^item> undefined behaviour is the value \<open>None\<close> of an option type, so that a
    theorem \<open>f x = Some y\<close> also says that the call is memory safe.
\<close>

unbundle bit_operations_syntax

section \<open>Machine types\<close>

type_synonym u8 = "8 word"
type_synonym u16 = "16 word"
type_synonym u32 = "32 word"
type_synonym u64 = "64 word"

text \<open>\<open>ub\<close>: the result of a C operation that may have undefined behaviour.\<close>

type_synonym 'a ub = "'a option"

definition size_wrap :: "nat \<Rightarrow> nat" where
  "size_wrap n = n mod 2 ^ 64"

named_theorems arr_simps \<open>rules that evaluate checked array accesses\<close>
named_theorems val_simps \<open>rules that read limb arrays as numbers\<close>
named_theorems mem_simps \<open>rules on membership in a range list\<close>

lemma size_wrap_id [simp]: "n < 2 ^ 64 \<Longrightarrow> size_wrap n = n"
  by (simp add: size_wrap_def)

lemma size_wrap_less [simp]: "size_wrap n < 2 ^ 64"
  by (simp add: size_wrap_def)

lemma size_wrap_le: "size_wrap n \<le> n"
  by (simp add: size_wrap_def)

section \<open>Checked array accesses\<close>

definition arr_get :: "'a list \<Rightarrow> nat \<Rightarrow> 'a ub" where
  "arr_get xs i = (if i < length xs then Some (xs ! i) else None)"

definition arr_set :: "'a list \<Rightarrow> nat \<Rightarrow> 'a \<Rightarrow> 'a list ub" where
  "arr_set xs i v = (if i < length xs then Some (xs[i := v]) else None)"

text \<open>\<open>memcpy\<close> of \<open>data\<close> into an array at offset \<open>i\<close>.\<close>

definition arr_write :: "'a list \<Rightarrow> nat \<Rightarrow> 'a list \<Rightarrow> 'a list ub" where
  "arr_write xs i ds =
     (if i + length ds \<le> length xs
      then Some (take i xs @ ds @ drop (i + length ds) xs) else None)"

text \<open>The \<open>n\<close> elements from offset \<open>i\<close> on, the source of a \<open>memcpy\<close>.\<close>

definition arr_slice :: "'a list \<Rightarrow> nat \<Rightarrow> nat \<Rightarrow> 'a list ub" where
  "arr_slice xs i n =
     (if i + n \<le> length xs then Some (take n (drop i xs)) else None)"

lemma arr_get_eq [arr_simps]: "i < length xs \<Longrightarrow> arr_get xs i = Some (xs ! i)"
  by (simp add: arr_get_def)

lemma arr_set_eq [arr_simps]: "i < length xs \<Longrightarrow> arr_set xs i v = Some (xs[i := v])"
  by (simp add: arr_set_def)

lemma arr_write_eq [arr_simps]:
  "i + length ds \<le> length xs \<Longrightarrow>
   arr_write xs i ds = Some (take i xs @ ds @ drop (i + length ds) xs)"
  by (simp add: arr_write_def)

lemma arr_slice_eq [arr_simps]:
  "i + n \<le> length xs \<Longrightarrow> arr_slice xs i n = Some (take n (drop i xs))"
  by (simp add: arr_slice_def)

lemma arr_get_None: "arr_get xs i = None \<longleftrightarrow> length xs \<le> i"
  by (auto simp: arr_get_def)

section \<open>List lemmas\<close>

lemma take_Suc_update:
  "i < length xs \<Longrightarrow> take (Suc i) (xs[i := v]) = take i xs @ [v]"
  by (simp add: take_Suc_conv_app_nth)

lemma take_append_write:
  assumes "i \<le> length xs"
  shows "take (i + length ds) (take i xs @ ds @ drop (i + length ds) xs) = take i xs @ ds"
  using assms by (simp add: min_def)

lemma nth_take_drop_slice:
  "k < n \<Longrightarrow> i + n \<le> length xs \<Longrightarrow> take n (drop i xs) ! k = xs ! (i + k)"
  by simp

section \<open>Words\<close>

lemma unat_le_less_trans: "unat a < n \<Longrightarrow> b \<le> a \<Longrightarrow> unat b < n"
  by (meson le_less_trans word_le_nat_alt)

lemma unat_u8_less [simp]: "unat (x :: u8) < 256"
  using unsigned_less [of x, where ?'a = nat] by simp

lemma unat_u16_less [simp]: "unat (x :: u16) < 65536"
  using unsigned_less [of x, where ?'a = nat] by simp

lemma unat_u32_less [simp]: "unat (x :: u32) < 4294967296"
  using unsigned_less [of x, where ?'a = nat] by simp

lemma unat_u64_less [simp]: "unat (x :: u64) < 18446744073709551616"
  using unsigned_less [of x, where ?'a = nat] by simp

text \<open>Equality of words by comparing every bit, for concrete widths.\<close>

lemma word_eq_by_bits:
  fixes a b :: "'a::len word"
  assumes "list_all (\<lambda>n. bit a n = bit b n) [0..<LENGTH('a)]"
  shows "a = b"
  using assms by (intro bit_word_eqI) (simp add: list_all_iff)

lemma unat_ucast_small:
  fixes x :: "'a::len word"
  assumes "unat x < 2 ^ LENGTH('b)"
  shows "unat (ucast x :: 'b::len word) = unat x"
  using assms by (simp add: unsigned_ucast_eq take_bit_nat_eq_self)

text \<open>Masks and disjoint ors, read as arithmetic on natural numbers.\<close>

lemma or_nat_high: "x < 2 ^ k \<Longrightarrow> x OR m * 2 ^ k = x + m * (2::nat) ^ k"
proof -
  assume x: "x < 2 ^ k"
  have "x + m * 2 ^ k = x OR m * 2 ^ k"
  proof (rule disjunctive_add)
    fix n
    show "\<not> bit x n \<or> \<not> bit (m * 2 ^ k) n"
    proof (cases "n < k")
      case True
      then have "\<not> bit (push_bit k m) n" by (simp add: bit_push_bit_iff)
      then show ?thesis by (simp add: push_bit_eq_mult)
    next
      case False
      then have "x < 2 ^ n" using x by (meson less_le_trans not_less one_le_numeral power_increasing)
      then show ?thesis by (simp add: bit_iff_odd)
    qed
  qed
  then show ?thesis by simp
qed

lemma unat_or_high:
  fixes x y :: "'a::len word"
  assumes "unat x < 2 ^ k" and "unat y = m * 2 ^ k"
  shows "unat (x OR y) = unat x + unat y"
  using or_nat_high [OF assms(1), of m] assms(2) by (simp add: unsigned_or_eq)

lemma unat_and_mask:
  fixes x :: "'a::len word"
  shows "unat (x AND mask n) = unat x mod 2 ^ n"
  by (simp only: take_bit_eq_mask [symmetric] unsigned_take_bit_eq) (simp add: take_bit_eq_mod)

lemma unat_drop_bit: "unat (drop_bit n x) = unat x div 2 ^ n"
  by (simp only: unat_drop_bit_eq) (simp add: drop_bit_eq_div)

lemma unat_push_bit_small:
  fixes x :: "'a::len word"
  assumes "unat x * 2 ^ n < 2 ^ LENGTH('a)"
  shows "unat (push_bit n x) = unat x * 2 ^ n"
proof -
  have "unat (push_bit n x) = take_bit LENGTH('a) (push_bit n (unat x))"
    by (simp add: unsigned_push_bit_eq)
  then show ?thesis using assms by (simp add: push_bit_eq_mult take_bit_nat_eq_self)
qed

end
