(* ===== verification/Cutils_Bytes.thy ===== *)
theory Cutils_Bytes
  imports QJS_Prelude
begin

text \<open>
  The inline helpers of \<open>src/cutils.h\<close>: integer minima and maxima, bit counts,
  unaligned little-endian loads and stores (\<open>get_u16\<close> \<dots> \<open>put_u64\<close>), byte swaps,
  surrogate arithmetic and hexadecimal digits.  The loads and stores are read
  on a little-endian host, as on the platforms the Go package links for
  (\<open>src/qjs_linux.go\<close>, \<open>src/qjs_darwin.go\<close>).

  Lemmas: stores and loads invert each other and leave the rest of the buffer
  alone, a byte swap reverses the byte order and is an involution, surrogate
  pairs encode exactly the supplementary code points, bit counts bracket their
  argument.
\<close>

unbundle bit_operations_syntax

section \<open>Minima and maxima\<close>

definition max_int :: "int \<Rightarrow> int \<Rightarrow> int" where
  "max_int a b = (if a > b then a else b)"

definition min_int :: "int \<Rightarrow> int \<Rightarrow> int" where
  "min_int a b = (if a < b then a else b)"

definition max_uint32 :: "u32 \<Rightarrow> u32 \<Rightarrow> u32" where
  "max_uint32 a b = (if a > b then a else b)"

definition min_uint32 :: "u32 \<Rightarrow> u32 \<Rightarrow> u32" where
  "min_uint32 a b = (if a < b then a else b)"

definition max_int64 :: "int \<Rightarrow> int \<Rightarrow> int" where
  "max_int64 a b = (if a > b then a else b)"

definition min_int64 :: "int \<Rightarrow> int \<Rightarrow> int" where
  "min_int64 a b = (if a < b then a else b)"

lemma max_int_max [simp]: "max_int a b = max a b"
  by (simp add: max_int_def max_def)

lemma min_int_min [simp]: "min_int a b = min a b"
  by (simp add: min_int_def min_def)

section \<open>Bit counts\<close>

text \<open>
  The number of significant bits of a natural number, and the counts of
  leading and trailing zeros the compiler builtins return.  A zero argument is
  undefined behaviour.
\<close>

fun bit_len :: "nat \<Rightarrow> nat" where
  "bit_len n = (if n = 0 then 0 else Suc (bit_len (n div 2)))"

declare bit_len.simps [simp del]

fun low_zeros :: "nat \<Rightarrow> nat" where
  "low_zeros n = (if n = 0 \<or> odd n then 0 else Suc (low_zeros (n div 2)))"

declare low_zeros.simps [simp del]

definition clz32 :: "u32 \<Rightarrow> nat ub" where
  "clz32 a = (if a = 0 then None else Some (32 - bit_len (unat a)))"

definition clz64 :: "u64 \<Rightarrow> nat ub" where
  "clz64 a = (if a = 0 then None else Some (64 - bit_len (unat a)))"

definition ctz32 :: "u32 \<Rightarrow> nat ub" where
  "ctz32 a = (if a = 0 then None else Some (low_zeros (unat a)))"

definition ctz64 :: "u64 \<Rightarrow> nat ub" where
  "ctz64 a = (if a = 0 then None else Some (low_zeros (unat a)))"

lemma bit_len_0 [simp]: "bit_len 0 = 0"
  by (simp add: bit_len.simps)

lemma bit_len_pos [simp]: "0 < n \<Longrightarrow> 0 < bit_len n"
  by (simp add: bit_len.simps [of n])

lemma bit_len_upper: "n < 2 ^ bit_len n"
proof (induction n rule: bit_len.induct)
  case (1 n)
  then show ?case by (cases "n = 0") (auto simp: bit_len.simps [of n])
qed

lemma bit_len_lower: "0 < n \<Longrightarrow> 2 ^ (bit_len n - 1) \<le> n"
proof (induction n rule: bit_len.induct)
  case (1 n)
  show ?case
  proof (cases "n = 1")
    case True
    then show ?thesis by (simp add: bit_len.simps)
  next
    case False
    with "1.prems" have d: "0 < n div 2" by auto
    with "1.IH" "1.prems" have "2 ^ (bit_len (n div 2) - 1) \<le> n div 2" by simp
    then have "2 * 2 ^ (bit_len (n div 2) - 1) \<le> n" by linarith
    moreover have "2 * 2 ^ (bit_len (n div 2) - 1) = (2::nat) ^ bit_len (n div 2)"
      using d by (metis bit_len_pos Suc_diff_1 power_Suc)
    ultimately show ?thesis using "1.prems" by (simp add: bit_len.simps [of n])
  qed
qed

lemma bit_len_unique: "0 < n \<Longrightarrow> 2 ^ k \<le> n \<Longrightarrow> n < 2 ^ Suc k \<Longrightarrow> bit_len n = Suc k"
proof -
  assume n: "0 < n" "2 ^ k \<le> n" "n < 2 ^ Suc k"
  have "(2::nat) ^ k < 2 ^ bit_len n" using n(2) bit_len_upper [of n] by linarith
  then have "k < bit_len n" by simp
  have "(2::nat) ^ (bit_len n - 1) < 2 ^ Suc k" using bit_len_lower [OF n(1)] n(3) by linarith
  then have "bit_len n - 1 < Suc k" by (simp only: power_strict_increasing_iff)
  with \<open>k < bit_len n\<close> show ?thesis by linarith
qed

lemma bit_len_le_iff: "bit_len n \<le> k \<longleftrightarrow> n < 2 ^ k"
proof (cases "n = 0")
  case False
  show ?thesis
  proof
    assume "bit_len n \<le> k"
    then show "n < 2 ^ k"
      using bit_len_upper [of n] power_increasing [of "bit_len n" k "2::nat"] by linarith
  next
    assume "n < 2 ^ k"
    then have "(2::nat) ^ (bit_len n - 1) < 2 ^ k" using False bit_len_lower [of n] by linarith
    then have "bit_len n - 1 < k" by (simp only: power_strict_increasing_iff)
    then show "bit_len n \<le> k" by linarith
  qed
qed simp

lemma low_zeros_factor: "0 < n \<Longrightarrow> \<exists>m. odd m \<and> n = 2 ^ low_zeros n * m"
proof (induction n rule: low_zeros.induct)
  case (1 n)
  show ?case
  proof (cases "odd n")
    case True
    then show ?thesis by (auto simp: low_zeros.simps [of n])
  next
    case False
    with "1.prems" have "0 < n div 2" by auto
    with "1.IH" False "1.prems" obtain m where "odd m" "n div 2 = 2 ^ low_zeros (n div 2) * m"
      by auto
    with False "1.prems" show ?thesis
      by (intro exI [of _ m]) (auto simp: low_zeros.simps [of n] elim!: evenE)
  qed
qed

lemma clz32_bounds:
  "a \<noteq> 0 \<Longrightarrow> \<exists>z. clz32 a = Some z \<and> z < 32 \<and> 2 ^ (31 - z) \<le> unat a \<and> unat a < 2 ^ (32 - z)"
proof -
  assume a: "a \<noteq> 0"
  then have u: "0 < unat a" by (simp add: unat_gt_0)
  have "bit_len (unat a) \<le> 32"
    using unsigned_less [of a] by (simp add: bit_len_le_iff)
  moreover have "0 < bit_len (unat a)" using u by simp
  ultimately show ?thesis
    using a bit_len_lower [OF u] bit_len_upper [of "unat a"]
    by (intro exI [of _ "32 - bit_len (unat a)"]) (simp add: clz32_def)
qed

section \<open>Little-endian loads and stores\<close>

fun le_to_nat :: "u8 list \<Rightarrow> nat" where
  "le_to_nat [] = 0"
| "le_to_nat (b # bs) = unat b + 256 * le_to_nat bs"

fun nat_to_le :: "nat \<Rightarrow> nat \<Rightarrow> u8 list" where
  "nat_to_le 0 v = []"
| "nat_to_le (Suc n) v = word_of_nat (v mod 256) # nat_to_le n (v div 256)"

lemma length_nat_to_le [simp]: "length (nat_to_le n v) = n"
  by (induction n arbitrary: v) auto

lemma le_to_nat_less: "le_to_nat bs < 256 ^ length bs"
proof (induction bs)
  case (Cons b bs)
  have "unat b < 256" using unsigned_less [of b] by simp
  with Cons have "unat b + 256 * le_to_nat bs < 256 * 256 ^ length bs" by linarith
  then show ?case by simp
qed simp

lemma le_to_nat_nat_to_le [simp]: "le_to_nat (nat_to_le n v) = v mod 256 ^ n"
proof (induction n arbitrary: v)
  case (Suc n)
  have "unat (word_of_nat (v mod 256) :: u8) = v mod 256"
    by (simp add: unat_of_nat)
  then show ?case
    by (simp add: Suc mod_mult2_eq)
qed simp

lemma nat_to_le_le_to_nat [simp]: "nat_to_le (length bs) (le_to_nat bs) = bs"
proof (induction bs)
  case (Cons b bs)
  have b: "unat b < 256" using unsigned_less [of b] by simp
  then have "word_of_nat ((unat b + 256 * le_to_nat bs) mod 256) = b" by simp
  with b Cons show ?case by simp
qed simp

definition get_u64 :: "u8 list \<Rightarrow> nat \<Rightarrow> u64 ub" where
  "get_u64 tab i = map_option (\<lambda>bs. word_of_nat (le_to_nat bs)) (arr_slice tab i 8)"

definition get_i64 :: "u8 list \<Rightarrow> nat \<Rightarrow> int ub" where
  "get_i64 tab i = map_option sint (get_u64 tab i)"

definition put_u64 :: "u8 list \<Rightarrow> nat \<Rightarrow> u64 \<Rightarrow> u8 list ub" where
  "put_u64 tab i v = arr_write tab i (nat_to_le 8 (unat v))"

definition get_u32 :: "u8 list \<Rightarrow> nat \<Rightarrow> u32 ub" where
  "get_u32 tab i = map_option (\<lambda>bs. word_of_nat (le_to_nat bs)) (arr_slice tab i 4)"

definition get_i32 :: "u8 list \<Rightarrow> nat \<Rightarrow> int ub" where
  "get_i32 tab i = map_option sint (get_u32 tab i)"

definition put_u32 :: "u8 list \<Rightarrow> nat \<Rightarrow> u32 \<Rightarrow> u8 list ub" where
  "put_u32 tab i v = arr_write tab i (nat_to_le 4 (unat v))"

definition get_u16 :: "u8 list \<Rightarrow> nat \<Rightarrow> u32 ub" where
  "get_u16 tab i = map_option (\<lambda>bs. word_of_nat (le_to_nat bs)) (arr_slice tab i 2)"

definition get_i16 :: "u8 list \<Rightarrow> nat \<Rightarrow> int ub" where
  "get_i16 tab i = map_option (\<lambda>w. sint (ucast w :: u16)) (get_u16 tab i)"

definition put_u16 :: "u8 list \<Rightarrow> nat \<Rightarrow> u16 \<Rightarrow> u8 list ub" where
  "put_u16 tab i v = arr_write tab i (nat_to_le 2 (unat v))"

definition get_u8 :: "u8 list \<Rightarrow> nat \<Rightarrow> u32 ub" where
  "get_u8 tab i = map_option ucast (arr_get tab i)"

definition get_i8 :: "u8 list \<Rightarrow> nat \<Rightarrow> int ub" where
  "get_i8 tab i = map_option sint (arr_get tab i)"

definition put_u8 :: "u8 list \<Rightarrow> nat \<Rightarrow> u8 \<Rightarrow> u8 list ub" where
  "put_u8 tab i v = arr_set tab i v"

lemma arr_slice_write_same:
  "arr_write xs i ds = Some ys \<Longrightarrow> arr_slice ys i (length ds) = Some ds"
  by (auto simp: arr_write_def arr_slice_def min_def split: if_splits)

lemma arr_slice_write_other:
  assumes "arr_write xs i ds = Some ys" and "j + n \<le> i \<or> i + length ds \<le> j"
  shows "arr_slice ys j n = arr_slice xs j n"
proof -
  from assms(1) have le: "i + length ds \<le> length xs"
    and ys: "ys = take i xs @ ds @ drop (i + length ds) xs"
    by (auto simp: arr_write_def split: if_splits)
  from le ys have len: "length ys = length xs" by simp
  show ?thesis
  proof (cases "j + n \<le> length xs")
    case True
    have "take n (drop j ys) = take n (drop j xs)"
    proof (rule nth_equalityI)
      show "length (take n (drop j ys)) = length (take n (drop j xs))" using len by simp
    next
      fix k assume "k < length (take n (drop j ys))"
      with True len have k: "k < n" "j + k < length xs" by auto
      from assms(2) k(1) have "j + k < i \<or> i + length ds \<le> j + k" by auto
      then have "ys ! (j + k) = xs ! (j + k)"
      proof
        assume "j + k < i" then show ?thesis using ys le by (simp add: nth_append)
      next
        assume "i + length ds \<le> j + k"
        then show ?thesis using ys le k(2) by (auto simp: nth_append)
      qed
      with k True len show "take n (drop j ys) ! k = take n (drop j xs) ! k" by simp
    qed
    with True len show ?thesis by (simp add: arr_slice_def)
  qed (simp add: arr_slice_def len)
qed

lemma get_put_u32: "put_u32 tab i v = Some tab' \<Longrightarrow> get_u32 tab' i = Some v"
  using arr_slice_write_same [of tab i "nat_to_le 4 (unat v)" tab']
  by (simp add: get_u32_def put_u32_def)

lemma get_put_u64: "put_u64 tab i v = Some tab' \<Longrightarrow> get_u64 tab' i = Some v"
  using arr_slice_write_same [of tab i "nat_to_le 8 (unat v)" tab']
  by (simp add: get_u64_def put_u64_def)

lemma get_put_u16: "put_u16 tab i v = Some tab' \<Longrightarrow> get_u16 tab' i = Some (ucast v)"
  using arr_slice_write_same [of tab i "nat_to_le 2 (unat v)" tab']
  by (simp add: get_u16_def put_u16_def unsigned_ucast_eq)

section \<open>Byte swaps\<close>

definition bswap16 :: "u16 \<Rightarrow> u16" where
  "bswap16 x = drop_bit 8 x OR push_bit 8 x"

definition bswap32 :: "u32 \<Rightarrow> u32" where
  "bswap32 v = drop_bit 24 (v AND 0xff000000) OR drop_bit 8 (v AND 0x00ff0000) OR
     push_bit 8 (v AND 0x0000ff00) OR push_bit 24 (v AND 0x000000ff)"

definition bswap64 :: "u64 \<Rightarrow> u64" where
  "bswap64 v =
     drop_bit (7 * 8) (v AND push_bit (7 * 8) 0xff) OR
     drop_bit (5 * 8) (v AND push_bit (6 * 8) 0xff) OR
     drop_bit (3 * 8) (v AND push_bit (5 * 8) 0xff) OR
     drop_bit (1 * 8) (v AND push_bit (4 * 8) 0xff) OR
     push_bit (1 * 8) (v AND push_bit (3 * 8) 0xff) OR
     push_bit (3 * 8) (v AND push_bit (2 * 8) 0xff) OR
     push_bit (5 * 8) (v AND push_bit (1 * 8) 0xff) OR
     push_bit (7 * 8) (v AND push_bit (0 * 8) 0xff)"



lemma bswap16_bswap16: "bswap16 (bswap16 x) = x"
  by (rule word_eq_by_bits) (simp add: bswap16_def bit_simps upt_rec, simp add: eval_nat_numeral)

lemma bswap32_bswap32: "bswap32 (bswap32 v) = v"
  by (rule word_eq_by_bits) (simp add: bswap32_def bit_simps upt_rec, simp add: eval_nat_numeral)

lemma bswap64_bswap64: "bswap64 (bswap64 v) = v"
  by (rule word_eq_by_bits) (simp add: bswap64_def bit_simps upt_rec, simp add: eval_nat_numeral)

section \<open>Surrogates and hexadecimal digits\<close>

definition is_surrogate :: "u32 \<Rightarrow> bool" where
  "is_surrogate c \<longleftrightarrow> drop_bit 11 c = drop_bit 11 0xD800"

definition is_hi_surrogate :: "u32 \<Rightarrow> bool" where
  "is_hi_surrogate c \<longleftrightarrow> drop_bit 10 c = drop_bit 10 0xD800"

definition is_lo_surrogate :: "u32 \<Rightarrow> bool" where
  "is_lo_surrogate c \<longleftrightarrow> drop_bit 10 c = drop_bit 10 0xDC00"

definition get_hi_surrogate :: "u32 \<Rightarrow> u32" where
  "get_hi_surrogate c = drop_bit 10 c - drop_bit 10 0x10000 + 0xD800"

definition get_lo_surrogate :: "u32 \<Rightarrow> u32" where
  "get_lo_surrogate c = (c AND 0x3FF) OR 0xDC00"

definition from_surrogate :: "u32 \<Rightarrow> u32 \<Rightarrow> u32" where
  "from_surrogate hi lo = 0x10000 + 0x400 * (hi - 0xD800) + (lo - 0xDC00)"

definition from_hex :: "int \<Rightarrow> int" where
  "from_hex c =
     (if c \<ge> 48 \<and> c \<le> 57 then c - 48
      else if c \<ge> 65 \<and> c \<le> 70 then c - 65 + 10
      else if c \<ge> 97 \<and> c \<le> 102 then c - 97 + 10
      else -1)"

lemma is_surrogate_iff: "is_surrogate c \<longleftrightarrow> 0xD800 \<le> unat c \<and> unat c \<le> 0xDFFF"
  by (auto simp: is_surrogate_def word_unat_eq_iff unat_drop_bit)

lemma is_hi_surrogate_iff: "is_hi_surrogate c \<longleftrightarrow> 0xD800 \<le> unat c \<and> unat c \<le> 0xDBFF"
  by (auto simp: is_hi_surrogate_def word_unat_eq_iff unat_drop_bit)

lemma is_lo_surrogate_iff: "is_lo_surrogate c \<longleftrightarrow> 0xDC00 \<le> unat c \<and> unat c \<le> 0xDFFF"
  by (auto simp: is_lo_surrogate_def word_unat_eq_iff unat_drop_bit)

lemma unat_get_lo_surrogate: "unat (get_lo_surrogate c) = unat c mod 1024 + 0xDC00"
proof -
  have m: "c AND 0x3FF = c AND mask 10" by (simp add: mask_eq_exp_minus_1)
  have "unat (c AND mask 10) < 2 ^ 10" by (simp add: unat_and_mask)
  then have "unat ((c AND mask 10) OR 0xDC00) = unat (c AND mask 10) + unat (0xDC00 :: u32)"
    by (rule unat_or_high [where m = 55]) simp
  then show ?thesis by (simp add: get_lo_surrogate_def m unat_and_mask)
qed

lemma unat_get_hi_surrogate:
  assumes "0x10000 \<le> unat c" and "unat c \<le> 0x10FFFF"
  shows "unat (get_hi_surrogate c) = unat c div 1024 - 64 + 0xD800"
proof -
  have d: "unat (drop_bit 10 c) = unat c div 1024" by (simp add: unat_drop_bit)
  then show ?thesis
    using assms by (simp add: get_hi_surrogate_def unat_word_ariths)
qed

lemma unat_from_surrogate:
  assumes "is_hi_surrogate hi" and "is_lo_surrogate lo"
  shows "unat (from_surrogate hi lo) = 0x10000 + 0x400 * (unat hi - 0xD800) + (unat lo - 0xDC00)"
proof -
  have h: "unat (hi - 0xD800) = unat hi - 0xD800"
    using assms by (subst unat_sub) (auto simp: word_le_nat_alt is_hi_surrogate_iff)
  have l: "unat (lo - 0xDC00) = unat lo - 0xDC00"
    using assms by (subst unat_sub) (auto simp: word_le_nat_alt is_lo_surrogate_iff)
  from assms have "unat hi \<le> 0xDBFF" "unat lo \<le> 0xDFFF"
    by (auto simp: is_hi_surrogate_iff is_lo_surrogate_iff)
  with h l show ?thesis unfolding from_surrogate_def by (simp only: unat_word_ariths) simp
qed

lemma from_surrogate_get:
  assumes "0x10000 \<le> unat c" and "unat c \<le> 0x10FFFF"
  shows "from_surrogate (get_hi_surrogate c) (get_lo_surrogate c) = c"
proof -
  have "is_hi_surrogate (get_hi_surrogate c)" "is_lo_surrogate (get_lo_surrogate c)"
    using assms by (auto simp: is_hi_surrogate_iff is_lo_surrogate_iff
        unat_get_hi_surrogate unat_get_lo_surrogate)
  moreover have "64 \<le> unat c div 1024" using assms by linarith
  moreover have "1024 * (unat c div 1024) + unat c mod 1024 = unat c" by simp
  ultimately have "unat (from_surrogate (get_hi_surrogate c) (get_lo_surrogate c)) = unat c"
    using assms by (simp only: unat_from_surrogate unat_get_hi_surrogate unat_get_lo_surrogate)
  then show ?thesis by (rule word_unat_eq_iff [THEN iffD2])
qed

lemma get_from_surrogate:
  assumes "is_hi_surrogate hi" and "is_lo_surrogate lo"
  shows "get_hi_surrogate (from_surrogate hi lo) = hi"
    and "get_lo_surrogate (from_surrogate hi lo) = lo"
    and "0x10000 \<le> unat (from_surrogate hi lo)" and "unat (from_surrogate hi lo) \<le> 0x10FFFF"
proof -
  from assms have r: "0xD800 \<le> unat hi" "unat hi \<le> 0xDBFF" "0xDC00 \<le> unat lo" "unat lo \<le> 0xDFFF"
    by (auto simp: is_hi_surrogate_iff is_lo_surrogate_iff)
  note u = unat_from_surrogate [OF assms]
  show lo: "0x10000 \<le> unat (from_surrogate hi lo)" and hi: "unat (from_surrogate hi lo) \<le> 0x10FFFF"
    using r u by auto
  show "get_hi_surrogate (from_surrogate hi lo) = hi"
    using r by (simp add: word_unat_eq_iff unat_get_hi_surrogate [OF lo hi] u)
  from r have "unat (from_surrogate hi lo) = (unat lo - 0xDC00) + 1024 * (64 + (unat hi - 0xD800))"
    by (simp add: u)
  then have "unat (from_surrogate hi lo) mod 1024 = (unat lo - 0xDC00) mod 1024"
    by (simp only: mod_mult_self2)
  with r show "get_lo_surrogate (from_surrogate hi lo) = lo"
    by (simp add: word_unat_eq_iff unat_get_lo_surrogate)
qed

lemma from_hex_range: "-1 \<le> from_hex c \<and> from_hex c < 16"
  by (auto simp: from_hex_def)

end
