(* ===== verification/Utf8.thy ===== *)
theory Utf8
  imports Cutils_Bytes
begin

text \<open>
  The UTF-8 codec of \<open>src/cutils.c\<close>: \<open>unicode_to_utf8\<close> writes a code of at most
  31 bits as one to six bytes, \<open>unicode_from_utf8\<close> reads one back and rejects
  truncated, misplaced and overlong sequences.

  The encoder returns the list of bytes it writes; its length is the C return
  value.  The decoder reads from the byte list \<open>p\<close>; running off its end is
  undefined behaviour (\<open>None\<close>), an error return of \<open>-1\<close> is \<open>Some None\<close>, and
  success is \<open>Some (Some (c, rest))\<close> with the bytes after the sequence.
\<close>

unbundle bit_operations_syntax

section \<open>Encoder\<close>

definition cont_byte :: "u32 \<Rightarrow> nat \<Rightarrow> u8" where
  "cont_byte c k = ucast ((drop_bit k c AND 0x3f) OR 0x80)"

definition unicode_to_utf8 :: "u32 \<Rightarrow> u8 list" where
  "unicode_to_utf8 c =
     (if c < 0x80 then [ucast c]
      else if c < 0x800 then [ucast (drop_bit 6 c OR 0xc0), cont_byte c 0]
      else if c < 0x10000 then [ucast (drop_bit 12 c OR 0xe0), cont_byte c 6, cont_byte c 0]
      else if c < 0x00200000 then
        [ucast (drop_bit 18 c OR 0xf0), cont_byte c 12, cont_byte c 6, cont_byte c 0]
      else if c < 0x04000000 then
        [ucast (drop_bit 24 c OR 0xf8), cont_byte c 18, cont_byte c 12, cont_byte c 6, cont_byte c 0]
      else if c < 0x80000000 then
        [ucast (drop_bit 30 c OR 0xfc), cont_byte c 24, cont_byte c 18, cont_byte c 12,
         cont_byte c 6, cont_byte c 0]
      else [])"

section \<open>Decoder\<close>

definition utf8_min_code :: "nat list" where
  "utf8_min_code = [0x80, 0x800, 0x10000, 0x00200000, 0x04000000]"

definition utf8_first_code_mask :: "u32 list" where
  "utf8_first_code_mask = [0x1f, 0xf, 0x7, 0x3, 0x1]"

text \<open>The \<open>switch\<close> on the first byte: the number of continuation bytes.\<close>

definition utf8_seq_len :: "u32 \<Rightarrow> nat option" where
  "utf8_seq_len c =
     (if 0xc0 \<le> c \<and> c \<le> 0xdf then Some 1
      else if 0xe0 \<le> c \<and> c \<le> 0xef then Some 2
      else if 0xf0 \<le> c \<and> c \<le> 0xf7 then Some 3
      else if 0xf8 \<le> c \<and> c \<le> 0xfb then Some 4
      else if 0xfc \<le> c \<and> c \<le> 0xfd then Some 5
      else None)"

text \<open>The loop over the continuation bytes.\<close>

fun utf8_cont :: "nat \<Rightarrow> u32 \<Rightarrow> u8 list \<Rightarrow> (u32 \<times> u8 list) option ub" where
  "utf8_cont 0 c p = Some (Some (c, p))"
| "utf8_cont (Suc l) c [] = None"
| "utf8_cont (Suc l) c (b # p) =
     (if b < 0x80 \<or> b \<ge> 0xc0 then Some None
      else utf8_cont l (push_bit 6 c OR (ucast b AND 0x3f)) p)"

lemma utf8_cont_numeral [simp]:
  "utf8_cont (numeral k) c (b # p) =
     (if b < 0x80 \<or> b \<ge> 0xc0 then Some None
      else utf8_cont (pred_numeral k) (push_bit 6 c OR (ucast b AND 0x3f)) p)"
  by (simp add: numeral_eq_Suc)

definition unicode_from_utf8 :: "u8 list \<Rightarrow> int \<Rightarrow> (u32 \<times> u8 list) option ub" where
  "unicode_from_utf8 p max_len =
     (case p of
        [] \<Rightarrow> None
      | b0 # p1 \<Rightarrow>
        (let c = ucast b0 :: u32 in
         if c < 0x80 then Some (Some (c, p1))
         else (case utf8_seq_len c of
             None \<Rightarrow> Some None
           | Some l \<Rightarrow>
             if int l > max_len - 1 then Some None
             else (case utf8_cont l (c AND utf8_first_code_mask ! (l - 1)) p1 of
                 None \<Rightarrow> None
               | Some None \<Rightarrow> Some None
               | Some (Some (c', p')) \<Rightarrow>
                 if unat c' < utf8_min_code ! (l - 1) then Some None
                 else Some (Some (c', p'))))))"

section \<open>Arithmetic of the bytes\<close>

lemma unat_cont_byte: "unat (cont_byte c k) = 128 + unat c div 2 ^ k mod 64"
proof -
  have m: "drop_bit k c AND 0x3f = drop_bit k c AND mask 6" by (simp add: mask_eq_exp_minus_1)
  have "unat (drop_bit k c AND mask 6) < 2 ^ 7"
    by (simp add: unat_and_mask less_trans [OF mod_less_divisor])
  then have "unat ((drop_bit k c AND mask 6) OR 0x80) = unat (drop_bit k c AND mask 6) + unat (0x80 :: u32)"
    by (rule unat_or_high [where m = 1]) simp
  then have u: "unat ((drop_bit k c AND mask 6) OR 0x80) = unat c div 2 ^ k mod 64 + 128"
    by (simp add: unat_and_mask unat_drop_bit)
  moreover have "unat c div 2 ^ k mod 64 < 64" by simp
  ultimately show ?thesis
    by (simp only: cont_byte_def m) (subst unat_ucast_small; simp)
qed

lemma unat_lead_byte:
  assumes "unat c div 2 ^ k < 2 ^ j" and "t = m * 2 ^ j" and "t + 2 ^ j \<le> 256" and "unat w = t"
  shows "unat (ucast (drop_bit k c OR w) :: u8) = t + unat c div 2 ^ k"
proof -
  have "unat (drop_bit k c OR w) = unat (drop_bit k c) + unat w"
    using assms by (intro unat_or_high [where m = m and k = j]) (simp_all add: unat_drop_bit)
  then have "unat (drop_bit k c OR w) = unat c div 2 ^ k + t"
    using assms by (simp add: unat_drop_bit)
  then show ?thesis using assms by (subst unat_ucast_small) simp_all
qed

lemma utf8_cont_step:
  assumes "unat a < 2 ^ 26" and "128 \<le> unat b" and "unat b < 192"
  shows "unat (push_bit 6 a OR (ucast b AND 0x3f) :: u32) = unat a * 64 + (unat (b :: u8) - 128)"
proof -
  have m: "(ucast b AND 0x3f :: u32) = ucast b AND mask 6" by (simp add: mask_eq_exp_minus_1)
  have ub: "unat (ucast b :: u32) = unat b"
    by (rule unat_ucast_small) (rule less_trans [OF unat_u8_less], simp)
  have "unat (ucast b AND mask 6 :: u32) = unat b mod 64" by (simp add: unat_and_mask ub)
  also have "\<dots> = (128 + (unat b - 128)) mod 64" using assms by simp
  also have "\<dots> = unat b - 128" using assms by (simp add: mod_if)
  finally have lo: "unat (ucast b AND mask 6 :: u32) = unat b - 128" .
  have hi: "unat (push_bit 6 a) = unat a * 2 ^ 6"
    using assms by (intro unat_push_bit_small) simp
  have "unat ((ucast b AND mask 6) OR push_bit 6 a :: u32) = unat (ucast b AND mask 6 :: u32) + unat (push_bit 6 a)"
    using assms lo hi by (intro unat_or_high [where k = 6 and m = "unat a"]) simp_all
  then show ?thesis using lo hi m by (simp add: or.commute)
qed

section \<open>Continuation bytes\<close>

fun cont_bytes :: "nat \<Rightarrow> u32 \<Rightarrow> u8 list" where
  "cont_bytes 0 c = []"
| "cont_bytes (Suc l) c = cont_byte c (6 * l) # cont_bytes l c"

lemma length_cont_bytes [simp]: "length (cont_bytes l c) = l"
  by (induction l) auto

lemma cont_byte_range [simp]: "\<not> cont_byte c k < 0x80" "\<not> 0xc0 \<le> cont_byte c k"
proof -
  have "unat c div 2 ^ k mod 64 < 64" by simp
  then show "\<not> cont_byte c k < 0x80" "\<not> 0xc0 \<le> cont_byte c k"
    by (simp_all add: word_less_nat_alt word_le_nat_alt unat_cont_byte)
qed

text \<open>The loop reads back the continuation bytes of a code.\<close>

lemma utf8_cont_complete:
  assumes "unat c div 64 ^ l = unat a"
  shows "utf8_cont l a (cont_bytes l c @ rest) = Some (Some (c, rest))"
  using assms
proof (induction l arbitrary: a)
  case 0
  then show ?case by (simp add: word_unat_eq_iff)
next
  case (Suc l)
  let ?b = "cont_byte c (6 * l)"
  have p64: "(2::nat) ^ (6 * l) = 64 ^ l" by (simp add: power_mult)
  have b: "unat ?b = 128 + unat c div 64 ^ l mod 64" by (simp add: unat_cont_byte p64)
  have a: "unat a = unat c div 64 ^ l div 64"
    using Suc.prems by (simp only: power_Suc2 div_mult2_eq)
  have "unat c div 64 ^ l \<le> unat c" by simp
  then have "unat c div 64 ^ l < 4294967296" using unat_u32_less [of c] by linarith
  then have "unat a < 2 ^ 26" using a by simp
  moreover have "128 \<le> unat ?b" "unat ?b < 192" using b by (simp_all add: less_trans [OF mod_less_divisor])
  ultimately have "unat (push_bit 6 a OR (ucast ?b AND 0x3f) :: u32) = unat a * 64 + (unat ?b - 128)"
    by (rule utf8_cont_step)
  also have "\<dots> = unat c div 64 ^ l" using a b by simp
  finally show ?case using Suc.IH by simp
qed

text \<open>Conversely, whatever the loop accepts are the continuation bytes of its result.\<close>

lemma utf8_cont_sound:
  assumes "utf8_cont l a p = Some (Some (c, rest))" and "(unat a + 1) * 64 ^ l \<le> 2 ^ 32"
  shows "p = cont_bytes l c @ rest \<and> unat c div 64 ^ l = unat a"
  using assms
proof (induction l arbitrary: a p)
  case 0
  then show ?case by simp
next
  case (Suc l)
  from Suc.prems(1) obtain b q where p: "p = b # q"
    and bnd: "\<not> b < 0x80" "\<not> 0xc0 \<le> b"
    and rec: "utf8_cont l (push_bit 6 a OR (ucast b AND 0x3f)) q = Some (Some (c, rest))"
    by (cases p) (auto split: if_splits)
  from bnd have b: "128 \<le> unat b" "unat b < 192"
    by (simp_all add: word_less_nat_alt word_le_nat_alt)
  have bound: "((unat a + 1) * 64) * 64 ^ l \<le> 2 ^ 32"
    using Suc.prems(2) by (simp add: algebra_simps)
  moreover have "(unat a + 1) * 64 * 1 \<le> (unat a + 1) * 64 * 64 ^ l" by (rule mult_le_mono2) simp
  ultimately have "(unat a + 1) * 64 \<le> 2 ^ 32" by linarith
  then have "unat a < 2 ^ 26" by simp
  with b have st: "unat (push_bit 6 a OR (ucast b AND 0x3f) :: u32) = unat a * 64 + (unat b - 128)"
    by (intro utf8_cont_step)
  have "(unat a * 64 + (unat b - 128) + 1) * 64 ^ l \<le> ((unat a + 1) * 64) * 64 ^ l"
    using b by (intro mult_le_mono1) simp
  with bound have "(unat a * 64 + (unat b - 128) + 1) * 64 ^ l \<le> 2 ^ 32" by linarith
  with Suc.IH [OF rec] st have IH: "q = cont_bytes l c @ rest"
    "unat c div 64 ^ l = unat a * 64 + (unat b - 128)" by auto
  have p64: "(2::nat) ^ (6 * l) = 64 ^ l" by (simp add: power_mult)
  have "(unat a * 64 + (unat b - 128)) mod 64 = unat b - 128"
    using b by (subst mod_mult_self3) simp
  then have "unat (cont_byte c (6 * l)) = unat b"
    using IH(2) b by (simp only: unat_cont_byte p64)
  then have "cont_byte c (6 * l) = b" by (simp add: word_unat_eq_iff)
  moreover have "unat c div 64 ^ Suc l = unat a"
    using IH(2) b by (simp only: power_Suc2 div_mult2_eq)
  ultimately show ?case using p IH(1) by simp
qed

section \<open>Lead bytes\<close>

text \<open>\<open>utf8_tag l\<close>: the fixed high bits of the lead byte of a sequence with \<open>l\<close> continuation bytes.\<close>

definition utf8_tag :: "nat \<Rightarrow> nat" where
  "utf8_tag l = 256 - 2 ^ (7 - l)"

lemma seq_len_cases: "1 \<le> l \<Longrightarrow> l \<le> 5 \<Longrightarrow> l = 1 \<or> l = 2 \<or> l = 3 \<or> l = 4 \<or> l = (5::nat)"
  by linarith

lemmas utf8_numeral_simps = utf8_tag_def utf8_min_code_def utf8_first_code_mask_def

lemma utf8_tag_multiple: "1 \<le> l \<Longrightarrow> l \<le> 5 \<Longrightarrow> utf8_tag l = (2 ^ (l + 2) - 2) * 2 ^ (6 - l)"
  by (drule (1) seq_len_cases) (auto simp: utf8_tag_def)

lemma unat_ucast_u8_u32 [simp]: "unat (ucast (b :: u8) :: u32) = unat b"
  by (rule unat_ucast_small) (rule less_trans [OF unat_u8_less], simp)

lemma utf8_seq_len_unat:
  "utf8_seq_len (ucast (b :: u8)) =
     (if 192 \<le> unat b \<and> unat b < 224 then Some 1
      else if 224 \<le> unat b \<and> unat b < 240 then Some 2
      else if 240 \<le> unat b \<and> unat b < 248 then Some 3
      else if 248 \<le> unat b \<and> unat b < 252 then Some 4
      else if 252 \<le> unat b \<and> unat b < 254 then Some 5
      else None)"
  by (simp add: utf8_seq_len_def word_le_nat_alt)

lemma utf8_seq_len_intro:
  assumes "1 \<le> l" "l \<le> 5" "utf8_tag l \<le> unat b" "unat b < utf8_tag l + 2 ^ (6 - l)"
  shows "utf8_seq_len (ucast (b :: u8)) = Some l"
  using seq_len_cases [OF assms(1,2)] assms(3,4)
  by (elim disjE) (simp_all add: utf8_tag_def utf8_seq_len_unat)

lemma utf8_seq_len_dest:
  assumes "utf8_seq_len (ucast (b :: u8)) = Some l"
  shows "1 \<le> l \<and> l \<le> 5 \<and> utf8_tag l \<le> unat b \<and> unat b < utf8_tag l + 2 ^ (6 - l)"
  using assms by (auto simp: utf8_tag_def utf8_seq_len_unat split: if_splits)

lemma utf8_lead_mask:
  assumes "1 \<le> l" "l \<le> 5" "unat (b :: u8) = utf8_tag l + x" "x < 2 ^ (6 - l)"
  shows "unat (ucast b AND utf8_first_code_mask ! (l - 1) :: u32) = x"
proof -
  have "utf8_first_code_mask ! (l - 1) = (mask (6 - l) :: u32)"
    using seq_len_cases [OF assms(1,2)] 
    by (elim disjE) (simp_all add: utf8_first_code_mask_def mask_eq_exp_minus_1)
  then have "unat (ucast b AND utf8_first_code_mask ! (l - 1) :: u32) = unat b mod 2 ^ (6 - l)"
    by (simp add: unat_and_mask)
  also have "\<dots> = x"
    using assms(4) by (simp only: assms(3) utf8_tag_multiple [OF assms(1,2)] mod_mult_self3 mod_less)
  finally show ?thesis .
qed

text \<open>A code in the range of length class \<open>l\<close> is written as a lead byte and \<open>l\<close> continuation bytes.\<close>

lemma cont_bytes_numeral:
  "cont_bytes 1 c = [cont_byte c 0]"
  "cont_bytes 2 c = [cont_byte c 6, cont_byte c 0]"
  "cont_bytes 3 c = [cont_byte c 12, cont_byte c 6, cont_byte c 0]"
  "cont_bytes 4 c = [cont_byte c 18, cont_byte c 12, cont_byte c 6, cont_byte c 0]"
  "cont_bytes 5 c = [cont_byte c 24, cont_byte c 18, cont_byte c 12, cont_byte c 6, cont_byte c 0]"
  by (simp_all add: eval_nat_numeral)

lemma utf8_lead_byte:
  assumes "1 \<le> l" "l \<le> 5" "unat c div 64 ^ l < 2 ^ (6 - l)" "unat w = utf8_tag l"
  shows "unat (ucast (drop_bit (6 * l) c OR w) :: u8) = utf8_tag l + unat c div 64 ^ l"
proof -
  have p: "(2::nat) ^ (6 * l) = 64 ^ l" by (simp add: power_mult)
  have "utf8_tag l + 2 ^ (6 - l) \<le> 256"
    using seq_len_cases [OF assms(1,2)] by (elim disjE) (simp_all add: utf8_tag_def)
  then show ?thesis
    using unat_lead_byte [of c "6 * l" "6 - l" "utf8_tag l" "2 ^ (l + 2) - 2" w]
      assms utf8_tag_multiple [OF assms(1,2)] by (simp only: p)
qed

lemma unicode_to_utf8_multi:
  assumes "1 \<le> l" "l \<le> 5" "utf8_min_code ! (l - 1) \<le> unat c" "unat c div 64 ^ l < 2 ^ (6 - l)"
  shows "unicode_to_utf8 c = ucast (drop_bit (6 * l) c OR word_of_nat (utf8_tag l)) # cont_bytes l c"
proof -
  from seq_len_cases [OF assms(1,2)] consider "l = 1" | "l = 2" | "l = 3" | "l = 4" | "l = 5" by blast
  then show ?thesis
    using assms(3,4)
    by cases (simp_all add: unicode_to_utf8_def utf8_numeral_simps word_less_nat_alt
        div_less_iff_less_mult cont_bytes_numeral [simplified])
qed

section \<open>Properties of the codec\<close>

text \<open>Every 31-bit code is ASCII or belongs to exactly one length class.\<close>

lemma utf8_length_class:
  assumes "0x80 \<le> n" and "n < 2 ^ 31"
  shows "\<exists>l. 1 \<le> l \<and> l \<le> 5 \<and> utf8_min_code ! (l - 1) \<le> n \<and> n div 64 ^ l < 2 ^ (6 - l)"
proof -
  have c: "0x80 \<le> n \<and> n < 0x800 \<or> 0x800 \<le> n \<and> n < 0x10000 \<or> 0x10000 \<le> n \<and> n < 0x00200000
    \<or> 0x00200000 \<le> n \<and> n < 0x04000000 \<or> 0x04000000 \<le> n \<and> n < 0x80000000"
    using assms by (simp, linarith)
  consider "0x80 \<le> n \<and> n < 0x800" | "0x800 \<le> n \<and> n < 0x10000" | "0x10000 \<le> n \<and> n < 0x00200000"
    | "0x00200000 \<le> n \<and> n < 0x04000000" | "0x04000000 \<le> n \<and> n < 0x80000000"
    using c by blast
  then show ?thesis
  proof cases
    case 1 then show ?thesis
      by (intro exI [of _ 1]) (simp add: utf8_min_code_def div_less_iff_less_mult)
  next
    case 2 then show ?thesis
      by (intro exI [of _ 2]) (simp add: utf8_min_code_def div_less_iff_less_mult)
  next
    case 3 then show ?thesis
      by (intro exI [of _ 3]) (simp add: utf8_min_code_def div_less_iff_less_mult)
  next
    case 4 then show ?thesis
      by (intro exI [of _ 4]) (simp add: utf8_min_code_def div_less_iff_less_mult)
  next
    case 5 then show ?thesis
      by (intro exI [of _ 5]) (simp add: utf8_min_code_def div_less_iff_less_mult)
  qed
qed

lemma unicode_to_utf8_ascii:
  "unat c < 0x80 \<Longrightarrow> unicode_to_utf8 c = [ucast c] \<and> unat (ucast c :: u8) = unat c"
  by (simp add: unicode_to_utf8_def word_less_nat_alt unat_ucast_small)

lemma utf8_tag_word: "1 \<le> l \<Longrightarrow> l \<le> 5 \<Longrightarrow> unat (word_of_nat (utf8_tag l) :: u32) = utf8_tag l"
  by (drule (1) seq_len_cases, elim disjE) (simp_all add: utf8_tag_def)

lemma utf8_tag_ge: "1 \<le> l \<Longrightarrow> l \<le> 5 \<Longrightarrow> 192 \<le> utf8_tag l"
  by (drule (1) seq_len_cases, elim disjE) (simp_all add: utf8_tag_def)

text \<open>
  C5: decoding the bytes written for a code gives the code back and stops right
  after them, whatever follows, as long as \<open>max_len\<close> allows their number.
\<close>

theorem utf8_decode_encode:
  assumes "unat c < 2 ^ 31" and "int (length (unicode_to_utf8 c)) \<le> max_len"
  shows "unicode_from_utf8 (unicode_to_utf8 c @ rest) max_len = Some (Some (c, rest))"
proof (cases "unat c < 0x80")
  case True
  then have u: "unicode_to_utf8 c = [ucast c]" "unat (ucast c :: u8) = unat c"
    using unicode_to_utf8_ascii by blast+
  have "ucast (ucast c :: u8) = c" using u(2) by (simp add: word_unat_eq_iff)
  with u True show ?thesis by (simp add: unicode_from_utf8_def word_less_nat_alt)
next
  case False
  with assms(1) obtain l where l: "1 \<le> l" "l \<le> 5" "utf8_min_code ! (l - 1) \<le> unat c"
    "unat c div 64 ^ l < 2 ^ (6 - l)"
    using utf8_length_class [of "unat c"] by auto
  define b where "b = (ucast (drop_bit (6 * l) c OR word_of_nat (utf8_tag l)) :: u8)"
  have enc: "unicode_to_utf8 c = b # cont_bytes l c"
    using unicode_to_utf8_multi [OF l] by (simp add: b_def)
  have b: "unat b = utf8_tag l + unat c div 64 ^ l"
    unfolding b_def using l utf8_tag_word [OF l(1,2)] by (intro utf8_lead_byte) simp_all
  have sl: "utf8_seq_len (ucast b) = Some l"
    using l b by (intro utf8_seq_len_intro) simp_all
  have "unat (ucast b AND utf8_first_code_mask ! (l - 1) :: u32) = unat c div 64 ^ l"
    by (rule utf8_lead_mask [OF l(1,2) b l(4)])
  then have "utf8_cont l (ucast b AND utf8_first_code_mask ! (l - 1)) (cont_bytes l c @ rest) = Some (Some (c, rest))"
    by (intro utf8_cont_complete) simp
  moreover have "\<not> (ucast b :: u32) < 0x80"
    using b utf8_tag_ge [OF l(1,2)] by (simp add: word_less_nat_alt)
  ultimately show ?thesis
    using sl l(3) assms(2) by (simp add: unicode_from_utf8_def enc)
qed

theorem utf8_decode_encode_witness:
  "unicode_from_utf8 (unicode_to_utf8 0x20AC @ [0x41]) 6 = Some (Some (0x20AC, [0x41]))"
  by (rule utf8_decode_encode) (simp_all add: unicode_to_utf8_def)

text \<open>
  C6: what the decoder accepts is exactly the encoding of its result.  So no
  overlong form, no stray continuation byte and no code above 31 bits is accepted,
  and no more than \<open>max_len\<close> bytes are consumed.
\<close>

theorem utf8_decode_canonical:
  assumes "unicode_from_utf8 p max_len = Some (Some (c, rest))" and "1 \<le> max_len"
  shows "p = unicode_to_utf8 c @ rest \<and> unat c < 2 ^ 31 \<and> int (length (unicode_to_utf8 c)) \<le> max_len"
proof -
  from assms(1) obtain b p1 where p: "p = b # p1"
    by (cases p) (auto simp: unicode_from_utf8_def)
  show ?thesis
  proof (cases "(ucast b :: u32) < 0x80")
    case True
    with assms p have "c = ucast b" "rest = p1" by (auto simp: unicode_from_utf8_def)
    moreover from True have "unat (ucast b :: u32) < 0x80" by (simp add: word_less_nat_alt)
    ultimately show ?thesis
      using assms(2) p unicode_to_utf8_ascii [of c] by (simp add: word_unat_eq_iff)
  next
    case False
    with assms p obtain l where sl: "utf8_seq_len (ucast b) = Some l" and ml: "int l \<le> max_len - 1"
      and ct: "utf8_cont l (ucast b AND utf8_first_code_mask ! (l - 1)) p1 = Some (Some (c, rest))"
      and mn: "utf8_min_code ! (l - 1) \<le> unat c"
      by (auto simp: unicode_from_utf8_def Let_def not_less split: option.splits if_splits)
    from utf8_seq_len_dest [OF sl] obtain x where l: "1 \<le> l" "l \<le> 5"
      and b: "unat b = utf8_tag l + x" and x: "x < 2 ^ (6 - l)"
      by (metis add_less_cancel_left le_Suc_ex)
    have m: "unat (ucast b AND utf8_first_code_mask ! (l - 1) :: u32) = x"
      by (rule utf8_lead_mask [OF l b x])
    have "(x + 1) * 64 ^ l \<le> 2 ^ (6 - l) * 64 ^ l" using x by (intro mult_le_mono1) simp
    moreover have "2 ^ (6 - l) * 64 ^ l \<le> (2::nat) ^ 31"
      using seq_len_cases [OF l] by (elim disjE) simp_all
    ultimately have bound: "(x + 1) * 64 ^ l \<le> 2 ^ 31" by linarith
    with utf8_cont_sound [OF ct] m have p1: "p1 = cont_bytes l c @ rest" and cx: "unat c div 64 ^ l = x"
      by auto
    have enc: "unicode_to_utf8 c = ucast (drop_bit (6 * l) c OR word_of_nat (utf8_tag l)) # cont_bytes l c"
      using l mn cx x by (intro unicode_to_utf8_multi) simp_all
    have "unat (ucast (drop_bit (6 * l) c OR word_of_nat (utf8_tag l)) :: u8) = unat b"
      using l cx x b utf8_tag_word [OF l] by (subst utf8_lead_byte) simp_all
    then have "ucast (drop_bit (6 * l) c OR word_of_nat (utf8_tag l)) = b"
      by (simp add: word_unat_eq_iff)
    with enc p p1 ml bound cx have "p = unicode_to_utf8 c @ rest" "int (length (unicode_to_utf8 c)) \<le> max_len"
      by simp_all
    moreover have "unat c < (x + 1) * 64 ^ l"
      using cx div_less_iff_less_mult [of "64 ^ l" "unat c" "x + 1"] by simp
    ultimately show ?thesis using bound by linarith
  qed
qed

theorem utf8_decode_canonical_witness:
  "[0xE2, 0x82, 0xAC, 0x41] = unicode_to_utf8 0x20AC @ [0x41] \<and> unat (0x20AC :: u32) < 2 ^ 31
   \<and> int (length (unicode_to_utf8 0x20AC)) \<le> 4"
  by (rule utf8_decode_canonical)
    (simp_all add: unicode_from_utf8_def utf8_seq_len_def utf8_first_code_mask_def utf8_min_code_def)

lemma utf8_cont_safe: "l \<le> length p \<or> 0 \<in> set p \<Longrightarrow> utf8_cont l a p \<noteq> None"
  by (induction l a p rule: utf8_cont.induct) auto



end
