(* ===== verification/Cutils_Strings.thy ===== *)
theory Cutils_Strings
  imports QJS_Prelude
begin

text \<open>
  The string helpers of \<open>src/cutils.c\<close>.  A \<open>char *\<close> argument is the list of
  bytes from the pointer to the end of its array; a C string is such a list
  with a zero byte in it, \<open>c_string cs rest\<close> being the text \<open>cs\<close>, its
  terminator and whatever follows.  Reading or writing past the end of an array
  is undefined behaviour.
\<close>

section \<open>C strings\<close>

definition c_string :: "u8 list \<Rightarrow> u8 list \<Rightarrow> u8 list" where
  "c_string cs rest = cs @ 0 # rest"

text \<open>\<open>strlen\<close> of the C library.\<close>

fun c_strlen :: "u8 list \<Rightarrow> nat ub" where
  "c_strlen [] = None"
| "c_strlen (c # s) = (if c = 0 then Some 0 else map_option Suc (c_strlen s))"

lemma c_strlen_c_string [simp]: "0 \<notin> set cs \<Longrightarrow> c_strlen (c_string cs rest) = Some (length cs)"
  by (induction cs) (auto simp: c_string_def)

section \<open>Operations\<close>

text \<open>The copy loop of \<open>pstrcpy\<close>: \<open>q\<close> is the write position in \<open>buf\<close>.\<close>

fun pstrcpy_loop :: "u8 list \<Rightarrow> nat \<Rightarrow> nat \<Rightarrow> u8 list \<Rightarrow> u8 list ub" where
  "pstrcpy_loop buf q buf_size [] = None"
| "pstrcpy_loop buf q buf_size (c # str) =
     (if c = 0 \<or> q \<ge> buf_size - 1 then arr_set buf q 0
      else (case arr_set buf q c of
          None \<Rightarrow> None
        | Some buf' \<Rightarrow> pstrcpy_loop buf' (Suc q) buf_size str))"

definition pstrcpy :: "u8 list \<Rightarrow> int \<Rightarrow> u8 list \<Rightarrow> u8 list ub" where
  "pstrcpy buf buf_size str =
     (if buf_size \<le> 0 then Some buf else pstrcpy_loop buf 0 (nat buf_size) str)"

definition pstrcat :: "u8 list \<Rightarrow> int \<Rightarrow> u8 list \<Rightarrow> u8 list ub" where
  "pstrcat buf buf_size s =
     (case c_strlen buf of
        None \<Rightarrow> None
      | Some len \<Rightarrow>
        if int len < buf_size
        then map_option (\<lambda>b. take len buf @ b) (pstrcpy (drop len buf) (buf_size - int len) s)
        else Some buf)"

text \<open>\<open>strstart\<close>: \<open>Some (Some p)\<close> is the return value 1 with \<open>*ptr = p\<close>, \<open>Some None\<close> the return value 0.\<close>

fun strstart :: "u8 list \<Rightarrow> u8 list \<Rightarrow> u8 list option ub" where
  "strstart p [] = None"
| "strstart p (c # q) =
     (if c = 0 then Some (Some p)
      else (case p of
          [] \<Rightarrow> None
        | d # p' \<Rightarrow> if d \<noteq> c then Some None else strstart p' q))"

definition has_suffix :: "u8 list \<Rightarrow> u8 list \<Rightarrow> bool ub" where
  "has_suffix str suffix =
     (case c_strlen str of
        None \<Rightarrow> None
      | Some len \<Rightarrow>
        (case c_strlen suffix of
           None \<Rightarrow> None
         | Some slen \<Rightarrow>
           Some (len \<ge> slen \<and> take slen (drop (len - slen) str) = take slen suffix)))"

section \<open>Properties\<close>

lemma pstrcpy_loop_spec:
  assumes "0 \<notin> set cs" and "q + 1 \<le> buf_size" and "buf_size \<le> length buf"
  shows "pstrcpy_loop buf q buf_size (c_string cs rest) =
     (let n = min (length cs) (buf_size - 1 - q)
      in Some (take q buf @ take n cs @ 0 # drop (q + n + 1) buf))"
  using assms
proof (induction cs arbitrary: q buf)
  case Nil
  then show ?case
    by (simp add: c_string_def arr_set_def upd_conv_take_nth_drop)
next
  case (Cons c cs)
  show ?case
  proof (cases "q \<ge> buf_size - 1")
    case True
    with Cons.prems show ?thesis
      by (simp add: c_string_def arr_set_def upd_conv_take_nth_drop)
  next
    case False
    let ?b = "buf[q := c]"
    from False Cons.prems have le: "Suc q + 1 \<le> buf_size" "buf_size \<le> length ?b" by auto
    have sub: "take (Suc q) ?b = take q buf @ [c]"
      using Cons.prems by (simp add: take_Suc_update)
    have dr: "drop (Suc q + k) ?b = drop (Suc q + k) buf" for k by simp
    from False Cons.prems have m: "min (length (c # cs)) (buf_size - 1 - q)
        = Suc (min (length cs) (buf_size - 1 - Suc q))" by auto
    have "pstrcpy_loop buf q buf_size (c_string (c # cs) rest)
        = pstrcpy_loop ?b (Suc q) buf_size (c_string cs rest)"
      using False Cons.prems by (simp add: c_string_def arr_set_def)
    also have "\<dots> = (let n = min (length cs) (buf_size - 1 - Suc q)
        in Some (take (Suc q) ?b @ take n cs @ 0 # drop (Suc q + n + 1) ?b))"
      using Cons.prems le by (intro Cons.IH) auto
    finally show ?thesis using sub m by (simp add: Let_def)
  qed
qed

lemma pstrcpy_spec:
  assumes "0 \<notin> set cs" and "0 < buf_size" and "buf_size \<le> int (length buf)"
  shows "pstrcpy buf buf_size (c_string cs rest) =
     (let n = min (length cs) (nat buf_size - 1)
      in Some (take n cs @ 0 # drop (n + 1) buf))"
  using pstrcpy_loop_spec [OF assms(1), of 0 "nat buf_size" buf rest] assms
  by (simp add: pstrcpy_def)

text \<open>
  C8: \<open>pstrcat\<close> on a buffer holding \<open>as\<close> appends as much of \<open>cs\<close> as fits: the
  result is the C string \<open>as\<close> followed by a prefix of \<open>cs\<close>, terminated inside the
  first \<open>buf_size\<close> bytes; the buffer keeps its length and the bytes after the
  terminator are untouched.
\<close>

theorem pstrcat_appends:
  assumes "0 \<notin> set as" and "0 \<notin> set cs" and "int (length as) < buf_size"
    and "buf_size \<le> int (length (c_string as junk))"
  shows "pstrcat (c_string as junk) buf_size (c_string cs rest) =
     (let n = min (length cs) (nat buf_size - 1 - length as)
      in Some (c_string (as @ take n cs) (drop n junk)))"
proof -
  have d: "drop (length as) (c_string as junk) = 0 # junk" by (simp add: c_string_def)
  have t: "take (length as) (c_string as junk) = as" by (simp add: c_string_def)
  have nn: "nat (buf_size - int (length as)) - Suc 0 = nat buf_size - Suc (length as)" by simp
  have "pstrcpy (0 # junk) (buf_size - int (length as)) (c_string cs rest)
      = (let n = min (length cs) (nat (buf_size - int (length as)) - 1)
         in Some (take n cs @ 0 # drop (n + 1) (0 # junk)))"
    using assms by (intro pstrcpy_spec) (auto simp: c_string_def)
  with assms(1,3) show ?thesis
    by (simp add: pstrcat_def d t Let_def) (simp add: c_string_def nn [simplified])
qed

theorem pstrcat_appends_witness:
  "pstrcat (c_string [97] [1, 2]) 4 (c_string [98, 99, 100] []) =
     (let n = min (length [98, 99, 100 :: u8]) (nat 4 - 1 - length [97 :: u8])
      in Some (c_string ([97] @ take n [98, 99, 100]) (drop n [1, 2])))"
  by (rule pstrcat_appends) (simp_all add: c_string_def)

lemma strstart_prefix:
  assumes "0 \<notin> set val" and "0 \<notin> set cs"
  shows "strstart (c_string cs r1) (c_string val r2) =
     Some (if take (length val) cs = val then Some (c_string (drop (length val) cs) r1) else None)"
  using assms
proof (induction val arbitrary: cs)
  case Nil
  then show ?case by (simp add: c_string_def)
next
  case (Cons v vs)
  then show ?case by (cases cs) (auto simp: c_string_def)
qed

lemma has_suffix_iff:
  assumes "0 \<notin> set cs" and "0 \<notin> set sf"
  shows "has_suffix (c_string cs r1) (c_string sf r2) = Some (\<exists>pre. cs = pre @ sf)"
proof -
  have "(length sf \<le> length cs \<and> drop (length cs - length sf) cs = sf) \<longleftrightarrow> (\<exists>pre. cs = pre @ sf)"
    by (metis append_take_drop_id diff_le_self append_eq_conv_conj add_diff_cancel_right'
        le_add2 length_append)
  moreover have "take (length sf) (drop (length cs - length sf) (c_string cs r1))
      = drop (length cs - length sf) cs" if "length sf \<le> length cs"
    using that by (simp add: c_string_def)
  moreover have "take (length sf) (c_string sf r2) = sf" by (simp add: c_string_def)
  ultimately show ?thesis using assms by (auto simp: has_suffix_def)
qed

end
