(* ===== verification/DynBuf.thy ===== *)
theory DynBuf
  imports Cutils_Bytes Cutils_Strings
begin

text \<open>
  The dynamic buffer of \<open>src/cutils.c\<close>.  The record mirrors \<open>struct DynBuf\<close>: the
  allocated block (its length is what the allocator handed out), the fill
  \<open>size\<close>, \<open>allocated_size\<close>, the sticky \<open>error\<close> flag and the \<open>realloc_func\<close>
  pointer (\<open>None\<close> is \<open>NULL\<close>).  The \<open>opaque\<close> argument is part of the allocation
  function.  An operation returns the C return value and the new buffer, or
  \<open>None\<close> when it would access memory outside of the block.

  The allocator is an argument of the model.  The locale \<open>allocator\<close> states
  what the C library documents of \<open>realloc\<close>; it is interpreted on the default
  allocator.  The locale \<open>byte_sink\<close> is the contract that clients (the regexp
  compiler, the Unicode normaliser) rely on: they append many times without
  looking at the return value and check the error flag once at the end.
\<close>

section \<open>Allocators\<close>

type_synonym 'a realloc = "'a list \<Rightarrow> nat \<Rightarrow> 'a list option"

text \<open>
  \<open>realloc\<close> of the C library: \<open>avail\<close> decides whether a request succeeds, the
  block is copied, and \<open>fill\<close> gives the unspecified contents of new memory.
\<close>

definition c_realloc :: "(nat \<Rightarrow> bool) \<Rightarrow> (nat \<Rightarrow> 'a) \<Rightarrow> 'a realloc" where
  "c_realloc avail fill old n =
     (if avail n then Some (take n old @ map fill [length old..<n]) else None)"

text \<open>An allocator that has memory for every request.\<close>

definition never_fails :: "'a realloc \<Rightarrow> bool" where
  "never_fails rf \<longleftrightarrow> (\<forall>old n. rf old n \<noteq> None)"

definition dbuf_default_realloc :: "(nat \<Rightarrow> bool) \<Rightarrow> (nat \<Rightarrow> u8) \<Rightarrow> u8 realloc" where
  "dbuf_default_realloc avail fill ptr n = c_realloc avail fill ptr n"

locale allocator =
  fixes rf :: "'a realloc"
  assumes rf_length: "rf old n = Some new \<Longrightarrow> length new = n"
    and rf_keeps: "rf old n = Some new \<Longrightarrow> take (min n (length old)) new = take (min n (length old)) old"
begin

lemma rf_prefix:
  assumes "rf old n = Some new" and "k \<le> n" and "k \<le> length old"
  shows "take k new = take k old"
proof -
  have "take k (take (min n (length old)) new) = take k (take (min n (length old)) old)"
    using assms(1) by (simp add: rf_keeps)
  then show ?thesis using assms(2,3) by (simp add: min_def split: if_splits)
qed

end

lemma c_realloc_allocator: "allocator (c_realloc avail fill)"
proof
  fix old new :: "'a list" and n
  assume a: "c_realloc avail fill old n = Some new"
  then have new: "new = take n old @ map fill [length old..<n]"
    by (simp add: c_realloc_def split: if_splits)
  show "length new = n" by (simp add: new)
  show "take (min n (length old)) new = take (min n (length old)) old"
    by (auto simp: new min_def)
qed

interpretation libc: allocator "dbuf_default_realloc avail fill" for avail fill
  using c_realloc_allocator by (simp add: dbuf_default_realloc_def [abs_def])

section \<open>State and operations\<close>

record DynBuf =
  db_buf :: "u8 list"
  db_size :: nat
  db_allocated_size :: nat
  db_error :: bool
  db_realloc_func :: "u8 realloc option"

definition zero_dbuf :: DynBuf where
  "zero_dbuf = \<lparr>db_buf = [], db_size = 0, db_allocated_size = 0, db_error = False, db_realloc_func = None\<rparr>"

definition dbuf_init2 :: "u8 realloc \<Rightarrow> u8 realloc option \<Rightarrow> DynBuf" where
  "dbuf_init2 default_rf rf =
     zero_dbuf\<lparr>db_realloc_func := (case rf of None \<Rightarrow> Some default_rf | Some f \<Rightarrow> Some f)\<rparr>"

definition dbuf_init :: "u8 realloc \<Rightarrow> DynBuf" where
  "dbuf_init default_rf = dbuf_init2 default_rf None"

definition dbuf_realloc :: "DynBuf \<Rightarrow> nat \<Rightarrow> (int \<times> DynBuf) ub" where
  "dbuf_realloc s new_size =
     (if new_size > db_allocated_size s then
        if db_error s then Some (-1, s)
        else
          let sz = size_wrap (db_allocated_size s * 3) div 2;
              n = (if sz > new_size then sz else new_size)
          in (case db_realloc_func s of
                None \<Rightarrow> None
              | Some rf \<Rightarrow>
                (case rf (db_buf s) n of
                   None \<Rightarrow> Some (-1, s\<lparr>db_error := True\<rparr>)
                 | Some new_buf \<Rightarrow> Some (0, s\<lparr>db_buf := new_buf, db_allocated_size := n\<rparr>)))
      else Some (0, s))"

definition dbuf_write :: "DynBuf \<Rightarrow> nat \<Rightarrow> u8 list \<Rightarrow> (int \<times> DynBuf) ub" where
  "dbuf_write s offset data =
     (let end1 = size_wrap (offset + length data)
      in case dbuf_realloc s end1 of
           None \<Rightarrow> None
         | Some (r, s1) \<Rightarrow>
           if r \<noteq> 0 then Some (-1, s1)
           else (case arr_write (db_buf s1) offset data of
               None \<Rightarrow> None
             | Some b \<Rightarrow> Some (0, s1\<lparr>db_buf := b, db_size := (if end1 > db_size s1 then end1 else db_size s1)\<rparr>)))"

text \<open>The tail of \<open>dbuf_put\<close>: \<open>memcpy_no_ub\<close> and the new size.\<close>

definition dbuf_append :: "DynBuf \<Rightarrow> u8 list \<Rightarrow> (int \<times> DynBuf) ub" where
  "dbuf_append s data =
     (if data = [] then Some (0, s)
      else case arr_write (db_buf s) (db_size s) data of
        None \<Rightarrow> None
      | Some b \<Rightarrow> Some (0, s\<lparr>db_buf := b, db_size := size_wrap (db_size s + length data)\<rparr>))"

definition dbuf_put :: "DynBuf \<Rightarrow> u8 list \<Rightarrow> (int \<times> DynBuf) ub" where
  "dbuf_put s data =
     (if size_wrap (db_size s + length data) > db_allocated_size s then
        (case dbuf_realloc s (size_wrap (db_size s + length data)) of
           None \<Rightarrow> None
         | Some (r, s1) \<Rightarrow> if r \<noteq> 0 then Some (-1, s1) else dbuf_append s1 data)
      else dbuf_append s data)"

text \<open>\<open>memcpy\<close> inside one block: overlapping regions are undefined behaviour.\<close>

definition dbuf_copy_self :: "DynBuf \<Rightarrow> nat \<Rightarrow> nat \<Rightarrow> (int \<times> DynBuf) ub" where
  "dbuf_copy_self s offset len =
     (if len \<noteq> 0 \<and> offset < db_size s + len \<and> db_size s < offset + len then None
      else (case arr_slice (db_buf s) offset len of
          None \<Rightarrow> None
        | Some data \<Rightarrow>
          (case arr_write (db_buf s) (db_size s) data of
             None \<Rightarrow> None
           | Some b \<Rightarrow> Some (0, s\<lparr>db_buf := b, db_size := size_wrap (db_size s + len)\<rparr>))))"

definition dbuf_put_self :: "DynBuf \<Rightarrow> nat \<Rightarrow> nat \<Rightarrow> (int \<times> DynBuf) ub" where
  "dbuf_put_self s offset len =
     (if size_wrap (db_size s + len) > db_allocated_size s then
        (case dbuf_realloc s (size_wrap (db_size s + len)) of
           None \<Rightarrow> None
         | Some (r, s1) \<Rightarrow> if r \<noteq> 0 then Some (-1, s1) else dbuf_copy_self s1 offset len)
      else dbuf_copy_self s offset len)"

definition dbuf_putc :: "DynBuf \<Rightarrow> u8 \<Rightarrow> (int \<times> DynBuf) ub" where
  "dbuf_putc s c = dbuf_put s [c]"

definition dbuf_putstr :: "DynBuf \<Rightarrow> u8 list \<Rightarrow> (int \<times> DynBuf) ub" where
  "dbuf_putstr s str =
     (case c_strlen str of None \<Rightarrow> None | Some n \<Rightarrow> dbuf_put s (take n str))"

definition dbuf_put_u16 :: "DynBuf \<Rightarrow> u16 \<Rightarrow> (int \<times> DynBuf) ub" where
  "dbuf_put_u16 s val = dbuf_put s (nat_to_le 2 (unat val))"

definition dbuf_put_u32 :: "DynBuf \<Rightarrow> u32 \<Rightarrow> (int \<times> DynBuf) ub" where
  "dbuf_put_u32 s val = dbuf_put s (nat_to_le 4 (unat val))"

definition dbuf_put_u64 :: "DynBuf \<Rightarrow> u64 \<Rightarrow> (int \<times> DynBuf) ub" where
  "dbuf_put_u64 s val = dbuf_put s (nat_to_le 8 (unat val))"

text \<open>
  \<open>dbuf_printf\<close>: \<open>out\<close> is what \<open>vsnprintf\<close> formats, \<open>None\<close> its error return.  In
  the slow path the terminator is written too but not counted.
\<close>

definition dbuf_printf :: "DynBuf \<Rightarrow> u8 list option \<Rightarrow> (int \<times> DynBuf) ub" where
  "dbuf_printf s out =
     (case out of
        None \<Rightarrow> Some (-1, s)
      | Some txt \<Rightarrow>
        let len = length txt in
        if len < 128 then dbuf_put s txt
        else (case dbuf_realloc s (size_wrap (db_size s + len + 1)) of
            None \<Rightarrow> None
          | Some (r, s1) \<Rightarrow>
            if r \<noteq> 0 then Some (-1, s1)
            else
              let room = db_allocated_size s1 - db_size s1;
                  w = (if room = 0 then [] else take (room - 1) txt @ [0])
              in (case arr_write (db_buf s1) (db_size s1) w of
                    None \<Rightarrow> None
                  | Some b \<Rightarrow> Some (0, s1\<lparr>db_buf := b, db_size := size_wrap (db_size s1 + len)\<rparr>))))"

definition dbuf_free :: "DynBuf \<Rightarrow> DynBuf" where
  "dbuf_free s = zero_dbuf"

definition dbuf_error :: "DynBuf \<Rightarrow> bool" where
  "dbuf_error s = db_error s"

definition dbuf_set_error :: "DynBuf \<Rightarrow> DynBuf" where
  "dbuf_set_error s = s\<lparr>db_error := True\<rparr>"

text \<open>\<open>dbuf_insert\<close> of \<open>src/libregexp.c\<close>: open a gap of \<open>len\<close> bytes at \<open>pos\<close>.\<close>

definition dbuf_insert :: "DynBuf \<Rightarrow> nat \<Rightarrow> nat \<Rightarrow> (int \<times> DynBuf) ub" where
  "dbuf_insert s pos len =
     (case dbuf_realloc s (size_wrap (db_size s + len)) of
        None \<Rightarrow> None
      | Some (r, s1) \<Rightarrow>
        if r \<noteq> 0 then Some (-1, s1)
        else if pos > db_size s1 then None
        else (case arr_slice (db_buf s1) pos (db_size s1 - pos) of
            None \<Rightarrow> None
          | Some moved \<Rightarrow>
            (case arr_write (db_buf s1) (pos + len) moved of
               None \<Rightarrow> None
             | Some b \<Rightarrow> Some (0, s1\<lparr>db_buf := b, db_size := size_wrap (db_size s1 + len)\<rparr>))))"

section \<open>Invariant\<close>

definition dbuf_bytes :: "DynBuf \<Rightarrow> u8 list" where
  "dbuf_bytes s = take (db_size s) (db_buf s)"

definition dbuf_ok :: "DynBuf \<Rightarrow> bool" where
  "dbuf_ok s \<longleftrightarrow> length (db_buf s) = db_allocated_size s \<and> db_size s \<le> db_allocated_size s
     \<and> db_allocated_size s < 2 ^ 64 \<and> (\<exists>rf. db_realloc_func s = Some rf \<and> allocator rf)"

lemma length_dbuf_bytes [simp]: "dbuf_ok s \<Longrightarrow> length (dbuf_bytes s) = db_size s"
  by (auto simp: dbuf_ok_def dbuf_bytes_def)

lemma dbuf_init2_ok:
  "allocator d \<Longrightarrow> (\<And>f. rf = Some f \<Longrightarrow> allocator f) \<Longrightarrow>
   dbuf_ok (dbuf_init2 d rf) \<and> dbuf_bytes (dbuf_init2 d rf) = [] \<and> \<not> db_error (dbuf_init2 d rf)"
  by (auto simp: dbuf_init2_def zero_dbuf_def dbuf_ok_def dbuf_bytes_def split: option.split)

text \<open>Growing keeps the contents; it fails only by setting the error flag.\<close>

lemma dbuf_realloc_ok:
  assumes "dbuf_ok s" and "n < 2 ^ 64"
  obtains r s1 where "dbuf_realloc s n = Some (r, s1)" "dbuf_ok s1" "db_size s1 = db_size s"
    "dbuf_bytes s1 = dbuf_bytes s"
    "r = 0 \<and> n \<le> db_allocated_size s1 \<and> db_error s1 = db_error s \<or> r = -1 \<and> db_error s1"
    "db_allocated_size s \<le> db_allocated_size s1"
proof -
  from assms(1) obtain rf where rf: "db_realloc_func s = Some rf" "allocator rf"
    and len: "length (db_buf s) = db_allocated_size s" "db_size s \<le> db_allocated_size s"
      "db_allocated_size s < 2 ^ 64"
    by (auto simp: dbuf_ok_def)
  let ?sz = "size_wrap (db_allocated_size s * 3) div 2"
  let ?n = "if ?sz > n then ?sz else n"
  have nb: "?n < 2 ^ 64" using assms(2) size_wrap_less [of "db_allocated_size s * 3"] by auto
  consider (small) "n \<le> db_allocated_size s"
    | (err) "db_allocated_size s < n" "db_error s"
    | (oom) "db_allocated_size s < n" "\<not> db_error s" "rf (db_buf s) ?n = None"
    | (grow) nb where "db_allocated_size s < n" "\<not> db_error s" "rf (db_buf s) ?n = Some nb"
    by (meson not_Some_eq not_less)
  then show ?thesis
  proof cases
    case small
    then show ?thesis using assms(1) by (intro that [of 0 s]) (auto simp: dbuf_realloc_def)
  next
    case err
    then show ?thesis using assms(1) by (intro that [of "-1" s]) (auto simp: dbuf_realloc_def)
  next
    case oom
    then show ?thesis
      using assms(1) rf by (intro that [of "-1" "s\<lparr>db_error := True\<rparr>"])
        (auto simp: dbuf_realloc_def dbuf_ok_def dbuf_bytes_def Let_def)
  next
    case (grow nb)
    have l: "length nb = ?n" using allocator.rf_length [OF rf(2) grow(3)] .
    have pre: "take (db_size s) nb = take (db_size s) (db_buf s)"
      using grow(1) len by (intro allocator.rf_prefix [OF rf(2) grow(3)]) auto
    show ?thesis
    proof (rule that [of 0 "s\<lparr>db_buf := nb, db_allocated_size := ?n\<rparr>"])
      show "dbuf_realloc s n = Some (0, s\<lparr>db_buf := nb, db_allocated_size := ?n\<rparr>)"
        using grow rf(1) by (simp add: dbuf_realloc_def Let_def)
      show "dbuf_ok (s\<lparr>db_buf := nb, db_allocated_size := ?n\<rparr>)"
        using l nb rf len grow(1) \<open>?n < 2 ^ 64\<close> by (simp add: dbuf_ok_def)
    qed (use pre grow(1) in \<open>auto simp: dbuf_bytes_def\<close>)
  qed
qed

text \<open>Appending \<open>data\<close> at the fill position of a large enough block.\<close>

lemma dbuf_bytes_append:
  assumes "dbuf_ok s" and "db_size s + length data \<le> db_allocated_size s"
  shows "arr_write (db_buf s) (db_size s) data =
      Some (take (db_size s) (db_buf s) @ data @ drop (db_size s + length data) (db_buf s))"
    and "dbuf_ok (s\<lparr>db_buf := take (db_size s) (db_buf s) @ data @ drop (db_size s + length data) (db_buf s),
           db_size := db_size s + length data\<rparr>)"
    and "dbuf_bytes (s\<lparr>db_buf := take (db_size s) (db_buf s) @ data @ drop (db_size s + length data) (db_buf s),
           db_size := db_size s + length data\<rparr>) = dbuf_bytes s @ data"
  using assms by (auto simp: dbuf_ok_def dbuf_bytes_def arr_simps)

lemma dbuf_append_ok:
  assumes "dbuf_ok s" and "db_size s + length data \<le> db_allocated_size s"
  obtains s1 where "dbuf_append s data = Some (0, s1)" "dbuf_ok s1"
    "dbuf_bytes s1 = dbuf_bytes s @ data" "db_error s1 = db_error s"
proof (cases "data = []")
  case True
  then show ?thesis using assms(1) by (intro that [of s]) (simp_all add: dbuf_append_def)
next
  case False
  have w: "size_wrap (db_size s + length data) = db_size s + length data"
    using assms by (auto simp: dbuf_ok_def)
  show ?thesis
    using False w dbuf_bytes_append [OF assms]
    by (intro that [of "s\<lparr>db_buf := take (db_size s) (db_buf s) @ data @ drop (db_size s + length data) (db_buf s),
           db_size := db_size s + length data\<rparr>"]) (simp_all add: dbuf_append_def)
qed

lemma dbuf_put_ok:
  assumes "dbuf_ok s" and "length (dbuf_bytes s) + length data < 2 ^ 64"
  shows "\<exists>r s1. dbuf_put s data = Some (r, s1) \<and> dbuf_ok s1 \<and>
     (r = 0 \<and> dbuf_bytes s1 = dbuf_bytes s @ data \<and> db_error s1 = db_error s \<or>
      r = -1 \<and> dbuf_bytes s1 = dbuf_bytes s \<and> db_error s1)"
proof -
  have w: "size_wrap (db_size s + length data) = db_size s + length data"
    using assms by simp
  show ?thesis
  proof (cases "db_size s + length data > db_allocated_size s")
    case True
    have n: "db_size s + length data < 2 ^ 64" using assms by simp
    obtain r s1 where r: "dbuf_realloc s (db_size s + length data) = Some (r, s1)" "dbuf_ok s1"
      "db_size s1 = db_size s" "dbuf_bytes s1 = dbuf_bytes s"
      "r = 0 \<and> db_size s + length data \<le> db_allocated_size s1 \<and> db_error s1 = db_error s \<or> r = -1 \<and> db_error s1"
      by (rule dbuf_realloc_ok [OF assms(1) n])
    from r(5) show ?thesis
    proof
      assume z: "r = 0 \<and> db_size s + length data \<le> db_allocated_size s1 \<and> db_error s1 = db_error s"
      then have "db_size s1 + length data \<le> db_allocated_size s1" using r(3) by simp
      from dbuf_append_ok [OF r(2) this] obtain s2 where "dbuf_append s1 data = Some (0, s2)"
        "dbuf_ok s2" "dbuf_bytes s2 = dbuf_bytes s1 @ data" "db_error s2 = db_error s1" .
      with True z r w show ?thesis by (simp add: dbuf_put_def)
    next
      assume "r = -1 \<and> db_error s1"
      with True r w show ?thesis by (simp add: dbuf_put_def)
    qed
  next
    case False
    then have "db_size s + length data \<le> db_allocated_size s" by simp
    from dbuf_append_ok [OF assms(1) this] obtain s2 where "dbuf_append s data = Some (0, s2)"
      "dbuf_ok s2" "dbuf_bytes s2 = dbuf_bytes s @ data" "db_error s2 = db_error s" .
    with False w show ?thesis by (simp add: dbuf_put_def)
  qed
qed

section \<open>The contract of an append-only buffer\<close>

text \<open>A client that appends a list of chunks and ignores every return value.\<close>

fun put_all :: "('s \<Rightarrow> u8 list \<Rightarrow> (int \<times> 's) ub) \<Rightarrow> 's \<Rightarrow> u8 list list \<Rightarrow> 's ub" where
  "put_all put s [] = Some s"
| "put_all put s (d # ds) =
     (case put s d of None \<Rightarrow> None | Some (r, s') \<Rightarrow> put_all put s' ds)"

locale byte_sink =
  fixes put :: "'s \<Rightarrow> u8 list \<Rightarrow> (int \<times> 's) ub"
    and content :: "'s \<Rightarrow> u8 list"
    and failed :: "'s \<Rightarrow> bool"
    and inv :: "'s \<Rightarrow> bool"
  assumes put_law: "inv s \<Longrightarrow> length (content s) + length d < 2 ^ 64 \<Longrightarrow>
     \<exists>r s'. put s d = Some (r, s') \<and> inv s' \<and>
       (r = 0 \<and> content s' = content s @ d \<and> failed s' = failed s \<or>
        r = -1 \<and> content s' = content s \<and> failed s')"
begin

lemma put_all_failed:
  "inv s \<Longrightarrow> failed s \<Longrightarrow> length (content s) + length (concat ds) < 2 ^ 64 \<Longrightarrow>
   \<exists>s'. put_all put s ds = Some s' \<and> inv s' \<and> failed s'"
proof (induction ds arbitrary: s)
  case (Cons d ds)
  from Cons.prems put_law [of s d] obtain r s1 where p: "put s d = Some (r, s1)" "inv s1" "failed s1"
    and l: "length (content s1) \<le> length (content s) + length d" by auto
  from p(2,3) l Cons.prems(3) have "\<exists>s'. put_all put s1 ds = Some s' \<and> inv s' \<and> failed s'"
    by (intro Cons.IH) simp_all
  with p(1) show ?case by simp
qed simp

lemma put_all_complete:
  "inv s \<Longrightarrow> length (content s) + length (concat ds) < 2 ^ 64 \<Longrightarrow>
   \<exists>s'. put_all put s ds = Some s' \<and> inv s' \<and>
     (failed s' \<or> content s' = content s @ concat ds)"
proof (induction ds arbitrary: s)
  case (Cons d ds)
  from Cons.prems put_law [of s d] obtain r s1 where p: "put s d = Some (r, s1)" "inv s1"
    and c: "content s1 = content s @ d \<or> content s1 = content s \<and> failed s1" by auto
  from c show ?case
  proof
    assume ok: "content s1 = content s @ d"
    with Cons.IH [of s1] Cons.prems p show ?thesis by simp
  next
    assume bad: "content s1 = content s \<and> failed s1"
    with put_all_failed [of s1 ds] Cons.prems p show ?thesis by auto
  qed
qed simp

end

interpretation dbuf: byte_sink dbuf_put dbuf_bytes dbuf_error dbuf_ok
  by unfold_locales (simp add: dbuf_error_def dbuf_put_ok)

section \<open>Inserting and copying inside the buffer\<close>

lemma dbuf_insert_ok:
  assumes "dbuf_ok s" and "db_size s + len < 2 ^ 64" and "pos \<le> db_size s"
  shows "\<exists>r s1. dbuf_insert s pos len = Some (r, s1) \<and> dbuf_ok s1 \<and>
     (r = 0 \<and> db_error s1 = db_error s \<and>
        (\<exists>gap. length gap = len \<and> dbuf_bytes s1 = take pos (dbuf_bytes s) @ gap @ drop pos (dbuf_bytes s)) \<or>
      r = -1 \<and> dbuf_bytes s1 = dbuf_bytes s \<and> db_error s1)"
proof -
  have w: "size_wrap (db_size s + len) = db_size s + len" using assms(2) by simp
  obtain r s1 where r: "dbuf_realloc s (db_size s + len) = Some (r, s1)" "dbuf_ok s1"
      "db_size s1 = db_size s" "dbuf_bytes s1 = dbuf_bytes s"
      "r = 0 \<and> db_size s + len \<le> db_allocated_size s1 \<and> db_error s1 = db_error s \<or> r = -1 \<and> db_error s1"
    by (rule dbuf_realloc_ok [OF assms(1,2)])
  from r(5) show ?thesis
  proof
    assume z: "r = 0 \<and> db_size s + len \<le> db_allocated_size s1 \<and> db_error s1 = db_error s"
    let ?b = "db_buf s1" and ?n = "db_size s"
    have len: "length ?b = db_allocated_size s1" "?n + len \<le> length ?b" "db_allocated_size s1 < 2 ^ 64"
      "\<exists>rf. db_realloc_func s1 = Some rf \<and> allocator rf"
      using r(2) z by (auto simp: dbuf_ok_def)
    let ?m = "take (?n - pos) (drop pos ?b)"
    let ?b' = "take (pos + len) ?b @ ?m @ drop (pos + len + (?n - pos)) ?b"
    let ?s' = "s1\<lparr>db_buf := ?b', db_size := ?n + len\<rparr>"
    have lm: "length ?m = ?n - pos" using len by simp
    have ins: "dbuf_insert s pos len = Some (0, ?s')"
      using r(1,3) z w len assms(3) lm by (simp add: dbuf_insert_def arr_slice_eq arr_write_eq)
    have ok: "dbuf_ok ?s'" using len assms(3) lm by (auto simp: dbuf_ok_def)
    have m: "?m = drop pos (dbuf_bytes s1)" using r(3) by (simp add: dbuf_bytes_def drop_take)
    have p: "take pos ?b = take pos (dbuf_bytes s1)" using assms(3) r(3) by (simp add: dbuf_bytes_def)
    have "dbuf_bytes ?s' = take (pos + len) ?b @ ?m"
      using len assms(3) by (simp add: dbuf_bytes_def)
    moreover have "take (pos + len) ?b = take pos ?b @ take len (drop pos ?b)" by (simp add: take_add)
    ultimately have "dbuf_bytes ?s' = take pos (dbuf_bytes s) @ take len (drop pos ?b) @ drop pos (dbuf_bytes s)"
      using m p r(4) by (simp only: append_assoc)
    moreover have "length (take len (drop pos ?b)) = len" using len assms(3) by simp
    ultimately show ?thesis using ins ok z by auto
  next
    assume "r = -1 \<and> db_error s1"
    with r w show ?thesis by (simp add: dbuf_insert_def)
  qed
qed

lemma dbuf_copy_self_ok:
  assumes "dbuf_ok s" and "db_size s + len \<le> db_allocated_size s" and "offset + len \<le> db_size s"
  obtains s1 where "dbuf_copy_self s offset len = Some (0, s1)" "dbuf_ok s1"
    "dbuf_bytes s1 = dbuf_bytes s @ take len (drop offset (dbuf_bytes s))" "db_error s1 = db_error s"
proof -
  let ?d = "take len (drop offset (db_buf s))"
  have l: "length (db_buf s) = db_allocated_size s" "db_allocated_size s < 2 ^ 64"
    using assms(1) by (auto simp: dbuf_ok_def)
  have "len \<le> length (db_buf s) - offset" using assms l by simp
  then have d: "length ?d = len" "?d = take len (drop offset (dbuf_bytes s))"
    using assms(3) by (simp_all add: dbuf_bytes_def drop_take min_def)
  have "db_size s + length ?d \<le> db_allocated_size s" using assms(2) d(1) by simp
  note app = dbuf_bytes_append [OF assms(1) this]
  have w: "size_wrap (db_size s + len) = db_size s + len" using assms l by simp
  show ?thesis
    using app d w assms l
    by (intro that [of "s\<lparr>db_buf := take (db_size s) (db_buf s) @ ?d @ drop (db_size s + length ?d) (db_buf s),
           db_size := db_size s + length ?d\<rparr>"]) (simp_all add: dbuf_copy_self_def arr_slice_eq)
qed

lemma dbuf_put_self_ok:
  assumes "dbuf_ok s" and "db_size s + len < 2 ^ 64" and "offset + len \<le> db_size s"
  shows "\<exists>r s1. dbuf_put_self s offset len = Some (r, s1) \<and> dbuf_ok s1 \<and>
     (r = 0 \<and> dbuf_bytes s1 = dbuf_bytes s @ take len (drop offset (dbuf_bytes s)) \<and> db_error s1 = db_error s \<or>
      r = -1 \<and> dbuf_bytes s1 = dbuf_bytes s \<and> db_error s1)"
proof (cases "db_size s + len > db_allocated_size s")
  case True
  obtain r s1 where r: "dbuf_realloc s (db_size s + len) = Some (r, s1)" "dbuf_ok s1"
      "db_size s1 = db_size s" "dbuf_bytes s1 = dbuf_bytes s"
      "r = 0 \<and> db_size s + len \<le> db_allocated_size s1 \<and> db_error s1 = db_error s \<or> r = -1 \<and> db_error s1"
    by (rule dbuf_realloc_ok [OF assms(1,2)])
  from r(5) show ?thesis
  proof
    assume z: "r = 0 \<and> db_size s + len \<le> db_allocated_size s1 \<and> db_error s1 = db_error s"
    obtain s2 where "dbuf_copy_self s1 offset len = Some (0, s2)" "dbuf_ok s2"
      "dbuf_bytes s2 = dbuf_bytes s1 @ take len (drop offset (dbuf_bytes s1))" "db_error s2 = db_error s1"
      using dbuf_copy_self_ok [OF r(2), of len offset] r(3) z assms(3) by auto
    with True z r assms(2) show ?thesis by (simp add: dbuf_put_self_def)
  next
    assume "r = -1 \<and> db_error s1"
    with True r assms(2) show ?thesis by (simp add: dbuf_put_self_def)
  qed
next
  case False
  obtain s2 where "dbuf_copy_self s offset len = Some (0, s2)" "dbuf_ok s2"
      "dbuf_bytes s2 = dbuf_bytes s @ take len (drop offset (dbuf_bytes s))" "db_error s2 = db_error s"
    using dbuf_copy_self_ok [OF assms(1), of len offset] False assms(3) by auto
  with False assms(2) show ?thesis by (simp add: dbuf_put_self_def)
qed

text \<open>The error flag is set only by a failure of the allocator.\<close>

lemma dbuf_put_blames:
  "dbuf_put s d = Some (r, s1) \<Longrightarrow>
   db_realloc_func s1 = db_realloc_func s \<and> (dbuf_error s1 \<longrightarrow> dbuf_error s \<or> (\<exists>rf. db_realloc_func s = Some rf \<and> \<not> never_fails rf))"
  by (auto simp: dbuf_put_def dbuf_append_def dbuf_realloc_def dbuf_error_def never_fails_def Let_def split: option.splits if_splits)

lemma put_all_blames:
  "put_all dbuf_put s ds = Some s' \<Longrightarrow> dbuf_error s' \<Longrightarrow> dbuf_error s \<or> (\<exists>rf. db_realloc_func s = Some rf \<and> \<not> never_fails rf)"
proof (induction ds arbitrary: s)
  case (Cons d ds)
  from Cons.prems(1) obtain r s1 where s1: "dbuf_put s d = Some (r, s1)" "put_all dbuf_put s1 ds = Some s'"
    by (auto split: option.splits)
  from Cons.IH [OF s1(2) Cons.prems(2)] dbuf_put_blames [OF s1(1)] show ?case by auto
qed simp

text \<open>
  C9: a client that appends chunk after chunk with \<open>dbuf_put\<close> and looks at
  \<open>dbuf_error\<close> only at the end is safe: no access leaves the block, the invariant
  is kept, and an unset flag means that every byte of every chunk is in the buffer,
  in order.  The flag is set only if it was set before or the allocator can fail.
\<close>

theorem dbuf_put_all_complete:
  assumes "dbuf_ok s" and "length (dbuf_bytes s) + length (concat ds) < 2 ^ 64"
  shows "\<exists>s'. put_all dbuf_put s ds = Some s' \<and> dbuf_ok s' \<and>
     (dbuf_error s' \<and> (dbuf_error s \<or> (\<exists>rf old n. db_realloc_func s = Some rf \<and> rf old n = None)) \<or>
      dbuf_bytes s' = dbuf_bytes s @ concat ds)"
  using dbuf.put_all_complete [OF assms] put_all_blames [of s ds] by (fastforce simp: never_fails_def)

lemma dbuf_init_ok: "dbuf_ok (dbuf_init (dbuf_default_realloc avail fill))"
  using dbuf_init2_ok [of "dbuf_default_realloc avail fill" None] libc.allocator_axioms
  by (simp add: dbuf_init_def)

theorem dbuf_put_all_complete_witness:
  "\<exists>s'. put_all dbuf_put (dbuf_init (dbuf_default_realloc (\<lambda>_. True) (\<lambda>_. 0))) [[1, 2], [3]] = Some s'
     \<and> dbuf_ok s' \<and> dbuf_bytes s' = [1, 2, 3]"
proof -
  let ?s = "dbuf_init (dbuf_default_realloc (\<lambda>_. True) (\<lambda>_. 0))"
  have "length (dbuf_bytes ?s) + length (concat [[1, 2], [3 :: u8]]) < 2 ^ 64"
    by (simp add: dbuf_init_def dbuf_init2_def zero_dbuf_def dbuf_bytes_def)
  from dbuf_put_all_complete [OF dbuf_init_ok this] show ?thesis
    by (auto simp: dbuf_init_def dbuf_init2_def zero_dbuf_def dbuf_bytes_def dbuf_error_def dbuf_default_realloc_def c_realloc_def)
qed

end
