(* ===== verification/List_Head.thy ===== *)
theory List_Head
  imports QJS_Prelude
begin

text \<open>
  The intrusive circular lists of \<open>src/list.h\<close>.  The elements live in memory and
  are updated in place, and an empty list aliases its own head, so the model has
  an explicit store from addresses to \<open>struct list_head\<close> values.  \<open>NULL\<close> is
  \<open>None\<close>; following it or an address outside of the store is undefined behaviour.

  \<open>dll h head xs\<close> says that \<open>head\<close> heads a well-formed circular list with the
  elements \<open>xs\<close>.  The operations are shown to act on \<open>xs\<close> as cons, append and
  removal, and the traversal macros to visit exactly \<open>xs\<close>.
\<close>

type_synonym addr = nat

record list_head =
  lh_prev :: "addr option"
  lh_next :: "addr option"

type_synonym store = "addr \<Rightarrow> list_head option"

section \<open>Operations\<close>

definition set_next :: "store \<Rightarrow> addr option \<Rightarrow> addr option \<Rightarrow> store ub" where
  "set_next h p v = (case p of None \<Rightarrow> None | Some a \<Rightarrow>
     (case h a of None \<Rightarrow> None | Some n \<Rightarrow> Some (h(a \<mapsto> n\<lparr>lh_next := v\<rparr>))))"

definition set_prev :: "store \<Rightarrow> addr option \<Rightarrow> addr option \<Rightarrow> store ub" where
  "set_prev h p v = (case p of None \<Rightarrow> None | Some a \<Rightarrow>
     (case h a of None \<Rightarrow> None | Some n \<Rightarrow> Some (h(a \<mapsto> n\<lparr>lh_prev := v\<rparr>))))"

definition init_list_head :: "store \<Rightarrow> addr \<Rightarrow> store ub" where
  "init_list_head h head =
     Option.bind (set_prev h (Some head) (Some head)) (\<lambda>h. set_next h (Some head) (Some head))"

text \<open>\<open>__list_add\<close>: insert \<open>el\<close> between \<open>prev\<close> and \<open>next\<close>.\<close>

definition list_add_between :: "store \<Rightarrow> addr \<Rightarrow> addr option \<Rightarrow> addr option \<Rightarrow> store ub" where
  "list_add_between h el prev next =
     Option.bind (set_next h prev (Some el)) (\<lambda>h.
     Option.bind (set_prev h (Some el) prev) (\<lambda>h.
     Option.bind (set_next h (Some el) next) (\<lambda>h.
     set_prev h next (Some el))))"

definition list_add :: "store \<Rightarrow> addr \<Rightarrow> addr \<Rightarrow> store ub" where
  "list_add h el head =
     Option.bind (h head) (\<lambda>n. list_add_between h el (Some head) (lh_next n))"

definition list_add_tail :: "store \<Rightarrow> addr \<Rightarrow> addr \<Rightarrow> store ub" where
  "list_add_tail h el head =
     Option.bind (h head) (\<lambda>n. list_add_between h el (lh_prev n) (Some head))"

definition list_del :: "store \<Rightarrow> addr \<Rightarrow> store ub" where
  "list_del h el =
     Option.bind (h el) (\<lambda>n.
     let prev = lh_prev n; next = lh_next n in
     Option.bind (set_next h prev next) (\<lambda>h.
     Option.bind (set_prev h next prev) (\<lambda>h.
     Option.bind (set_prev h (Some el) None) (\<lambda>h.
     set_next h (Some el) None))))"

definition list_empty :: "store \<Rightarrow> addr \<Rightarrow> bool ub" where
  "list_empty h el = map_option (\<lambda>n. lh_next n = Some el) (h el)"

text \<open>
  \<open>list_for_each\<close> and \<open>list_for_each_prev\<close>: the addresses visited from \<open>el\<close> until
  \<open>head\<close> is reached.  \<open>None\<close> is undefined behaviour or an endless loop.
\<close>

partial_function (option) visit :: "(list_head \<Rightarrow> addr option) \<Rightarrow> store \<Rightarrow> addr \<Rightarrow> addr option \<Rightarrow> addr list option" where
  "visit step h head p =
     Option.bind p (\<lambda>el.
       if el = head then Some []
       else Option.bind (h el) (\<lambda>n.
         Option.bind (visit step h head (step n)) (\<lambda>els. Some (el # els))))"

definition list_for_each :: "store \<Rightarrow> addr \<Rightarrow> addr list option" where
  "list_for_each h head = Option.bind (h head) (\<lambda>n. visit lh_next h head (lh_next n))"

definition list_for_each_prev :: "store \<Rightarrow> addr \<Rightarrow> addr list option" where
  "list_for_each_prev h head = Option.bind (h head) (\<lambda>n. visit lh_prev h head (lh_prev n))"

section \<open>Well-formed lists\<close>

definition link :: "store \<Rightarrow> addr \<Rightarrow> addr \<Rightarrow> bool" where
  "link h p q \<longleftrightarrow> map_option lh_next (h p) = Some (Some q) \<and> map_option lh_prev (h q) = Some (Some p)"

fun links :: "store \<Rightarrow> addr \<Rightarrow> addr list \<Rightarrow> addr \<Rightarrow> bool" where
  "links h p [] q = link h p q"
| "links h p (x # xs) q = (link h p x \<and> links h x xs q)"

definition dll :: "store \<Rightarrow> addr \<Rightarrow> addr list \<Rightarrow> bool" where
  "dll h head xs \<longleftrightarrow> links h head xs head \<and> distinct (head # xs)"

lemma links_append: "links h p (xs @ y # ys) q \<longleftrightarrow> links h p xs y \<and> links h y ys q"
  by (induction xs arbitrary: p) auto

lemma links_snoc: "links h p (xs @ [y]) q \<longleftrightarrow> links h p xs y \<and> link h y q"
  by (simp add: links_append)

text \<open>Every inner node of a chain is allocated.\<close>

lemma link_alloc: "link h p q \<Longrightarrow> h p \<noteq> None \<and> h q \<noteq> None"
  by (auto simp: link_def)

text \<open>Two stores that agree on the links out of \<open>p # xs\<close> and into \<open>xs @ [q]\<close>.\<close>

lemma links_frame:
  assumes "links h p xs q"
    and "\<And>a. a \<in> insert p (set xs) \<Longrightarrow> map_option lh_next (h' a) = map_option lh_next (h a)"
    and "\<And>a. a \<in> insert q (set xs) \<Longrightarrow> map_option lh_prev (h' a) = map_option lh_prev (h a)"
  shows "links h' p xs q"
  using assms by (induction xs arbitrary: p) (auto simp: link_def)

text \<open>Only the \<open>next\<close> field of \<open>p\<close>, the \<open>prev\<close> field of \<open>q\<close> and the node \<open>el\<close> differ.\<close>

definition link_frame :: "store \<Rightarrow> store \<Rightarrow> addr \<Rightarrow> addr \<Rightarrow> addr \<Rightarrow> bool" where
  "link_frame h h' p q el \<longleftrightarrow> dom h' = dom h \<and>
     (\<forall>a. a \<noteq> p \<and> a \<noteq> el \<longrightarrow> map_option lh_next (h' a) = map_option lh_next (h a)) \<and>
     (\<forall>a. a \<noteq> q \<and> a \<noteq> el \<longrightarrow> map_option lh_prev (h' a) = map_option lh_prev (h a))"

lemma links_link_frame:
  assumes "links h a xs b" and "link_frame h h' p q el"
    and "p \<notin> insert a (set xs)" and "q \<notin> insert b (set xs)"
    and "el \<notin> insert a (insert b (set xs))"
  shows "links h' a xs b"
  using assms(1) by (rule links_frame) (use assms(2-) in \<open>auto simp: link_frame_def\<close>)

text \<open>The effect of inserting between two linked nodes, also when they coincide.\<close>

lemma list_add_between_effect:
  assumes "link h p q" and "h el \<noteq> None" and "el \<noteq> p" and "el \<noteq> q"
  obtains h' where "list_add_between h el (Some p) (Some q) = Some h'"
    "link h' p el" "link h' el q" "link_frame h h' p q el"
proof -
  from assms obtain np nq ne where n: "h p = Some np" "h q = Some nq" "h el = Some ne"
    by (auto simp: link_def)
  let ?h = "(h(p \<mapsto> np\<lparr>lh_next := Some el\<rparr>, el \<mapsto> \<lparr>lh_prev = Some p, lh_next = Some q\<rparr>))"
  have "list_add_between h el (Some p) (Some q) = set_prev ?h (Some q) (Some el)"
    using n assms by (cases ne) (simp add: list_add_between_def set_next_def set_prev_def)
  moreover obtain nq' where nq': "?h q = Some nq'" using n assms by (cases "p = q") auto
  moreover have "link (?h(q \<mapsto> nq'\<lparr>lh_prev := Some el\<rparr>)) p el" "link (?h(q \<mapsto> nq'\<lparr>lh_prev := Some el\<rparr>)) el q"
    "link_frame h (?h(q \<mapsto> nq'\<lparr>lh_prev := Some el\<rparr>)) p q el"
    using n nq' assms by (auto simp: link_def link_frame_def split: if_splits)
  ultimately show ?thesis using that by (simp add: set_prev_def)
qed

text \<open>The effect of unlinking a node between \<open>p\<close> and \<open>q\<close>, also when they coincide.\<close>

lemma list_del_effect:
  assumes "link h p el" and "link h el q" and "el \<noteq> p" and "el \<noteq> q"
  obtains h' where "list_del h el = Some h'" "link h' p q" "link_frame h h' p q el"
    "h' el = Some \<lparr>lh_prev = None, lh_next = None\<rparr>"
proof -
  from assms obtain np nq ne where n: "h p = Some np" "h q = Some nq" "h el = Some ne"
    and e: "lh_prev ne = Some p" "lh_next ne = Some q"
    by (auto simp: link_def)
  let ?h = "h(p \<mapsto> np\<lparr>lh_next := Some q\<rparr>)"
  obtain nq' where nq': "?h q = Some nq'" using n by (cases "p = q") auto
  let ?h' = "?h(q \<mapsto> nq'\<lparr>lh_prev := Some p\<rparr>, el \<mapsto> \<lparr>lh_prev = None, lh_next = None\<rparr>)"
  have "list_del h el = Some ?h'"
    using n e nq' assms by (cases ne) (simp add: list_del_def set_next_def set_prev_def Let_def)
  moreover have "link ?h' p q" "link_frame h ?h' p q el"
    using n nq' assms by (auto simp: link_def link_frame_def split: if_splits)
  ultimately show ?thesis using that by simp
qed

section \<open>Functional behaviour\<close>

lemma dll_head_alloc: "dll h head xs \<Longrightarrow> h head \<noteq> None"
  by (cases xs) (auto simp: dll_def link_def)

lemma dll_first: "dll h head xs \<Longrightarrow> map_option lh_next (h head) = Some (Some (hd (xs @ [head])))"
  by (cases xs) (auto simp: dll_def link_def)

lemma dll_last: "dll h head xs \<Longrightarrow> map_option lh_prev (h head) = Some (Some (last (head # xs)))"
  by (cases xs rule: rev_cases) (auto simp: dll_def link_def links_snoc)

lemma init_list_head_dll:
  "h head \<noteq> None \<Longrightarrow> \<exists>h'. init_list_head h head = Some h' \<and> dll h' head [] \<and> dom h' = dom h"
  by (auto simp: init_list_head_def set_prev_def set_next_def dll_def link_def)

lemma list_add_dll:
  assumes "dll h head xs" and "h el \<noteq> None" and "el \<notin> set (head # xs)"
  shows "\<exists>h'. list_add h el head = Some h' \<and> dll h' head (el # xs) \<and> dom h' = dom h"
proof -
  let ?q = "hd (xs @ [head])"
  have l: "link h head ?q" using assms(1) by (cases xs) (auto simp: dll_def)
  have nq: "el \<noteq> head" "el \<noteq> ?q" using assms(3) by (cases xs; auto)+
  obtain h' where h': "list_add_between h el (Some head) (Some ?q) = Some h'"
    "link h' head el" "link h' el ?q" "link_frame h h' head ?q el"
    by (rule list_add_between_effect [OF l assms(2) nq])
  have "links h' el xs head"
  proof (cases xs)
    case Nil
    with h'(3) show ?thesis by simp
  next
    case (Cons x ys)
    have "links h' x ys head"
      using assms Cons by (intro links_link_frame [OF _ h'(4)]) (auto simp: dll_def)
    with h'(3) Cons show ?thesis by simp
  qed
  moreover have "list_add h el head = Some h'"
    using dll_first [OF assms(1)] h'(1) by (auto simp: list_add_def)
  ultimately show ?thesis using h'(2,4) assms by (auto simp: dll_def link_frame_def)
qed

lemma list_add_tail_dll:
  assumes "dll h head xs" and "h el \<noteq> None" and "el \<notin> set (head # xs)"
  shows "\<exists>h'. list_add_tail h el head = Some h' \<and> dll h' head (xs @ [el]) \<and> dom h' = dom h"
proof -
  let ?p = "last (head # xs)"
  have l: "link h ?p head"
    using assms(1) by (cases xs rule: rev_cases) (auto simp: dll_def links_snoc)
  have np: "el \<noteq> ?p" "el \<noteq> head" using assms(3) last_in_set [of "head # xs"] by auto
  obtain h' where h': "list_add_between h el (Some ?p) (Some head) = Some h'"
    "link h' ?p el" "link h' el head" "link_frame h h' ?p head el"
    by (rule list_add_between_effect [OF l assms(2) np])
  have "links h' head xs el"
  proof (cases xs rule: rev_cases)
    case Nil
    with h'(2) show ?thesis by simp
  next
    case (snoc ys y)
    have "links h' head ys y"
      using assms snoc by (intro links_link_frame [OF _ h'(4)]) (auto simp: dll_def links_snoc)
    with h'(2) snoc show ?thesis by (simp add: links_snoc)
  qed
  moreover have "list_add_tail h el head = Some h'"
    using dll_last [OF assms(1)] h'(1) by (auto simp: list_add_tail_def)
  ultimately show ?thesis using h'(3,4) assms by (auto simp: dll_def links_snoc link_frame_def)
qed

lemma list_del_dll:
  assumes "dll h head (as @ el # bs)"
  shows "\<exists>h'. list_del h el = Some h' \<and> dll h' head (as @ bs) \<and> dom h' = dom h"
proof -
  let ?p = "last (head # as)" and ?q = "hd (bs @ [head])"
  have d: "links h head as el" "links h el bs head" "distinct (head # as @ el # bs)"
    using assms by (auto simp: dll_def links_append)
  have lp: "link h ?p el" using d(1) by (cases as rule: rev_cases) (auto simp: links_snoc)
  have lq: "link h el ?q" using d(2) by (cases bs) auto
  have ne: "el \<noteq> ?p" "el \<noteq> ?q" using d(3) last_in_set [of "head # as"] by (auto simp: hd_append)
  obtain h' where h': "list_del h el = Some h'" "link h' ?p ?q" "link_frame h h' ?p ?q el"
    by (rule list_del_effect [OF lp lq ne])
  have pre: "links h' head ys y" if "as = ys @ [y]" for ys y
    using d that by (intro links_link_frame [OF _ h'(3)]) (auto simp: links_snoc hd_append)
  have post: "links h' z zs head" if "bs = z # zs" for z zs
    using d that last_in_set [of as] by (intro links_link_frame [OF _ h'(3)]) (auto simp: disjoint_iff)
  have "links h' head (as @ bs) head"
    using h'(2) pre post
    by (cases as rule: rev_cases; cases bs) (auto simp: links_append links_snoc)
  with h'(1,3) d(3) show ?thesis by (auto simp: dll_def link_frame_def)
qed

lemma list_empty_dll: "dll h head xs \<Longrightarrow> list_empty h head = Some (xs = [])"
  using dll_first [of h head xs] by (cases xs) (auto simp: list_empty_def dll_def)

text \<open>Traversals terminate and visit the elements in order.\<close>

lemma visit_next:
  "links h p xs head \<Longrightarrow> head \<notin> set xs \<Longrightarrow> h p = Some n \<Longrightarrow>
   visit lh_next h head (lh_next n) = Some xs"
proof (induction xs arbitrary: p n)
  case Nil
  then show ?case by (auto simp: link_def visit.simps)
next
  case (Cons x xs)
  then obtain m where "h x = Some m" "lh_next n = Some x" by (auto simp: link_def)
  with Cons show ?case by (subst visit.simps) auto
qed

lemma visit_prev:
  "links h head xs p \<Longrightarrow> head \<notin> set xs \<Longrightarrow> h p = Some n \<Longrightarrow>
   visit lh_prev h head (lh_prev n) = Some (rev xs)"
proof (induction xs arbitrary: p n rule: rev_induct)
  case Nil
  then show ?case by (auto simp: link_def visit.simps)
next
  case (snoc x xs)
  then obtain m where "h x = Some m" "lh_prev n = Some x" by (auto simp: link_def links_snoc)
  with snoc show ?case by (subst visit.simps) (auto simp: links_snoc)
qed

lemma list_for_each_dll: "dll h head xs \<Longrightarrow> list_for_each h head = Some xs"
  using dll_head_alloc [of h head xs] visit_next [of h head xs head]
  by (auto simp: list_for_each_def dll_def)

lemma list_for_each_prev_dll: "dll h head xs \<Longrightarrow> list_for_each_prev h head = Some (rev xs)"
  using dll_head_alloc [of h head xs] visit_prev [of h head xs head]
  by (auto simp: list_for_each_prev_def dll_def)

section \<open>The contract of a queue of nodes\<close>

text \<open>
  What the runtime relies on for its job, timer and module queues: elements are
  appended at the tail, removed anywhere, and traversed in order.
\<close>

locale node_queue =
  fixes add_tail :: "'h \<Rightarrow> 'a \<Rightarrow> 'a \<Rightarrow> 'h ub"
    and del :: "'h \<Rightarrow> 'a \<Rightarrow> 'h ub"
    and visit_all :: "'h \<Rightarrow> 'a \<Rightarrow> 'a list option"
    and queue :: "'h \<Rightarrow> 'a \<Rightarrow> 'a list \<Rightarrow> bool"
    and alive :: "'h \<Rightarrow> 'a set"
  assumes add_tail_law: "queue h hd1 xs \<Longrightarrow> el \<in> alive h \<Longrightarrow> el \<notin> set (hd1 # xs) \<Longrightarrow>
      \<exists>h'. add_tail h el hd1 = Some h' \<and> queue h' hd1 (xs @ [el]) \<and> alive h' = alive h"
    and del_law: "queue h hd1 (as @ el # bs) \<Longrightarrow>
      \<exists>h'. del h el = Some h' \<and> queue h' hd1 (as @ bs) \<and> alive h' = alive h"
    and visit_law: "queue h hd1 xs \<Longrightarrow> visit_all h hd1 = Some xs"
begin

text \<open>Elements leave from the front in the order in which they were appended.\<close>

lemma add_all_queue:
  "queue h hd1 xs \<Longrightarrow> set els \<subseteq> alive h \<Longrightarrow> distinct (hd1 # xs @ els) \<Longrightarrow>
   \<exists>h'. fold (\<lambda>el r. Option.bind r (\<lambda>h. add_tail h el hd1)) els (Some h) = Some h'
     \<and> queue h' hd1 (xs @ els) \<and> alive h' = alive h"
proof (induction els arbitrary: h xs)
  case (Cons e els)
  from Cons.prems add_tail_law [of h hd1 xs e] obtain h1 where
    h1: "add_tail h e hd1 = Some h1" "queue h1 hd1 (xs @ [e])" "alive h1 = alive h" by auto
  from Cons.IH [of h1 "xs @ [e]"] Cons.prems h1 show ?case by auto
qed auto

lemma del_front_queue:
  "queue h hd1 (xs @ ys) \<Longrightarrow>
   \<exists>h'. fold (\<lambda>el r. Option.bind r (\<lambda>h. del h el)) xs (Some h) = Some h' \<and> queue h' hd1 ys"
proof (induction xs arbitrary: h)
  case (Cons x xs)
  from Cons.prems del_law [of h hd1 "[]" x "xs @ ys"] obtain h1 where
    "del h x = Some h1" "queue h1 hd1 (xs @ ys)" by auto
  with Cons.IH [of h1] show ?case by simp
qed auto

end

interpretation lh: node_queue list_add_tail list_del list_for_each dll dom
proof unfold_locales
  fix h hd1 xs el
  assume "dll h hd1 xs" "el \<in> dom h" "el \<notin> set (hd1 # xs)"
  then show "\<exists>h'. list_add_tail h el hd1 = Some h' \<and> dll h' hd1 (xs @ [el]) \<and> dom h' = dom h"
    by (intro list_add_tail_dll) auto
qed (use list_del_dll list_for_each_dll in blast)+


definition two_nodes :: store where
  "two_nodes = [0 \<mapsto> \<lparr>lh_prev = Some 0, lh_next = Some 0\<rparr>, 1 \<mapsto> \<lparr>lh_prev = None, lh_next = None\<rparr>]"


end
