(* ===== verification/Rqsort.thy ===== *)
theory Rqsort
  imports QJS_Prelude "HOL-Library.Monad_Syntax"
begin

text \<open>
  \<open>rqsort\<close> of \<open>src/cutils.c\<close>: an introsort with an explicit stack of fifty
  segments, median-of-three pivots, a three-way partition that keeps the
  elements equal to the pivot at both ends, insertion sort for segments of at
  most six elements and heap sort beyond depth fifty.

  The array is a list of elements; indices count elements, so every byte offset
  of the source is divided by \<open>size\<close>.  The pointers \<open>pi\<close>, \<open>plt\<close>, \<open>pgt\<close> of the
  source always equal \<open>ptr\<close> plus the counters \<open>i\<close>, \<open>lt\<close>, \<open>gt\<close>; the model keeps
  the counters.  Reading, swapping or pushing out of bounds is undefined
  behaviour (\<open>None\<close>).  The comparison function is an argument.

  For every comparison function, consistent or not, the sort terminates, stays
  inside the array and the stack, and permutes the elements; if the comparison
  is a total preorder the result is sorted.  The exchange functions on bytes are
  shown to swap elements whichever of them \<open>exchange_func\<close> selects.
\<close>

section \<open>Element accesses\<close>

definition cmp_at :: "('a \<Rightarrow> 'a \<Rightarrow> int) \<Rightarrow> 'a list \<Rightarrow> nat \<Rightarrow> nat \<Rightarrow> int ub" where
  "cmp_at cmp xs i j =
     (if i < length xs \<and> j < length xs then Some (cmp (xs ! i) (xs ! j)) else None)"

definition swap_at :: "'a list \<Rightarrow> nat \<Rightarrow> nat \<Rightarrow> 'a list ub" where
  "swap_at xs i j =
     (if i < length xs \<and> j < length xs then Some (xs[i := xs ! j, j := xs ! i]) else None)"

text \<open>\<open>swap_block\<close>: exchange the \<open>k\<close> elements from \<open>a\<close> with the \<open>k\<close> elements from \<open>b\<close>.\<close>

fun swap_block :: "'a list \<Rightarrow> nat \<Rightarrow> nat \<Rightarrow> nat \<Rightarrow> 'a list ub" where
  "swap_block xs a b 0 = Some xs"
| "swap_block xs a b (Suc k) = do { xs \<leftarrow> swap_at xs a b; swap_block xs (Suc a) (Suc b) k }"

section \<open>Heap sort\<close>

text \<open>The sift loop of \<open>heapsortx\<close>; \<open>r\<close> and \<open>n\<close> are relative to \<open>base\<close>.\<close>

function (sequential) sift :: "('a \<Rightarrow> 'a \<Rightarrow> int) \<Rightarrow> 'a list \<Rightarrow> nat \<Rightarrow> nat \<Rightarrow> nat \<Rightarrow> 'a list ub" where
  "sift cmp xs base r n =
     (let c = r * 2 + 1 in
      if c < n then do {
        c' \<leftarrow> (if c < n - 1
               then map_option (\<lambda>x. if x \<le> 0 then c + 1 else c) (cmp_at cmp xs (base + c) (base + c + 1))
               else Some c);
        x \<leftarrow> cmp_at cmp xs (base + r) (base + c');
        if x > 0 then Some xs
        else do { xs' \<leftarrow> swap_at xs (base + r) (base + c');
                  sift cmp xs' base c' n }
      }
      else Some xs)"
  by pat_completeness auto
termination
  by (relation "measure (\<lambda>(cmp, xs, base, r, n). n - r)") (auto split: if_splits)

declare sift.simps [simp del]

fun heapify :: "('a \<Rightarrow> 'a \<Rightarrow> int) \<Rightarrow> 'a list \<Rightarrow> nat \<Rightarrow> nat \<Rightarrow> nat \<Rightarrow> 'a list ub" where
  "heapify cmp xs base 0 n = Some xs"
| "heapify cmp xs base (Suc i) n = do { xs \<leftarrow> sift cmp xs base i n; heapify cmp xs base i n }"

fun heap_extract :: "('a \<Rightarrow> 'a \<Rightarrow> int) \<Rightarrow> 'a list \<Rightarrow> nat \<Rightarrow> nat \<Rightarrow> 'a list ub" where
  "heap_extract cmp xs base 0 = Some xs"
| "heap_extract cmp xs base (Suc i) =
     do { xs \<leftarrow> swap_at xs base (base + Suc i);
          xs \<leftarrow> sift cmp xs base 0 (Suc i);
          heap_extract cmp xs base i }"

definition heapsortx :: "('a \<Rightarrow> 'a \<Rightarrow> int) \<Rightarrow> 'a list \<Rightarrow> nat \<Rightarrow> nat \<Rightarrow> 'a list ub" where
  "heapsortx cmp xs base nmemb =
     (if nmemb > 1 then do {
        xs \<leftarrow> heapify cmp xs base (nmemb div 2) nmemb;
        heap_extract cmp xs base (nmemb - 1)
      } else Some xs)"

section \<open>Partition\<close>

definition med3 :: "('a \<Rightarrow> 'a \<Rightarrow> int) \<Rightarrow> 'a list \<Rightarrow> nat \<Rightarrow> nat \<Rightarrow> nat \<Rightarrow> nat ub" where
  "med3 cmp xs a b c = do {
     ab \<leftarrow> cmp_at cmp xs a b;
     bc \<leftarrow> cmp_at cmp xs b c;
     ac \<leftarrow> cmp_at cmp xs a c;
     Some (if ab < 0 then (if bc < 0 then b else (if ac < 0 then c else a))
           else (if bc > 0 then b else (if ac < 0 then a else c)))
   }"

text \<open>The first inner loop of the partition: \<open>while (pi < pj && (c = cmp(ptr, pi)) >= 0)\<close>.\<close>

function scan_up :: "('a \<Rightarrow> 'a \<Rightarrow> int) \<Rightarrow> 'a list \<Rightarrow> nat \<Rightarrow> nat \<Rightarrow> nat \<Rightarrow> nat \<Rightarrow> ('a list \<times> nat \<times> nat) ub" where
  "scan_up cmp xs ptr lt i j =
     (if i < j then do {
        c \<leftarrow> cmp_at cmp xs ptr (ptr + i);
        if c \<ge> 0 then
          if c = 0 then do { xs' \<leftarrow> swap_at xs (ptr + lt) (ptr + i);
                             scan_up cmp xs' ptr (lt + 1) (i + 1) j }
          else scan_up cmp xs ptr lt (i + 1) j
        else Some (xs, lt, i)
      } else Some (xs, lt, i))"
  by pat_completeness auto
termination
  by (relation "measure (\<lambda>(cmp, xs, ptr, lt, i, j). j - i)") auto

declare scan_up.simps [simp del]

text \<open>The second one: \<open>while (pi < (pj -= size) && (c = cmp(ptr, pj)) <= 0)\<close>.\<close>

function scan_down :: "('a \<Rightarrow> 'a \<Rightarrow> int) \<Rightarrow> 'a list \<Rightarrow> nat \<Rightarrow> nat \<Rightarrow> nat \<Rightarrow> nat \<Rightarrow> ('a list \<times> nat \<times> nat) ub" where
  "scan_down cmp xs ptr i j gt =
     (if i < j - 1 then do {
        c \<leftarrow> cmp_at cmp xs ptr (ptr + (j - 1));
        if c \<le> 0 then
          if c = 0 then do { xs' \<leftarrow> swap_at xs (ptr + (gt - 1)) (ptr + (j - 1));
                             scan_down cmp xs' ptr i (j - 1) (gt - 1) }
          else scan_down cmp xs ptr i (j - 1) gt
        else Some (xs, j - 1, gt)
      } else Some (xs, j - 1, gt))"
  by pat_completeness auto
termination
  by (relation "measure (\<lambda>(cmp, xs, ptr, i, j, gt). j)") auto

declare scan_down.simps [simp del]

lemma scan_down_mono: "scan_down cmp xs ptr i j gt = Some (xs', j', gt') \<Longrightarrow> j' \<le> j - 1"
proof (induction cmp xs ptr i j gt rule: scan_down.induct)
  case (1 cmp xs ptr i j gt)
  show ?case
  proof (cases "i < j - 1")
    case True
    with "1.prems" obtain c where c: "cmp_at cmp xs ptr (ptr + (j - 1)) = Some c"
      by (subst (asm) scan_down.simps) (auto split: bind_splits)
    consider "c > 0" | "c < 0" | xs1 where "c = 0" "swap_at xs (ptr + (gt - 1)) (ptr + (j - 1)) = Some xs1"
      using True "1.prems" c by (subst (asm) scan_down.simps) (cases "c > 0"; cases "c < 0"; auto split: bind_splits)
    then show ?thesis
    proof cases
      case 1
      with True c "1.prems" show ?thesis by (subst (asm) scan_down.simps) auto
    next
      case 2
      with True c "1.prems" have "scan_down cmp xs ptr i (j - 1) gt = Some (xs', j', gt')"
        by (subst (asm) scan_down.simps) auto
      from "1.IH"(2) [OF True c _ _ this] 2 show ?thesis by simp
    next
      case 3
      with True c "1.prems" have "scan_down cmp xs1 ptr i (j - 1) (gt - 1) = Some (xs', j', gt')"
        by (subst (asm) scan_down.simps) auto
      from "1.IH"(1) [OF True c _ _ 3(2) this] 3 show ?thesis by simp
    qed
  next
    case False
    with "1.prems" show ?thesis by (subst (asm) scan_down.simps) auto
  qed
qed

text \<open>The \<open>for(;;)\<close> loop around them: the result is the array and the final \<open>lt\<close>, \<open>i\<close>, \<open>gt\<close>.\<close>

function partition_loop :: "('a \<Rightarrow> 'a \<Rightarrow> int) \<Rightarrow> 'a list \<Rightarrow> nat \<Rightarrow> nat \<Rightarrow> nat \<Rightarrow> nat \<Rightarrow> nat
    \<Rightarrow> ('a list \<times> nat \<times> nat \<times> nat) ub" where
  "partition_loop cmp xs ptr lt i j gt = do {
     (xs1, lt1, i1) \<leftarrow> scan_up cmp xs ptr lt i j;
     (xs2, j2, gt2) \<leftarrow> scan_down cmp xs1 ptr i1 j gt;
     if i1 \<ge> j2 then Some (xs2, lt1, i1, gt2)
     else do { xs3 \<leftarrow> swap_at xs2 (ptr + i1) (ptr + j2);
               partition_loop cmp xs3 ptr lt1 (i1 + 1) j2 gt2 }
   }"
  by pat_completeness auto
termination
  by (relation "measure (\<lambda>(cmp, xs, ptr, lt, i, j, gt). j)")
    (auto dest!: scan_down_mono)

declare partition_loop.simps [simp del]

text \<open>
  One round of the inner \<open>while\<close>: choose the pivot, partition, and move the
  elements equal to the pivot to the middle.  The result is the array with the
  final \<open>lt\<close> (elements smaller than the pivot) and \<open>gt\<close> (start of the greater ones).
\<close>

definition rq_partition :: "('a \<Rightarrow> 'a \<Rightarrow> int) \<Rightarrow> 'a list \<Rightarrow> nat \<Rightarrow> nat \<Rightarrow> ('a list \<times> nat \<times> nat) ub" where
  "rq_partition cmp xs ptr nmemb = do {
     let m4 = nmemb div 4;
     m \<leftarrow> med3 cmp xs (ptr + m4) (ptr + 2 * m4) (ptr + 3 * m4);
     xs \<leftarrow> swap_at xs ptr m;
     (xs, lt, i, gt) \<leftarrow> partition_loop cmp xs ptr 1 1 nmemb nmemb;
     let span = lt;
     let span2 = i - lt;
     let span1 = (if span > span2 then span2 else span);
     xs \<leftarrow> swap_block xs ptr (ptr + i - span1) span1;
     let span = nmemb - gt;
     let span2 = gt - i;
     let span1 = (if span > span2 then span2 else span);
     xs \<leftarrow> swap_block xs (ptr + i) (ptr + nmemb - span1) span1;
     Some (xs, i - lt, nmemb - (gt - i))
   }"

section \<open>Insertion sort\<close>

text \<open>The inner loop moves the element at \<open>ptr + k\<close> down, the outer one runs \<open>k\<close> up to \<open>nmemb\<close>.\<close>

fun insert_down :: "('a \<Rightarrow> 'a \<Rightarrow> int) \<Rightarrow> 'a list \<Rightarrow> nat \<Rightarrow> nat \<Rightarrow> 'a list ub" where
  "insert_down cmp xs ptr 0 = Some xs"
| "insert_down cmp xs ptr (Suc k) = do {
     c \<leftarrow> cmp_at cmp xs (ptr + k) (ptr + Suc k);
     if c > 0 then do { xs' \<leftarrow> swap_at xs (ptr + Suc k) (ptr + k); insert_down cmp xs' ptr k }
     else Some xs
   }"

function insertion_loop :: "('a \<Rightarrow> 'a \<Rightarrow> int) \<Rightarrow> 'a list \<Rightarrow> nat \<Rightarrow> nat \<Rightarrow> nat \<Rightarrow> 'a list ub" where
  "insertion_loop cmp xs ptr k nmemb =
     (if k < nmemb then do { xs' \<leftarrow> insert_down cmp xs ptr k; insertion_loop cmp xs' ptr (Suc k) nmemb }
      else Some xs)"
  by pat_completeness auto
termination
  by (relation "measure (\<lambda>(cmp, xs, ptr, k, nmemb). nmemb - k)") auto

declare insertion_loop.simps [simp del]

section \<open>The driver\<close>

text \<open>A stack entry: base, count and depth.  The array \<open>stack\<close> has fifty of them.\<close>

type_synonym rq_entry = "nat \<times> nat \<times> nat"

definition rq_push :: "rq_entry \<Rightarrow> rq_entry list \<Rightarrow> rq_entry list ub" where
  "rq_push e stk = (if length stk < 50 then Some (e # stk) else None)"

text \<open>
  The loop \<open>while (nmemb > 6)\<close>: it stacks the larger part and goes on with the
  smaller one.  The result is the array, the segment left for the insertion sort
  and the stack.  It ends because the depth grows with every round.
\<close>

function rq_segment :: "('a \<Rightarrow> 'a \<Rightarrow> int) \<Rightarrow> 'a list \<Rightarrow> nat \<Rightarrow> nat \<Rightarrow> nat \<Rightarrow> rq_entry list
    \<Rightarrow> ('a list \<times> nat \<times> nat \<times> rq_entry list) ub" where
  "rq_segment cmp xs ptr nmemb depth stk =
     (if nmemb > 6 then
        if depth + 1 > 50 then do {
          xs \<leftarrow> heapsortx cmp xs ptr nmemb;
          Some (xs, ptr, 0, stk)
        } else do {
          (xs, lt, gt) \<leftarrow> rq_partition cmp xs ptr nmemb;
          if lt > nmemb - gt then do {
            stk \<leftarrow> rq_push (ptr, lt, depth + 1) stk;
            rq_segment cmp xs (ptr + gt) (nmemb - gt) (depth + 1) stk
          } else do {
            stk \<leftarrow> rq_push (ptr + gt, nmemb - gt, depth + 1) stk;
            rq_segment cmp xs ptr lt (depth + 1) stk
          }
        }
      else Some (xs, ptr, nmemb, stk))"
  by pat_completeness auto
termination
  by (relation "measure (\<lambda>(cmp, xs, ptr, nmemb, depth, stk). 50 - depth)") auto

declare rq_segment.simps [simp del]

text \<open>
  The loop \<open>while (sp > stack)\<close>.  Nothing in its text says that it ends, so not
  returning is a possible result (\<open>None\<close>) until \<open>rqsort_returns\<close> rules it out.
\<close>

partial_function (option) rq_loop :: "('a \<Rightarrow> 'a \<Rightarrow> int) \<Rightarrow> 'a list \<Rightarrow> rq_entry list \<Rightarrow> 'a list option" where
  "rq_loop cmp xs stk =
     (if stk = [] then Some xs
      else do {
        let (ptr, nmemb, depth) = hd stk;
        (xs, ptr, nmemb, stk) \<leftarrow> rq_segment cmp xs ptr nmemb depth (tl stk);
        xs \<leftarrow> insertion_loop cmp xs ptr 1 nmemb;
        rq_loop cmp xs stk
      })"

definition rqsort :: "('a \<Rightarrow> 'a \<Rightarrow> int) \<Rightarrow> 'a list \<Rightarrow> 'a list option" where
  "rqsort cmp xs =
     (if length xs < 2 then Some xs else rq_loop cmp xs [(0, length xs, 0)])"

section \<open>Permutations inside a segment\<close>

text \<open>\<open>ys\<close> permutes the \<open>n\<close> elements of \<open>xs\<close> from \<open>p\<close> on and leaves the others in place.\<close>

definition seg_perm :: "nat \<Rightarrow> nat \<Rightarrow> 'a list \<Rightarrow> 'a list \<Rightarrow> bool" where
  "seg_perm p n xs ys \<longleftrightarrow> p + n \<le> length xs \<and> length ys = length xs \<and> mset ys = mset xs \<and>
     (\<forall>i < length xs. i < p \<or> p + n \<le> i \<longrightarrow> ys ! i = xs ! i)"

lemma seg_perm_refl: "p + n \<le> length xs \<Longrightarrow> seg_perm p n xs xs"
  by (simp add: seg_perm_def)

lemma seg_perm_trans [trans]: "seg_perm p n xs ys \<Longrightarrow> seg_perm p n ys zs \<Longrightarrow> seg_perm p n xs zs"
  by (simp add: seg_perm_def)

lemma seg_perm_mono:
  "seg_perm p n xs ys \<Longrightarrow> q \<le> p \<Longrightarrow> p + n \<le> q + m \<Longrightarrow> q + m \<le> length xs \<Longrightarrow> seg_perm q m xs ys"
  by (auto simp: seg_perm_def)

lemma seg_perm_length: "seg_perm p n xs ys \<Longrightarrow> length ys = length xs"
  by (simp add: seg_perm_def)

lemma seg_perm_outside: "seg_perm p n xs ys \<Longrightarrow> i < length xs \<Longrightarrow> i < p \<or> p + n \<le> i \<Longrightarrow> ys ! i = xs ! i"
  by (auto simp: seg_perm_def)

lemma seg_perm_swap:
  assumes "p \<le> i" "i < p + n" "p \<le> j" "j < p + n" "p + n \<le> length xs"
  shows "seg_perm p n xs (xs[i := xs ! j, j := xs ! i])"
  using assms by (auto simp: seg_perm_def mset_swap nth_list_update)

lemma swap_at_ok [simp]:
  "i < length xs \<Longrightarrow> j < length xs \<Longrightarrow> swap_at xs i j = Some (xs[i := xs ! j, j := xs ! i])"
  by (simp add: swap_at_def)

lemma cmp_at_ok [simp]:
  "i < length xs \<Longrightarrow> j < length xs \<Longrightarrow> cmp_at cmp xs i j = Some (cmp (xs ! i) (xs ! j))"
  by (simp add: cmp_at_def)

lemma seg_perm_mset_segment:
  assumes "seg_perm p n xs ys"
  shows "mset (take n (drop p ys)) = mset (take n (drop p xs))"
proof -
  from assms have len: "length ys = length xs" "p + n \<le> length xs" and ms: "mset ys = mset xs"
    and out: "\<And>i. i < length xs \<Longrightarrow> i < p \<or> p + n \<le> i \<Longrightarrow> ys ! i = xs ! i"
    by (auto simp: seg_perm_def)
  have split: "zs = take p zs @ take n (drop p zs) @ drop (p + n) zs" for zs :: "'a list"
    by (metis append_take_drop_id drop_drop add.commute)
  have t: "take p ys = take p xs"
    using len by (intro nth_equalityI) (auto simp: out)
  have d: "drop (p + n) ys = drop (p + n) xs"
    using len by (intro nth_equalityI) (auto simp: out)
  have "mset (take p ys) + mset (take n (drop p ys)) + mset (drop (p + n) ys) =
      mset (take p xs) + mset (take n (drop p xs)) + mset (drop (p + n) xs)"
    using ms split [of xs] split [of ys] by (metis mset_append add.assoc)
  with t d show ?thesis by simp
qed

text \<open>An element found in the segment afterwards was in the segment before.\<close>

lemma seg_perm_elem:
  assumes "seg_perm p n xs ys" and "p \<le> k" and "k < p + n"
  obtains k' where "p \<le> k'" "k' < p + n" "ys ! k = xs ! k'"
proof -
  from assms(1) have len: "length ys = length xs" "p + n \<le> length xs" by (auto simp: seg_perm_def)
  have "ys ! k = take n (drop p ys) ! (k - p)" using assms len by simp
  moreover have "k - p < length (take n (drop p ys))" using assms len by simp
  ultimately have "ys ! k \<in> set (take n (drop p ys))" by (metis nth_mem)
  also have "set (take n (drop p ys)) = set (take n (drop p xs))"
    using seg_perm_mset_segment [OF assms(1)] by (metis set_mset_mset)
  finally obtain m where "m < n" "ys ! k = xs ! (p + m)"
    using len by (auto simp: in_set_conv_nth)
  then show ?thesis using that [of "p + m"] by simp
qed

section \<open>The partition\<close>

text \<open>
  The loop invariant, relative to the segment: the pivot is at 0, then come
  elements equal to it (below \<open>lt\<close>), smaller ones (below \<open>i\<close>), unseen ones (below
  \<open>j\<close>), greater ones (below \<open>gt\<close>) and again equal ones.
\<close>

definition part_inv :: "('a \<Rightarrow> 'a \<Rightarrow> int) \<Rightarrow> 'a \<Rightarrow> 'a list \<Rightarrow> nat \<Rightarrow> nat \<Rightarrow> nat \<Rightarrow> nat \<Rightarrow> nat \<Rightarrow> nat \<Rightarrow> bool" where
  "part_inv cmp piv xs ptr n lt i j gt \<longleftrightarrow>
     1 \<le> lt \<and> lt \<le> i \<and> i \<le> j \<and> j \<le> gt \<and> gt \<le> n \<and> ptr + n \<le> length xs \<and> xs ! ptr = piv \<and>
     (\<forall>k. 1 \<le> k \<and> k < lt \<longrightarrow> cmp piv (xs ! (ptr + k)) = 0) \<and>
     (\<forall>k. lt \<le> k \<and> k < i \<longrightarrow> cmp piv (xs ! (ptr + k)) > 0) \<and>
     (\<forall>k. j \<le> k \<and> k < gt \<longrightarrow> cmp piv (xs ! (ptr + k)) < 0) \<and>
     (\<forall>k. gt \<le> k \<and> k < n \<longrightarrow> cmp piv (xs ! (ptr + k)) = 0)"

lemma scan_up_ok:
  assumes "part_inv cmp piv xs ptr n lt i j gt"
  shows "\<exists>xs' lt' i'. scan_up cmp xs ptr lt i j = Some (xs', lt', i') \<and>
     part_inv cmp piv xs' ptr n lt' i' j gt \<and> seg_perm ptr n xs xs' \<and>
     (i' = j \<or> cmp piv (xs' ! (ptr + i')) < 0)"
  using assms
proof (induction cmp xs ptr lt i j rule: scan_up.induct)
  case (1 cmp xs ptr lt i j)
  note inv = "1.prems"
  from inv have b: "1 \<le> lt" "lt \<le> i" "i \<le> j" "j \<le> gt" "gt \<le> n" "ptr + n \<le> length xs" "xs ! ptr = piv"
    by (auto simp: part_inv_def)
  show ?case
  proof (cases "i < j")
    case False
    then have "scan_up cmp xs ptr lt i j = Some (xs, lt, i)" by (subst scan_up.simps) simp
    moreover have "i = j" using False b by simp
    ultimately show ?thesis using inv seg_perm_refl [OF b(6)] by blast
  next
    case True
    with b have c: "cmp_at cmp xs ptr (ptr + i) = Some (cmp piv (xs ! (ptr + i)))" by simp
    consider "cmp piv (xs ! (ptr + i)) < 0" | "cmp piv (xs ! (ptr + i)) > 0" | "cmp piv (xs ! (ptr + i)) = 0"
      by linarith
    then show ?thesis
    proof cases
      case 1
      with c True inv b show ?thesis
        by (simp add: scan_up.simps [of cmp xs ptr lt i j] seg_perm_refl)
    next
      case 2
      then have inv': "part_inv cmp piv xs ptr n lt (i + 1) j gt"
        using inv True by (auto simp: part_inv_def less_Suc_eq)
      have "scan_up cmp xs ptr lt i j = scan_up cmp xs ptr lt (i + 1) j"
        using c True 2 by (simp add: scan_up.simps [of cmp xs ptr lt i j])
      with "1.IH"(2) [OF True c _ _ inv'] 2 show ?thesis by simp
    next
      case 3
      define ys where "ys = xs[ptr + lt := xs ! (ptr + i), ptr + i := xs ! (ptr + lt)]"
      have sw: "swap_at xs (ptr + lt) (ptr + i) = Some ys" using b True by (simp add: ys_def)
      have inv': "part_inv cmp piv ys ptr n (lt + 1) (i + 1) j gt"
        using inv True 3 by (auto simp: part_inv_def ys_def nth_list_update less_Suc_eq)
      have sp: "seg_perm ptr n xs ys"
        unfolding ys_def using b True by (intro seg_perm_swap) auto
      have "scan_up cmp xs ptr lt i j = scan_up cmp ys ptr (lt + 1) (i + 1) j"
        using c True 3 sw by (simp add: scan_up.simps [of cmp xs ptr lt i j])
      with "1.IH"(1) [OF True c _ _ sw inv'] 3 sp show ?thesis
        by (auto intro: seg_perm_trans)
    qed
  qed
qed

lemma part_inv_greater:
  assumes "part_inv cmp piv xs ptr n lt i (Suc m) gt" and "i \<le> m" and "cmp piv (xs ! (ptr + m)) < 0"
  shows "part_inv cmp piv xs ptr n lt i m gt"
proof -
  have "cmp piv (xs ! (ptr + k)) < 0" if "m \<le> k" "k < gt" for k
    using assms that by (cases "k = m") (auto simp: part_inv_def)
  then show ?thesis using assms by (simp add: part_inv_def)
qed

lemma part_inv_equal_right:
  assumes inv: "part_inv cmp piv xs ptr n lt i (Suc m) (Suc g)" and im: "i < m"
    and eq: "cmp piv (xs ! (ptr + m)) = 0"
    and ys: "ys = xs[ptr + g := xs ! (ptr + m), ptr + m := xs ! (ptr + g)]"
  shows "part_inv cmp piv ys ptr n lt i m g" and "ys ! (ptr + i) = xs ! (ptr + i)"
proof -
  from inv have b: "1 \<le> lt" "lt \<le> i" "m \<le> g" "g < n" "ptr + n \<le> length xs" "xs ! ptr = piv"
    by (auto simp: part_inv_def)
  have nth: "ys ! (ptr + k) = (if k = m then xs ! (ptr + g) else if k = g then xs ! (ptr + m) else xs ! (ptr + k))"
    if "k < n" for k using that b by (simp add: ys nth_list_update)
  show i: "ys ! (ptr + i) = xs ! (ptr + i)" using nth [of i] im b by simp
  have 1: "cmp piv (ys ! (ptr + k)) = 0" if "1 \<le> k" "k < lt" for k
    using inv that im b nth [of k] by (simp add: part_inv_def)
  have 2: "cmp piv (ys ! (ptr + k)) > 0" if "lt \<le> k" "k < i" for k
    using inv that im b nth [of k] by (simp add: part_inv_def)
  have 3: "cmp piv (ys ! (ptr + k)) < 0" if "m \<le> k" "k < g" for k
    using inv that im b nth [of k] by (simp add: part_inv_def)
  have 4: "cmp piv (ys ! (ptr + k)) = 0" if "g \<le> k" "k < n" for k
    using inv that im b nth [of k] eq by (cases "k = g") (simp_all add: part_inv_def)
  have "ys ! ptr = piv" using nth [of 0] im b by simp
  with 1 2 3 4 b im ys show "part_inv cmp piv ys ptr n lt i m g" by (simp add: part_inv_def)
qed

lemma scan_down_ok:
  assumes "part_inv cmp piv xs ptr n lt i j gt" and "i = j \<or> cmp piv (xs ! (ptr + i)) < 0"
  shows "\<exists>xs' j' gt'. scan_down cmp xs ptr i j gt = Some (xs', j', gt') \<and> seg_perm ptr n xs xs' \<and>
     (if i \<ge> j' then part_inv cmp piv xs' ptr n lt i i gt'
      else part_inv cmp piv xs' ptr n lt i (j' + 1) gt' \<and>
        cmp piv (xs' ! (ptr + j')) > 0 \<and> cmp piv (xs' ! (ptr + i)) < 0)"
  using assms
proof (induction cmp xs ptr i j gt rule: scan_down.induct)
  case (1 cmp xs ptr i j gt)
  note inv = "1.prems"(1) and at_i = "1.prems"(2)
  from inv have b: "1 \<le> lt" "lt \<le> i" "i \<le> j" "j \<le> gt" "gt \<le> n" "ptr + n \<le> length xs" "xs ! ptr = piv"
    by (auto simp: part_inv_def)
  show ?case
  proof (cases "i < j - 1")
    case False
    have e: "scan_down cmp xs ptr i j gt = Some (xs, j - 1, gt)"
      using False by (subst scan_down.simps) simp
    have ij: "i \<ge> j - 1" "j = i \<or> j = Suc i" using False b by auto
    have "part_inv cmp piv xs ptr n lt i i gt"
      using inv at_i ij(2) part_inv_greater [of cmp piv xs ptr n lt i i gt] by auto
    with e ij(1) seg_perm_refl [OF b(6)] show ?thesis by simp
  next
    case True
    define m where "m = j - 1"
    have j: "j = Suc m" "i < m" using True by (simp_all add: m_def)
    let ?x = "xs ! (ptr + m)"
    from j b have c: "cmp_at cmp xs ptr (ptr + (j - 1)) = Some (cmp piv ?x)" by simp
    from j at_i have ai: "cmp piv (xs ! (ptr + i)) < 0" by auto
    consider "cmp piv ?x > 0" | "cmp piv ?x < 0" | "cmp piv ?x = 0" by linarith
    then show ?thesis
    proof cases
      case 1
      have e: "scan_down cmp xs ptr i j gt = Some (xs, m, gt)"
        using c True 1 j by (subst scan_down.simps) simp
      with 1 ai inv j seg_perm_refl [OF b(6)] show ?thesis by simp
    next
      case 2
      have inv': "part_inv cmp piv xs ptr n lt i (j - 1) gt"
        using part_inv_greater [of cmp piv xs ptr n lt i m gt] inv j 2 by simp
      have "scan_down cmp xs ptr i j gt = scan_down cmp xs ptr i (j - 1) gt"
        using c True 2 by (subst scan_down.simps) simp
      with "1.IH"(2) [OF True c _ _ inv'] 2 ai show ?thesis by simp
    next
      case 3
      define g where "g = gt - 1"
      have g: "gt = Suc g" using b j by (simp add: g_def)
      define ys where "ys = xs[ptr + g := ?x, ptr + m := xs ! (ptr + g)]"
      have sw: "swap_at xs (ptr + (gt - 1)) (ptr + (j - 1)) = Some ys" using b j g by (simp add: ys_def)
      have inv': "part_inv cmp piv ys ptr n lt i (j - 1) (gt - 1)" and ai': "cmp piv (ys ! (ptr + i)) < 0"
        using part_inv_equal_right [of cmp piv xs ptr n lt i m g ys] inv j g 3 ai ys_def by simp_all
      have sp: "seg_perm ptr n xs ys"
        unfolding ys_def using b j g by (intro seg_perm_swap) auto
      have "scan_down cmp xs ptr i j gt = scan_down cmp ys ptr i (j - 1) (gt - 1)"
        using c True 3 sw by (subst scan_down.simps) simp
      moreover obtain xs' j' gt' where "scan_down cmp ys ptr i (j - 1) (gt - 1) = Some (xs', j', gt')"
        "seg_perm ptr n ys xs'"
        "if i \<ge> j' then part_inv cmp piv xs' ptr n lt i i gt'
         else part_inv cmp piv xs' ptr n lt i (j' + 1) gt' \<and>
           cmp piv (xs' ! (ptr + j')) > 0 \<and> cmp piv (xs' ! (ptr + i)) < 0"
        using "1.IH"(1) [OF True c _ _ sw inv'] 3 ai' by auto
      ultimately show ?thesis using seg_perm_trans [OF sp] by auto
    qed
  qed
qed

lemma partition_loop_ok:
  assumes "part_inv cmp piv xs ptr n lt i j gt"
  shows "\<exists>xs' lt' i' gt'. partition_loop cmp xs ptr lt i j gt = Some (xs', lt', i', gt') \<and>
     part_inv cmp piv xs' ptr n lt' i' i' gt' \<and> seg_perm ptr n xs xs'"
  using assms
proof (induction cmp xs ptr lt i j gt rule: partition_loop.induct)
  case (1 cmp xs ptr lt i j gt)
  obtain xs1 lt1 i1 where u: "scan_up cmp xs ptr lt i j = Some (xs1, lt1, i1)"
    "part_inv cmp piv xs1 ptr n lt1 i1 j gt" "seg_perm ptr n xs xs1"
    "i1 = j \<or> cmp piv (xs1 ! (ptr + i1)) < 0"
    using scan_up_ok [OF "1.prems"] by auto
  obtain xs2 j2 gt2 where d: "scan_down cmp xs1 ptr i1 j gt = Some (xs2, j2, gt2)" "seg_perm ptr n xs1 xs2"
    "if i1 \<ge> j2 then part_inv cmp piv xs2 ptr n lt1 i1 i1 gt2
     else part_inv cmp piv xs2 ptr n lt1 i1 (j2 + 1) gt2 \<and>
        cmp piv (xs2 ! (ptr + j2)) > 0 \<and> cmp piv (xs2 ! (ptr + i1)) < 0"
    using scan_down_ok [OF u(2,4)] by auto
  have sp: "seg_perm ptr n xs xs2" using u(3) d(2) by (rule seg_perm_trans)
  show ?case
  proof (cases "i1 \<ge> j2")
    case True
    with u(1) d(1,3) sp show ?thesis by (simp add: partition_loop.simps [of cmp xs ptr lt i j gt])
  next
    case False
    with d(3) have inv2: "part_inv cmp piv xs2 ptr n lt1 i1 (j2 + 1) gt2"
      and s: "cmp piv (xs2 ! (ptr + j2)) > 0" "cmp piv (xs2 ! (ptr + i1)) < 0" by auto
    define ys where "ys = xs2[ptr + i1 := xs2 ! (ptr + j2), ptr + j2 := xs2 ! (ptr + i1)]"
    have sw: "swap_at xs2 (ptr + i1) (ptr + j2) = Some ys"
      using inv2 False by (auto simp: ys_def part_inv_def)
    have inv3: "part_inv cmp piv ys ptr n lt1 (i1 + 1) j2 gt2"
      using inv2 False s by (auto simp: part_inv_def ys_def nth_list_update)
    have sp2: "seg_perm ptr n xs2 ys"
      unfolding ys_def using inv2 False by (intro seg_perm_swap) (auto simp: part_inv_def)
    have e: "partition_loop cmp xs ptr lt i j gt = partition_loop cmp ys ptr lt1 (i1 + 1) j2 gt2"
      using u(1) d(1) False sw by (simp add: partition_loop.simps [of cmp xs ptr lt i j gt])
    from "1.IH" [OF u(1) refl refl d(1) refl refl False sw inv3] e sp sp2 show ?thesis
      by (metis seg_perm_trans)
  qed
qed

text \<open>Exchanging two disjoint blocks.\<close>

lemma swap_block_ok:
  assumes "a + k \<le> b" and "b + k \<le> length xs"
  shows "\<exists>ys. swap_block xs a b k = Some ys \<and> length ys = length xs \<and> mset ys = mset xs \<and>
     (\<forall>m < length xs. ys ! m = (if a \<le> m \<and> m < a + k then xs ! (m - a + b)
        else if b \<le> m \<and> m < b + k then xs ! (m - b + a) else xs ! m))"
  using assms
proof (induction k arbitrary: xs a b)
  case 0
  then show ?case by auto
next
  case (Suc k)
  let ?xs = "xs[a := xs ! b, b := xs ! a]"
  from Suc.prems have sw: "swap_at xs a b = Some ?xs" by simp
  from Suc.prems have "Suc a + k \<le> Suc b" "Suc b + k \<le> length ?xs" by auto
  from Suc.IH [OF this] obtain ys where ys: "swap_block ?xs (Suc a) (Suc b) k = Some ys"
    "length ys = length xs" "mset ys = mset ?xs"
    "\<forall>m < length xs. ys ! m = (if Suc a \<le> m \<and> m < Suc a + k then ?xs ! (m - Suc a + Suc b)
        else if Suc b \<le> m \<and> m < Suc b + k then ?xs ! (m - Suc b + Suc a) else ?xs ! m)"
    by auto
  have "ys ! m = (if a \<le> m \<and> m < a + Suc k then xs ! (m - a + b)
        else if b \<le> m \<and> m < b + Suc k then xs ! (m - b + a) else xs ! m)" if "m < length xs" for m
    using ys(4) that Suc.prems
    by (cases "m = a"; cases "m = b") (auto simp: nth_list_update Suc_diff_Suc)
  moreover have "mset ys = mset xs" using ys(3) Suc.prems by (simp add: mset_swap)
  ultimately show ?case using sw ys(1,2) by simp
qed

text \<open>
  The two block moves rotate \<open>equal, smaller\<close> into \<open>smaller, equal\<close>: swapping the
  shorter of the two with the far end is enough.
\<close>

lemma swap_block_rotate:
  assumes "a \<le> l" "l \<le> i" "i \<le> length xs" "s = min (l - a) (i - l)"
    and P: "\<forall>k. a \<le> k \<and> k < l \<longrightarrow> P (xs ! k)" and Q: "\<forall>k. l \<le> k \<and> k < i \<longrightarrow> Q (xs ! k)"
  shows "\<exists>ys. swap_block xs a (i - s) s = Some ys \<and> seg_perm a (i - a) xs ys \<and>
     (\<forall>k. a \<le> k \<and> k < a + (i - l) \<longrightarrow> Q (ys ! k)) \<and> (\<forall>k. a + (i - l) \<le> k \<and> k < i \<longrightarrow> P (ys ! k))"
proof -
  have le: "a + s \<le> i - s" "i - s + s \<le> length xs" using assms(1-4) by linarith+
  obtain ys where ys: "swap_block xs a (i - s) s = Some ys" "length ys = length xs" "mset ys = mset xs"
    "\<forall>m < length xs. ys ! m = (if a \<le> m \<and> m < a + s then xs ! (m - a + (i - s))
        else if i - s \<le> m \<and> m < i - s + s then xs ! (m - (i - s) + a) else xs ! m)"
    using swap_block_ok [OF le] by auto
  have sc: "s \<le> l - a" "s \<le> i - l" "s = l - a \<or> s = i - l" using assms(4) by auto
  have "seg_perm a (i - a) xs ys"
    unfolding seg_perm_def
  proof (intro conjI allI impI)
    fix m assume "m < length xs" "m < a \<or> a + (i - a) \<le> m"
    then have "\<not> (a \<le> m \<and> m < a + s)" "\<not> (i - s \<le> m \<and> m < i - s + s)"
      using le assms(1,2) by linarith+
    with ys(4) \<open>m < length xs\<close> show "ys ! m = xs ! m" by (simp only: if_False)
  qed (use ys assms(1-3) in auto)
  moreover have "Q (ys ! k)" if k: "a \<le> k" "k < a + (i - l)" for k
  proof (cases "k < a + s")
    case True
    then have "ys ! k = xs ! (k - a + (i - s))" using ys(4) k assms(1-3) by simp
    moreover have "l \<le> k - a + (i - s)" "k - a + (i - s) < i" using True k sc assms(1-3) by linarith+
    ultimately show ?thesis using Q by simp
  next
    case False
    then have "l \<le> k" "k < i - s" using k sc assms(1-3) by linarith+
    with False have "ys ! k = xs ! k" using ys(4) assms(3) by simp
    with Q \<open>l \<le> k\<close> \<open>k < i - s\<close> show ?thesis by simp
  qed
  moreover have "P (ys ! k)" if k: "a + (i - l) \<le> k" "k < i" for k
  proof (cases "i - s \<le> k")
    case True
    then have "\<not> k < a + s" using le by linarith
    with True have "ys ! k = xs ! (k - (i - s) + a)" using ys(4) k assms(1-3) by simp
    moreover have "a \<le> k - (i - s) + a" "k - (i - s) + a < l" using True k sc assms(1-3) by linarith+
    ultimately show ?thesis using P by simp
  next
    case False
    then have "a \<le> k" "\<not> k < a + s" "k < l" using k sc assms(1-3) by linarith+
    with False have "ys ! k = xs ! k" using ys(4) k assms(3) by simp
    with P \<open>a \<le> k\<close> \<open>k < l\<close> show ?thesis by simp
  qed
  ultimately show ?thesis using ys(1) by blast
qed

lemma med3_ok:
  assumes "a < length xs" "b < length xs" "c < length xs"
  shows "\<exists>m. med3 cmp xs a b c = Some m \<and> m \<in> {a, b, c}"
  using assms by (auto simp: med3_def)

text \<open>
  The partition step on a segment of more than three elements, for any comparison
  function: it permutes the segment and leaves elements on the proper side of the
  pivot, with at least the pivot itself in the middle.
\<close>

lemma rq_partition_ok:
  assumes "3 < n" and "ptr + n \<le> length xs"
  obtains ys lt gt piv where "rq_partition cmp xs ptr n = Some (ys, lt, gt)" "seg_perm ptr n xs ys"
    "lt < gt" "gt \<le> n"
    "\<forall>k. ptr \<le> k \<and> k < ptr + lt \<longrightarrow> cmp piv (ys ! k) > 0"
    "\<forall>k. ptr + lt \<le> k \<and> k < ptr + gt \<longrightarrow> cmp piv (ys ! k) = 0 \<or> ys ! k = piv"
    "\<forall>k. ptr + gt \<le> k \<and> k < ptr + n \<longrightarrow> cmp piv (ys ! k) < 0"
proof -
  let ?m4 = "n div 4"
  have b: "ptr + 3 * ?m4 < length xs" "ptr + 3 * ?m4 < ptr + n" using assms by linarith+
  obtain m where m: "med3 cmp xs (ptr + ?m4) (ptr + 2 * ?m4) (ptr + 3 * ?m4) = Some m"
    "ptr \<le> m" "m < ptr + n"
    using med3_ok [of "ptr + ?m4" xs "ptr + 2 * ?m4" "ptr + 3 * ?m4" cmp] b by auto
  define xs1 where "xs1 = xs[ptr := xs ! m, m := xs ! ptr]"
  define piv where "piv = xs1 ! ptr"
  have sw: "swap_at xs ptr m = Some xs1" using m assms by (simp add: xs1_def)
  have s1: "seg_perm ptr n xs xs1"
    unfolding xs1_def using m assms by (intro seg_perm_swap) auto
  have l1: "ptr + n \<le> length xs1" using assms by (simp add: xs1_def)
  have inv1: "part_inv cmp piv xs1 ptr n 1 1 n n"
    using assms l1 by (auto simp: part_inv_def piv_def)
  obtain xs2 lt i gt where pl: "partition_loop cmp xs1 ptr 1 1 n n = Some (xs2, lt, i, gt)"
    and inv: "part_inv cmp piv xs2 ptr n lt i i gt" and s2: "seg_perm ptr n xs1 xs2"
    using partition_loop_ok [OF inv1] by blast
  have pb: "1 \<le> lt" "lt \<le> i" "i \<le> gt" "gt \<le> n" "ptr + n \<le> length xs2"
    using inv by (auto simp: part_inv_def)
  define E where "E = (\<lambda>x. cmp piv x = 0 \<or> x = piv)"
  have e1: "E (xs2 ! k)" if "ptr \<le> k" "k < ptr + lt" for k
  proof (cases "k = ptr")
    case True then show ?thesis using inv by (simp add: part_inv_def E_def)
  next
    case False
    with that inv have "cmp piv (xs2 ! (ptr + (k - ptr))) = 0"
      unfolding part_inv_def by (metis Suc_leI One_nat_def le_neq_implies_less less_diff_conv2 zero_less_diff add.commute)
    with that show ?thesis by (simp add: E_def)
  qed
  have e2: "cmp piv (xs2 ! k) > 0" if "ptr + lt \<le> k" "k < ptr + i" for k
  proof -
    have "lt \<le> k - ptr" "k - ptr < i" using that by linarith+
    with inv have "cmp piv (xs2 ! (ptr + (k - ptr))) > 0" by (simp add: part_inv_def)
    with that show ?thesis by simp
  qed
  have e3: "cmp piv (xs2 ! k) < 0" if "ptr + i \<le> k" "k < ptr + gt" for k
  proof -
    have "i \<le> k - ptr" "k - ptr < gt" using that by linarith+
    with inv have "cmp piv (xs2 ! (ptr + (k - ptr))) < 0" by (simp add: part_inv_def)
    with that show ?thesis by simp
  qed
  have e4: "E (xs2 ! k)" if "ptr + gt \<le> k" "k < ptr + n" for k
  proof -
    have "gt \<le> k - ptr" "k - ptr < n" using that by linarith+
    with inv have "cmp piv (xs2 ! (ptr + (k - ptr))) = 0" by (simp add: part_inv_def)
    with that show ?thesis by (simp add: E_def)
  qed
  obtain ys where sb1: "swap_block xs2 ptr (ptr + i - min lt (i - lt)) (min lt (i - lt)) = Some ys"
    and s3: "seg_perm ptr i xs2 ys"
    and y1: "\<forall>k. ptr \<le> k \<and> k < ptr + (i - lt) \<longrightarrow> cmp piv (ys ! k) > 0"
    and y2: "\<forall>k. ptr + (i - lt) \<le> k \<and> k < ptr + i \<longrightarrow> E (ys ! k)"
    using swap_block_rotate [of ptr "ptr + lt" "ptr + i" xs2 "min lt (i - lt)" E "\<lambda>x. cmp piv x > 0"]
      e1 e2 pb by auto
  have ly: "length ys = length xs2" using s3 by (rule seg_perm_length)
  have same: "ys ! k = xs2 ! k" if "ptr + i \<le> k" "k < ptr + n" for k
    using seg_perm_outside [OF s3, of k] that pb by simp
  obtain zs where sb2: "swap_block ys (ptr + i) (ptr + n - min (n - gt) (gt - i)) (min (n - gt) (gt - i)) = Some zs"
    and s4: "seg_perm (ptr + i) (n - i) ys zs"
    and z1: "\<forall>k. ptr + i \<le> k \<and> k < ptr + i + (n - gt) \<longrightarrow> E (zs ! k)"
    and z2: "\<forall>k. ptr + i + (n - gt) \<le> k \<and> k < ptr + n \<longrightarrow> cmp piv (zs ! k) < 0"
    using swap_block_rotate [of "ptr + i" "ptr + gt" "ptr + n" ys "min (n - gt) (gt - i)"
        "\<lambda>x. cmp piv x < 0" E] e3 e4 pb same ly by (auto simp: min.commute)
  have same2: "zs ! k = ys ! k" if "k < ptr + i" for k
    using seg_perm_outside [OF s4, of k] that pb ly by simp
  have mins: "(if lt > i - lt then i - lt else lt) = min lt (i - lt)"
    "(if n - gt > gt - i then gt - i else n - gt) = min (n - gt) (gt - i)" by auto
  have "rq_partition cmp xs ptr n = Some (zs, i - lt, n - (gt - i))"
    unfolding rq_partition_def Let_def m(1) bind.bind_lunit sw pl prod.case mins sb1 sb2 ..
  moreover have "seg_perm ptr n xs zs"
  proof -
    have "seg_perm ptr n xs2 ys" by (rule seg_perm_mono [OF s3]) (use pb in auto)
    moreover have "seg_perm ptr n ys zs" by (rule seg_perm_mono [OF s4]) (use pb ly in auto)
    ultimately show ?thesis using s1 s2 by (meson seg_perm_trans)
  qed
  moreover have "i - lt < n - (gt - i)" "n - (gt - i) \<le> n" using pb by linarith+
  moreover have "\<forall>k. ptr \<le> k \<and> k < ptr + (i - lt) \<longrightarrow> cmp piv (zs ! k) > 0"
    using y1 same2 pb by auto
  moreover have "\<forall>k. ptr + (i - lt) \<le> k \<and> k < ptr + (n - (gt - i)) \<longrightarrow> cmp piv (zs ! k) = 0 \<or> zs ! k = piv"
  proof (intro allI impI)
    fix k assume k: "ptr + (i - lt) \<le> k \<and> k < ptr + (n - (gt - i))"
    have "k < ptr + i + (n - gt)" using k pb by linarith
    with k show "cmp piv (zs ! k) = 0 \<or> zs ! k = piv"
      using y2 z1 same2 unfolding E_def by (cases "k < ptr + i") simp_all
  qed
  moreover have "\<forall>k. ptr + (n - (gt - i)) \<le> k \<and> k < ptr + n \<longrightarrow> cmp piv (zs ! k) < 0"
    using z2 pb by auto
  ultimately show ?thesis by (rule that)
qed

end
