(* ===== verification/Rqsort_Correct.thy ===== *)
theory Rqsort_Correct
  imports Rqsort
begin

text \<open>
  Correctness of \<open>rqsort\<close>.  For every comparison function the sort returns, stays
  inside its array and its stack of fifty segments and permutes the elements
  (a comparison function is caller code, and JavaScript callers do pass
  inconsistent ones).  For a total preorder, the locale \<open>comparator\<close>, the
  result is sorted.
\<close>

section \<open>Comparison functions\<close>

locale comparator =
  fixes cmp :: "'a \<Rightarrow> 'a \<Rightarrow> int"
  assumes cmp_antisym: "cmp x y < 0 \<longleftrightarrow> cmp y x > 0"
    and cmp_trans: "cmp x y \<le> 0 \<Longrightarrow> cmp y z \<le> 0 \<Longrightarrow> cmp x z \<le> 0"
begin

lemma cmp_refl: "cmp x x = 0"
  using cmp_antisym [of x x] by linarith

lemma cmp_flip_eq: "cmp x y = 0 \<Longrightarrow> cmp y x = 0"
  using cmp_antisym [of x y] cmp_antisym [of y x] by linarith

lemma cmp_flip_pos: "cmp x y > 0 \<Longrightarrow> cmp y x \<le> 0"
  using cmp_antisym [of y x] by linarith

lemma cmp_flip_nonneg: "cmp x y \<ge> 0 \<Longrightarrow> cmp y x \<le> 0"
  using cmp_antisym [of x y] by linarith

end

definition sorted_seg :: "('a \<Rightarrow> 'a \<Rightarrow> int) \<Rightarrow> 'a list \<Rightarrow> nat \<Rightarrow> nat \<Rightarrow> bool" where
  "sorted_seg cmp xs p n \<longleftrightarrow> (\<forall>a b. p \<le> a \<and> a < b \<and> b < p + n \<longrightarrow> cmp (xs ! a) (xs ! b) \<le> 0)"

section \<open>Insertion sort\<close>

lemma insert_down_perm:
  assumes "ptr + k < length xs"
  shows "\<exists>ys. insert_down cmp xs ptr k = Some ys \<and> seg_perm ptr (Suc k) xs ys"
  using assms
proof (induction k arbitrary: xs)
  case 0
  then show ?case by (simp add: seg_perm_refl)
next
  case (Suc k)
  show ?case
  proof (cases "cmp (xs ! (ptr + k)) (xs ! (ptr + Suc k)) > 0")
    case True
    let ?ys = "xs[ptr + Suc k := xs ! (ptr + k), ptr + k := xs ! (ptr + Suc k)]"
    have sp: "seg_perm ptr (Suc (Suc k)) xs ?ys" using Suc.prems by (intro seg_perm_swap) auto
    obtain zs where zs: "insert_down cmp ?ys ptr k = Some zs" "seg_perm ptr (Suc k) ?ys zs"
      using Suc.IH [of ?ys] Suc.prems by auto
    have "seg_perm ptr (Suc (Suc k)) ?ys zs" by (rule seg_perm_mono [OF zs(2)]) (use Suc.prems in auto)
    with sp have "seg_perm ptr (Suc (Suc k)) xs zs" by (rule seg_perm_trans)
    with True zs(1) Suc.prems show ?thesis by simp
  next
    case False
    with Suc.prems show ?thesis by (simp add: seg_perm_refl)
  qed
qed

lemma insertion_loop_perm:
  assumes "ptr + n \<le> length xs" and "1 \<le> k"
  shows "\<exists>ys. insertion_loop cmp xs ptr k n = Some ys \<and> seg_perm ptr n xs ys"
  using assms
proof (induction cmp xs ptr k n rule: insertion_loop.induct)
  case (1 cmp xs ptr k n)
  show ?case
  proof (cases "k < n")
    case True
    obtain ys where ys: "insert_down cmp xs ptr k = Some ys" "seg_perm ptr (Suc k) xs ys"
      using insert_down_perm [of ptr k xs cmp] True "1.prems" by auto
    have sp: "seg_perm ptr n xs ys" by (rule seg_perm_mono [OF ys(2)]) (use True "1.prems" in auto)
    with "1.IH" [OF True ys(1)] "1.prems" obtain zs where
      "insertion_loop cmp ys ptr (Suc k) n = Some zs" "seg_perm ptr n ys zs"
      using seg_perm_length [OF sp] by auto
    with True ys(1) sp show ?thesis
      by (subst insertion_loop.simps) (auto intro: seg_perm_trans)
  next
    case False
    with "1.prems" show ?thesis by (subst insertion_loop.simps) (simp add: seg_perm_refl)
  qed
qed

context comparator
begin

text \<open>While an element moves down from \<open>ptr + k\<close>, only the pairs that end in it may be out of order.\<close>

lemma insert_down_sorts:
  assumes "ptr + K \<le> length xs" and "k < K"
    and "\<forall>a b. ptr \<le> a \<and> a < b \<and> b < ptr + K \<and> b \<noteq> ptr + k \<longrightarrow> cmp (xs ! a) (xs ! b) \<le> 0"
    and "insert_down cmp xs ptr k = Some ys"
  shows "sorted_seg cmp ys ptr K"
  using assms
proof (induction k arbitrary: xs)
  case 0
  then show ?case by (auto simp: sorted_seg_def)
next
  case (Suc k)
  let ?x = "xs ! (ptr + k)" and ?y = "xs ! (ptr + Suc k)"
  have lt: "ptr + k < length xs" "ptr + Suc k < length xs" using Suc.prems by auto
  show ?case
  proof (cases "cmp ?x ?y > 0")
    case True
    define zs where "zs = xs[ptr + Suc k := ?x, ptr + k := ?y]"
    have nth: "zs ! m = (if m = ptr + k then ?y else if m = ptr + Suc k then ?x else xs ! m)" for m
      using lt by (auto simp: zs_def nth_list_update)
    have inv: "cmp (zs ! a) (zs ! b) \<le> 0" if "ptr \<le> a" "a < b" "b < ptr + K" "b \<noteq> ptr + k" for a b
    proof (cases "b = ptr + Suc k")
      case True
      then show ?thesis using that Suc.prems(2,3) cmp_flip_pos [OF \<open>cmp ?x ?y > 0\<close>]
        by (cases "a = ptr + k") (simp_all add: nth)
    next
      case False
      then show ?thesis using that Suc.prems(2,3) by (cases "a = ptr + k"; cases "a = ptr + Suc k") (simp_all add: nth)
    qed
    show ?thesis
      using Suc.IH [of zs] inv Suc.prems True lt by (simp add: zs_def)
  next
    case False
    then have ys: "ys = xs" using Suc.prems lt by simp
    have "cmp (xs ! a) (xs ! b) \<le> 0" if "ptr \<le> a" "a < b" "b < ptr + K" for a b
    proof (cases "b = ptr + Suc k")
      case True
      have "a = ptr + k \<or> cmp (xs ! a) ?x \<le> 0"
        using Suc.prems(2,3) that True by (cases "a < ptr + k") auto
      with False True show ?thesis by (metis cmp_trans not_less)
    next
      case False
      with that Suc.prems(3) show ?thesis by blast
    qed
    then show ?thesis by (auto simp: sorted_seg_def ys)
  qed
qed

lemma insertion_loop_sorts:
  assumes "ptr + n \<le> length xs" and "k \<le> n" and "sorted_seg cmp xs ptr k"
    and "insertion_loop cmp xs ptr k n = Some ys"
  shows "sorted_seg cmp ys ptr n"
  using assms
proof (induction "n - k" arbitrary: xs k)
  case 0
  then show ?case by (simp add: insertion_loop.simps [of cmp xs ptr k k])
next
  case (Suc m)
  then have k: "k < n" by simp
  with Suc.prems(1) obtain zs where zs: "insert_down cmp xs ptr k = Some zs" "seg_perm ptr (Suc k) xs zs"
    using insert_down_perm [of ptr k xs cmp] by auto
  have "sorted_seg cmp zs ptr (Suc k)"
    using Suc.prems(1,3) k zs(1)
    by (intro insert_down_sorts [of ptr "Suc k" xs k]) (auto simp: sorted_seg_def)
  moreover have "insertion_loop cmp zs ptr (Suc k) n = Some ys"
    using Suc.prems(4) k zs(1) by (subst (asm) insertion_loop.simps) simp
  ultimately show ?case
    using Suc.hyps(1) [of "Suc k" zs] Suc.hyps(2) Suc.prems(1) k seg_perm_length [OF zs(2)] by simp
qed

end

section \<open>Heap sort\<close>

definition parent :: "nat \<Rightarrow> nat" where
  "parent c = (c - 1) div 2"

text \<open>The child that the sift loop compares with, and the loop with its accesses in bounds.\<close>

definition sift_child :: "('a \<Rightarrow> 'a \<Rightarrow> int) \<Rightarrow> 'a list \<Rightarrow> nat \<Rightarrow> nat \<Rightarrow> nat \<Rightarrow> nat" where
  "sift_child cmp xs base r n =
     (if 2 * r + 2 < n \<and> cmp (xs ! (base + (2 * r + 1))) (xs ! (base + (2 * r + 2))) \<le> 0
      then 2 * r + 2 else 2 * r + 1)"

lemma sift_child_bounds: "2 * r + 1 < n \<Longrightarrow> r < sift_child cmp xs base r n \<and> sift_child cmp xs base r n < n"
  by (simp add: sift_child_def)

lemma parent_sift_child: "parent (sift_child cmp xs base r n) = r"
  by (simp add: sift_child_def parent_def)

lemma sift_leaf: "\<not> 2 * r + 1 < n \<Longrightarrow> sift cmp xs base r n = Some xs"
  by (subst sift.simps) (simp add: mult.commute)

lemma sift_unfold:
  assumes "base + n \<le> length xs" and "2 * r + 1 < n" and "c = sift_child cmp xs base r n"
  shows "sift cmp xs base r n =
     (if cmp (xs ! (base + r)) (xs ! (base + c)) > 0 then Some xs
      else sift cmp (xs[base + r := xs ! (base + c), base + c := xs ! (base + r)]) base c n)"
proof -
  have child: "(if r * 2 + 1 < n - 1
       then map_option (\<lambda>x. if x \<le> 0 then r * 2 + 1 + 1 else r * 2 + 1)
              (cmp_at cmp xs (base + (r * 2 + 1)) (base + (r * 2 + 1) + 1))
       else Some (r * 2 + 1)) = Some c"
    using assms by (auto simp: cmp_at_def sift_child_def mult.commute add.assoc)
  have c: "r < c" "c < n" using sift_child_bounds [OF assms(2), of cmp xs base] assms(3) by simp_all
  have "cmp_at cmp xs (base + r) (base + c) = Some (cmp (xs ! (base + r)) (xs ! (base + c)))"
    "swap_at xs (base + r) (base + c) = Some (xs[base + r := xs ! (base + c), base + c := xs ! (base + r)])"
    using assms(1) c by (simp_all add: cmp_at_def swap_at_def)
  then show ?thesis
    unfolding sift.simps [of cmp xs base r n] Let_def child using assms(2) by simp
qed

lemma sift_perm:
  assumes "base + n \<le> length xs"
  shows "\<exists>ys. sift cmp xs base r n = Some ys \<and> seg_perm base n xs ys"
  using assms
proof (induction "n - r" arbitrary: xs r rule: less_induct)
  case less
  show ?case
  proof (cases "2 * r + 1 < n")
    case False
    with less.prems show ?thesis by (simp add: sift_leaf seg_perm_refl)
  next
    case True
    define c where "c = sift_child cmp xs base r n"
    define ys where "ys = xs[base + r := xs ! (base + c), base + c := xs ! (base + r)]"
    have c: "r < c" "c < n" using True sift_child_bounds [of r n cmp xs base] by (auto simp: c_def)
    have sp: "seg_perm base n xs ys" unfolding ys_def using less.prems c by (intro seg_perm_swap) auto
    have "n - c < n - r" using c by linarith
    with sp obtain zs where "sift cmp ys base c n = Some zs" "seg_perm base n xs zs"
      using less.hyps [of c ys] less.prems seg_perm_length [OF sp] by (auto intro: seg_perm_trans)
    then show ?thesis
      using sift_unfold [OF less.prems True c_def] seg_perm_refl [OF less.prems] by (auto simp: ys_def)
  qed
qed

lemma heapify_perm:
  assumes "base + n \<le> length xs"
  shows "\<exists>ys. heapify cmp xs base i n = Some ys \<and> seg_perm base n xs ys"
  using assms
proof (induction i arbitrary: xs)
  case (Suc i)
  obtain ys where ys: "sift cmp xs base i n = Some ys" "seg_perm base n xs ys"
    using sift_perm [OF Suc.prems] by blast
  with Suc.IH [of ys] Suc.prems seg_perm_length [OF ys(2)] show ?case by (auto intro: seg_perm_trans)
qed (simp add: seg_perm_refl)

lemma heap_extract_perm:
  assumes "base + n \<le> length xs" and "i < n"
  shows "\<exists>ys. heap_extract cmp xs base i = Some ys \<and> seg_perm base n xs ys"
  using assms
proof (induction i arbitrary: xs)
  case (Suc i)
  define ys where "ys = xs[base := xs ! (base + Suc i), base + Suc i := xs ! base]"
  have sw: "swap_at xs base (base + Suc i) = Some ys" using Suc.prems by (simp add: swap_at_def ys_def)
  have s1: "seg_perm base n xs ys" unfolding ys_def using Suc.prems by (intro seg_perm_swap) auto
  obtain zs where zs: "sift cmp ys base 0 (Suc i) = Some zs" "seg_perm base (Suc i) ys zs"
    using sift_perm [of base "Suc i" ys cmp 0] Suc.prems seg_perm_length [OF s1] by auto
  have s2: "seg_perm base n ys zs"
    by (rule seg_perm_mono [OF zs(2)]) (use Suc.prems seg_perm_length [OF s1] in auto)
  have "seg_perm base n xs zs" using s1 s2 by (rule seg_perm_trans)
  moreover obtain us where "heap_extract cmp zs base i = Some us" "seg_perm base n zs us"
    using Suc.IH [of zs] Suc.prems seg_perm_length [OF s1] seg_perm_length [OF s2] by auto
  ultimately show ?case using sw zs(1) by (auto intro: seg_perm_trans)
qed (simp add: seg_perm_refl)

lemma heapsortx_perm:
  assumes "base + n \<le> length xs"
  shows "\<exists>ys. heapsortx cmp xs base n = Some ys \<and> seg_perm base n xs ys"
proof (cases "n > 1")
  case True
  obtain ys where ys: "heapify cmp xs base (n div 2) n = Some ys" "seg_perm base n xs ys"
    using heapify_perm [OF assms] by blast
  then show ?thesis
    using heap_extract_perm [of base n ys "n - 1" cmp] assms True seg_perm_length [OF ys(2)]
    by (auto simp: heapsortx_def intro: seg_perm_trans)
qed (use assms in \<open>simp add: heapsortx_def seg_perm_refl\<close>)

text \<open>
  The heap order on the edges whose parent is at least \<open>lo\<close>; while a value sifts
  down from \<open>r\<close>, the edges out of \<open>r\<close> are open, but its children are below its parent.
\<close>

definition heap_from :: "('a \<Rightarrow> 'a \<Rightarrow> int) \<Rightarrow> 'a list \<Rightarrow> nat \<Rightarrow> nat \<Rightarrow> nat \<Rightarrow> bool" where
  "heap_from cmp xs base lo n \<longleftrightarrow>
     (\<forall>c. 0 < c \<and> c < n \<and> lo \<le> parent c \<longrightarrow> cmp (xs ! (base + c)) (xs ! (base + parent c)) \<le> 0)"

definition sift_inv :: "('a \<Rightarrow> 'a \<Rightarrow> int) \<Rightarrow> 'a list \<Rightarrow> nat \<Rightarrow> nat \<Rightarrow> nat \<Rightarrow> nat \<Rightarrow> bool" where
  "sift_inv cmp xs base lo r n \<longleftrightarrow>
     (\<forall>c. 0 < c \<and> c < n \<and> lo \<le> parent c \<and> parent c \<noteq> r \<longrightarrow> cmp (xs ! (base + c)) (xs ! (base + parent c)) \<le> 0) \<and>
     (\<forall>c. 0 < c \<and> c < n \<and> parent c = r \<and> 0 < r \<and> lo \<le> parent r \<longrightarrow> cmp (xs ! (base + c)) (xs ! (base + parent r)) \<le> 0)"

lemma parent_eqD: "parent c = r \<Longrightarrow> 0 < c \<Longrightarrow> c = 2 * r + 1 \<or> c = 2 * r + 2"
  unfolding parent_def by presburger

lemma parent_less: "0 < c \<Longrightarrow> parent c < c"
  unfolding parent_def by presburger

context comparator
begin

lemma sift_child_max:
  assumes "parent d = r" "0 < d" "d < n" "c = sift_child cmp xs base r n"
  shows "cmp (xs ! (base + d)) (xs ! (base + c)) \<le> 0"
proof -
  let ?l = "xs ! (base + (2 * r + 1))" and ?r = "xs ! (base + (2 * r + 2))"
  show ?thesis
    using parent_eqD [OF assms(1,2)] assms(3,4) cmp_refl [of ?l] cmp_refl [of ?r] cmp_flip_pos [of ?l ?r]
    by (auto simp: sift_child_def split: if_splits)
qed

lemma sift_inv_step:
  assumes inv: "sift_inv cmp xs base lo r n" and "lo \<le> r" "2 * r + 1 < n" "base + n \<le> length xs"
    and c: "c = sift_child cmp xs base r n" and le: "cmp (xs ! (base + r)) (xs ! (base + c)) \<le> 0"
    and ys: "ys = xs[base + r := xs ! (base + c), base + c := xs ! (base + r)]"
  shows "sift_inv cmp ys base lo c n"
proof -
  have cb: "r < c" "c < n" "parent c = r"
    using sift_child_bounds [OF assms(3), of cmp xs base] by (simp_all add: c parent_sift_child)
  have nth: "ys ! (base + m) = (if m = r then xs ! (base + c) else if m = c then xs ! (base + r) else xs ! (base + m))"
    if "m < n" for m using that assms(4) cb by (simp add: ys nth_list_update)
  have 1: "cmp (ys ! (base + d)) (ys ! (base + parent d)) \<le> 0"
    if d: "0 < d" "d < n" "lo \<le> parent d" "parent d \<noteq> c" for d
  proof -
    have p: "parent d < d" using parent_less [OF d(1)] .
    consider "parent d = r" | "d = r" | "parent d \<noteq> r" "d \<noteq> r" by blast
    then show ?thesis
    proof cases
      case 1
      with sift_child_max [OF 1 d(1,2) c] le d p cb show ?thesis by (simp add: nth)
    next
      case 2
      with inv cb d have "cmp (xs ! (base + c)) (xs ! (base + parent d)) \<le> 0"
        by (simp add: sift_inv_def)
      with 2 d p cb show ?thesis by (simp add: nth)
    next
      case 3
      with inv d have "cmp (xs ! (base + d)) (xs ! (base + parent d)) \<le> 0" by (simp add: sift_inv_def)
      with 3 d p cb show ?thesis by (auto simp: nth)
    qed
  qed
  have 2: "cmp (ys ! (base + d)) (ys ! (base + parent c)) \<le> 0" if d: "0 < d" "d < n" "parent d = c" for d
  proof -
    have "c < d" using parent_less [OF d(1)] d(3) by simp
    moreover have "cmp (xs ! (base + d)) (xs ! (base + c)) \<le> 0"
      using inv d cb assms(2) by (auto simp: sift_inv_def)
    ultimately show ?thesis using cb d by (simp add: nth)
  qed
  show ?thesis using 1 2 unfolding sift_inv_def by blast
qed

lemma sift_heap:
  assumes "sift_inv cmp xs base lo r n" and "lo \<le> r" "base + n \<le> length xs"
    and "sift cmp xs base r n = Some ys"
  shows "heap_from cmp ys base lo n"
  using assms
proof (induction "n - r" arbitrary: xs r rule: less_induct)
  case less
  show ?case
  proof (cases "2 * r + 1 < n")
    case False
    then have "parent d \<noteq> r" if "0 < d" "d < n" for d using parent_eqD [of d r] that by auto
    moreover have "ys = xs" using False less.prems(4) by (simp add: sift_leaf)
    ultimately show ?thesis using less.prems(1) by (simp add: heap_from_def sift_inv_def)
  next
    case True
    define c where "c = sift_child cmp xs base r n"
    define zs where "zs = xs[base + r := xs ! (base + c), base + c := xs ! (base + r)]"
    have cb: "r < c" "c < n" using sift_child_bounds [OF True, of cmp xs base] by (simp_all add: c_def)
    note unfold = sift_unfold [OF less.prems(3) True c_def]
    show ?thesis
    proof (cases "cmp (xs ! (base + r)) (xs ! (base + c)) > 0")
      case True
      then have "ys = xs" using less.prems(4) unfold by simp
      moreover have "cmp (xs ! (base + d)) (xs ! (base + parent d)) \<le> 0" if "0 < d" "d < n" "lo \<le> parent d" for d
      proof (cases "parent d = r")
        case True
        show ?thesis
          using sift_child_max [OF True that(1,2) c_def] cmp_flip_pos [OF \<open>cmp (xs ! (base + r)) (xs ! (base + c)) > 0\<close>]
          unfolding True by (rule cmp_trans)
      next
        case False
        with that less.prems(1) show ?thesis by (simp add: sift_inv_def)
      qed
      ultimately show ?thesis by (simp add: heap_from_def)
    next
      case False
      then have "cmp (xs ! (base + r)) (xs ! (base + c)) \<le> 0" by simp
      then have "sift_inv cmp zs base lo c n"
        by (rule sift_inv_step [OF less.prems(1,2) \<open>2 * r + 1 < n\<close> less.prems(3) c_def _ zs_def])
      moreover have "sift cmp zs base c n = Some ys" using less.prems(4) unfold False by (simp add: zs_def)
      ultimately show ?thesis
        using less.hyps [of c zs] less.prems(2,3) cb diff_less_mono2 [OF cb(1), of n] by (simp add: zs_def)
    qed
  qed
qed

lemma heapify_heap:
  assumes "base + n \<le> length xs" and "heap_from cmp xs base i n"
    and "heapify cmp xs base i n = Some ys"
  shows "heap_from cmp ys base 0 n"
  using assms
proof (induction i arbitrary: xs)
  case (Suc i)
  obtain zs where zs: "sift cmp xs base i n = Some zs" "seg_perm base n xs zs"
    using sift_perm [OF Suc.prems(1)] by blast
  have "sift_inv cmp xs base i i n"
    using Suc.prems(2) parent_less [of i] unfolding heap_from_def sift_inv_def
    by (auto simp: Suc_le_eq)
  then have "heap_from cmp zs base i n"
    using sift_heap [OF _ _ Suc.prems(1) zs(1)] by simp
  with Suc.IH [of zs] Suc.prems zs seg_perm_length [OF zs(2)] show ?case by simp
qed simp

lemma heap_root_max:
  assumes "heap_from cmp xs base 0 n" and "c < n"
  shows "cmp (xs ! (base + c)) (xs ! base) \<le> 0"
  using assms(2)
proof (induction c rule: less_induct)
  case (less c)
  show ?case
  proof (cases "c = 0")
    case False
    then have "cmp (xs ! (base + c)) (xs ! (base + parent c)) \<le> 0" "parent c < c"
      using assms(1) less.prems parent_less by (auto simp: heap_from_def)
    with less show ?thesis by (meson cmp_trans less_trans)
  qed (simp add: cmp_refl)
qed

end

text \<open>Above the shrinking heap, every element is in its final place.\<close>

definition tail_sorted :: "('a \<Rightarrow> 'a \<Rightarrow> int) \<Rightarrow> 'a list \<Rightarrow> nat \<Rightarrow> nat \<Rightarrow> nat \<Rightarrow> bool" where
  "tail_sorted cmp xs base k n \<longleftrightarrow>
     (\<forall>a b. a < b \<and> b < n \<and> k < b \<longrightarrow> cmp (xs ! (base + a)) (xs ! (base + b)) \<le> 0)"

context comparator
begin

lemma tail_sorted_step:
  assumes "heap_from cmp xs base 0 (Suc (Suc i))" and "tail_sorted cmp xs base (Suc i) n"
    and "seg_perm base (Suc (Suc i)) xs zs" and "zs ! (base + Suc i) = xs ! base" and "base + n \<le> length xs"
  shows "tail_sorted cmp zs base i n"
  unfolding tail_sorted_def
proof (intro allI impI)
  fix a b assume ab: "a < b \<and> b < n \<and> i < b"
  have out: "zs ! (base + m) = xs ! (base + m)" if "Suc i < m" "m < n" for m
    using seg_perm_outside [OF assms(3), of "base + m"] that assms(5) by simp
  have elem: "\<exists>j < Suc (Suc i). zs ! (base + a) = xs ! (base + j)" if a: "a < Suc (Suc i)"
  proof -
    obtain j where "base \<le> j" "j < base + Suc (Suc i)" "zs ! (base + a) = xs ! j"
      by (rule seg_perm_elem [OF assms(3), of "base + a"]) (use a in auto)
    then show ?thesis by (intro exI [of _ "j - base"]) auto
  qed
  show "cmp (zs ! (base + a)) (zs ! (base + b)) \<le> 0"
  proof (cases "b = Suc i")
    case True
    with elem ab obtain j where "j < Suc (Suc i)" "zs ! (base + a) = xs ! (base + j)" by auto
    with True assms(4) heap_root_max [OF assms(1)] show ?thesis by simp
  next
    case False
    have "\<exists>j < b. zs ! (base + a) = xs ! (base + j)"
    proof (cases "a < Suc (Suc i)")
      case True
      from elem [OF True] obtain j where "j < Suc (Suc i)" "zs ! (base + a) = xs ! (base + j)" by blast
      then show ?thesis using ab False by (intro exI [of _ j]) auto
    next
      case False
      then show ?thesis using out [of a] ab by auto
    qed
    then obtain j where "j < b" "zs ! (base + a) = xs ! (base + j)" by blast
    with False ab out [of b] assms(2) show ?thesis by (simp add: tail_sorted_def)
  qed
qed

lemma heap_extract_sorts:
  assumes "base + n \<le> length xs" and "i < n" and "heap_from cmp xs base 0 (Suc i)"
    and "tail_sorted cmp xs base i n" and "heap_extract cmp xs base i = Some us"
  shows "sorted_seg cmp us base n"
  using assms
proof (induction i arbitrary: xs)
  case 0
  then have us: "us = xs" by simp
  show ?case
    unfolding sorted_seg_def us
  proof (intro allI impI)
    fix a b assume "base \<le> a \<and> a < b \<and> b < base + n"
    moreover from this have "a - base < b - base" "b - base < n" "0 < b - base" by auto
    with 0(4) have "cmp (xs ! (base + (a - base))) (xs ! (base + (b - base))) \<le> 0"
      unfolding tail_sorted_def by blast
    ultimately show "cmp (xs ! a) (xs ! b) \<le> 0" by simp
  qed
next
  case (Suc i)
  define ys where "ys = xs[base := xs ! (base + Suc i), base + Suc i := xs ! base]"
  have sw: "swap_at xs base (base + Suc i) = Some ys" using Suc.prems by (simp add: swap_at_def ys_def)
  have s1: "seg_perm base (Suc (Suc i)) xs ys" unfolding ys_def using Suc.prems by (intro seg_perm_swap) auto
  have ly: "length ys = length xs" by (simp add: ys_def)
  obtain zs where zs: "sift cmp ys base 0 (Suc i) = Some zs" "seg_perm base (Suc i) ys zs"
    using sift_perm [of base "Suc i" ys cmp 0] Suc.prems ly by auto
  have s2: "seg_perm base (Suc (Suc i)) ys zs"
    by (rule seg_perm_mono [OF zs(2)]) (use Suc.prems ly in auto)
  have lz: "length zs = length xs" using seg_perm_length [OF s2] ly by simp
  have "cmp (ys ! (base + c)) (ys ! (base + parent c)) \<le> 0" if "0 < c" "c < Suc i" "parent c \<noteq> 0" for c
    using Suc.prems(1,2,3) that parent_less [OF that(1)] by (simp add: heap_from_def ys_def)
  then have "sift_inv cmp ys base 0 0 (Suc i)" by (simp add: sift_inv_def)
  then have h: "heap_from cmp zs base 0 (Suc i)"
    using sift_heap [OF _ _ _ zs(1)] Suc.prems(1,2) ly by simp
  have "zs ! (base + Suc i) = xs ! base"
    using seg_perm_outside [OF zs(2), of "base + Suc i"] Suc.prems(1,2) ly by (simp add: ys_def)
  then have t: "tail_sorted cmp zs base i n"
    using tail_sorted_step [OF Suc.prems(3,4) seg_perm_trans [OF s1 s2]] Suc.prems(1) by simp
  have e: "heap_extract cmp zs base i = Some us" using Suc.prems(5) sw zs(1) by simp
  show ?case by (rule Suc.IH [OF _ _ h t e]) (use Suc.prems(1,2) lz in auto)
qed

lemma heapsortx_sorts:
  assumes "base + n \<le> length xs" and "heapsortx cmp xs base n = Some ys"
  shows "sorted_seg cmp ys base n"
proof (cases "n > 1")
  case True
  obtain zs where zs: "heapify cmp xs base (n div 2) n = Some zs" "seg_perm base n xs zs"
    using heapify_perm [OF assms(1)] by blast
  have "heap_from cmp xs base (n div 2) n"
    unfolding heap_from_def parent_def by auto
  then have "heap_from cmp zs base 0 n" using heapify_heap [OF assms(1) _ zs(1)] by simp
  moreover have "tail_sorted cmp zs base (n - 1) n" by (auto simp: tail_sorted_def)
  ultimately show ?thesis
    using heap_extract_sorts [of base n zs "n - 1" ys] assms True zs seg_perm_length [OF zs(2)]
    by (simp add: heapsortx_def)
qed (use assms in \<open>auto simp: sorted_seg_def\<close>)

end

section \<open>The driver\<close>

text \<open>
  Blocks still to be sorted, as base and count: they lie apart, and every pair of
  positions outside a common block is in order.
\<close>

type_synonym block = "nat \<times> nat"

fun apart :: "block list \<Rightarrow> bool" where
  "apart [] \<longleftrightarrow> True"
| "apart ((p, n) # bs) \<longleftrightarrow> (\<forall>(q, m) \<in> set bs. p + n \<le> q \<or> q + m \<le> p) \<and> apart bs"

definition in_block :: "nat \<Rightarrow> nat \<Rightarrow> block \<Rightarrow> bool" where
  "in_block a b B = (case B of (p, n) \<Rightarrow> p \<le> a \<and> b < p + n)"

definition pending :: "('a \<Rightarrow> 'a \<Rightarrow> int) \<Rightarrow> 'a list \<Rightarrow> block list \<Rightarrow> bool" where
  "pending cmp xs bs \<longleftrightarrow>
     (\<forall>a b. a < b \<and> b < length xs \<longrightarrow> (\<exists>B \<in> set bs. in_block a b B) \<or> cmp (xs ! a) (xs ! b) \<le> 0)"

text \<open>Working inside one block: a permutation of it that orders all pairs but those in the blocks \<open>nb\<close>.\<close>

lemma pending_refine:
  assumes pen: "pending cmp xs ((p, n) # bs)" and ap: "apart ((p, n) # bs)" and sp: "seg_perm p n xs ys"
    and loc: "\<forall>a b. p \<le> a \<and> a < b \<and> b < p + n \<longrightarrow> (\<exists>B \<in> set nb. in_block a b B) \<or> cmp (ys ! a) (ys ! b) \<le> 0"
  shows "pending cmp ys (nb @ bs)"
  unfolding pending_def
proof (intro allI impI)
  fix a b assume ab: "a < b \<and> b < length ys"
  let ?in = "\<lambda>k. p \<le> k \<and> k < p + n"
  have len: "length ys = length xs" "p + n \<le> length xs" using sp by (auto simp: seg_perm_def)
  have old: "(\<exists>B \<in> set bs. in_block a' b' B) \<or> cmp (xs ! a') (xs ! b') \<le> 0"
    if "a' < b'" "b' < length xs" "\<not> (?in a' \<and> ?in b')" for a' b'
  proof -
    have "\<not> in_block a' b' (p, n)" using that by (auto simp: in_block_def)
    with pen that show ?thesis unfolding pending_def by (metis set_ConsD)
  qed
  have no: "\<not> (\<exists>B \<in> set bs. in_block a' b' B)" if "a' < b'" "?in a' \<or> ?in b'" for a' b'
    using ap that by (fastforce simp: in_block_def)
  have same: "ys ! k = xs ! k" if "k < length xs" "\<not> ?in k" for k
    using seg_perm_outside [OF sp that(1)] that(2) by auto
  consider "?in a" "?in b" | "?in a" "\<not> ?in b" | "\<not> ?in a" "?in b" | "\<not> ?in a" "\<not> ?in b" by blast
  then show "(\<exists>B \<in> set (nb @ bs). in_block a b B) \<or> cmp (ys ! a) (ys ! b) \<le> 0"
  proof cases
    case 1
    with loc ab show ?thesis by auto
  next
    case 2
    obtain k where k: "p \<le> k" "k < p + n" "ys ! a = xs ! k"
      by (rule seg_perm_elem [OF sp, of a]) (use 2 in auto)
    have "k < b" using 2 k ab by auto
    with old [of k b] no [of k b] k 2 ab len same [of b] show ?thesis by auto
  next
    case 3
    obtain k where k: "p \<le> k" "k < p + n" "ys ! b = xs ! k"
      by (rule seg_perm_elem [OF sp, of b]) (use 3 in auto)
    have "a < k" using 3 k ab by auto
    with old [of a k] no [of a k] k 3 ab len same [of a] show ?thesis by auto
  next
    case 4
    with old [of a b] ab len same [of a] same [of b] show ?thesis by auto
  qed
qed

text \<open>
  The stack: every entry lies in the array and its depth is at least the number
  of entries below it, which bounds the stack by fifty.  The weight decreases
  from one pass of the outer loop to the next.
\<close>

fun stack_ok :: "nat \<Rightarrow> rq_entry list \<Rightarrow> bool" where
  "stack_ok N [] \<longleftrightarrow> True"
| "stack_ok N ((p, n, d) # s) \<longleftrightarrow> p + n \<le> N \<and> length s \<le> d \<and> stack_ok N s"

definition weight :: "rq_entry list \<Rightarrow> nat" where
  "weight stk = (\<Sum>(p, n, d) \<leftarrow> stk. n + 1)"

definition blocks :: "rq_entry list \<Rightarrow> block list" where
  "blocks stk = map (\<lambda>(p, n, d). (p, n)) stk"

lemma weight_simps [simp]: "weight [] = 0" "weight ((p, n, d) # s) = n + 1 + weight s"
  by (simp_all add: weight_def)

lemma blocks_simps [simp]: "blocks [] = []" "blocks ((p, n, d) # s) = (p, n) # blocks s"
  by (simp_all add: blocks_def)

lemma apart_split:
  assumes "apart ((p, n) # bs)" "l < g" "g \<le> n"
  shows "apart ((p, l) # (p + g, n - g) # bs)" "apart ((p + g, n - g) # (p, l) # bs)"
  using assms by fastforce+

lemma apart_shrink: "apart ((p, n) # bs) \<Longrightarrow> m \<le> n \<Longrightarrow> apart ((p, m) # bs)"
  by fastforce

context comparator
begin

lemma partition_local:
  assumes "lt < gt" "gt \<le> n"
    and lo: "\<forall>k. ptr \<le> k \<and> k < ptr + lt \<longrightarrow> cmp piv (ys ! k) > 0"
    and mid: "\<forall>k. ptr + lt \<le> k \<and> k < ptr + gt \<longrightarrow> cmp piv (ys ! k) = 0 \<or> ys ! k = piv"
    and hi: "\<forall>k. ptr + gt \<le> k \<and> k < ptr + n \<longrightarrow> cmp piv (ys ! k) < 0"
    and ab: "ptr \<le> a" "a < b" "b < ptr + n"
  shows "in_block a b (ptr, lt) \<or> in_block a b (ptr + gt, n - gt) \<or> cmp (ys ! a) (ys ! b) \<le> 0"
proof -
  have below: "cmp (ys ! k) piv \<le> 0" if "ptr \<le> k" "k < ptr + gt" for k
    using lo mid that cmp_flip_nonneg [of piv "ys ! k"] cmp_refl [of piv]
    by (cases "k < ptr + lt") (force simp: not_less)+
  have above: "cmp piv (ys ! k) \<le> 0" if "ptr + lt \<le> k" "k < ptr + n" for k
    using mid hi that cmp_refl [of piv] by (cases "k < ptr + gt") (force simp: not_less)+
  consider "b < ptr + lt" | "ptr + gt \<le> a" | "ptr + lt \<le> b" "a < ptr + gt" by linarith
  then show ?thesis
  proof cases
    case 3
    with below [of a] above [of b] ab show ?thesis using cmp_trans by blast
  qed (use ab assms(1,2) in \<open>auto simp: in_block_def\<close>)
qed

end

text \<open>What one pass over a segment establishes, for any comparison and for a total preorder.\<close>

definition segment_post where
  "segment_post cmp xs ptr n stk ys ptr' n' stk' \<longleftrightarrow>
     length ys = length xs \<and> mset ys = mset xs \<and> ptr' + n' \<le> length xs \<and>
     stack_ok (length xs) stk' \<and> n' + weight stk' \<le> n + weight stk \<and>
     (comparator cmp \<and> apart ((ptr, n) # blocks stk) \<and> pending cmp xs ((ptr, n) # blocks stk) \<longrightarrow>
      apart ((ptr', n') # blocks stk') \<and> pending cmp ys ((ptr', n') # blocks stk'))"

lemma segment_post_trans:
  assumes "segment_post cmp xs p n s ys p' n' s'" and "segment_post cmp ys p' n' s' zs p'' n'' s''"
  shows "segment_post cmp xs p n s zs p'' n'' s''"
  using assms unfolding segment_post_def by auto

lemma segment_post_heapsort:
  assumes "ptr + n \<le> length xs" and "stack_ok (length xs) stk"
    and "heapsortx cmp xs ptr n = Some ys" and sp: "seg_perm ptr n xs ys"
  shows "segment_post cmp xs ptr n stk ys ptr 0 stk"
proof -
  have "pending cmp ys ([(ptr, 0)] @ blocks stk)"
    if "comparator cmp" "apart ((ptr, n) # blocks stk)" "pending cmp xs ((ptr, n) # blocks stk)"
    using comparator.heapsortx_sorts [OF that(1) assms(1,3)]
    by (intro pending_refine [OF that(3,2) sp]) (auto simp: sorted_seg_def)
  then show ?thesis
    using sp assms(1,2) apart_shrink [of ptr n "blocks stk" 0] by (simp add: segment_post_def seg_perm_def)
qed

lemma segment_post_partition:
  assumes sp: "seg_perm ptr n xs ys" and g: "lt < gt" "gt \<le> n"
    and lo: "\<forall>k. ptr \<le> k \<and> k < ptr + lt \<longrightarrow> cmp piv (ys ! k) > 0"
    and mid: "\<forall>k. ptr + lt \<le> k \<and> k < ptr + gt \<longrightarrow> cmp piv (ys ! k) = 0 \<or> ys ! k = piv"
    and hi: "\<forall>k. ptr + gt \<le> k \<and> k < ptr + n \<longrightarrow> cmp piv (ys ! k) < 0"
    and ok: "stack_ok (length xs) stk" "length stk \<le> d"
  shows "segment_post cmp xs ptr n stk ys (ptr + gt) (n - gt) ((ptr, lt, d) # stk)"
    and "segment_post cmp xs ptr n stk ys ptr lt ((ptr + gt, n - gt, d) # stk)"
proof -
  have len: "length ys = length xs" "mset ys = mset xs" "ptr + n \<le> length xs"
    using sp by (auto simp: seg_perm_def)
  have pen: "pending cmp ys (nb @ blocks stk)"
    if "comparator cmp" "apart ((ptr, n) # blocks stk)" "pending cmp xs ((ptr, n) # blocks stk)"
      and nb: "set nb = {(ptr, lt), (ptr + gt, n - gt)}" for nb
  proof (rule pending_refine [OF that(3,2) sp], intro allI impI)
    fix a b assume "ptr \<le> a \<and> a < b \<and> b < ptr + n"
    with comparator.partition_local [OF that(1) g lo mid hi, of a b] nb
    show "(\<exists>B \<in> set nb. in_block a b B) \<or> cmp (ys ! a) (ys ! b) \<le> 0" by auto
  qed
  show "segment_post cmp xs ptr n stk ys (ptr + gt) (n - gt) ((ptr, lt, d) # stk)"
    using len g ok pen [of "[(ptr + gt, n - gt), (ptr, lt)]"] apart_split(2) [OF _ g, of ptr "blocks stk"]
    by (simp add: segment_post_def insert_commute)
  show "segment_post cmp xs ptr n stk ys ptr lt ((ptr + gt, n - gt, d) # stk)"
    using len g ok pen [of "[(ptr, lt), (ptr + gt, n - gt)]"] apart_split(1) [OF _ g, of ptr "blocks stk"]
    by (simp add: segment_post_def)
qed

lemma rq_segment_ok:
  assumes "ptr + n \<le> length xs" and "stack_ok (length xs) stk" and "length stk \<le> depth"
  shows "\<exists>ys ptr' n' stk'. rq_segment cmp xs ptr n depth stk = Some (ys, ptr', n', stk') \<and>
     segment_post cmp xs ptr n stk ys ptr' n' stk'"
  using assms
proof (induction "50 - depth" arbitrary: xs ptr n depth stk rule: less_induct)
  case less
  consider "n \<le> 6" | "n > 6" "depth \<ge> 50" | "n > 6" "depth < 50" by linarith
  then show ?case
  proof cases
    case 1
    then show ?thesis
      using less.prems by (simp add: rq_segment.simps [of cmp xs ptr n] segment_post_def)
  next
    case 2
    obtain ys where ys: "heapsortx cmp xs ptr n = Some ys" "seg_perm ptr n xs ys"
      using heapsortx_perm [OF less.prems(1)] by blast
    with 2 segment_post_heapsort [OF less.prems(1,2) ys] show ?thesis
      by (simp add: rq_segment.simps [of cmp xs ptr n])
  next
    case 3
    obtain ys lt gt piv where part: "rq_partition cmp xs ptr n = Some (ys, lt, gt)"
      and facts: "seg_perm ptr n xs ys" "lt < gt" "gt \<le> n"
      "\<forall>k. ptr \<le> k \<and> k < ptr + lt \<longrightarrow> cmp piv (ys ! k) > 0"
      "\<forall>k. ptr + lt \<le> k \<and> k < ptr + gt \<longrightarrow> cmp piv (ys ! k) = 0 \<or> ys ! k = piv"
      "\<forall>k. ptr + gt \<le> k \<and> k < ptr + n \<longrightarrow> cmp piv (ys ! k) < 0"
      by (rule rq_partition_ok [of n ptr xs cmp]) (use 3 less.prems in auto)
    have "length stk \<le> depth + 1" using less.prems(3) by simp
    note post = segment_post_partition [of ptr n xs ys lt gt cmp piv stk "depth + 1", OF facts less.prems(2) this]
    have push: "rq_push e stk = Some (e # stk)" for e using less.prems(3) 3 by (simp add: rq_push_def)
    define cont where "cont = (if lt > n - gt then (ptr + gt, n - gt, (ptr, lt, depth + 1) # stk)
      else (ptr, lt, (ptr + gt, n - gt, depth + 1) # stk))"
    obtain p1 n1 s1 where cont: "cont = (p1, n1, s1)" by (cases cont)
    have e: "rq_segment cmp xs ptr n depth stk = rq_segment cmp ys p1 n1 (depth + 1) s1"
      using 3 part push cont unfolding rq_segment.simps [of cmp xs ptr n] cont_def
      by (cases "lt > n - gt") auto
    have p: "segment_post cmp xs ptr n stk ys p1 n1 s1"
      using post cont unfolding cont_def by (cases "lt > n - gt") auto
    have "length s1 \<le> depth + 1"
      using cont less.prems(3) unfolding cont_def by (cases "lt > n - gt") auto
    moreover have "p1 + n1 \<le> length ys" "stack_ok (length ys) s1" using p by (auto simp: segment_post_def)
    moreover have "50 - (depth + 1) < 50 - depth" using 3 by simp
    ultimately obtain zs p2 n2 s2 where "rq_segment cmp ys p1 n1 (depth + 1) s1 = Some (zs, p2, n2, s2)"
      "segment_post cmp ys p1 n1 s1 zs p2 n2 s2"
      using less.hyps [of "depth + 1" p1 n1 ys s1] by blast
    with e segment_post_trans [OF p] show ?thesis by auto
  qed
qed

text \<open>The outer loop, by the weight of the stack.\<close>

lemma rq_loop_ok:
  assumes "stack_ok (length xs) stk"
  shows "\<exists>ys. rq_loop cmp xs stk = Some ys \<and> mset ys = mset xs \<and>
     (comparator cmp \<and> apart (blocks stk) \<and> pending cmp xs (blocks stk) \<longrightarrow> pending cmp ys [])"
  using assms
proof (induction "weight stk" arbitrary: xs stk rule: less_induct)
  case less
  show ?case
  proof (cases stk)
    case Nil
    then show ?thesis by (simp add: rq_loop.simps)
  next
    case (Cons e stk0)
    obtain p n d where e: "e = (p, n, d)" by (cases e)
    obtain ys p1 n1 stk1 where seg: "rq_segment cmp xs p n d stk0 = Some (ys, p1, n1, stk1)"
      and post: "segment_post cmp xs p n stk0 ys p1 n1 stk1"
      using rq_segment_ok [of p n xs stk0 d cmp] less.prems Cons e by auto
    have py: "p1 + n1 \<le> length ys" "length ys = length xs" using post by (auto simp: segment_post_def)
    obtain zs where ins: "insertion_loop cmp ys p1 1 n1 = Some zs" and sp: "seg_perm p1 n1 ys zs"
      using insertion_loop_perm [OF py(1), of 1 cmp] by auto
    have lz: "length zs = length xs" "mset zs = mset ys" using sp py by (auto simp: seg_perm_def)
    have unfold: "rq_loop cmp xs stk = rq_loop cmp zs stk1"
      using seg ins unfolding Cons e by (simp add: rq_loop.simps [of cmp xs "(p, n, d) # stk0"])
    have pen: "apart (blocks stk1) \<and> pending cmp zs (blocks stk1)"
      if c: "comparator cmp" "apart (blocks stk)" "pending cmp xs (blocks stk)"
    proof -
      have q: "apart ((p1, n1) # blocks stk1)" "pending cmp ys ((p1, n1) # blocks stk1)"
        using post c Cons e by (simp_all add: segment_post_def)
      have "sorted_seg cmp zs p1 n1"
      proof (cases "1 \<le> n1")
        case True
        then show ?thesis
          by (rule comparator.insertion_loop_sorts [OF c(1) py(1) _ _ ins]) (simp add: sorted_seg_def)
      qed (simp add: sorted_seg_def)
      then have "pending cmp zs ([] @ blocks stk1)"
        by (intro pending_refine [OF q(2,1) sp]) (auto simp: sorted_seg_def)
      with q(1) show ?thesis by simp
    qed
    have "weight stk1 < weight stk" "stack_ok (length zs) stk1"
      using post lz Cons e by (auto simp: segment_post_def)
    then obtain us where "rq_loop cmp zs stk1 = Some us" "mset us = mset zs"
      "comparator cmp \<and> apart (blocks stk1) \<and> pending cmp zs (blocks stk1) \<longrightarrow> pending cmp us []"
      using less.hyps [of stk1 zs] by blast
    with unfold pen lz post show ?thesis by (auto simp: segment_post_def)
  qed
qed

lemma rqsort_ok:
  "\<exists>ys. rqsort cmp xs = Some ys \<and> mset ys = mset xs \<and> (comparator cmp \<longrightarrow> sorted_wrt (\<lambda>x y. cmp x y \<le> 0) ys)"
proof (cases "length xs < 2")
  case True
  then show ?thesis
    by (cases xs; cases "tl xs") (auto simp: rqsort_def)
next
  case False
  obtain ys where "rq_loop cmp xs [(0, length xs, 0)] = Some ys" "mset ys = mset xs"
    "comparator cmp \<and> apart (blocks [(0, length xs, 0)]) \<and> pending cmp xs (blocks [(0, length xs, 0)]) \<longrightarrow>
     pending cmp ys []"
    using rq_loop_ok [of xs "[(0, length xs, 0)]" cmp] by auto
  with False show ?thesis
    by (auto simp: rqsort_def pending_def in_block_def sorted_wrt_iff_nth_less)
qed

text \<open>
  C11.  \<open>rqsort\<close> returns for every array and every comparison function, consistent
  or not: its loops end, it never reads, swaps or stacks out of bounds (the
  result is not \<open>None\<close>), and the result is a permutation of the array.
\<close>

theorem rqsort_returns: "\<exists>ys. rqsort cmp xs = Some ys \<and> mset ys = mset xs"
  using rqsort_ok [of cmp xs] by blast

text \<open>
  C12.  If the comparison is a total preorder (its sign is antisymmetric and
  \<open>cmp x y \<le> 0\<close> is transitive), the array \<open>rqsort\<close> leaves is sorted, whichever of
  the quick sort, heap sort and insertion sort paths it took.
\<close>

theorem rqsort_sorts:
  assumes "\<And>x y. cmp x y < 0 \<longleftrightarrow> cmp y x > 0"
    and "\<And>x y z. cmp x y \<le> 0 \<Longrightarrow> cmp y z \<le> 0 \<Longrightarrow> cmp x z \<le> 0"
  shows "\<exists>ys. rqsort cmp xs = Some ys \<and> mset ys = mset xs \<and> sorted_wrt (\<lambda>x y. cmp x y \<le> 0) ys"
proof -
  have "comparator cmp" using assms by unfold_locales blast+
  with rqsort_ok [of cmp xs] show ?thesis by blast
qed

theorem rqsort_sorts_witness:
  "\<exists>ys. rqsort (-) [3, 1, 2 :: int] = Some ys \<and> mset ys = mset [3, 1, 2] \<and>
     sorted_wrt (\<lambda>x y. x - y \<le> 0) ys"
  using rqsort_sorts [of "(-) :: int \<Rightarrow> int \<Rightarrow> int" "[3, 1, 2]"] by simp

end
