(* ===== verification/Exchange.thy ===== *)
theory Exchange
  imports QJS_Prelude "HOL-Library.Monad_Syntax"
begin

text \<open>
  The element exchange functions of \<open>rqsort\<close> in \<open>src/cutils.c\<close>, on bytes.
  \<open>exchange_func\<close> selects by alignment and sz one of ten functions that move
  cells of one to sixteen bytes; whichever it selects, the call exchanges the two
  byte ranges, which is the \<open>swap_at\<close> and \<open>swap_block\<close> of the sort.  Memory is a
  list of bytes, the pointers are offsets into it; \<open>base\<close>, which only decides the
  alignment, is the address as a number.
\<close>

section \<open>Exchanging cells\<close>

text \<open>\<open>t = *ap; *ap = *bp; *bp = t\<close> on cells of \<open>w\<close> bytes.\<close>

definition exchange_cell :: "nat \<Rightarrow> u8 list \<Rightarrow> nat \<Rightarrow> nat \<Rightarrow> u8 list ub" where
  "exchange_cell w m a b = do {
     t \<leftarrow> arr_slice m a w;
     v \<leftarrow> arr_slice m b w;
     m \<leftarrow> arr_write m a v;
     arr_write m b t
   }"

fun exchange_cells :: "nat \<Rightarrow> u8 list \<Rightarrow> nat \<Rightarrow> nat \<Rightarrow> nat \<Rightarrow> u8 list ub" where
  "exchange_cells w m a b 0 = Some m"
| "exchange_cells w m a b (Suc n) = do {
     m \<leftarrow> exchange_cell w m a b;
     exchange_cells w m (a + w) (b + w) n
   }"

definition exchange_bytes :: "u8 list \<Rightarrow> nat \<Rightarrow> nat \<Rightarrow> nat \<Rightarrow> u8 list ub" where
  "exchange_bytes m a b sz = exchange_cells 1 m a b sz"

definition exchange_one_byte :: "u8 list \<Rightarrow> nat \<Rightarrow> nat \<Rightarrow> nat \<Rightarrow> u8 list ub" where
  "exchange_one_byte m a b sz = exchange_cell 1 m a b"

definition exchange_int16s :: "u8 list \<Rightarrow> nat \<Rightarrow> nat \<Rightarrow> nat \<Rightarrow> u8 list ub" where
  "exchange_int16s m a b sz = exchange_cells 2 m a b (sz div 2)"

definition exchange_one_int16 :: "u8 list \<Rightarrow> nat \<Rightarrow> nat \<Rightarrow> nat \<Rightarrow> u8 list ub" where
  "exchange_one_int16 m a b sz = exchange_cell 2 m a b"

definition exchange_int32s :: "u8 list \<Rightarrow> nat \<Rightarrow> nat \<Rightarrow> nat \<Rightarrow> u8 list ub" where
  "exchange_int32s m a b sz = exchange_cells 4 m a b (sz div 4)"

definition exchange_one_int32 :: "u8 list \<Rightarrow> nat \<Rightarrow> nat \<Rightarrow> nat \<Rightarrow> u8 list ub" where
  "exchange_one_int32 m a b sz = exchange_cell 4 m a b"

definition exchange_int64s :: "u8 list \<Rightarrow> nat \<Rightarrow> nat \<Rightarrow> nat \<Rightarrow> u8 list ub" where
  "exchange_int64s m a b sz = exchange_cells 8 m a b (sz div 8)"

definition exchange_one_int64 :: "u8 list \<Rightarrow> nat \<Rightarrow> nat \<Rightarrow> nat \<Rightarrow> u8 list ub" where
  "exchange_one_int64 m a b sz = exchange_cell 8 m a b"

text \<open>The sixteen byte functions read two eight byte cells before they write any.\<close>

definition exchange_one_int128 :: "u8 list \<Rightarrow> nat \<Rightarrow> nat \<Rightarrow> nat \<Rightarrow> u8 list ub" where
  "exchange_one_int128 m a b sz = do {
     t \<leftarrow> arr_slice m a 8;
     u \<leftarrow> arr_slice m (a + 8) 8;
     v \<leftarrow> arr_slice m b 8;
     m \<leftarrow> arr_write m a v;
     w \<leftarrow> arr_slice m (b + 8) 8;
     m \<leftarrow> arr_write m (a + 8) w;
     m \<leftarrow> arr_write m b t;
     arr_write m (b + 8) u
   }"

fun exchange_int128_loop :: "u8 list \<Rightarrow> nat \<Rightarrow> nat \<Rightarrow> nat \<Rightarrow> u8 list ub" where
  "exchange_int128_loop m a b 0 = Some m"
| "exchange_int128_loop m a b (Suc n) = do {
     m \<leftarrow> exchange_one_int128 m a b 16;
     exchange_int128_loop m (a + 16) (b + 16) n
   }"

definition exchange_int128s :: "u8 list \<Rightarrow> nat \<Rightarrow> nat \<Rightarrow> nat \<Rightarrow> u8 list ub" where
  "exchange_int128s m a b sz = exchange_int128_loop m a b (sz div 16)"

text \<open>\<open>exchange_func\<close>: the switch on the low four bits of \<open>base | size\<close>.\<close>

definition exchange_func :: "u64 \<Rightarrow> u64 \<Rightarrow> u8 list \<Rightarrow> nat \<Rightarrow> nat \<Rightarrow> nat \<Rightarrow> u8 list ub" where
  "exchange_func base sz =
     (let k = (base OR sz) AND 15 in
      if k = 0 then (if sz = 16 then exchange_one_int128 else exchange_int128s)
      else if k = 8 then (if sz = 8 then exchange_one_int64 else exchange_int64s)
      else if k = 4 \<or> k = 12 then (if sz = 4 then exchange_one_int32 else exchange_int32s)
      else if k = 2 \<or> k = 6 \<or> k = 10 \<or> k = 14 then (if sz = 2 then exchange_one_int16 else exchange_int16s)
      else (if sz = 1 then exchange_one_byte else exchange_bytes))"

section \<open>The exchange of two byte ranges\<close>

definition swap_nth :: "u8 list \<Rightarrow> nat \<Rightarrow> nat \<Rightarrow> nat \<Rightarrow> nat \<Rightarrow> u8" where
  "swap_nth m a b n k =
     (if a \<le> k \<and> k < a + n then m ! (k - a + b)
      else if b \<le> k \<and> k < b + n then m ! (k - b + a) else m ! k)"

definition swap_bytes :: "u8 list \<Rightarrow> nat \<Rightarrow> nat \<Rightarrow> nat \<Rightarrow> u8 list" where
  "swap_bytes m a b n = map (swap_nth m a b n) [0..<length m]"

definition apart_or_same :: "nat \<Rightarrow> nat \<Rightarrow> nat \<Rightarrow> bool" where
  "apart_or_same a b n \<longleftrightarrow> a + n \<le> b \<or> b + n \<le> a \<or> a = b"

lemma length_swap_bytes [simp]: "length (swap_bytes m a b n) = length m"
  by (simp add: swap_bytes_def)

lemma nth_swap_bytes [simp]: "k < length m \<Longrightarrow> swap_bytes m a b n ! k = swap_nth m a b n k"
  by (simp add: swap_bytes_def)

lemma swap_bytes_0 [simp]: "swap_bytes m a b 0 = m"
  by (rule nth_equalityI) (auto simp: swap_nth_def)

text \<open>A checked write, by its elements.\<close>

definition written :: "u8 list \<Rightarrow> nat \<Rightarrow> u8 list \<Rightarrow> u8 list" where
  "written m i ds = take i m @ ds @ drop (i + length ds) m"

lemma arr_write_written: "i + length ds \<le> length m \<Longrightarrow> arr_write m i ds = Some (written m i ds)"
  by (simp add: arr_write_def written_def)

lemma length_written: "i + length ds \<le> length m \<Longrightarrow> length (written m i ds) = length m"
  by (simp add: written_def)

lemma nth_written:
  assumes "i + length ds \<le> length m" and "k < length m"
  shows "written m i ds ! k = (if i \<le> k \<and> k < i + length ds then ds ! (k - i) else m ! k)"
  using assms by (auto simp: written_def nth_append min_def not_less)

definition slice :: "u8 list \<Rightarrow> nat \<Rightarrow> nat \<Rightarrow> u8 list" where
  "slice m i n = take n (drop i m)"

lemma arr_slice_slice: "i + n \<le> length m \<Longrightarrow> arr_slice m i n = Some (slice m i n)"
  by (simp add: arr_slice_def slice_def)

lemma length_slice: "i + n \<le> length m \<Longrightarrow> length (slice m i n) = n"
  by (simp add: slice_def)

lemma nth_slice: "k < n \<Longrightarrow> i + n \<le> length m \<Longrightarrow> slice m i n ! k = m ! (i + k)"
  by (simp add: slice_def)

lemmas byte_range_simps = arr_write_written length_written arr_slice_slice length_slice nth_slice nth_written

lemma exchange_cell_swaps:
  assumes "a + w \<le> length m" "b + w \<le> length m" "apart_or_same a b w"
  shows "exchange_cell w m a b = Some (swap_bytes m a b w)"
proof -
  have "exchange_cell w m a b = Some (written (written m a (slice m b w)) b (slice m a w))"
    using assms by (simp add: exchange_cell_def byte_range_simps)
  also have "written (written m a (slice m b w)) b (slice m a w) = swap_bytes m a b w" (is "?m = _")
  proof (rule nth_equalityI)
    fix k assume "k < length ?m"
    then have k: "k < length m" using assms by (simp add: byte_range_simps)
    then show "?m ! k = swap_bytes m a b w ! k"
      using assms by (auto simp: byte_range_simps swap_nth_def apart_or_same_def add.commute)
  qed (use assms in \<open>simp add: byte_range_simps\<close>)
  finally show ?thesis .
qed

lemma exchange_one_int128_swaps:
  assumes "a + 16 \<le> length m" "b + 16 \<le> length m" "apart_or_same a b 16"
  shows "exchange_one_int128 m a b s = Some (swap_bytes m a b 16)"
proof -
  define m1 where "m1 = written m a (slice m b 8)"
  define m2 where "m2 = written m1 (a + 8) (slice m1 (b + 8) 8)"
  define m3 where "m3 = written m2 b (slice m a 8)"
  define m4 where "m4 = written m3 (b + 8) (slice m (a + 8) 8)"
  have l: "length m1 = length m" "length m2 = length m" "length m3 = length m" "length m4 = length m"
    using assms by (simp_all add: byte_range_simps m1_def m2_def m3_def m4_def)
  have "exchange_one_int128 m a b s = Some m4"
    using assms l by (simp add: exchange_one_int128_def byte_range_simps m1_def m2_def m3_def m4_def)
  moreover have "m4 = swap_bytes m a b 16"
  proof (rule nth_equalityI)
    fix k assume "k < length m4"
    then have k: "k < length m" using l by simp
    have n1: "m1 ! i = (if a \<le> i \<and> i < a + 8 then m ! (b + (i - a)) else m ! i)" if "i < length m" for i
      using that assms by (simp add: m1_def byte_range_simps less_diff_conv2)
    have n2: "m2 ! i = (if a + 8 \<le> i \<and> i < a + 16 then m1 ! (b + 8 + (i - (a + 8))) else m1 ! i)" if "i < length m" for i
      using that assms l by (simp add: m2_def byte_range_simps less_diff_conv2)
    have n3: "m3 ! i = (if b \<le> i \<and> i < b + 8 then m ! (a + (i - b)) else m2 ! i)" if "i < length m" for i
      using that assms l by (simp add: m3_def byte_range_simps less_diff_conv2)
    have n4: "m4 ! i = (if b + 8 \<le> i \<and> i < b + 16 then m ! (a + 8 + (i - (b + 8))) else m3 ! i)" if "i < length m" for i
      using that assms l by (simp add: m4_def byte_range_simps less_diff_conv2)
    show "m4 ! k = swap_bytes m a b 16 ! k"
      using k assms unfolding apart_or_same_def
      by (elim disjE) (auto simp: n1 n2 n3 n4 swap_nth_def add.commute)
  qed (simp add: l)
  ultimately show ?thesis by simp
qed

lemma swap_bytes_append:
  assumes "apart_or_same a b (n + k)" "a + (n + k) \<le> length m" "b + (n + k) \<le> length m"
  shows "swap_bytes (swap_bytes m a b n) (a + n) (b + n) k = swap_bytes m a b (n + k)"
proof (rule nth_equalityI)
  fix i assume "i < length (swap_bytes (swap_bytes m a b n) (a + n) (b + n) k)"
  then have i: "i < length m" by simp
  show "swap_bytes (swap_bytes m a b n) (a + n) (b + n) k ! i = swap_bytes m a b (n + k) ! i"
    using i assms unfolding apart_or_same_def
    by (elim disjE) (auto simp: swap_nth_def add.commute add.left_commute)
qed simp

lemma apart_or_same_mono: "apart_or_same a b n \<Longrightarrow> k \<le> n \<Longrightarrow> apart_or_same a b k"
  by (auto simp: apart_or_same_def)

lemma apart_or_same_shift: "apart_or_same a b (w + k) \<Longrightarrow> apart_or_same (a + w) (b + w) k"
  by (auto simp: apart_or_same_def)

lemma exchange_cells_swaps:
  assumes "a + n * w \<le> length m" "b + n * w \<le> length m" "apart_or_same a b (n * w)"
  shows "exchange_cells w m a b n = Some (swap_bytes m a b (n * w))"
  using assms
proof (induction n arbitrary: m a b)
  case (Suc n)
  have "exchange_cell w m a b = Some (swap_bytes m a b w)"
    using Suc.prems by (intro exchange_cell_swaps) (auto intro: apart_or_same_mono)
  moreover have "exchange_cells w (swap_bytes m a b w) (a + w) (b + w) n =
      Some (swap_bytes (swap_bytes m a b w) (a + w) (b + w) (n * w))"
    using Suc.prems by (intro Suc.IH) (auto intro: apart_or_same_shift)
  moreover have "\<dots> = Some (swap_bytes m a b (w + n * w))"
    using Suc.prems by (subst swap_bytes_append) simp_all
  ultimately show ?case by simp
qed simp

lemma exchange_int128_loop_swaps:
  assumes "a + n * 16 \<le> length m" "b + n * 16 \<le> length m" "apart_or_same a b (n * 16)"
  shows "exchange_int128_loop m a b n = Some (swap_bytes m a b (n * 16))"
  using assms
proof (induction n arbitrary: m a b)
  case (Suc n)
  have "exchange_one_int128 m a b 16 = Some (swap_bytes m a b 16)"
    using Suc.prems by (intro exchange_one_int128_swaps) (auto intro: apart_or_same_mono)
  moreover have "exchange_int128_loop (swap_bytes m a b 16) (a + 16) (b + 16) n =
      Some (swap_bytes (swap_bytes m a b 16) (a + 16) (b + 16) (n * 16))"
    using Suc.prems by (intro Suc.IH) (auto intro: apart_or_same_shift)
  moreover have "\<dots> = Some (swap_bytes m a b (16 + n * 16))"
    using Suc.prems by (subst swap_bytes_append) simp_all
  ultimately show ?case by simp
qed simp

text \<open>The cell width that the switch selects divides the element size.\<close>

lemma take_bit_zero_dvd: "take_bit k (x :: u64) = 0 \<Longrightarrow> 2 ^ k dvd unat x"
  by (metis dvd_eq_mod_eq_0 take_bit_eq_mod unsigned_0 unsigned_take_bit_eq)

lemma and15_take_bit:
  fixes base sz :: u64
  assumes "take_bit k ((base OR sz) AND 15) = 0" and "k \<le> 4"
  shows "take_bit k sz = 0"
proof -
  have "(base OR sz) AND 15 = take_bit 4 (base OR sz)"
    by (simp add: take_bit_eq_mask mask_eq_exp_minus_1)
  with assms have "take_bit k base OR take_bit k sz = 0"
    by (simp add: min_def flip: take_bit_or)
  then show ?thesis by (simp add: or_eq_0_iff)
qed

text \<open>Whatever the switch returns moves \<open>n\<close> bytes, for a multiple \<open>n\<close> of the element size.\<close>

lemma exchange_func_swaps:
  assumes width: "\<And>k. k \<le> 4 \<Longrightarrow> take_bit k sz = 0 \<Longrightarrow> 2 ^ k dvd n" and one: "sz \<in> {1, 2, 4, 8, 16} \<longrightarrow> n = unat sz"
    and rng: "a + n \<le> length m" "b + n \<le> length m" "apart_or_same a b n"
  shows "exchange_func base sz m a b n = Some (swap_bytes m a b n)"
proof -
  let ?k = "(base OR sz) AND 15"
  have cells: "exchange_cells w m a b (n div w) = Some (swap_bytes m a b n)" if "w dvd n" for w
    using exchange_cells_swaps [of a "n div w" w m b] rng that by simp
  have dvd: "2 ^ k dvd n" if "take_bit k ?k = 0" "k \<le> 4" for k
    using width [OF that(2) and15_take_bit [OF that]] .
  consider "?k = 0" | "?k = 8" | "?k = 4 \<or> ?k = 12" | "?k = 2 \<or> ?k = 6 \<or> ?k = 10 \<or> ?k = 14"
    | "?k \<notin> {0, 2, 4, 6, 8, 10, 12, 14}" by blast
  then show ?thesis
  proof cases
    case 1
    then have "exchange_func base sz = (if sz = 16 then exchange_one_int128 else exchange_int128s)"
      by (simp add: exchange_func_def)
    moreover have "sz = 16 \<Longrightarrow> n = 16" using one by simp
    moreover have "16 dvd n"
    proof -
      have "take_bit 4 (0 :: u64) = 0" by simp_all
      with 1 have "take_bit 4 ?k = 0" by metis
      then show ?thesis using dvd [of 4] by (simp only:) simp
    qed
    ultimately show ?thesis
      using exchange_int128_loop_swaps [of a "n div 16" m b] exchange_one_int128_swaps [of a m b n] rng
      by (cases "sz = 16") (simp_all add: exchange_int128s_def)
  next
    case 2
    then have "exchange_func base sz = (if sz = 8 then exchange_one_int64 else exchange_int64s)"
      by (simp add: exchange_func_def)
    moreover have "sz = 8 \<Longrightarrow> n = 8" using one by simp
    moreover have "8 dvd n"
    proof -
      have "take_bit 3 (8 :: u64) = 0" by simp_all
      with 2 have "take_bit 3 ?k = 0" by metis
      then show ?thesis using dvd [of 3] by (simp only:) simp
    qed
    ultimately show ?thesis
      using cells [of 8] exchange_cell_swaps [of a 8 m b] rng
      by (cases "sz = 8") (simp_all add: exchange_int64s_def exchange_one_int64_def)
  next
    case 3
    then have "exchange_func base sz = (if sz = 4 then exchange_one_int32 else exchange_int32s)"
      by (elim disjE) (simp_all add: exchange_func_def)
    moreover have "sz = 4 \<Longrightarrow> n = 4" using one by simp
    moreover have "4 dvd n"
    proof -
      have "take_bit 2 (4 :: u64) = 0" "take_bit 2 (12 :: u64) = 0" by simp_all
      with 3 have "take_bit 2 ?k = 0" by metis
      then show ?thesis using dvd [of 2] by (simp only:) simp
    qed
    ultimately show ?thesis
      using cells [of 4] exchange_cell_swaps [of a 4 m b] rng
      by (cases "sz = 4") (simp_all add: exchange_int32s_def exchange_one_int32_def)
  next
    case 4
    then have "exchange_func base sz = (if sz = 2 then exchange_one_int16 else exchange_int16s)"
      by (elim disjE) (simp_all add: exchange_func_def)
    moreover have "sz = 2 \<Longrightarrow> n = 2" using one by simp
    moreover have "2 dvd n"
    proof -
      have "take_bit 1 (2 :: u64) = 0" "take_bit 1 (6 :: u64) = 0" "take_bit 1 (10 :: u64) = 0" "take_bit 1 (14 :: u64) = 0" by simp_all
      with 4 have "take_bit 1 ?k = 0" by metis
      then show ?thesis using dvd [of 1] by (simp only:) simp
    qed
    ultimately show ?thesis
      using cells [of 2] exchange_cell_swaps [of a 2 m b] rng
      by (cases "sz = 2") (simp_all add: exchange_int16s_def exchange_one_int16_def)
  next
    case 5
    then have "exchange_func base sz = (if sz = 1 then exchange_one_byte else exchange_bytes)"
      by (simp add: exchange_func_def)
    moreover have "sz = 1 \<Longrightarrow> n = 1" using one by simp
    ultimately show ?thesis
      using cells [of 1] exchange_cell_swaps [of a 1 m b] rng
      by (cases "sz = 1") (simp_all add: exchange_bytes_def exchange_one_byte_def)
  qed
qed

text \<open>
  C13.  The two exchange functions of \<open>rqsort\<close>, \<open>exchange_func(base, size)\<close> on one
  element and \<open>exchange_func(base, size | 128)\<close> on a block of elements, exchange
  the two byte ranges for every alignment of the base and every element size,
  as long as the ranges are in bounds and either disjoint or the same.
\<close>

theorem exchange_func_correct:
  assumes "n = k * unat sz"
    and "a + n \<le> length m" "b + n \<le> length m" "apart_or_same a b n"
  shows "exchange_func base (sz OR 128) m a b n = Some (swap_bytes m a b n) \<and>
    (k = 1 \<longrightarrow> exchange_func base sz m a b n = Some (swap_bytes m a b n))"
proof (intro conjI impI)
  have dvd: "2 ^ j dvd n" if "take_bit j sz = 0" for j
    using take_bit_zero_dvd [OF that] assms(1) by (metis dvd_mult)
  show "exchange_func base sz m a b n = Some (swap_bytes m a b n)" if "k = 1"
    using assms that dvd by (intro exchange_func_swaps) auto
  have bit7: "bit (sz OR 128) 7" by (simp add: bit_or_iff bit_numeral_rec)
  have "sz OR 128 \<notin> {1, 2, 4, 8, 16}"
  proof
    assume "sz OR 128 \<in> {1, 2, 4, 8, 16}"
    then have "\<not> bit (sz OR 128) 7" by (auto simp: bit_numeral_rec)
    with bit7 show False by simp
  qed
  moreover have "take_bit j sz = 0" if "take_bit j (sz OR 128) = 0" for j
    using that by (simp add: take_bit_or or_eq_0_iff)
  ultimately show "exchange_func base (sz OR 128) m a b n = Some (swap_bytes m a b n)"
    using assms dvd by (intro exchange_func_swaps) auto
qed

theorem exchange_func_correct_witness:
  "exchange_func 4100 (4 OR 128) [1, 2, 3, 4, 5, 6, 7, 8] 0 4 4 = Some [5, 6, 7, 8, 1, 2, 3, 4] \<and>
   exchange_func 4100 4 [1, 2, 3, 4, 5, 6, 7, 8] 4 0 4 = Some [5, 6, 7, 8, 1, 2, 3, 4]"
proof -
  let ?m = "[1, 2, 3, 4, 5, 6, 7, 8] :: u8 list"
  have "swap_bytes ?m 0 4 4 = [5, 6, 7, 8, 1, 2, 3, 4]" "swap_bytes ?m 4 0 4 = [5, 6, 7, 8, 1, 2, 3, 4]"
    by (simp_all add: swap_bytes_def swap_nth_def upt_rec)
  then show ?thesis
    using exchange_func_correct [of 4 1 4 0 ?m 4 4100] exchange_func_correct [of 4 1 4 4 ?m 0 4100]
    by (simp add: apart_or_same_def)
qed

end
