(* ===== verification/CharRange.thy ===== *)
theory CharRange
  imports DynBuf "HOL-Library.Monad_Syntax"
begin

text \<open>
  Character ranges of \<open>src/libunicode.c\<close> and \<open>src/libunicode.h\<close>: a set of code
  points as a growable array of range boundaries.  The record mirrors the C
  struct; \<open>cr_points\<close> is the allocated block and \<open>cr_len\<close> the number of points in
  use.  \<open>len\<close> and \<open>size\<close> are of type \<open>int\<close>: a growth computation that leaves the
  range of \<open>int\<close> is undefined behaviour, as is an access outside of the block.

  A code point is in the set if an odd number of boundaries is at most equal to it
  (\<open>member\<close>).  The set operations are shown to compute union, intersection,
  symmetric difference and complement of these sets, and to return canonical
  boundary lists; every failure of the allocator is reported.
\<close>

definition int_max :: nat where
  "int_max = 2 ^ 31 - 1"

section \<open>State and operations\<close>

record CharRange =
  cr_len :: nat
  cr_size :: nat
  cr_points :: "u32 list"
  cr_realloc_func :: "u32 realloc"

text \<open>\<open>if (call) return -1;\<close> followed by the rest of the function.\<close>

definition on_success :: "(int \<times> 's) ub \<Rightarrow> ('s \<Rightarrow> (int \<times> 's) ub) \<Rightarrow> (int \<times> 's) ub" where
  "on_success r f = (case r of None \<Rightarrow> None | Some (ret, s) \<Rightarrow> if ret \<noteq> 0 then Some (-1, s) else f s)"

lemma on_success_simps [simp]:
  "on_success None f = None"
  "on_success (Some (0, s)) f = f s"
  "on_success (Some (-1, s)) f = Some (-1, s)"
  by (simp_all add: on_success_def)

definition cr_default_realloc :: "(nat \<Rightarrow> bool) \<Rightarrow> (nat \<Rightarrow> u32) \<Rightarrow> u32 realloc" where
  "cr_default_realloc avail fill ptr n = c_realloc avail fill ptr n"

definition cr_init :: "u32 realloc \<Rightarrow> u32 realloc option \<Rightarrow> CharRange" where
  "cr_init default_rf rf =
     \<lparr>cr_len = 0, cr_size = 0, cr_points = [],
      cr_realloc_func = (case rf of None \<Rightarrow> default_rf | Some f \<Rightarrow> f)\<rparr>"

text \<open>\<open>cr_free\<close> gives the block back; the structure is left as it is.\<close>

definition cr_free :: "CharRange \<Rightarrow> u32 list option" where
  "cr_free cr = cr_realloc_func cr (cr_points cr) 0"

definition cr_realloc :: "CharRange \<Rightarrow> nat \<Rightarrow> (int \<times> CharRange) ub" where
  "cr_realloc cr n =
     (if n > int_max then None
      else if n > cr_size cr then
        if cr_size cr * 3 > int_max then None
        else
          let new_size = max n (cr_size cr * 3 div 2)
          in (case cr_realloc_func cr (cr_points cr) new_size of
                None \<Rightarrow> Some (-1, cr)
              | Some new_buf \<Rightarrow> Some (0, cr\<lparr>cr_points := new_buf, cr_size := new_size\<rparr>))
      else Some (0, cr))"

definition cr_copy :: "CharRange \<Rightarrow> CharRange \<Rightarrow> (int \<times> CharRange) ub" where
  "cr_copy cr cr1 = on_success (cr_realloc cr (cr_len cr1)) (\<lambda>cr. do {
     data \<leftarrow> arr_slice (cr_points cr1) 0 (cr_len cr1);
     pt \<leftarrow> arr_write (cr_points cr) 0 data;
     Some (0, cr\<lparr>cr_points := pt, cr_len := cr_len cr1\<rparr>)
   })"

definition cr_put :: "CharRange \<Rightarrow> u32 \<Rightarrow> (int \<times> CharRange) ub" where
  "cr_put cr v = do {
     pt \<leftarrow> arr_set (cr_points cr) (cr_len cr) v;
     Some (0, cr\<lparr>cr_points := pt, cr_len := cr_len cr + 1\<rparr>)
   }"

definition cr_add_point :: "CharRange \<Rightarrow> u32 \<Rightarrow> (int \<times> CharRange) ub" where
  "cr_add_point cr v =
     on_success (if cr_len cr \<ge> cr_size cr then cr_realloc cr (cr_len cr + 1) else Some (0, cr))
       (\<lambda>cr. cr_put cr v)"

definition cr_add_interval :: "CharRange \<Rightarrow> u32 \<Rightarrow> u32 \<Rightarrow> (int \<times> CharRange) ub" where
  "cr_add_interval cr c1 c2 =
     on_success (if cr_len cr + 2 > cr_size cr then cr_realloc cr (cr_len cr + 2) else Some (0, cr))
       (\<lambda>cr. on_success (cr_put cr c1) (\<lambda>cr. cr_put cr c2))"

text \<open>\<open>cr_compress\<close>: the inner loop looks for the end of a run of touching intervals.\<close>

function compress_run :: "u32 list \<Rightarrow> nat \<Rightarrow> nat \<Rightarrow> nat ub" where
  "compress_run pt len j =
     (if j + 3 < len then do {
        x \<leftarrow> arr_get pt (j + 1);
        y \<leftarrow> arr_get pt (j + 2);
        if x = y then compress_run pt len (j + 2) else Some j
      } else Some j)"
  by pat_completeness auto
termination
  by (relation "measure (\<lambda>(pt, len, j). len - j)") auto

declare compress_run.simps [simp del]

lemma compress_run_ge: "compress_run pt len j = Some k \<Longrightarrow> j \<le> k"
proof (induction pt len j rule: compress_run.induct)
  case (1 pt len j)
  show ?case
  proof (cases "j + 3 < len")
    case True
    with "1.prems" obtain x y where xy: "arr_get pt (j + 1) = Some x" "arr_get pt (j + 2) = Some y"
      by (subst (asm) compress_run.simps) (auto split: bind_splits)
    with True "1.prems" "1.IH" [OF True xy] show ?thesis
      by (subst (asm) compress_run.simps) (auto split: if_splits)
  next
    case False
    with "1.prems" show ?thesis by (subst (asm) compress_run.simps) simp
  qed
qed

function compress_loop :: "u32 list \<Rightarrow> nat \<Rightarrow> nat \<Rightarrow> nat \<Rightarrow> (u32 list \<times> nat) ub" where
  "compress_loop pt len i k =
     (if i + 1 < len then do {
        x \<leftarrow> arr_get pt i;
        y \<leftarrow> arr_get pt (i + 1);
        if x = y then compress_loop pt len (i + 2) k
        else do {
          j \<leftarrow> compress_run pt len i;
          pt1 \<leftarrow> arr_set pt k x;
          e \<leftarrow> arr_get pt1 (j + 1);
          pt2 \<leftarrow> arr_set pt1 (k + 1) e;
          compress_loop pt2 len (j + 2) (k + 2)
        }
      } else Some (pt, k))"
  by pat_completeness auto
termination
  by (relation "measure (\<lambda>(pt, len, i, k). len - i)") (auto dest!: compress_run_ge)

declare compress_loop.simps [simp del]

definition cr_compress :: "CharRange \<Rightarrow> CharRange ub" where
  "cr_compress cr = do {
     (pt, k) \<leftarrow> compress_loop (cr_points cr) (cr_len cr) 0 0;
     Some (cr\<lparr>cr_points := pt, cr_len := k\<rparr>)
   }"

datatype CharRangeOpEnum = CR_OP_UNION | CR_OP_INTER | CR_OP_XOR

definition is_in :: "CharRangeOpEnum \<Rightarrow> bool \<Rightarrow> bool \<Rightarrow> bool" where
  "is_in op a b = (case op of CR_OP_UNION \<Rightarrow> a \<or> b | CR_OP_INTER \<Rightarrow> a \<and> b | CR_OP_XOR \<Rightarrow> a \<noteq> b)"

text \<open>
  The merge step of \<open>cr_op\<close>: the next point and the advanced indices; \<open>None\<close> when
  both lists are used up.  The outer option is undefined behaviour.
\<close>

definition next_point :: "u32 list \<Rightarrow> nat \<Rightarrow> u32 list \<Rightarrow> nat \<Rightarrow> nat \<Rightarrow> nat \<Rightarrow> (u32 \<times> nat \<times> nat) option ub" where
  "next_point a_pt a_len b_pt b_len a_idx b_idx =
     (if a_idx < a_len \<and> b_idx < b_len then do {
        x \<leftarrow> arr_get a_pt a_idx;
        y \<leftarrow> arr_get b_pt b_idx;
        Some (Some (if x < y then (x, a_idx + 1, b_idx)
                    else if x = y then (x, a_idx + 1, b_idx + 1)
                    else (y, a_idx, b_idx + 1)))
      }
      else if a_idx < a_len then do { x \<leftarrow> arr_get a_pt a_idx; Some (Some (x, a_idx + 1, b_idx)) }
      else if b_idx < b_len then do { y \<leftarrow> arr_get b_pt b_idx; Some (Some (y, a_idx, b_idx + 1)) }
      else Some None)"

lemma next_point_advances:
  "next_point a_pt a_len b_pt b_len a_idx b_idx = Some (Some (v, a', b')) \<Longrightarrow>
   a_len - a' + (b_len - b') < a_len - a_idx + (b_len - b_idx)"
  by (auto simp: next_point_def split: bind_splits if_splits)

function cr_op_loop :: "CharRange \<Rightarrow> u32 list \<Rightarrow> nat \<Rightarrow> u32 list \<Rightarrow> nat \<Rightarrow> CharRangeOpEnum \<Rightarrow> nat \<Rightarrow> nat
    \<Rightarrow> (int \<times> CharRange) ub" where
  "cr_op_loop cr a_pt a_len b_pt b_len op a_idx b_idx =
     (case next_point a_pt a_len b_pt b_len a_idx b_idx of
        None \<Rightarrow> None
      | Some None \<Rightarrow> do { cr \<leftarrow> cr_compress cr; Some (0, cr) }
      | Some (Some (v, a', b')) \<Rightarrow>
          on_success (if is_in op (odd a') (odd b') \<noteq> odd (cr_len cr) then cr_add_point cr v else Some (0, cr))
            (\<lambda>cr. cr_op_loop cr a_pt a_len b_pt b_len op a' b'))"
  by pat_completeness auto
termination
  by (relation "measure (\<lambda>(cr, a_pt, a_len, b_pt, b_len, op, a_idx, b_idx). a_len - a_idx + (b_len - b_idx))")
    (auto dest!: next_point_advances)

declare cr_op_loop.simps [simp del]

definition cr_op :: "CharRange \<Rightarrow> u32 list \<Rightarrow> nat \<Rightarrow> u32 list \<Rightarrow> nat \<Rightarrow> CharRangeOpEnum \<Rightarrow> (int \<times> CharRange) ub" where
  "cr_op cr a_pt a_len b_pt b_len op = cr_op_loop cr a_pt a_len b_pt b_len op 0 0"

definition cr_union1 :: "CharRange \<Rightarrow> u32 list \<Rightarrow> nat \<Rightarrow> (int \<times> CharRange) ub" where
  "cr_union1 cr b_pt b_len =
     cr_op (cr\<lparr>cr_len := 0, cr_size := 0, cr_points := []\<rparr>) (cr_points cr) (cr_len cr) b_pt b_len CR_OP_UNION"

definition cr_union_interval :: "CharRange \<Rightarrow> u32 \<Rightarrow> u32 \<Rightarrow> (int \<times> CharRange) ub" where
  "cr_union_interval cr c1 c2 = cr_union1 cr [c1, c2 + 1] 2"

definition cr_invert :: "CharRange \<Rightarrow> (int \<times> CharRange) ub" where
  "cr_invert cr =
     (let len = cr_len cr
      in on_success (cr_realloc cr (len + 2)) (\<lambda>cr. do {
           data \<leftarrow> arr_slice (cr_points cr) 0 len;
           pt \<leftarrow> arr_write (cr_points cr) 1 data;
           pt \<leftarrow> arr_set pt 0 0;
           pt \<leftarrow> arr_set pt (len + 1) (- 1);
           cr \<leftarrow> cr_compress (cr\<lparr>cr_points := pt, cr_len := len + 2\<rparr>);
           Some (0, cr)
         }))"

section \<open>Sets of code points\<close>

definition cnt :: "u32 list \<Rightarrow> u32 \<Rightarrow> nat" where
  "cnt pts c = length (filter (\<lambda>x. x \<le> c) pts)"

definition member :: "u32 list \<Rightarrow> u32 \<Rightarrow> bool" where
  "member pts c = odd (cnt pts c)"

definition pts :: "CharRange \<Rightarrow> u32 list" where
  "pts cr = take (cr_len cr) (cr_points cr)"

text \<open>What every operation keeps: the block has \<open>size\<close> cells and \<open>len\<close> of them are in use.\<close>

definition cr_ok :: "CharRange \<Rightarrow> bool" where
  "cr_ok cr \<longleftrightarrow> length (cr_points cr) = cr_size cr \<and> cr_len cr \<le> cr_size cr \<and> allocator (cr_realloc_func cr)"

lemma cnt_simps [mem_simps]:
  "cnt [] c = 0" "cnt (x # xs) c = (if x \<le> c then 1 else 0) + cnt xs c" "cnt (xs @ ys) c = cnt xs c + cnt ys c"
  by (simp_all add: cnt_def)

lemma cnt_all: "\<forall>x \<in> set xs. x \<le> c \<Longrightarrow> cnt xs c = length xs"
  by (simp add: cnt_def)

lemma length_pts: "cr_ok cr \<Longrightarrow> length (pts cr) = cr_len cr"
  by (simp add: pts_def cr_ok_def)

section \<open>Growing\<close>

lemma cr_realloc_ok:
  assumes "cr_ok cr" and "n \<le> int_max" and "n > cr_size cr \<Longrightarrow> cr_size cr * 3 \<le> int_max"
  shows "(\<exists>cr'. cr_realloc cr n = Some (0, cr') \<and> cr_ok cr' \<and> n \<le> cr_size cr' \<and> cr_len cr' = cr_len cr \<and>
            cr_realloc_func cr' = cr_realloc_func cr \<and> take (cr_size cr) (cr_points cr') = cr_points cr)
       \<or> cr_realloc cr n = Some (-1, cr)"
proof (cases "n > cr_size cr")
  case True
  let ?m = "max n (cr_size cr * 3 div 2)"
  from assms(1) have al: "allocator (cr_realloc_func cr)" and len: "length (cr_points cr) = cr_size cr"
    by (auto simp: cr_ok_def)
  show ?thesis
  proof (cases "cr_realloc_func cr (cr_points cr) ?m")
    case (Some new)
    have "length new = ?m" using allocator.rf_length [OF al Some] .
    moreover have "take (cr_size cr) new = take (cr_size cr) (cr_points cr)"
      using allocator.rf_prefix [OF al Some, of "cr_size cr"] True len by simp
    ultimately show ?thesis
      using True assms Some len by (simp add: cr_realloc_def cr_ok_def Let_def le_max_iff_disj)
  next
    case None
    with True assms show ?thesis by (simp add: cr_realloc_def Let_def)
  qed
next
  case False
  with assms show ?thesis by (auto simp: cr_realloc_def cr_ok_def)
qed

lemma pts_grown:
  assumes "cr_ok cr" "cr_len cr' = cr_len cr" "take (cr_size cr) (cr_points cr') = cr_points cr"
  shows "pts cr' = pts cr"
  using assms by (metis cr_ok_def min.absorb1 pts_def take_take)

lemma cr_put_ok:
  assumes "cr_ok cr" and "cr_len cr < cr_size cr"
  shows "\<exists>cr'. cr_put cr v = Some (0, cr') \<and> cr_ok cr' \<and> pts cr' = pts cr @ [v] \<and> cr_len cr' = cr_len cr + 1 \<and>
     cr_size cr' = cr_size cr \<and> cr_realloc_func cr' = cr_realloc_func cr"
  using assms by (simp add: cr_put_def cr_ok_def pts_def arr_simps take_Suc_update)

text \<open>\<open>if (needed > size) realloc\<close>, the guard of both append operations.\<close>

lemma cr_grow:
  assumes ok: "cr_ok cr" and "3 * n \<le> int_max" and g: "g \<longleftrightarrow> n > cr_size cr"
  obtains (grown) cr1 where "(if g then cr_realloc cr n else Some (0, cr)) = Some (0, cr1)" "cr_ok cr1"
      "n \<le> cr_size cr1" "cr_len cr1 = cr_len cr" "cr_realloc_func cr1 = cr_realloc_func cr" "pts cr1 = pts cr"
    | (failed) "(if g then cr_realloc cr n else Some (0, cr)) = Some (-1, cr)"
proof (cases g)
  case True
  with g assms(2) have "n \<le> int_max" "cr_size cr * 3 \<le> int_max" by auto
  then consider cr1 where "cr_realloc cr n = Some (0, cr1)" "cr_ok cr1" "n \<le> cr_size cr1" "cr_len cr1 = cr_len cr"
      "cr_realloc_func cr1 = cr_realloc_func cr" "take (cr_size cr) (cr_points cr1) = cr_points cr"
    | "cr_realloc cr n = Some (-1, cr)"
    using cr_realloc_ok [OF ok] by blast
  then show ?thesis
    by cases (use True grown failed pts_grown [OF ok] in simp_all)
next
  case False
  with g ok show ?thesis by (intro grown [of cr]) simp_all
qed

lemma cr_add_point_ok:
  assumes "cr_ok cr" and "3 * (cr_len cr + 1) \<le> int_max"
  shows "(\<exists>cr'. cr_add_point cr v = Some (0, cr') \<and> cr_ok cr' \<and> pts cr' = pts cr @ [v] \<and>
            cr_len cr' = cr_len cr + 1 \<and> cr_realloc_func cr' = cr_realloc_func cr)
       \<or> cr_add_point cr v = Some (-1, cr)"
proof (rule cr_grow [OF assms, of "cr_len cr \<ge> cr_size cr"])
  fix cr1
  assume "(if cr_len cr \<ge> cr_size cr then cr_realloc cr (cr_len cr + 1) else Some (0, cr)) = Some (0, cr1)"
    "cr_ok cr1" "cr_len cr + 1 \<le> cr_size cr1" "cr_len cr1 = cr_len cr"
    "cr_realloc_func cr1 = cr_realloc_func cr" "pts cr1 = pts cr"
  with cr_put_ok [of cr1 v] show ?thesis by (auto simp: cr_add_point_def)
qed (auto simp: cr_add_point_def)

lemma cr_add_interval_ok:
  assumes "cr_ok cr" and "3 * (cr_len cr + 2) \<le> int_max"
  shows "(\<exists>cr'. cr_add_interval cr c1 c2 = Some (0, cr') \<and> cr_ok cr' \<and> pts cr' = pts cr @ [c1, c2] \<and>
            cr_len cr' = cr_len cr + 2 \<and> cr_realloc_func cr' = cr_realloc_func cr)
       \<or> cr_add_interval cr c1 c2 = Some (-1, cr)"
proof (rule cr_grow [OF assms, of "cr_len cr + 2 > cr_size cr"])
  fix cr1
  assume g: "(if cr_len cr + 2 > cr_size cr then cr_realloc cr (cr_len cr + 2) else Some (0, cr)) = Some (0, cr1)"
    and cr1: "cr_ok cr1" "cr_len cr + 2 \<le> cr_size cr1" "cr_len cr1 = cr_len cr"
    "cr_realloc_func cr1 = cr_realloc_func cr" "pts cr1 = pts cr"
  then obtain cr2 where cr2: "cr_put cr1 c1 = Some (0, cr2)" "cr_ok cr2" "pts cr2 = pts cr @ [c1]"
    "cr_len cr2 = cr_len cr + 1" "cr_size cr2 = cr_size cr1" "cr_realloc_func cr2 = cr_realloc_func cr"
    using cr_put_ok [of cr1 c1] by auto
  then obtain cr3 where "cr_put cr2 c2 = Some (0, cr3)" "cr_ok cr3" "pts cr3 = pts cr @ [c1, c2]"
    "cr_len cr3 = cr_len cr + 2" "cr_realloc_func cr3 = cr_realloc_func cr"
    using cr_put_ok [OF cr2(2), of c2] cr1(2) by auto
  with g cr2(1) show ?thesis by (simp add: cr_add_interval_def)
qed (auto simp: cr_add_interval_def)

section \<open>Compression\<close>

text \<open>The in-place loops against their effect on the list of points.\<close>

fun run_end :: "u32 \<Rightarrow> u32 list \<Rightarrow> u32 \<times> u32 list" where
  "run_end b (x # y # r) = (if b = x then run_end y r else (b, x # y # r))"
| "run_end b r = (b, r)"

lemma run_end_length: "length (snd (run_end b r)) \<le> length r"
  by (induction b r rule: run_end.induct) auto

function compress :: "u32 list \<Rightarrow> u32 list" where
  "compress (a # b # r) = (if a = b then compress r else a # fst (run_end b r) # compress (snd (run_end b r)))"
| "compress [] = []"
| "compress [a] = []"
  by pat_completeness auto
termination
  by (relation "measure length") (auto simp: run_end_length le_imp_less_Suc le_SucI)

declare compress.simps [simp del]

lemma run_end_parity:
  assumes "run_end b r = (e, r')"
  shows "odd (cnt (b # r) c) = odd (cnt (e # r') c)" and "even (length r') = even (length r)"
  using assms by (induction b r arbitrary: e r' rule: run_end.induct) (auto simp: mem_simps split: if_splits)

lemma run_end_sorted:
  assumes "run_end b r = (e, r')" and "sorted (b # r)"
  shows "b \<le> e" and "sorted (e # r')" and "even (length r) \<Longrightarrow> r' \<noteq> [] \<Longrightarrow> e < hd r'"
    and "set r' \<subseteq> set r" and "e \<in> set (b # r)"
  using assms by (induction b r arbitrary: e r' rule: run_end.induct) (force split: if_splits)+

lemma compress_parity:
  "even (length ps) \<Longrightarrow> odd (cnt (compress ps) c) = odd (cnt ps c) \<and> even (length (compress ps))"
proof (induction ps rule: compress.induct)
  case (1 a b r)
  obtain e r' where e: "run_end b r = (e, r')" by (cases "run_end b r")
  show ?case
  proof (cases "a = b")
    case True
    with 1 show ?thesis by (auto simp: mem_simps compress.simps)
  next
    case False
    with 1 run_end_parity [OF e] e show ?thesis by (auto simp: mem_simps compress.simps)
  qed
qed (auto simp: compress.simps)

lemma compress_length: "length (compress ps) \<le> length ps"
proof (induction ps rule: compress.induct)
  case (1 a b r)
  with run_end_length [of b r] show ?case by (auto simp: compress.simps)
qed (auto simp: compress.simps)

lemma compress_strict:
  "even (length ps) \<Longrightarrow> sorted ps \<Longrightarrow>
     sorted_wrt (<) (compress ps) \<and> (\<forall>x \<in> set (compress ps). x \<in> set ps)"
proof (induction ps rule: compress.induct)
  case (1 a b r)
  obtain e r' where e: "run_end b r = (e, r')" by (cases "run_end b r")
  show ?case
  proof (cases "a = b")
    case True
    with 1 show ?thesis by (auto simp: compress.simps)
  next
    case False
    have sb: "sorted (b # r)" and ev: "even (length r)" "even (length r')"
      using "1.prems" run_end_parity(2) [OF e] by auto
    note rs = run_end_sorted [OF e sb]
    have ih: "sorted_wrt (<) (compress r')" "\<forall>x \<in> set (compress r'). x \<in> set r'"
      using "1.IH"(2) [OF False] ev rs(2) e by auto
    have "e < x" if "x \<in> set r'" for x
      using rs(2) rs(3) [OF ev(1)] that by (cases r') auto
    moreover have "a < b" "b \<le> e" "e \<in> set (b # r)"
      using False "1.prems" rs(1,5) by auto
    ultimately show ?thesis using ih rs(4) False e by (force simp: compress.simps)
  qed
qed (auto simp: compress.simps)

text \<open>The loops on the array.\<close>

lemmas run_end_induct = run_end.induct [case_names more one two]

lemma compress_run_eq:
  assumes "drop j (take len pt) = a # b # r" and "len \<le> length pt"
  shows "\<exists>k. compress_run pt len j = Some k \<and> j \<le> k \<and> k + 1 < len \<and> pt ! (k + 1) = fst (run_end b r) \<and>
     drop (k + 2) (take len pt) = snd (run_end b r)"
  using assms
proof (induction b r arbitrary: j a rule: run_end_induct)
  case (more b x y r)
  have len: "j + 3 < len" using arg_cong [OF more.prems(1), of length] more.prems(2) by simp
  have nth: "pt ! (j + 1) = b" "pt ! (j + 2) = x"
    using arg_cong [OF more.prems(1), of "\<lambda>l. l ! 1"] arg_cong [OF more.prems(1), of "\<lambda>l. l ! 2"] len more.prems(2)
    by simp_all
  have dr: "drop (j + 2) (take len pt) = x # y # r"
    using arg_cong [OF more.prems(1), of "drop 2"] by (simp add: add.commute)
  have u: "compress_run pt len j = (if b = x then compress_run pt len (j + 2) else Some j)"
    using len nth more.prems(2) by (subst compress_run.simps) (simp add: arr_simps)
  show ?case
  proof (cases "b = x")
    case True
    with more.IH [OF True dr more.prems(2)] u show ?thesis by auto
  next
    case False
    with u len nth dr show ?thesis by auto
  qed
next
  case (one b)
  have len: "len = j + 2" using arg_cong [OF one.prems(1), of length] one.prems(2) by simp
  have "pt ! (j + 1) = b"
    using arg_cong [OF one.prems(1), of "\<lambda>l. l ! 1"] len one.prems(2) by simp
  then show ?case using len by (subst compress_run.simps) simp
next
  case (two b v)
  have len: "len = j + 3" using arg_cong [OF two.prems(1), of length] two.prems(2) by simp
  have "pt ! (j + 1) = b"
    using arg_cong [OF two.prems(1), of "\<lambda>l. l ! 1"] len two.prems(2) by simp
  moreover have "drop (j + 2) (take len pt) = [v]"
    using arg_cong [OF two.prems(1), of "drop 2"] by (simp add: add.commute)
  ultimately show ?case using len by (subst compress_run.simps) simp
qed

lemma compress_loop_eq:
  assumes "len \<le> length pt" and "k \<le> i" and "i \<le> len \<or> k \<le> len"
  shows "\<exists>pt'. compress_loop pt len i k = Some (pt', k + length (compress (drop i (take len pt)))) \<and>
     length pt' = length pt \<and>
     take (k + length (compress (drop i (take len pt)))) pt' = take k pt @ compress (drop i (take len pt)) \<and>
     k + length (compress (drop i (take len pt))) \<le> len"
  using assms
proof (induction "len - i" arbitrary: pt i k rule: less_induct)
  case less
  show ?case
  proof (cases "i + 1 < len")
    case False
    then have "length (drop i (take len pt)) < 2" using less.prems by simp
    then have "compress (drop i (take len pt)) = []"
      by (cases "drop i (take len pt)"; cases "tl (drop i (take len pt))") (auto simp: compress.simps)
    with False less.prems show ?thesis by (subst compress_loop.simps) auto
  next
    case True
    let ?x = "pt ! i" and ?y = "pt ! (i + 1)" and ?r = "drop (i + 2) (take len pt)"
    have dr: "drop i (take len pt) = ?x # ?y # ?r"
      using True less.prems(1) by (simp add: Cons_nth_drop_Suc [symmetric])
    have get: "arr_get pt i = Some ?x" "arr_get pt (i + 1) = Some ?y"
      using True less.prems(1) by (simp_all add: arr_simps)
    show ?thesis
    proof (cases "?x = ?y")
      case eq: True
      have "compress_loop pt len i k = compress_loop pt len (i + 2) k"
        using True get eq by (subst compress_loop.simps) simp
      moreover have "compress (drop i (take len pt)) = compress ?r" using dr eq by (simp add: compress.simps)
      ultimately show ?thesis using less.hyps [of "i + 2" pt k] less.prems True by auto
    next
      case False
      obtain j where j: "compress_run pt len i = Some j" "i \<le> j" "j + 1 < len"
        "pt ! (j + 1) = fst (run_end ?y ?r)" "drop (j + 2) (take len pt) = snd (run_end ?y ?r)"
        using compress_run_eq [OF dr less.prems(1)] by blast
      define q where "q = pt[k := ?x, k + 1 := pt ! (j + 1)]"
      have kb: "k + 1 < length pt" "k < length pt" using less.prems True by auto
      have "compress_loop pt len i k = compress_loop q len (j + 2) (k + 2)"
        using True get False j kb less.prems by (subst compress_loop.simps) (simp add: arr_simps q_def)
      moreover have "drop (j + 2) (take len q) = drop (j + 2) (take len pt)"
        using less.prems(2) j(2) by (simp add: q_def take_update_swap)
      moreover have "compress (drop i (take len pt)) = ?x # pt ! (j + 1) # compress (drop (j + 2) (take len pt))"
        using dr False j(4,5) by (simp add: compress.simps)
      moreover have "take (k + 2) q = take k pt @ [?x, pt ! (j + 1)]"
        using kb by (simp add: q_def take_Suc_update)
      ultimately show ?thesis
        using less.hyps [of "j + 2" q "k + 2"] less.prems True j(2,3) by (auto simp: q_def)
    qed
  qed
qed

lemma cr_compress_ok:
  assumes "cr_ok cr"
  shows "\<exists>cr'. cr_compress cr = Some cr' \<and> cr_ok cr' \<and> pts cr' = compress (pts cr) \<and>
     cr_realloc_func cr' = cr_realloc_func cr"
proof -
  have "cr_len cr \<le> length (cr_points cr)" using assms by (simp add: cr_ok_def)
  from compress_loop_eq [OF this, of 0 0] obtain pt where
    "compress_loop (cr_points cr) (cr_len cr) 0 0 = Some (pt, length (compress (pts cr)))"
    "length pt = length (cr_points cr)" "take (length (compress (pts cr))) pt = compress (pts cr)"
    "length (compress (pts cr)) \<le> cr_len cr"
    by (auto simp: pts_def)
  with assms show ?thesis by (simp add: cr_compress_def cr_ok_def pts_def)
qed

section \<open>Set operations\<close>

text \<open>
  The merge invariant: the points \<open>out\<close> written so far describe the operation on
  the points \<open>A1\<close> and \<open>B1\<close> consumed so far, and none of them exceeds a point to come.
\<close>

definition op_inv :: "CharRangeOpEnum \<Rightarrow> u32 list \<Rightarrow> u32 list \<Rightarrow> u32 list \<Rightarrow> u32 list \<Rightarrow> u32 list \<Rightarrow> bool" where
  "op_inv op out A1 A2 B1 B2 \<longleftrightarrow> sorted out \<and>
     (\<forall>x \<in> set out \<union> set A1 \<union> set B1. \<forall>y \<in> set A2 \<union> set B2. x \<le> y) \<and>
     (\<forall>c. odd (cnt out c) = is_in op (odd (cnt A1 c)) (odd (cnt B1 c)))"

lemma op_inv_step:
  assumes inv: "op_inv op out A1 A2 B1 B2" and v: "v \<in> set A2 \<union> set B2" "\<forall>y \<in> set A2' \<union> set B2'. v \<le> y"
    and sub: "set A2' \<subseteq> set A2" "set B2' \<subseteq> set B2"
    and A: "A1' = A1 \<or> A1' = A1 @ [v]" and B: "B1' = B1 \<or> B1' = B1 @ [v]"
    and out: "out' = (if is_in op (odd (length A1')) (odd (length B1')) \<noteq> odd (length out) then out @ [v] else out)"
  shows "op_inv op out' A1' A2' B1' B2'"
proof -
  have le: "\<forall>x \<in> set out \<union> set A1 \<union> set B1. x \<le> v" using inv v(1) by (auto simp: op_inv_def)
  have sets: "set out' \<union> set A1' \<union> set B1' \<subseteq> insert v (set out \<union> set A1 \<union> set B1)"
    using A B out by auto
  have le': "x \<le> v" if "x \<in> set out' \<union> set A1' \<union> set B1'" for x
  proof -
    have "x = v \<or> x \<in> set out \<union> set A1 \<union> set B1" using sets that by blast
    then show ?thesis using le by auto
  qed
  have "odd (cnt out' c) = is_in op (odd (cnt A1' c)) (odd (cnt B1' c))" for c
  proof (cases "v \<le> c")
    case True
    have "\<forall>x \<in> set out' \<union> set A1' \<union> set B1'. x \<le> c"
      using True le' by (blast intro: order_trans)
    then have "cnt out' c = length out'" "cnt A1' c = length A1'" "cnt B1' c = length B1'"
      by (simp_all add: cnt_all)
    then show ?thesis unfolding out by (simp split: if_split)
  next
    case False
    then have "cnt out' c = cnt out c" "cnt A1' c = cnt A1 c" "cnt B1' c = cnt B1 c"
      using A B out by (auto simp: mem_simps)
    with inv show ?thesis by (simp add: op_inv_def)
  qed
  moreover have "sorted out'" using inv le out by (auto simp: op_inv_def sorted_append)
  moreover have "\<forall>x \<in> set out' \<union> set A1' \<union> set B1'. \<forall>y \<in> set A2' \<union> set B2'. x \<le> y"
    using le' v(2) by (blast intro: order_trans)
  ultimately show ?thesis by (simp add: op_inv_def)
qed

text \<open>The merge step on the boundary lists.\<close>

lemma next_point_spec:
  assumes "a_len \<le> length a_pt" "b_len \<le> length b_pt" "a_idx \<le> a_len" "b_idx \<le> b_len"
    and "A = take a_len a_pt" "B = take b_len b_pt" and sA: "sorted A" and sB: "sorted B"
    and more: "a_idx < a_len \<or> b_idx < b_len"
  obtains v a' b' where "next_point a_pt a_len b_pt b_len a_idx b_idx = Some (Some (v, a', b'))"
    "a' \<le> a_len" "b' \<le> b_len" "a_idx + b_idx < a' + b'"
    "v \<in> set (drop a_idx A) \<union> set (drop b_idx B)" "\<forall>y \<in> set (drop a' A) \<union> set (drop b' B). v \<le> y"
    "set (drop a' A) \<subseteq> set (drop a_idx A)" "set (drop b' B) \<subseteq> set (drop b_idx B)"
    "take a' A = take a_idx A \<or> take a' A = take a_idx A @ [v]"
    "take b' B = take b_idx B \<or> take b' B = take b_idx B @ [v]"
proof -
  have lA: "length A = a_len" and lB: "length B = b_len" using assms by auto
  have dA: "drop a_idx A = A ! a_idx # drop (Suc a_idx) A" if "a_idx < a_len"
    using that lA by (simp add: Cons_nth_drop_Suc)
  have dB: "drop b_idx B = B ! b_idx # drop (Suc b_idx) B" if "b_idx < b_len"
    using that lB by (simp add: Cons_nth_drop_Suc)
  have leA: "\<forall>y \<in> set (drop a_idx A). A ! a_idx \<le> y" if "a_idx < a_len"
    using sorted_wrt_drop [OF sA, of a_idx] dA [OF that] by auto
  have leB: "\<forall>y \<in> set (drop b_idx B). B ! b_idx \<le> y" if "b_idx < b_len"
    using sorted_wrt_drop [OF sB, of b_idx] dB [OF that] by auto
  have get: "a_idx < a_len \<Longrightarrow> arr_get a_pt a_idx = Some (A ! a_idx)"
    "b_idx < b_len \<Longrightarrow> arr_get b_pt b_idx = Some (B ! b_idx)"
    using assms by (simp_all add: arr_simps)
  have tA: "take (a_idx + 1) A = take a_idx A @ [A ! a_idx]" if "a_idx < a_len"
    using that lA by (simp add: take_Suc_conv_app_nth)
  have tB: "take (b_idx + 1) B = take b_idx B @ [B ! b_idx]" if "b_idx < b_len"
    using that lB by (simp add: take_Suc_conv_app_nth)
  let ?x = "A ! a_idx" and ?y = "B ! b_idx"
  consider (a) "a_idx < a_len" "b_idx < b_len \<Longrightarrow> ?x < ?y" | (ab) "a_idx < a_len" "b_idx < b_len" "?x = ?y"
    | (b) "b_idx < b_len" "a_idx < a_len \<Longrightarrow> ?y < ?x"
    using more by (meson linorder_less_linear)
  then show ?thesis
  proof cases
    case a
    have "\<forall>y \<in> set (drop b_idx B). ?x \<le> y"
      using a(2) leB lB by (cases "b_idx < b_len") (force intro: order_trans)+
    then show ?thesis
      by (intro that [of ?x "a_idx + 1" b_idx])
        (use a get assms(4) leA dA tA in \<open>auto simp: next_point_def\<close>)
  next
    case ab
    show ?thesis
      by (rule that [of ?x "a_idx + 1" "b_idx + 1"])
        (use ab get assms(4) leA leB dA dB tA tB in \<open>auto simp: next_point_def\<close>)
  next
    case b
    have "\<forall>y \<in> set (drop a_idx A). ?y \<le> y"
      using b(2) leA lA by (cases "a_idx < a_len") (force intro: order_trans)+
    moreover have "next_point a_pt a_len b_pt b_len a_idx b_idx = Some (Some (?y, a_idx, b_idx + 1))"
      using b get less_asym by (cases "a_idx < a_len") (auto simp: next_point_def)
    ultimately show ?thesis
      by (intro that [of ?y a_idx "b_idx + 1"]) (use b assms(3) leB dB tB in auto)
  qed
qed

lemma cr_op_loop_ok:
  assumes "cr_ok cr" "a_len \<le> length a_pt" "b_len \<le> length b_pt" "a_idx \<le> a_len" "b_idx \<le> b_len"
    and A: "A = take a_len a_pt" and B: "B = take b_len b_pt" and s: "sorted A" "sorted B"
    and "op_inv op (pts cr) (take a_idx A) (drop a_idx A) (take b_idx B) (drop b_idx B)"
    and "cr_len cr \<le> a_idx + b_idx" and lim: "3 * (a_len + b_len) \<le> int_max" and ev: "even a_len" "even b_len"
  shows "\<exists>r cr'. cr_op_loop cr a_pt a_len b_pt b_len op a_idx b_idx = Some (r, cr') \<and> cr_ok cr' \<and>
     cr_realloc_func cr' = cr_realloc_func cr \<and>
     (r = -1 \<or> r = 0 \<and> even (length (pts cr')) \<and> sorted_wrt (<) (pts cr') \<and>
        length (pts cr') \<le> a_len + b_len \<and>
        (\<forall>c. member (pts cr') c = is_in op (member A c) (member B c)))"
  using assms(1,4,5,10,11)
proof (induction "a_len - a_idx + (b_len - b_idx)" arbitrary: cr a_idx b_idx rule: less_induct)
  case less
  note prems = less.prems
  have lA: "length A = a_len" and lB: "length B = b_len" using assms by auto
  show ?case
  proof (cases "a_idx < a_len \<or> b_idx < b_len")
    case False
    then have np: "next_point a_pt a_len b_pt b_len a_idx b_idx = Some None" by (simp add: next_point_def)
    have idx: "a_idx = a_len" "b_idx = b_len" using False prems(2,3) by auto
    have srt: "sorted (pts cr)" and par: "\<forall>c. odd (cnt (pts cr) c) = is_in op (odd (cnt A c)) (odd (cnt B c))"
      using prems(4) lA lB by (simp_all add: op_inv_def idx)
    have "even (length (pts cr))"
    proof -
      let ?c = "- 1 :: u32"
      have "cnt xs ?c = length xs" for xs by (rule cnt_all) simp
      with spec [OF par, of ?c] lA lB ev show ?thesis by (cases op) (auto simp: is_in_def)
    qed
    moreover have "length (compress (pts cr)) \<le> a_len + b_len"
      using compress_length [of "pts cr"] length_pts [OF prems(1)] prems(5) idx by simp
    ultimately show ?thesis using srt par cr_compress_ok [OF prems(1)] np compress_parity [of "pts cr"] compress_strict [of "pts cr"]
      by (subst cr_op_loop.simps) (auto simp: member_def)
  next
    case True
    obtain v a' b' where np: "next_point a_pt a_len b_pt b_len a_idx b_idx = Some (Some (v, a', b'))"
      and ab: "a' \<le> a_len" "b' \<le> b_len" "a_idx + b_idx < a' + b'"
      and step: "v \<in> set (drop a_idx A) \<union> set (drop b_idx B)" "\<forall>y \<in> set (drop a' A) \<union> set (drop b' B). v \<le> y"
      "set (drop a' A) \<subseteq> set (drop a_idx A)" "set (drop b' B) \<subseteq> set (drop b_idx B)"
      "take a' A = take a_idx A \<or> take a' A = take a_idx A @ [v]"
      "take b' B = take b_idx B \<or> take b' B = take b_idx B @ [v]"
      by (rule next_point_spec [OF assms(2,3) prems(2,3) A B s True]) blast
    let ?g = "is_in op (odd a') (odd b') \<noteq> odd (cr_len cr)"
    let ?out = "if ?g then pts cr @ [v] else pts cr"
    have lens: "length (take a' A) = a'" "length (take b' B) = b'" "length (pts cr) = cr_len cr"
      using ab lA lB length_pts [OF prems(1)] by simp_all
    have inv: "op_inv op ?out (take a' A) (drop a' A) (take b' B) (drop b' B)"
      by (rule op_inv_step [OF prems(4) step]) (simp only: lens)
    have "a_len - a' + (b_len - b') < a_len - a_idx + (b_len - b_idx)" using next_point_advances [OF np] .
    note ih = less.hyps [OF this]
    consider (added) cr1 where "(if ?g then cr_add_point cr v else Some (0, cr)) = Some (0, cr1)" "cr_ok cr1"
        "pts cr1 = ?out" "cr_len cr1 \<le> cr_len cr + 1" "cr_realloc_func cr1 = cr_realloc_func cr"
      | (failed) "(if ?g then cr_add_point cr v else Some (0, cr)) = Some (-1, cr)"
    proof (cases ?g)
      case g: True
      have "cr_len cr + 1 \<le> a_len + b_len" using prems(5) ab by linarith
      then have "3 * (cr_len cr + 1) \<le> int_max" using lim by simp
      from cr_add_point_ok [OF prems(1) this, of v] show ?thesis
      proof (elim disjE exE conjE)
        fix cr1 assume "cr_add_point cr v = Some (0, cr1)" "cr_ok cr1" "pts cr1 = pts cr @ [v]"
          "cr_len cr1 = cr_len cr + 1" "cr_realloc_func cr1 = cr_realloc_func cr"
        with g show ?thesis by (intro that(1) [of cr1]) simp_all
      qed (use g that(2) in simp)
    qed (use prems(1) that in simp)
    then show ?thesis
    proof cases
      case added
      have "cr_len cr1 \<le> a' + b'" using added(4) ab prems(5) by linarith
      from ih [OF added(2) ab(1,2) _ this] inv added show ?thesis
        by (subst cr_op_loop.simps) (simp add: np)
    next
      case failed
      with np prems(1) show ?thesis by (subst cr_op_loop.simps) simp
    qed
  qed
qed

lemma cr_op_ok:
  assumes "cr_ok cr" "cr_len cr = 0" "a_len \<le> length a_pt" "b_len \<le> length b_pt"
    and "sorted (take a_len a_pt)" "sorted (take b_len b_pt)" "even a_len" "even b_len"
    and "3 * (a_len + b_len) \<le> int_max"
  shows "\<exists>r cr'. cr_op cr a_pt a_len b_pt b_len op = Some (r, cr') \<and> cr_ok cr' \<and>
     cr_realloc_func cr' = cr_realloc_func cr \<and>
     (r = -1 \<or> r = 0 \<and> even (length (pts cr')) \<and> sorted_wrt (<) (pts cr') \<and>
        length (pts cr') \<le> a_len + b_len \<and>
        (\<forall>c. member (pts cr') c = is_in op (member (take a_len a_pt) c) (member (take b_len b_pt) c)))"
proof -
  have "op_inv op (pts cr) (take 0 (take a_len a_pt)) (drop 0 (take a_len a_pt)) (take 0 (take b_len b_pt)) (drop 0 (take b_len b_pt))"
    using assms(2) by (cases op) (simp_all add: op_inv_def pts_def is_in_def mem_simps)
  from cr_op_loop_ok [OF assms(1,3,4) _ _ refl refl assms(5,6) this _ assms(9,7,8)] assms(2)
  show ?thesis by (simp add: cr_op_def)
qed

lemma cr_union1_ok:
  assumes "cr_ok cr" "sorted (pts cr)" "even (cr_len cr)" "b_len \<le> length b_pt" "sorted (take b_len b_pt)"
    "even b_len" "3 * (cr_len cr + b_len) \<le> int_max"
  shows "\<exists>r cr'. cr_union1 cr b_pt b_len = Some (r, cr') \<and> cr_ok cr' \<and>
     cr_realloc_func cr' = cr_realloc_func cr \<and>
     (r = -1 \<or> r = 0 \<and> even (length (pts cr')) \<and> sorted_wrt (<) (pts cr') \<and>
        length (pts cr') \<le> cr_len cr + b_len \<and>
        (\<forall>c. member (pts cr') c \<longleftrightarrow> member (pts cr) c \<or> member (take b_len b_pt) c))"
proof -
  let ?cr = "cr\<lparr>cr_len := 0, cr_size := 0, cr_points := []\<rparr>"
  have "cr_ok ?cr" "cr_len ?cr = 0" "cr_len cr \<le> length (cr_points cr)" using assms(1) by (simp_all add: cr_ok_def)
  from cr_op_ok [OF this assms(4) _ assms(5,3,6,7), of CR_OP_UNION] assms(2)
  show ?thesis by (simp add: cr_union1_def is_in_def pts_def)
qed

lemma pts_cons_snoc:
  assumes "len + 2 \<le> length pt"
  shows "\<exists>pt'. (do { data \<leftarrow> arr_slice pt 0 len; q \<leftarrow> arr_write pt 1 data; q \<leftarrow> arr_set q 0 x; arr_set q (len + 1) y }) = Some pt' \<and>
     length pt' = length pt \<and> take (len + 2) pt' = x # take len pt @ [y]"
proof -
  define q where "q = take 1 pt @ take len pt @ drop (1 + len) pt"
  define pt' where "pt' = q[0 := x, len + 1 := y]"
  have lq: "length q = length pt" and ne: "pt \<noteq> []" using assms by (auto simp: q_def)
  have "arr_slice pt 0 len = Some (take len pt)" "arr_write pt 1 (take len pt) = Some q"
    "arr_set q 0 x = Some (q[0 := x])" "arr_set (q[0 := x]) (len + 1) y = Some pt'"
    using assms lq ne by (simp_all add: arr_slice_def arr_write_def arr_set_def q_def pt'_def)
  moreover have "take (len + 2) pt' = take (Suc len) (q[0 := x]) @ [y]"
    using assms lq by (simp add: take_Suc_update pt'_def)
  moreover have "take (Suc len) (q[0 := x]) = x # take len pt"
    using assms by (cases pt) (simp_all add: q_def)
  ultimately show ?thesis using lq by (simp add: pt'_def)
qed

lemma cr_invert_ok:
  assumes "cr_ok cr" "sorted (pts cr)" "even (cr_len cr)" "3 * (cr_len cr + 2) \<le> int_max"
  shows "\<exists>r cr'. cr_invert cr = Some (r, cr') \<and> cr_ok cr' \<and> cr_realloc_func cr' = cr_realloc_func cr \<and>
     (r = -1 \<and> cr' = cr \<or> r = 0 \<and> even (length (pts cr')) \<and> sorted_wrt (<) (pts cr') \<and> length (pts cr') \<le> cr_len cr + 2 \<and>
        (\<forall>c. c \<noteq> - 1 \<longrightarrow> member (pts cr') c = (\<not> member (pts cr) c)))"
proof -
  have "cr_realloc cr (cr_len cr + 2) = (if cr_len cr + 2 > cr_size cr then cr_realloc cr (cr_len cr + 2) else Some (0, cr))"
    using assms(4) by (auto simp: cr_realloc_def)
  note unfold = this
  show ?thesis
  proof (rule cr_grow [OF assms(1,4) refl], fold unfold)
    fix cr1 assume g: "cr_realloc cr (cr_len cr + 2) = Some (0, cr1)" and ok1: "cr_ok cr1"
      and sz: "cr_len cr + 2 \<le> cr_size cr1" and eq: "cr_len cr1 = cr_len cr"
      "cr_realloc_func cr1 = cr_realloc_func cr" "pts cr1 = pts cr"
    have "cr_len cr + 2 \<le> length (cr_points cr1)" using sz ok1 by (simp add: cr_ok_def)
    from pts_cons_snoc [OF this, of 0 "-1"] obtain pt where
      pt: "(do { data \<leftarrow> arr_slice (cr_points cr1) 0 (cr_len cr); q \<leftarrow> arr_write (cr_points cr1) 1 data;
            q \<leftarrow> arr_set q 0 0; arr_set q (cr_len cr + 1) (- 1) }) = Some pt"
      "length pt = length (cr_points cr1)" "take (cr_len cr + 2) pt = 0 # pts cr @ [- 1]"
      using eq by (auto simp: pts_def)
    define cr2 where "cr2 = cr1\<lparr>cr_points := pt, cr_len := cr_len cr + 2\<rparr>"
    have ok2: "cr_ok cr2" and p2: "pts cr2 = 0 # pts cr @ [- 1]"
      using ok1 sz pt by (simp_all add: cr2_def cr_ok_def pts_def)
    obtain cr3 where c3: "cr_compress cr2 = Some cr3" "cr_ok cr3" "pts cr3 = compress (pts cr2)"
      "cr_realloc_func cr3 = cr_realloc_func cr2"
      using cr_compress_ok [OF ok2] by blast
    have e: "cr_invert cr = Some (0, cr3)"
      using g pt(1) c3(1) unfolding cr_invert_def Let_def cr2_def
      by (auto simp: Option.bind_assoc split: bind_splits)
    have srt: "sorted (pts cr2)" "even (length (pts cr2))"
      using assms(2,3) length_pts [OF assms(1)] by (auto simp: p2 sorted_append)
    have "member (pts cr3) c = (\<not> member (pts cr) c)" if "c \<noteq> - 1" for c
    proof -
      have "\<not> (- 1 \<le> c)" using that by (metis word_n1_ge order_antisym)
      then show ?thesis using compress_parity [OF srt(2), of c] by (simp add: member_def c3(3) p2 mem_simps)
    qed
    moreover have "length (pts cr3) \<le> cr_len cr + 2"
      using compress_length [of "pts cr2"] length_pts [OF assms(1)] by (simp add: c3(3) p2)
    ultimately show ?thesis using e c3 srt compress_parity [OF srt(2)] compress_strict [OF srt(2,1)] eq
      by (simp add: cr2_def)
  next
    assume "cr_realloc cr (cr_len cr + 2) = Some (-1, cr)"
    then show ?thesis using assms(1) by (simp add: cr_invert_def)
  qed
qed

lemma cr_copy_ok:
  assumes "cr_ok cr" "cr_ok cr1" "cr_len cr1 \<le> int_max" "3 * cr_size cr \<le> int_max"
  shows "\<exists>r cr'. cr_copy cr cr1 = Some (r, cr') \<and> cr_ok cr' \<and> cr_realloc_func cr' = cr_realloc_func cr \<and>
     (r = -1 \<and> cr' = cr \<or> r = 0 \<and> pts cr' = pts cr1)"
proof -
  from assms(2) have len: "cr_len cr1 \<le> length (cr_points cr1)" by (simp add: cr_ok_def)
  have "cr_size cr * 3 \<le> int_max" using assms(4) by simp
  then consider cr2 where "cr_realloc cr (cr_len cr1) = Some (0, cr2)" "cr_ok cr2" "cr_len cr1 \<le> cr_size cr2"
      "cr_realloc_func cr2 = cr_realloc_func cr" | "cr_realloc cr (cr_len cr1) = Some (-1, cr)"
    using cr_realloc_ok [OF assms(1,3)] by blast
  then show ?thesis
  proof cases
    case 1
    with len show ?thesis by (simp add: cr_copy_def arr_simps cr_ok_def pts_def)
  next
    case 2
    with assms(1) show ?thesis by (simp add: cr_copy_def)
  qed
qed

section \<open>The interface\<close>

text \<open>
  A canonical range list, with room for \<open>n\<close> more points before the size
  computations leave the range of \<open>int\<close>.
\<close>

definition cr_room :: "nat \<Rightarrow> CharRange \<Rightarrow> bool" where
  "cr_room n cr \<longleftrightarrow> cr_ok cr \<and> sorted (pts cr) \<and> even (cr_len cr) \<and> 3 * (cr_len cr + n) \<le> int_max"

text \<open>Adding intervals one after the other, until one fails.\<close>

fun add_all :: "('s \<Rightarrow> u32 \<Rightarrow> u32 \<Rightarrow> (int \<times> 's) ub) \<Rightarrow> 's \<Rightarrow> (u32 \<times> u32) list \<Rightarrow> (int \<times> 's) ub" where
  "add_all add s [] = Some (0, s)"
| "add_all add s ((lo, hi) # is) = on_success (add s lo hi) (\<lambda>s. add_all add s is)"

text \<open>
  What the callers that build a set from intervals rely on: the parser of
  character classes in \<open>libregexp.c\<close> and the property tables.  A failure is
  reported by the return value, and the caller stops.
\<close>

locale interval_set =
  fixes room :: "nat \<Rightarrow> 's \<Rightarrow> bool" and mem :: "'s \<Rightarrow> u32 \<Rightarrow> bool"
    and add :: "'s \<Rightarrow> u32 \<Rightarrow> u32 \<Rightarrow> (int \<times> 's) ub"
  assumes add_law: "room (n + 2) s \<Longrightarrow> lo \<le> hi \<Longrightarrow> hi \<noteq> - 1 \<Longrightarrow>
      \<exists>r s'. add s lo hi = Some (r, s') \<and>
        (r = -1 \<or> r = 0 \<and> room n s' \<and> (\<forall>c. mem s' c \<longleftrightarrow> mem s c \<or> lo \<le> c \<and> c \<le> hi))"
begin

lemma add_all_union:
  assumes "room (n + 2 * length is) s" and "\<forall>(lo, hi) \<in> set is. lo \<le> hi \<and> hi \<noteq> - 1"
  shows "\<exists>r s'. add_all add s is = Some (r, s') \<and>
     (r = -1 \<or> r = 0 \<and> room n s' \<and> (\<forall>c. mem s' c \<longleftrightarrow> mem s c \<or> (\<exists>(lo, hi) \<in> set is. lo \<le> c \<and> c \<le> hi)))"
  using assms
proof (induction "is" arbitrary: s)
  case (Cons i "is")
  obtain lo hi where i: "i = (lo, hi)" by (cases i)
  have "room (n + 2 * length is + 2) s" using Cons.prems(1) by simp
  from add_law [OF this, of lo hi] Cons.prems(2) obtain r s1 where s1: "add s lo hi = Some (r, s1)"
    "r = -1 \<or> r = 0 \<and> room (n + 2 * length is) s1 \<and> (\<forall>c. mem s1 c \<longleftrightarrow> mem s c \<or> lo \<le> c \<and> c \<le> hi)"
    by (auto simp: i)
  show ?case
  proof (cases "r = 0")
    case True
    with s1 Cons.IH [of s1] Cons.prems(2) show ?thesis by (auto simp: i)
  next
    case False
    with s1 show ?thesis by (simp add: i)
  qed
qed simp

end

lemma word_succ_le: "hi \<noteq> (- 1 :: u32) \<Longrightarrow> hi + 1 \<le> c \<longleftrightarrow> hi < c"
proof -
  assume "hi \<noteq> - 1"
  then have "1 + hi \<noteq> 0" by (metis add_eq_0_iff)
  then have "unat (hi + 1) = Suc (unat hi)" by (simp add: unatSuc add.commute)
  then show ?thesis by (simp add: word_le_nat_alt word_less_nat_alt Suc_le_eq)
qed

lemma member_interval: "c1 \<le> c2 \<Longrightarrow> c2 \<noteq> - 1 \<Longrightarrow> member [c1, c2 + 1] c \<longleftrightarrow> c1 \<le> c \<and> c \<le> c2"
proof -
  assume a: "c1 \<le> c2" "c2 \<noteq> (- 1 :: u32)"
  with word_succ_le [OF a(2), of c] show ?thesis by (auto simp: member_def mem_simps)
qed

lemma cr_union_interval_ok:
  assumes "cr_room (n + 2) cr" "lo \<le> hi" "hi \<noteq> - 1"
  shows "\<exists>r cr'. cr_union_interval cr lo hi = Some (r, cr') \<and>
     (r = -1 \<or> r = 0 \<and> cr_room n cr' \<and>
        (\<forall>c. member (pts cr') c \<longleftrightarrow> member (pts cr) c \<or> lo \<le> c \<and> c \<le> hi))"
proof -
  have "lo \<le> hi + 1" using assms(2) word_succ_le [OF assms(3), of lo] by (metis le_less_linear less_le_not_le nle_le order_trans)
  then obtain r cr' where u: "cr_union1 cr [lo, hi + 1] 2 = Some (r, cr')" "cr_ok cr'"
    "r = -1 \<or> r = 0 \<and> even (length (pts cr')) \<and> sorted_wrt (<) (pts cr') \<and> length (pts cr') \<le> cr_len cr + 2 \<and>
        (\<forall>c. member (pts cr') c \<longleftrightarrow> member (pts cr) c \<or> member [lo, hi + 1] c)"
    using cr_union1_ok [of cr 2 "[lo, hi + 1]"] assms(1) by (auto simp: cr_room_def)
  have "sorted (pts cr')" if "sorted_wrt (<) (pts cr')"
    using that by (rule sorted_wrt_mono_rel [rotated]) auto
  with u assms(1) length_pts [OF u(2)] member_interval [OF assms(2,3)] show ?thesis
    by (auto simp: cr_union_interval_def cr_room_def)
qed

interpretation cr: interval_set cr_room "\<lambda>cr. member (pts cr)" cr_union_interval
  by unfold_locales (rule cr_union_interval_ok)

lemma cr_init_room: "allocator rf \<Longrightarrow> 3 * n \<le> int_max \<Longrightarrow> cr_room n (cr_init d (Some rf))"
  by (simp add: cr_room_def cr_ok_def cr_init_def pts_def)

lemma pts_cr_init [simp]: "pts (cr_init d rf) = []"
  by (simp add: pts_def cr_init_def)

lemma cr_default_allocator: "allocator (cr_default_realloc avail fill)"
  using c_realloc_allocator by (simp add: cr_default_realloc_def [abs_def])

section \<open>Failures\<close>

text \<open>An operation keeps the allocator and returns an error only if the allocator can fail.\<close>

definition blames :: "u32 realloc \<Rightarrow> (int \<times> CharRange) ub \<Rightarrow> bool" where
  "blames rf m \<longleftrightarrow> (\<forall>r cr'. m = Some (r, cr') \<longrightarrow> cr_realloc_func cr' = rf \<and> (r \<noteq> 0 \<longrightarrow> \<not> never_fails rf))"

lemma blames_on_success: "blames rf m \<Longrightarrow> (\<And>cr. cr_realloc_func cr = rf \<Longrightarrow> blames rf (f cr)) \<Longrightarrow> blames rf (on_success m f)"
proof -
  assume m: "blames rf m" and f: "\<And>cr. cr_realloc_func cr = rf \<Longrightarrow> blames rf (f cr)"
  show ?thesis
  proof (cases m)
    case (Some x)
    obtain r cr where x: "x = (r, cr)" by (cases x)
    show ?thesis using m f [of cr] Some x by (cases "r = 0") (auto simp: blames_def on_success_def)
  qed (simp add: blames_def)
qed

lemma blames_simple [simp]: "cr_realloc_func cr = rf \<Longrightarrow> blames rf (Some (0, cr))" "blames rf None"
  by (simp_all add: blames_def)

lemma blames_realloc: "cr_realloc_func cr = rf \<Longrightarrow> blames rf (cr_realloc cr n)"
  by (auto simp: blames_def cr_realloc_def never_fails_def Let_def split: option.splits if_splits)

lemma blames_put: "cr_realloc_func cr = rf \<Longrightarrow> blames rf (cr_put cr v)"
  by (auto simp: blames_def cr_put_def bind_eq_Some_conv)

lemma cr_compress_func: "cr_compress cr = Some cr' \<Longrightarrow> cr_realloc_func cr' = cr_realloc_func cr"
  by (auto simp: cr_compress_def bind_eq_Some_conv)

lemma blames_compress: "cr_realloc_func cr = rf \<Longrightarrow> blames rf (Option.bind (cr_compress cr) (\<lambda>cr. Some (0, cr)))"
  by (auto simp: blames_def bind_eq_Some_conv dest!: cr_compress_func)

lemma blames_add_point: "cr_realloc_func cr = rf \<Longrightarrow> blames rf (cr_add_point cr v)"
  by (auto simp: cr_add_point_def intro!: blames_on_success blames_realloc blames_put)

lemma blames_add_interval: "cr_realloc_func cr = rf \<Longrightarrow> blames rf (cr_add_interval cr a b)"
  by (auto simp: cr_add_interval_def intro!: blames_on_success blames_realloc blames_put)

lemma blames_op_loop: "cr_realloc_func cr = rf \<Longrightarrow> blames rf (cr_op_loop cr a_pt a_len b_pt b_len op a_idx b_idx)"
proof (induction cr a_pt a_len b_pt b_len op a_idx b_idx rule: cr_op_loop.induct)
  case (1 cr a_pt a_len b_pt b_len op a_idx b_idx)
  have ih: "blames rf (cr_op_loop cr' a_pt a_len b_pt b_len op a' b')"
    if "next_point a_pt a_len b_pt b_len a_idx b_idx = Some (Some (v, a', b'))" "cr_realloc_func cr' = rf" for v a' b' cr'
    using 1(1) [OF that(1) refl refl refl that(2)] .
  then have ih': "blames (cr_realloc_func cr') (cr_op_loop cr' a_pt a_len b_pt b_len op a' b')"
    if "next_point a_pt a_len b_pt b_len a_idx b_idx = Some (Some (v, a', b'))" "rf = cr_realloc_func cr'" for v a' b' cr'
    using that by blast
  show ?case
    by (subst cr_op_loop.simps) (auto simp: 1(2) split: option.split intro!: blames_on_success blames_add_point blames_compress intro: ih ih')
qed

lemma blames_op: "cr_realloc_func cr = rf \<Longrightarrow> blames rf (cr_op cr a_pt a_len b_pt b_len op)"
  by (simp add: cr_op_def blames_op_loop)

lemma blames_union1: "cr_realloc_func cr = rf \<Longrightarrow> blames rf (cr_union1 cr b_pt b_len)"
  by (simp add: cr_union1_def blames_op)

lemma blames_union_interval: "cr_realloc_func cr = rf \<Longrightarrow> blames rf (cr_union_interval cr a b)"
  by (simp add: cr_union_interval_def blames_union1)

lemma blames_invert: "cr_realloc_func cr = rf \<Longrightarrow> blames rf (cr_invert cr)"
  unfolding cr_invert_def Let_def
  by (rule blames_on_success, erule blames_realloc) (auto simp: blames_def bind_eq_Some_conv dest!: cr_compress_func)

lemma blames_add_all:
  "(\<And>cr lo hi. cr_realloc_func cr = rf \<Longrightarrow> blames rf (add cr lo hi)) \<Longrightarrow> cr_realloc_func cr = rf \<Longrightarrow> blames rf (add_all add cr is)"
  by (induction add cr "is" rule: add_all.induct) (auto intro!: blames_on_success)

section \<open>Properties\<close>

text \<open>
  C14.  \<open>cr_op\<close> on two sorted boundary lists either reports a failure of the allocator
  (never if the allocator has memory for every request) or leaves in \<open>cr\<close> a strictly increasing list with an even number of boundaries
  that describes exactly the union, the intersection or the symmetric difference
  of the two sets; it never accesses memory out of bounds.
\<close>

theorem cr_op_set_semantics:
  assumes "cr_ok cr" "cr_len cr = 0" "a_len \<le> length a_pt" "b_len \<le> length b_pt"
    and "sorted (take a_len a_pt)" "sorted (take b_len b_pt)" "even a_len" "even b_len"
    and "3 * (a_len + b_len) \<le> int_max"
  shows "\<exists>r cr'. cr_op cr a_pt a_len b_pt b_len op = Some (r, cr') \<and> cr_ok cr' \<and>
     (r = -1 \<and> (\<exists>old n. cr_realloc_func cr old n = None) \<or>
      r = 0 \<and> even (length (pts cr')) \<and> sorted_wrt (<) (pts cr') \<and>
        (\<forall>c. member (pts cr') c = is_in op (member (take a_len a_pt) c) (member (take b_len b_pt) c)))"
  using cr_op_ok [OF assms, of op] blames_op [OF refl, of cr a_pt a_len b_pt b_len op] by (auto simp: blames_def never_fails_def)

theorem cr_op_set_semantics_witness:
  "\<exists>r cr'. cr_op (cr_init (cr_default_realloc (\<lambda>_. True) (\<lambda>_. 0)) None) [1, 5] 2 [3, 9] 2 CR_OP_INTER = Some (r, cr') \<and>
     cr_ok cr' \<and> r = 0 \<and> even (length (pts cr')) \<and> sorted_wrt (<) (pts cr') \<and>
     (\<forall>c. member (pts cr') c = is_in CR_OP_INTER (member [1, 5] c) (member [3, 9] c))"
  using cr_op_set_semantics [of "cr_init (cr_default_realloc (\<lambda>_. True) (\<lambda>_. 0)) None" 2 "[1, 5]" 2 "[3, 9]" CR_OP_INTER]
    cr_default_allocator [of "\<lambda>_. True" "\<lambda>_. 0"]
  by (simp add: cr_ok_def cr_init_def int_max_def cr_default_realloc_def c_realloc_def)

text \<open>
  C15.  A set built by \<open>cr_union_interval\<close> calls from the empty range holds exactly the
  code points of the intervals, and \<open>cr_invert\<close> then gives its complement (below
  the end mark \<open>UINT32_MAX\<close>): the way character classes are compiled.  A call fails
  only if the allocator can fail.
\<close>

theorem cr_class_semantics:
  assumes "allocator rf" and "6 * length is + 6 \<le> int_max" and "\<forall>(lo, hi) \<in> set is. lo \<le> hi \<and> hi \<noteq> - 1"
  shows "\<exists>r cr. add_all cr_union_interval (cr_init d (Some rf)) is = Some (r, cr) \<and>
     (r = -1 \<and> (\<exists>old n. rf old n = None) \<or>
      r = 0 \<and> (\<forall>c. member (pts cr) c \<longleftrightarrow> (\<exists>(lo, hi) \<in> set is. lo \<le> c \<and> c \<le> hi)) \<and>
        (\<exists>r' cr'. cr_invert cr = Some (r', cr') \<and>
           (r' = -1 \<and> (\<exists>old n. rf old n = None) \<or>
            r' = 0 \<and> (\<forall>c. c \<noteq> - 1 \<longrightarrow> member (pts cr') c = (\<not> (\<exists>(lo, hi) \<in> set is. lo \<le> c \<and> c \<le> hi))))))"
proof -
  let ?new = "cr_init d (Some rf)"
  have rf: "cr_realloc_func ?new = rf" by (simp add: cr_init_def)
  have "3 * (2 + 2 * length is) \<le> int_max" using assms(2) by simp
  then have "cr_room (2 + 2 * length is) ?new" using assms(1) by (rule cr_init_room [rotated])
  from cr.add_all_union [OF this assms(3)] obtain r cr1 where
    a: "add_all cr_union_interval ?new is = Some (r, cr1)" and
    b: "r = -1 \<or> r = 0 \<and> cr_room 2 cr1 \<and> (\<forall>c. member (pts cr1) c \<longleftrightarrow> (\<exists>(lo, hi) \<in> set is. lo \<le> c \<and> c \<le> hi))"
    by (auto simp: member_def mem_simps)
  have bl: "cr_realloc_func cr1 = rf" "r \<noteq> 0 \<Longrightarrow> \<not> never_fails rf"
    using blames_add_all [of rf cr_union_interval, OF blames_union_interval rf, where ?is = "is"] a by (simp_all add: blames_def)
  show ?thesis
  proof (cases "r = 0")
    case True
    with b have rm: "cr_room 2 cr1" and m: "\<forall>c. member (pts cr1) c \<longleftrightarrow> (\<exists>(lo, hi) \<in> set is. lo \<le> c \<and> c \<le> hi)" by auto
    from cr_invert_ok [of cr1] rm obtain r' cr' where i: "cr_invert cr1 = Some (r', cr')"
      "r' = -1 \<or> r' = 0 \<and> (\<forall>c. c \<noteq> - 1 \<longrightarrow> member (pts cr') c = (\<not> member (pts cr1) c))"
      by (auto simp: cr_room_def)
    have "r' = -1 \<Longrightarrow> \<not> never_fails rf" using blames_invert [OF bl(1)] i(1) by (simp add: blames_def)
    with a m True i show ?thesis by (auto simp: never_fails_def)
  qed (use a b bl in \<open>auto simp: never_fails_def\<close>)
qed

theorem cr_class_semantics_witness:
  "\<exists>cr. add_all cr_union_interval (cr_init (cr_default_realloc (\<lambda>_. True) (\<lambda>_. 0)) (Some (cr_default_realloc (\<lambda>_. True) (\<lambda>_. 0))))
        [(0x30, 0x39), (0x41, 0x5a)] = Some (0, cr) \<and> member (pts cr) 0x35 \<and> \<not> member (pts cr) 0x3a"
proof -
  let ?rf = "cr_default_realloc (\<lambda>_. True) (\<lambda>_. 0)"
  let ?is = "[(0x30, 0x39), (0x41, 0x5a)] :: (u32 \<times> u32) list"
  have "6 * length ?is + 6 \<le> int_max" "\<forall>(lo, hi) \<in> set ?is. lo \<le> hi \<and> hi \<noteq> - 1"
    by (simp_all add: int_max_def)
  moreover have "?rf old n \<noteq> None" for old n by (simp add: cr_default_realloc_def c_realloc_def)
  ultimately obtain cr where "add_all cr_union_interval (cr_init ?rf (Some ?rf)) ?is = Some (0, cr)"
    "\<forall>c. member (pts cr) c \<longleftrightarrow> (\<exists>(lo, hi) \<in> set ?is. lo \<le> c \<and> c \<le> hi)"
    using cr_class_semantics [OF cr_default_allocator, of ?is ?rf "\<lambda>_. True" "\<lambda>_. 0"] by blast
  moreover have "(\<exists>(lo, hi) \<in> set ?is. lo \<le> 0x35 \<and> 0x35 \<le> hi)" "\<not> (\<exists>(lo, hi) \<in> set ?is. lo \<le> 0x3a \<and> 0x3a \<le> hi)"
    by simp_all
  ultimately show ?thesis by blast
qed

end
