(* ===== verification/CharRange_Sort.thy ===== *)
theory CharRange_Sort
  imports CharRange Rqsort_Correct
begin

text \<open>
  \<open>point_cmp\<close> and \<open>cr_sort_and_remove_overlap\<close> of \<open>src/libunicode.c\<close>: a list of
  intervals in any order, overlapping or not, becomes a canonical boundary list
  of their union.  The intervals are sorted by \<open>rqsort\<close> on elements of two points;
  \<open>point_cmp\<close> is shown to be a total preorder, the contract of the sort.
\<close>

section \<open>Sorting and merging\<close>

type_synonym interval = "u32 \<times> u32"

definition point_cmp :: "interval \<Rightarrow> interval \<Rightarrow> int" where
  "point_cmp p1 p2 = of_bool (fst p1 > fst p2) - of_bool (fst p1 < fst p2)"

text \<open>The array of points seen as an array of elements of two points, and back.\<close>

fun pairs_of :: "u32 list \<Rightarrow> interval list" where
  "pairs_of (x # y # r) = (x, y) # pairs_of r"
| "pairs_of _ = []"

fun flat :: "interval list \<Rightarrow> u32 list" where
  "flat [] = []"
| "flat ((x, y) # r) = x # y # flat r"

text \<open>The inner loop merges what starts inside the current interval.\<close>

function overlap_run :: "u32 list \<Rightarrow> nat \<Rightarrow> nat \<Rightarrow> u32 \<Rightarrow> (u32 \<times> nat) ub" where
  "overlap_run pt len i e =
     (if i < len then do {
        start1 \<leftarrow> arr_get pt i;
        end1 \<leftarrow> arr_get pt (i + 1);
        if start1 > e then Some (e, i)
        else if end1 \<le> e then overlap_run pt len (i + 2) e
        else overlap_run pt len (i + 2) end1
      } else Some (e, i))"
  by pat_completeness auto
termination
  by (relation "measure (\<lambda>(pt, len, i, e). len - i)") auto

declare overlap_run.simps [simp del]

lemma overlap_run_ge: "overlap_run pt len i e = Some (e', i') \<Longrightarrow> i \<le> i'"
proof (induction pt len i e rule: overlap_run.induct)
  case (1 pt len i e)
  show ?case
  proof (cases "i < len")
    case True
    with "1.prems" obtain x y where xy: "arr_get pt i = Some x" "arr_get pt (i + 1) = Some y"
      by (subst (asm) overlap_run.simps) (auto split: bind_splits)
    with True "1.prems" have "(if x > e then Some (e, i) else if y \<le> e then overlap_run pt len (i + 2) e
        else overlap_run pt len (i + 2) y) = Some (e', i')"
      by (subst (asm) overlap_run.simps) simp
    with "1.IH"(1) [OF True xy] "1.IH"(2) [OF True xy] show ?thesis by (auto split: if_splits)
  next
    case False
    with "1.prems" show ?thesis by (subst (asm) overlap_run.simps) simp
  qed
qed

function overlap_loop :: "u32 list \<Rightarrow> nat \<Rightarrow> nat \<Rightarrow> nat \<Rightarrow> (u32 list \<times> nat) ub" where
  "overlap_loop pt len i j =
     (if i < len then do {
        start \<leftarrow> arr_get pt i;
        e \<leftarrow> arr_get pt (i + 1);
        (e, i') \<leftarrow> overlap_run pt len (i + 2) e;
        pt \<leftarrow> arr_set pt j start;
        pt \<leftarrow> arr_set pt (j + 1) e;
        overlap_loop pt len i' (j + 2)
      } else Some (pt, j))"
  by pat_completeness auto
termination
  by (relation "measure (\<lambda>(pt, len, i, j). len - i)") (auto dest!: overlap_run_ge)

declare overlap_loop.simps [simp del]

definition cr_sort_and_remove_overlap :: "CharRange \<Rightarrow> CharRange ub" where
  "cr_sort_and_remove_overlap cr = do {
     let n = cr_len cr div 2;
     es \<leftarrow> arr_slice (cr_points cr) 0 (2 * n);
     ps \<leftarrow> rqsort point_cmp (pairs_of es);
     pt \<leftarrow> arr_write (cr_points cr) 0 (flat ps);
     (pt, j) \<leftarrow> overlap_loop pt (cr_len cr) 0 0;
     Some (cr\<lparr>cr_points := pt, cr_len := j\<rparr>)
   }"

section \<open>The comparison\<close>

interpretation points: comparator point_cmp
  by unfold_locales (auto simp: point_cmp_def of_bool_def split: if_splits)

lemma point_cmp_le: "point_cmp p q \<le> 0 \<longleftrightarrow> fst p \<le> fst q"
  by (auto simp: point_cmp_def of_bool_def)

lemma rqsort_points:
  obtains ps where "rqsort point_cmp es = Some ps" "mset ps = mset es" "sorted_wrt (\<lambda>p q. fst p \<le> fst q) ps"
  using rqsort_ok [of point_cmp es] points.comparator_axioms by (auto simp: point_cmp_le)

section \<open>The merge\<close>

lemma length_flat [simp]: "length (flat ps) = 2 * length ps"
  by (induction ps rule: flat.induct) auto

lemma flat_pairs_of [simp]: "even (length xs) \<Longrightarrow> flat (pairs_of xs) = xs"
  by (induction xs rule: pairs_of.induct) auto

lemma pairs_of_flat [simp]: "pairs_of (flat ps) = ps"
  by (induction ps rule: flat.induct) auto

lemma length_pairs_of: "length (pairs_of xs) = length xs div 2"
  by (induction xs rule: pairs_of.induct) auto

text \<open>What the two loops compute: the next interval, with those that touch it merged.\<close>

fun absorb :: "u32 \<Rightarrow> interval list \<Rightarrow> u32 \<times> interval list" where
  "absorb e [] = (e, [])"
| "absorb e ((s1, e1) # r) =
     (if s1 > e then (e, (s1, e1) # r) else if e1 \<le> e then absorb e r else absorb e1 r)"

lemma absorb_length: "length (snd (absorb e r)) \<le> length r"
  by (induction e r rule: absorb.induct) auto

function merge_all :: "interval list \<Rightarrow> interval list" where
  "merge_all [] = []"
| "merge_all ((s, e) # r) = (s, fst (absorb e r)) # merge_all (snd (absorb e r))"
  by pat_completeness auto
termination
  by (relation "measure length") (auto simp: absorb_length le_imp_less_Suc)

declare merge_all.simps [simp del]

lemma overlap_run_eq:
  assumes "pairs_of (drop i (take len pt)) = r" and "len \<le> length pt" and "even len" and "even i" and "i \<le> len"
  shows "\<exists>i'. overlap_run pt len i e = Some (fst (absorb e r), i') \<and> i \<le> i' \<and> i' \<le> len \<and> even i' \<and>
     pairs_of (drop i' (take len pt)) = snd (absorb e r)"
  using assms
proof (induction e r arbitrary: i rule: absorb.induct)
  case (1 e)
  have "\<not> i < len"
  proof
    assume "i < len"
    with 1 have "i + 1 < len" by presburger
    with 1 show False by (simp add: Cons_nth_drop_Suc [symmetric])
  qed
  with 1 show ?case by (subst overlap_run.simps) auto
next
  case (2 e s1 e1 r)
  have "i + 1 < len"
  proof -
    have "length (pairs_of (drop i (take len pt))) = Suc (length r)" using "2.prems"(1) by simp
    with "2.prems"(2) show ?thesis by (simp add: length_pairs_of)
  qed
  then have dr: "drop i (take len pt) = pt ! i # pt ! (i + 1) # drop (i + 2) (take len pt)"
    using "2.prems"(2) by (simp add: Cons_nth_drop_Suc [symmetric])
  with "2.prems"(1) have s: "pt ! i = s1" "pt ! (i + 1) = e1" "pairs_of (drop (i + 2) (take len pt)) = r" by auto
  have get: "arr_get pt i = Some s1" "arr_get pt (i + 1) = Some e1"
    using s \<open>i + 1 < len\<close> "2.prems"(2) by (simp_all add: arr_simps)
  have u: "overlap_run pt len i e = (if s1 > e then Some (e, i) else if e1 \<le> e then overlap_run pt len (i + 2) e
      else overlap_run pt len (i + 2) e1)"
    using get \<open>i + 1 < len\<close> by (subst overlap_run.simps) simp
  have b: "even (i + 2)" "i + 2 \<le> len" using \<open>i + 1 < len\<close> "2.prems"(4) by auto
  consider "s1 > e" | "\<not> s1 > e" "e1 \<le> e" | "\<not> s1 > e" "\<not> e1 \<le> e" by blast
  then show ?case
  proof cases
    case 1
    with u "2.prems" show ?thesis by simp
  next
    case 2
    with u "2.IH"(1) [OF 2 s(3) "2.prems"(2,3) b] show ?thesis by auto
  next
    case 3
    with u "2.IH"(2) [OF 3 s(3) "2.prems"(2,3) b] show ?thesis by auto
  qed
qed

lemma overlap_loop_eq:
  assumes "len \<le> length pt" "even len" "even i" "j \<le> i" "i \<le> len"
  shows "\<exists>pt'. overlap_loop pt len i j = Some (pt', j + 2 * length (merge_all (pairs_of (drop i (take len pt))))) \<and>
     length pt' = length pt \<and>
     take (j + 2 * length (merge_all (pairs_of (drop i (take len pt))))) pt' =
       take j pt @ flat (merge_all (pairs_of (drop i (take len pt)))) \<and>
     j + 2 * length (merge_all (pairs_of (drop i (take len pt)))) \<le> len"
  using assms
proof (induction "len - i" arbitrary: pt i j rule: less_induct)
  case less
  show ?case
  proof (cases "i < len")
    case False
    with less.prems show ?thesis by (subst overlap_loop.simps) (simp add: merge_all.simps)
  next
    case True
    with less.prems(2,3) have i1: "i + 1 < len" by presburger
    define ps where "ps = pairs_of (drop (i + 2) (take len pt))"
    have dr: "pairs_of (drop i (take len pt)) = (pt ! i, pt ! (i + 1)) # ps"
      using i1 less.prems(1) by (simp add: ps_def Cons_nth_drop_Suc [symmetric])
    have "even (i + 2)" "i + 2 \<le> len" using i1 less.prems(3) by auto
    then obtain i' where i': "overlap_run pt len (i + 2) (pt ! (i + 1)) = Some (fst (absorb (pt ! (i + 1)) ps), i')"
      "i + 2 \<le> i'" "i' \<le> len" "even i'" "pairs_of (drop i' (take len pt)) = snd (absorb (pt ! (i + 1)) ps)"
      using overlap_run_eq [of "i + 2" len pt ps "pt ! (i + 1)"] less.prems(1,2) by (auto simp: ps_def)
    let ?e = "fst (absorb (pt ! (i + 1)) ps)"
    define q where "q = pt[j := pt ! i, j + 1 := ?e]"
    have jb: "j + 1 < length pt" "length q = length pt" using less.prems i1 by (auto simp: q_def)
    have u: "overlap_loop pt len i j = overlap_loop q len i' (j + 2)"
      using True i1 i'(1) jb less.prems(1) by (subst overlap_loop.simps) (simp add: arr_simps q_def)
    have "drop i' (take len q) = drop i' (take len pt)"
      using less.prems(4) i'(2) by (simp add: q_def take_update_swap)
    then have m: "merge_all (pairs_of (drop i (take len pt))) = (pt ! i, ?e) # merge_all (pairs_of (drop i' (take len q)))"
      using dr i'(5) by (simp add: merge_all.simps)
    have "take (j + 2) q = take j pt @ [pt ! i, ?e]" using jb by (simp add: q_def take_Suc_update)
    with less.hyps [of i' q "j + 2"] less.prems(1,2,4) i' i1 jb u m show ?thesis by auto
  qed
qed

definition covers :: "interval list \<Rightarrow> u32 \<Rightarrow> bool" where
  "covers ps c \<longleftrightarrow> (\<exists>(s, e) \<in> set ps. s \<le> c \<and> c < e)"

text \<open>Intervals that lie apart, in increasing order.\<close>

fun chain :: "interval list \<Rightarrow> bool" where
  "chain [] \<longleftrightarrow> True"
| "chain ((s, e) # r) \<longleftrightarrow> s \<le> e \<and> (\<forall>(s1, e1) \<in> set r. e < s1) \<and> chain r"

lemma chain_flat_gt: "chain ps \<Longrightarrow> \<forall>(s, e) \<in> set ps. b < s \<Longrightarrow> \<forall>x \<in> set (flat ps). b < x"
  by (induction ps rule: chain.induct) fastforce+

lemma chain_sorted: "chain ps \<Longrightarrow> sorted (flat ps)"
proof (induction ps rule: chain.induct)
  case (2 s e r)
  then have "\<forall>x \<in> set (flat r). e < x" using chain_flat_gt [of r e] by auto
  with 2 show ?case by force
qed simp

lemma chain_member: "chain ps \<Longrightarrow> member (flat ps) c = covers ps c"
proof (induction ps rule: chain.induct)
  case (2 s e r)
  have gt: "\<forall>x \<in> set (flat r). e < x" using 2 chain_flat_gt [of r e] by auto
  consider "e \<le> c" | "c < e" by force
  then show ?case
  proof cases
    case 1
    with 2 show ?thesis by (auto simp: member_def covers_def mem_simps intro: order_trans)
  next
    case 2
    then have "\<not> x \<le> c" if "x \<in> set (flat r)" for x using gt that by fastforce
    then have "cnt (flat r) c = 0" by (simp add: cnt_def)
    moreover have "\<not> covers r c" using "2.prems" 2 by (fastforce simp: covers_def)
    ultimately show ?thesis using 2 by (auto simp: member_def covers_def mem_simps)
  qed
qed (simp add: member_def covers_def mem_simps)

lemma absorb_spec:
  assumes "absorb e r = (e', r')" and "s \<le> e" and "sorted_wrt (\<lambda>p q. fst p \<le> fst q) r"
    and "\<forall>(s1, e1) \<in> set r. s \<le> s1 \<and> s1 \<le> e1"
  shows "e \<le> e' \<and> (\<forall>(s1, e1) \<in> set r'. e' < s1 \<and> s1 \<le> e1) \<and> sorted_wrt (\<lambda>p q. fst p \<le> fst q) r' \<and>
    (\<forall>c. s \<le> c \<and> c < e \<or> covers r c \<longleftrightarrow> s \<le> c \<and> c < e' \<or> covers r' c)"
  using assms
proof (induction e r rule: absorb.induct)
  case (1 e)
  then show ?case by (simp add: covers_def)
next
  case (2 e s1 e1 r)
  consider "s1 > e" | "\<not> s1 > e" "e1 \<le> e" | "\<not> s1 > e" "\<not> e1 \<le> e" by blast
  then show ?case
  proof cases
    case 1
    with "2.prems" have er: "e' = e" "r' = (s1, e1) # r" by auto
    have "\<forall>(s2, e2) \<in> set r'. e < s2 \<and> s2 \<le> e2"
      using 1 "2.prems"(3,4) er by fastforce
    with 1 "2.prems" er show ?thesis by (auto simp: covers_def)
  next
    case 2
    have "covers ((s1, e1) # r) c \<longrightarrow> s \<le> c \<and> c < e \<or> covers r c" for c
      using 2 "2.prems"(4) by (auto simp: covers_def intro: order_trans less_le_trans)
    moreover have "covers r c \<longrightarrow> covers ((s1, e1) # r) c" for c by (auto simp: covers_def)
    ultimately show ?thesis using "2.IH"(1) [OF 2] 2 "2.prems" by auto
  next
    case 3
    have s: "s \<le> s1" "s1 \<le> e" "e < e1" using 3 "2.prems"(4) by auto
    then have "(s \<le> c \<and> c < e \<or> covers ((s1, e1) # r) c) = (s \<le> c \<and> c < e1 \<or> covers r c)" for c
      by (auto simp: covers_def)
    moreover have "e1 \<le> e' \<longrightarrow> e \<le> e'" using s by auto
    moreover have "s \<le> e1" using s by auto
    ultimately show ?thesis using "2.IH"(2) [OF 3] 3 "2.prems" by auto
  qed
qed

lemma merge_all_chain:
  assumes "sorted_wrt (\<lambda>p q. fst p \<le> fst q) ps" and "\<forall>(s, e) \<in> set ps. s \<le> e"
  shows "chain (merge_all ps) \<and> (\<forall>c. covers (merge_all ps) c = covers ps c) \<and>
    (\<forall>b. (\<forall>(s, e) \<in> set ps. b < s) \<longrightarrow> (\<forall>(s, e) \<in> set (merge_all ps). b < s))"
  using assms
proof (induction ps rule: merge_all.induct)
  case (2 s e r)
  obtain e' r' where a: "absorb e r = (e', r')" by (cases "absorb e r")
  have "\<forall>(s1, e1) \<in> set r. s \<le> s1 \<and> s1 \<le> e1" using "2.prems" by auto
  with absorb_spec [OF a, of s] "2.prems" have sp: "e \<le> e'" "\<forall>(s1, e1) \<in> set r'. e' < s1 \<and> s1 \<le> e1"
    "sorted_wrt (\<lambda>p q. fst p \<le> fst q) r'"
    "\<And>c. s \<le> c \<and> c < e \<or> covers r c \<longleftrightarrow> s \<le> c \<and> c < e' \<or> covers r' c" by auto
  have m: "merge_all ((s, e) # r) = (s, e') # merge_all r'" using a by (simp add: merge_all.simps)
  have ih: "chain (merge_all r')" "\<And>c. covers (merge_all r') c = covers r' c"
    "\<And>b. (\<forall>(s, e) \<in> set r'. b < s) \<Longrightarrow> (\<forall>(s, e) \<in> set (merge_all r'). b < s)"
    using "2.IH" a sp(2,3) by force+
  have gt: "\<forall>(s1, e1) \<in> set (merge_all r'). e' < s1" using ih(3) [of e'] sp(2) by force
  have se: "s \<le> e" using "2.prems"(2) by simp
  have "chain (merge_all ((s, e) # r))" using m ih(1) gt se sp(1) by auto
  moreover have "covers (merge_all ((s, e) # r)) c = covers ((s, e) # r) c" for c
    using m ih(2) [of c] sp(4) [of c] by (simp add: covers_def)
  moreover have "\<forall>(s1, e1) \<in> set (merge_all ((s, e) # r)). b < s1" if "\<forall>(s1, e1) \<in> set ((s, e) # r). b < s1" for b
  proof -
    have "b < s" "b < e'" using that se sp(1) by auto
    with m gt show ?thesis by force
  qed
  ultimately show ?case by blast
qed (simp add: merge_all.simps)

lemma cr_sort_ok:
  assumes "cr_ok cr" and "even (cr_len cr)" and "\<forall>(s, e) \<in> set (pairs_of (pts cr)). s \<le> e"
  shows "\<exists>cr'. cr_sort_and_remove_overlap cr = Some cr' \<and> cr_ok cr' \<and> cr_realloc_func cr' = cr_realloc_func cr \<and> even (cr_len cr') \<and> cr_len cr' \<le> cr_len cr \<and>
     sorted (pts cr') \<and>
     (\<forall>c. member (pts cr') c \<longleftrightarrow> (\<exists>(s, e) \<in> set (pairs_of (pts cr)). s \<le> c \<and> c < e))"
proof -
  let ?es = "pairs_of (pts cr)"
  obtain ps where ps: "rqsort point_cmp ?es = Some ps" "mset ps = mset ?es" "sorted_wrt (\<lambda>p q. fst p \<le> fst q) ps"
    by (rule rqsort_points)
  have len: "length (pts cr) = cr_len cr" "cr_len cr \<le> length (cr_points cr)"
    using assms(1) by (simp_all add: length_pts cr_ok_def)
  have lps: "2 * length ps = cr_len cr"
    using arg_cong [OF ps(2), of size] len assms(2) by (simp add: length_pairs_of)
  define pt where "pt = flat ps @ drop (cr_len cr) (cr_points cr)"
  have lpt: "length pt = length (cr_points cr)" "take (cr_len cr) pt = flat ps"
    using lps len by (simp_all add: pt_def)
  have w: "arr_slice (cr_points cr) 0 (2 * (cr_len cr div 2)) = Some (pts cr)" "arr_write (cr_points cr) 0 (flat ps) = Some pt"
    using len lps assms(2) by (simp_all add: arr_slice_def arr_write_def pts_def pt_def)
  from overlap_loop_eq [of "cr_len cr" pt 0 0] assms(2) len lpt obtain pt' where
    o: "overlap_loop pt (cr_len cr) 0 0 = Some (pt', 2 * length (merge_all ps))" "length pt' = length pt"
    "take (2 * length (merge_all ps)) pt' = flat (merge_all ps)" "2 * length (merge_all ps) \<le> cr_len cr"
    by auto
  have e: "cr_sort_and_remove_overlap cr = Some (cr\<lparr>cr_points := pt', cr_len := 2 * length (merge_all ps)\<rparr>)"
    by (simp add: cr_sort_and_remove_overlap_def w ps(1) o(1))
  have set: "set ps = set ?es" using ps(2) by (metis set_mset_mset)
  note m = merge_all_chain [OF ps(3)]
  have c: "chain (merge_all ps)" and cv: "\<And>c. covers (merge_all ps) c = covers ps c"
    using m assms(3) set by auto
  show ?thesis
    using e o lpt(1) assms(1) len chain_sorted [OF c] chain_member [OF c] cv
    by (auto simp: cr_ok_def pts_def covers_def set)
qed

text \<open>
  C16.  \<open>cr_sort_and_remove_overlap\<close> on intervals in any order, overlapping or not,
  leaves a sorted boundary list of exactly their union, in place and without an
  out-of-bounds access; it never fails.
\<close>

theorem cr_sort_and_remove_overlap_union:
  assumes "cr_ok cr" and "even (cr_len cr)" and "\<forall>(s, e) \<in> set (pairs_of (pts cr)). s \<le> e"
  shows "\<exists>cr'. cr_sort_and_remove_overlap cr = Some cr' \<and> cr_ok cr' \<and> even (cr_len cr') \<and> cr_len cr' \<le> cr_len cr \<and>
     sorted (pts cr') \<and>
     (\<forall>c. member (pts cr') c \<longleftrightarrow> (\<exists>(s, e) \<in> set (pairs_of (pts cr)). s \<le> c \<and> c < e))"
  using cr_sort_ok [OF assms] by blast

theorem cr_sort_and_remove_overlap_union_witness:
  "\<exists>cr'. cr_sort_and_remove_overlap \<lparr>cr_len = 4, cr_size = 4, cr_points = [5, 9, 1, 6],
        cr_realloc_func = cr_default_realloc (\<lambda>_. True) (\<lambda>_. 0)\<rparr> = Some cr' \<and>
     sorted (pts cr') \<and> member (pts cr') 7 \<and> \<not> member (pts cr') 9"
proof -
  let ?cr = "\<lparr>cr_len = 4, cr_size = 4, cr_points = [5, 9, 1, 6],
        cr_realloc_func = cr_default_realloc (\<lambda>_. True) (\<lambda>_. 0)\<rparr>"
  have "cr_ok ?cr" "even (cr_len ?cr)" "\<forall>(s, e) \<in> set (pairs_of (pts ?cr)). s \<le> e"
    by (simp_all add: cr_ok_def cr_default_allocator pts_def)
  from cr_sort_and_remove_overlap_union [OF this] obtain cr' where
    "cr_sort_and_remove_overlap ?cr = Some cr'" "sorted (pts cr')"
    "\<And>c. member (pts cr') c \<longleftrightarrow> (\<exists>(s, e) \<in> set (pairs_of (pts ?cr)). s \<le> c \<and> c < e)" by blast
  then show ?thesis by (auto simp: pts_def)
qed

end
