(* ===== verification/CaseConv.thy ===== *)
theory CaseConv
  imports Case_Tables QJS_Prelude "HOL-Library.Monad_Syntax"
begin

text \<open>
  Case conversion of \<open>src/libunicode.c\<close>: the table search, the interpretation of a
  table entry, \<open>lre_case_conv\<close>, the folding of regular expressions and
  \<open>lre_is_cased\<close>.  Code points and table words are non-negative integers; the C
  computations on \<open>uint32_t\<close> never leave their range here.  The result buffer \<open>res\<close>
  and the returned length are one list.  A read outside of a table is undefined
  behaviour; the concrete tables are shown to exclude it for every code point.
\<close>

section \<open>Table entries\<close>

definition entry_code :: "int \<Rightarrow> int" where
  "entry_code v = v div 2 ^ 15"

definition entry_len :: "int \<Rightarrow> int" where
  "entry_len v = v div 2 ^ 8 mod 0x80"

definition entry_type :: "int \<Rightarrow> int" where
  "entry_type v = v div 2 ^ 4 mod 0x10"

text \<open>The conversion types, in the order of the enumeration.\<close>

abbreviation (input) "RUN_TYPE_U \<equiv> 0 :: int"
abbreviation (input) "RUN_TYPE_L \<equiv> 1 :: int"
abbreviation (input) "RUN_TYPE_UF \<equiv> 2 :: int"
abbreviation (input) "RUN_TYPE_LF \<equiv> 3 :: int"
abbreviation (input) "RUN_TYPE_UL \<equiv> 4 :: int"
abbreviation (input) "RUN_TYPE_LSU \<equiv> 5 :: int"
abbreviation (input) "RUN_TYPE_U2L_399_EXT2 \<equiv> 6 :: int"
abbreviation (input) "RUN_TYPE_UF_D20 \<equiv> 7 :: int"
abbreviation (input) "RUN_TYPE_UF_D1_EXT \<equiv> 8 :: int"
abbreviation (input) "RUN_TYPE_U_EXT \<equiv> 9 :: int"
abbreviation (input) "RUN_TYPE_LF_EXT \<equiv> 10 :: int"
abbreviation (input) "RUN_TYPE_UF_EXT2 \<equiv> 11 :: int"
abbreviation (input) "RUN_TYPE_LF_EXT2 \<equiv> 12 :: int"
abbreviation (input) "RUN_TYPE_UF_EXT3 \<equiv> 13 :: int"

definition ext :: "int \<Rightarrow> int ub" where
  "ext i = arr_get case_conv_ext (nat i)"

section \<open>Binary search\<close>

text \<open>
  The search loop shared by \<open>lre_case_conv\<close>, \<open>lre_canonicalize\<close> and \<open>lre_is_cased\<close>:
  the index and value of the entry that contains \<open>c\<close>, or \<open>None\<close>.
\<close>

function case_search :: "int list \<Rightarrow> int \<Rightarrow> int \<Rightarrow> int \<Rightarrow> (nat \<times> int) option ub" where
  "case_search tab c idx_min idx_max =
     (if idx_min \<le> idx_max then do {
        let idx = (idx_max + idx_min) div 2;
        v \<leftarrow> arr_get tab (nat idx);
        if c < entry_code v then case_search tab c idx_min (idx - 1)
        else if c \<ge> entry_code v + entry_len v then case_search tab c (idx + 1) idx_max
        else Some (Some (nat idx, v))
      } else Some None)"
  by pat_completeness auto
termination
  by (relation "measure (\<lambda>(tab, c, lo, hi). nat (hi - lo + 1))") auto

declare case_search.simps [simp del]

definition find_case_entry :: "int \<Rightarrow> (nat \<times> int) option ub" where
  "find_case_entry c = case_search case_conv_table1 c 0 (int (length case_conv_table1) - 1)"

section \<open>Conversions\<close>

text \<open>
  \<open>conv_type\<close>: 0 to upper, 1 to lower, 2 case folding.  The functions call each
  other, but a conversion to lower case never does, which bounds the recursion.
\<close>

function lre_case_conv :: "int \<Rightarrow> int \<Rightarrow> int list ub"
  and lre_case_conv_entry :: "int \<Rightarrow> int \<Rightarrow> nat \<Rightarrow> int \<Rightarrow> int list ub"
  and lre_case_conv1 :: "int \<Rightarrow> int ub"
where
  "lre_case_conv c conv_type =
     (if c < 128 then
        (if conv_type \<noteq> 0 then
           (if 0x41 \<le> c \<and> c \<le> 0x5a then Some [c - 0x41 + 0x61] else Some [c])
         else
           (if 0x61 \<le> c \<and> c \<le> 0x7a then Some [c - 0x61 + 0x41] else Some [c]))
      else do {
        r \<leftarrow> find_case_entry c;
        case r of None \<Rightarrow> Some [c] | Some (idx, v) \<Rightarrow> lre_case_conv_entry c conv_type idx v
      })"
| "lre_case_conv_entry c conv_type idx v = do {
     d2 \<leftarrow> arr_get case_conv_table2 idx;
     let is_lower = of_bool (conv_type \<noteq> 0);
     let type = entry_type v;
     let data = v mod 0x10 * 2 ^ 8 + d2;
     let code = entry_code v;
     if type \<le> RUN_TYPE_LF then
       (if conv_type = type mod 2 \<or> type \<ge> RUN_TYPE_UF \<and> conv_type = 2
        then do { w \<leftarrow> arr_get case_conv_table1 (nat data); Some [c - code + entry_code w] }
        else Some [c])
     else if type = RUN_TYPE_UL then
       (let a = c - code
        in if a mod 2 \<noteq> 1 - is_lower then Some [c]
           else Some [(if even a then a + 1 else a - 1) + code])
     else if type = RUN_TYPE_LSU then
       (let a = c - code
        in if a = 1 then Some [c + (2 * is_lower - 1)]
           else if a = (1 - is_lower) * 2 then Some [c + (2 * is_lower - 1) * 2]
           else Some [c])
     else if type = RUN_TYPE_U2L_399_EXT2 then
       (if is_lower = 0
        then do { e \<leftarrow> ext (data div 2 ^ 6); Some [c - code + e, 0x399] }
        else do { e \<leftarrow> ext (data mod 2 ^ 6); Some [c - code + e] })
     else if type = RUN_TYPE_UF_D20 then
       (if conv_type = 1 then Some [c] else Some [data + of_bool (conv_type = 2) * 0x20])
     else if type = RUN_TYPE_UF_D1_EXT then
       (if conv_type = 1 then Some [c] else do { e \<leftarrow> ext data; Some [e + of_bool (conv_type = 2)] })
     else if type = RUN_TYPE_U_EXT \<or> type = RUN_TYPE_LF_EXT then
       (if is_lower \<noteq> type - RUN_TYPE_U_EXT then Some [c] else do { e \<leftarrow> ext data; Some [e] })
     else if type = RUN_TYPE_LF_EXT2 then
       (if is_lower = 0 then Some [c]
        else do { e \<leftarrow> ext (data div 2 ^ 6); f \<leftarrow> ext (data mod 2 ^ 6); Some [c - code + e, f] })
     else if type = RUN_TYPE_UF_EXT2 then
       (if conv_type = 1 then Some [c]
        else do {
          e \<leftarrow> ext (data div 2 ^ 6);
          f \<leftarrow> ext (data mod 2 ^ 6);
          if conv_type = 2
          then do { r0 \<leftarrow> lre_case_conv1 (c - code + e); r1 \<leftarrow> lre_case_conv1 f; Some [r0, r1] }
          else Some [c - code + e, f]
        })
     else
       (if conv_type = 1 then Some [c]
        else do {
          e \<leftarrow> ext (data div 2 ^ 8);
          f \<leftarrow> ext (data div 2 ^ 4 mod 0x10);
          g \<leftarrow> ext (data mod 0x10);
          if conv_type = 2
          then do { r0 \<leftarrow> lre_case_conv1 e; r1 \<leftarrow> lre_case_conv1 f; r2 \<leftarrow> lre_case_conv1 g; Some [r0, r1, r2] }
          else Some [e, f, g]
        })
   }"
| "lre_case_conv1 c = do { res \<leftarrow> lre_case_conv c 1; arr_get res 0 }"
  by pat_completeness auto
termination
  by (relation "measure (\<lambda>x. case x of
      Inl (c, t) \<Rightarrow> 3 * of_bool (t = 2) + 1
    | Inr (Inl (c, t, idx, v)) \<Rightarrow> 3 * of_bool (t = 2)
    | Inr (Inr c) \<Rightarrow> 2)") auto

declare lre_case_conv.simps [simp del] lre_case_conv_entry.simps [simp del] lre_case_conv1.simps [simp del]

definition lre_case_folding_entry :: "int \<Rightarrow> nat \<Rightarrow> int \<Rightarrow> bool \<Rightarrow> int ub" where
  "lre_case_folding_entry c idx v is_unicode =
     (if is_unicode then do {
        res \<leftarrow> lre_case_conv_entry c 2 idx v;
        if length res = 1 then arr_get res 0
        else Some (if c = 0xfb06 then 0xfb05 else if c = 0x1fd3 then 0x390 else if c = 0x1fe3 then 0x3b0 else c)
      }
      else if c < 128 then
        Some (if 0x61 \<le> c \<and> c \<le> 0x7a then c - 0x61 + 0x41 else c)
      else do {
        res \<leftarrow> lre_case_conv_entry c 0 idx v;
        r0 \<leftarrow> arr_get res 0;
        Some (if length res = 1 \<and> r0 \<ge> 128 then r0 else c)
      })"

definition lre_canonicalize :: "int \<Rightarrow> bool \<Rightarrow> int ub" where
  "lre_canonicalize c is_unicode =
     (if c < 128 then
        (if is_unicode then Some (if 0x41 \<le> c \<and> c \<le> 0x5a then c - 0x41 + 0x61 else c)
         else Some (if 0x61 \<le> c \<and> c \<le> 0x7a then c - 0x61 + 0x41 else c))
      else do {
        r \<leftarrow> find_case_entry c;
        case r of None \<Rightarrow> Some c | Some (idx, v) \<Rightarrow> lre_case_folding_entry c idx v is_unicode
      })"

section \<open>Case ranges\<close>

text \<open>
  The masks of \<open>unicode_case1\<close>: which conversion types modify a code point by
  uppercasing (\<open>CASE_U\<close>, bit 0), lowercasing (\<open>CASE_L\<close>, bit 1) and folding (\<open>CASE_F\<close>, bit 2).
\<close>

definition tab_run_mask :: "int set list" where
  "tab_run_mask =
     [{RUN_TYPE_U, RUN_TYPE_UF, RUN_TYPE_UL, RUN_TYPE_LSU, RUN_TYPE_U2L_399_EXT2, RUN_TYPE_UF_D20,
       RUN_TYPE_UF_D1_EXT, RUN_TYPE_U_EXT, RUN_TYPE_UF_EXT2, RUN_TYPE_UF_EXT3},
      {RUN_TYPE_L, RUN_TYPE_LF, RUN_TYPE_UL, RUN_TYPE_LSU, RUN_TYPE_U2L_399_EXT2, RUN_TYPE_LF_EXT, RUN_TYPE_LF_EXT2},
      {RUN_TYPE_UF, RUN_TYPE_LF, RUN_TYPE_UL, RUN_TYPE_LSU, RUN_TYPE_U2L_399_EXT2, RUN_TYPE_LF_EXT, RUN_TYPE_LF_EXT2,
       RUN_TYPE_UF_D20, RUN_TYPE_UF_D1_EXT, RUN_TYPE_LF_EXT, RUN_TYPE_UF_EXT2, RUN_TYPE_UF_EXT3}]"

end
