(* ===== verification/CaseConv_Correct.thy ===== *)
theory CaseConv_Correct
  imports CaseConv
begin

text \<open>
  The case tables are well formed, the binary search finds the entry of a code
  point whenever there is one, and no conversion of any code point reads outside
  of a table.
\<close>

section \<open>The tables\<close>

fun separated :: "int list \<Rightarrow> bool" where
  "separated (x # y # r) \<longleftrightarrow> entry_code x + entry_len x \<le> entry_code y \<and> separated (y # r)"
| "separated _ \<longleftrightarrow> True"

definition entry_safe :: "int \<Rightarrow> int \<Rightarrow> bool" where
  "entry_safe v d2 =
     (let type = entry_type v; data = v mod 0x10 * 2 ^ 8 + d2
      in 0 \<le> d2 \<and>
         (if type \<le> RUN_TYPE_LF then data < 378
          else if type = RUN_TYPE_UL \<or> type = RUN_TYPE_LSU \<or> type = RUN_TYPE_UF_D20 then True
          else if type = RUN_TYPE_UF_D1_EXT \<or> type = RUN_TYPE_U_EXT \<or> type = RUN_TYPE_LF_EXT then data < 58
          else if type = RUN_TYPE_UF_EXT3 then data div 2 ^ 8 < 58
          else type < RUN_TYPE_UF_EXT3 \<and> data div 2 ^ 6 < 58 \<and> data mod 2 ^ 6 < 58))"

lemma table_lengths: "length case_conv_table1 = 378" "length case_conv_table2 = 378" "length case_conv_ext = 58"
  by (simp_all add: case_conv_table1_def case_conv_table2_def case_conv_ext_def)

lemma table_separated: "separated case_conv_table1"
  by code_simp

lemma table_safe: "list_all2 entry_safe case_conv_table1 case_conv_table2"
  by code_simp

lemma table_nonneg: "list_all (\<lambda>v. 0 \<le> v) case_conv_table1"
  by code_simp

section \<open>Binary search\<close>

definition contains :: "int \<Rightarrow> int \<Rightarrow> bool" where
  "contains v c \<longleftrightarrow> entry_code v \<le> c \<and> c < entry_code v + entry_len v"

lemma entry_len_nonneg: "0 \<le> entry_len v"
  by (simp add: entry_len_def)

lemma separated_Cons: "separated (x # xs) \<Longrightarrow> y \<in> set xs \<Longrightarrow> entry_code x + entry_len x \<le> entry_code y"
proof (induction xs arbitrary: x)
  case (Cons z xs)
  show ?case
  proof (cases "y = z")
    case False
    with Cons.prems have "entry_code z + entry_len z \<le> entry_code y" by (intro Cons.IH) auto
    with Cons.prems(1) entry_len_nonneg [of z] show ?thesis by simp
  qed (use Cons.prems in simp)
qed simp

lemma separated_tl: "separated (x # xs) \<Longrightarrow> separated xs"
  by (cases xs) auto

lemma separated_nth:
  "separated tab \<Longrightarrow> i < j \<Longrightarrow> j < length tab \<Longrightarrow> entry_code (tab ! i) + entry_len (tab ! i) \<le> entry_code (tab ! j)"
proof (induction tab arbitrary: i j)
  case (Cons x tab)
  show ?case
  proof (cases i)
    case 0
    have "tab ! (j - 1) \<in> set tab" using Cons.prems by (intro nth_mem) auto
    with 0 Cons.prems separated_Cons [OF Cons.prems(1)] show ?thesis by (simp add: nth_Cons')
  next
    case (Suc i')
    with Cons.prems Cons.IH [of i' "j - 1"] separated_tl show ?thesis by (auto simp: nth_Cons')
  qed
qed simp

lemma case_search_spec:
  assumes "separated tab" and "0 \<le> lo" and "hi < int (length tab)"
    and "\<forall>i < length tab. int i < lo \<or> hi < int i \<longrightarrow> \<not> contains (tab ! i) c"
  shows "(\<exists>idx < length tab. case_search tab c lo hi = Some (Some (idx, tab ! idx)) \<and> contains (tab ! idx) c) \<or>
     case_search tab c lo hi = Some None \<and> (\<forall>i < length tab. \<not> contains (tab ! i) c)"
  using assms
proof (induction tab c lo hi rule: case_search.induct)
  case (1 tab c lo hi)
  show ?case
  proof (cases "lo \<le> hi")
    case False
    have "\<not> contains (tab ! i) c" if "i < length tab" for i
      using "1.prems"(4) that False by (cases "int i < lo") auto
    with False show ?thesis by (subst (1 2) case_search.simps) simp
  next
    case True
    let ?m = "(hi + lo) div 2"
    define v where "v = tab ! nat ?m"
    have m: "lo \<le> ?m" "?m \<le> hi" "0 \<le> ?m" "nat ?m < length tab" using True "1.prems"(2,3) by linarith+
    have g: "arr_get tab (nat ?m) = Some v" using m by (simp add: v_def arr_simps)
    have u: "case_search tab c lo hi =
      (if c < entry_code v then case_search tab c lo (?m - 1)
       else if c \<ge> entry_code v + entry_len v then case_search tab c (?m + 1) hi
       else Some (Some (nat ?m, v)))"
      using True g by (subst case_search.simps) (simp add: Let_def)
    consider "c < entry_code v" | "\<not> c < entry_code v" "c \<ge> entry_code v + entry_len v" | "contains v c"
      unfolding contains_def by linarith
    then show ?thesis
    proof cases
      case 1
      have "\<not> contains (tab ! i) c" if i: "i < length tab" "int i < lo \<or> ?m - 1 < int i" for i
      proof (cases "int i < lo \<or> hi < int i")
        case False
        then have "i = nat ?m \<or> nat ?m < i" using i m by linarith
        then show ?thesis
          using 1 separated_nth [OF "1.prems"(1) _ i(1), of "nat ?m"] entry_len_nonneg [of v]
          by (auto simp: contains_def v_def)
      qed (use "1.prems"(4) i in auto)
      with "1.IH"(1) [OF True refl g 1 "1.prems"(1,2)] u 1 m "1.prems"(3) show ?thesis by simp
    next
      case 2
      have "\<not> contains (tab ! i) c" if i: "i < length tab" "int i < ?m + 1 \<or> hi < int i" for i
      proof (cases "int i < lo \<or> hi < int i")
        case False
        then have "i = nat ?m \<or> i < nat ?m" using i m by linarith
        then show ?thesis
          using 2 separated_nth [OF "1.prems"(1) _ m(4), of i] entry_len_nonneg [of v]
          by (auto simp: contains_def v_def)
      qed (use "1.prems"(4) i in auto)
      with "1.IH"(2) [OF True refl g 2 "1.prems"(1)] u 2 m "1.prems"(3) show ?thesis by simp
    next
      case 3
      with u m show ?thesis by (auto simp: contains_def v_def)
    qed
  qed
qed

lemma find_case_entry_spec:
  "(\<exists>idx < 378. find_case_entry c = Some (Some (idx, case_conv_table1 ! idx)) \<and> contains (case_conv_table1 ! idx) c) \<or>
   find_case_entry c = Some None \<and> (\<forall>i < 378. \<not> contains (case_conv_table1 ! i) c)"
  using case_search_spec [OF table_separated, of 0 "int (length case_conv_table1) - 1" c]
  by (auto simp: find_case_entry_def table_lengths)

section \<open>Conversions stay inside the tables\<close>

lemma ext_ok: "i < 58 \<Longrightarrow> \<exists>e. ext i = Some e"
  using table_lengths(3) by (auto simp: ext_def arr_get_def nat_less_iff)

lemma entry_facts:
  assumes "idx < 378" and "v = case_conv_table1 ! idx"
  obtains d2 where "arr_get case_conv_table2 idx = Some d2" "entry_safe v d2" "0 \<le> v"
proof -
  have "entry_safe v (case_conv_table2 ! idx)"
    using table_safe assms by (simp add: list_all2_conv_all_nth table_lengths)
  moreover have "0 \<le> v" using table_nonneg assms by (simp add: list_all_length table_lengths)
  ultimately show ?thesis using that assms table_lengths(2) by (simp add: arr_get_def)
qed

text \<open>The cases of \<open>lre_case_conv_entry\<close>, given that the lowering of code points succeeds.\<close>

lemma lre_case_conv_entry_total:
  assumes idx: "idx < 378" "v = case_conv_table1 ! idx" and t: "conv_type \<in> {0, 1, 2}"
    and low: "conv_type = 2 \<Longrightarrow> \<forall>x. \<exists>y. lre_case_conv1 x = Some y"
  shows "\<exists>res. lre_case_conv_entry c conv_type idx v = Some res \<and> 1 \<le> length res \<and> length res \<le> 3"
proof -
  obtain d2 where d2: "arr_get case_conv_table2 idx = Some d2" "entry_safe v d2" "0 \<le> v"
    using entry_facts [OF idx] by blast
  define ty where "ty = entry_type v"
  define data where "data = v mod 0x10 * 2 ^ 8 + d2"
  note sf = d2(2) [unfolded entry_safe_def Let_def, folded ty_def, folded data_def]
  have d0: "0 \<le> data" using conjunct1 [OF sf] by (simp add: data_def)
  have ty: "0 \<le> ty" "ty < 16" by (simp_all add: ty_def entry_type_def)
  note sf' = conjunct2 [OF sf]
  have lt: "ty < 14"
  proof (rule ccontr)
    assume "\<not> ty < 14"
    with sf' show False by simp
  qed
  have s1: "ty \<le> 3 \<Longrightarrow> data < 378" using sf' by simp
  have s2: "ty \<in> {8, 9, 10} \<Longrightarrow> data < 58" using sf' by auto
  have s3: "ty = 13 \<Longrightarrow> data div 2 ^ 8 < 58" using sf' by simp
  have s4: "ty \<in> {6, 11, 12} \<Longrightarrow> data div 2 ^ 6 < 58 \<and> data mod 2 ^ 6 < 58" using sf' by auto
  have safe: "0 \<le> data" "ty \<le> 3 \<Longrightarrow> data < 378" "ty \<in> {8, 9, 10} \<Longrightarrow> data < 58" "ty = 13 \<Longrightarrow> data div 2 ^ 8 < 58"
    "ty \<in> {6, 11, 12} \<Longrightarrow> data div 2 ^ 6 < 58 \<and> data mod 2 ^ 6 < 58" "0 \<le> ty" "ty < 14"
    using d0 s1 s2 s3 s4 ty lt by blast+
  have ex: "\<exists>e. ext i = Some e" if "i < 58" for i using that by (rule ext_ok)
  have ex16: "\<exists>e. ext (i mod 0x10) = Some e" for i by (rule ext_ok) (use pos_mod_bound [of 16 i] in linarith)
  have tab: "\<exists>w. arr_get case_conv_table1 (nat data) = Some w" if "ty \<le> 3"
    using safe(1,2) that by (simp add: arr_get_def table_lengths)
  note u = lre_case_conv_entry.simps [of c conv_type idx v, unfolded d2(1) Let_def bind.bind_lunit,
      folded ty_def, folded data_def]
  consider "ty \<le> 3" | "ty = 4" | "ty = 5" | "ty = 7" | "ty \<in> {8, 9, 10}" | "ty \<in> {6, 12}" | "ty = 11" | "ty = 13"
  proof -
    have "ty \<le> 3 \<or> ty = 4 \<or> ty = 5 \<or> ty = 6 \<or> ty = 7 \<or> ty = 8 \<or> ty = 9 \<or> ty = 10 \<or> ty = 11 \<or> ty = 12 \<or> ty = 13"
      using lt by presburger
    then show ?thesis using that by blast
  qed
  then show ?thesis
  proof cases
    case 1
    with tab obtain w where w: "arr_get case_conv_table1 (nat data) = Some w" by blast
    show ?thesis unfolding u w using 1 by simp
  next
    case 2
    show ?thesis unfolding u using 2 by simp
  next
    case 3
    show ?thesis unfolding u using 3 by simp
  next
    case 4
    show ?thesis unfolding u using 4 by simp
  next
    case 5
    then obtain e where e: "ext data = Some e" using ex safe(3) by blast
    show ?thesis unfolding u e using 5 by (elim insertE emptyE) simp_all
  next
    case 6
    then obtain e f where ef: "ext (data div 2 ^ 6) = Some e" "ext (data mod 2 ^ 6) = Some f"
      using ex safe(5) by blast
    show ?thesis unfolding u ef using 6 by (elim insertE emptyE) simp_all
  next
    case 7
    then obtain e f where ef: "ext (data div 2 ^ 6) = Some e" "ext (data mod 2 ^ 6) = Some f"
      using ex safe(5) by blast
    have "conv_type = 0 \<or> conv_type = 1 \<or> (\<exists>y z. conv_type = 2 \<and>
        lre_case_conv1 (c - entry_code v + e) = Some y \<and> lre_case_conv1 f = Some z)"
      using t low by blast
    then show ?thesis unfolding u ef using 7 by (elim disjE exE conjE) simp_all
  next
    case 8
    then obtain e f g where ef: "ext (data div 2 ^ 8) = Some e" "ext (data div 2 ^ 4 mod 0x10) = Some f" "ext (data mod 0x10) = Some g"
      using ex safe(4) ex16 by blast
    have "conv_type = 0 \<or> conv_type = 1 \<or> (\<exists>x y z. conv_type = 2 \<and>
        lre_case_conv1 e = Some x \<and> lre_case_conv1 f = Some y \<and> lre_case_conv1 g = Some z)"
      using t low by blast
    then show ?thesis unfolding u ef using 8 by (elim disjE exE conjE) simp_all
  qed
qed

lemma lre_case_conv_total_low:
  assumes "conv_type \<in> {0, 1}"
  shows "\<exists>res. lre_case_conv c conv_type = Some res \<and> 1 \<le> length res \<and> length res \<le> 3"
proof (cases "c < 128")
  case True
  then show ?thesis by (simp add: lre_case_conv.simps)
next
  case False
  then show ?thesis
    using find_case_entry_spec [of c] lre_case_conv_entry_total [of _ _ conv_type c] assms
    by (auto simp: lre_case_conv.simps)
qed

lemma lre_case_conv1_total: "\<exists>y. lre_case_conv1 x = Some y"
  using lre_case_conv_total_low [of 1 x] by (auto simp: lre_case_conv1.simps arr_get_def Suc_le_eq)

lemma lre_case_conv_entry_ok:
  assumes "idx < 378" "v = case_conv_table1 ! idx" "conv_type \<in> {0, 1, 2}"
  shows "\<exists>res. lre_case_conv_entry c conv_type idx v = Some res \<and> 1 \<le> length res \<and> length res \<le> 3"
  using lre_case_conv_entry_total [OF assms] lre_case_conv1_total by blast

lemma lre_case_folding_entry_ok:
  assumes "idx < 378" "v = case_conv_table1 ! idx"
  shows "\<exists>d. lre_case_folding_entry c idx v u = Some d"
  using lre_case_conv_entry_ok [OF assms, of 2 c] lre_case_conv_entry_ok [OF assms, of 0 c]
  by (auto simp: lre_case_folding_entry_def arr_get_def Suc_le_eq)

lemma lre_canonicalize_total: "\<exists>d. lre_canonicalize c is_unicode = Some d"
  using find_case_entry_spec [of c] lre_case_folding_entry_ok [of _ _ c is_unicode]
  by (auto simp: lre_canonicalize_def)

text \<open>
  C17.  No case conversion reads outside of the case tables: for every code point
  and each of the three conversion types, \<open>lre_case_conv\<close> ends with one to three
  code points in its result buffer of three, and \<open>lre_canonicalize\<close> returns a code
  point, where the binary search over the table finds the entry of the code
  point exactly when there is one.
\<close>

theorem case_conv_in_tables:
  assumes "conv_type \<in> {0, 1, 2}"
  shows "(\<exists>res. lre_case_conv c conv_type = Some res \<and> 1 \<le> length res \<and> length res \<le> 3) \<and>
    (\<exists>d. lre_canonicalize c is_unicode = Some d) \<and>
    (\<exists>r. find_case_entry c = Some r \<and>
      (case r of None \<Rightarrow> \<forall>v \<in> set case_conv_table1. \<not> contains v c
       | Some (idx, v) \<Rightarrow> arr_get case_conv_table1 idx = Some v \<and> contains v c))"
proof (intro conjI)
  show "\<exists>res. lre_case_conv c conv_type = Some res \<and> 1 \<le> length res \<and> length res \<le> 3"
  proof (cases "c < 128")
    case False
    then show ?thesis
      using find_case_entry_spec [of c] lre_case_conv_entry_ok [OF _ _ assms, of _ _ c]
      by (auto simp: lre_case_conv.simps)
  qed (simp add: lre_case_conv.simps)
  show "\<exists>d. lre_canonicalize c is_unicode = Some d"
    by (rule lre_canonicalize_total)
  show "\<exists>r. find_case_entry c = Some r \<and>
      (case r of None \<Rightarrow> \<forall>v \<in> set case_conv_table1. \<not> contains v c
       | Some (idx, v) \<Rightarrow> arr_get case_conv_table1 idx = Some v \<and> contains v c)"
    using find_case_entry_spec [of c] by (auto simp: arr_get_def table_lengths in_set_conv_nth)
qed

theorem case_conv_in_tables_witness:
  "\<exists>res. lre_case_conv 0xdf 2 = Some res \<and> 1 \<le> length res \<and> length res \<le> 3"
  using case_conv_in_tables [of 2 "0xdf" True] by simp

end
