(* ===== verification/Unicode_Lookup.thy ===== *)
theory Unicode_Lookup
  imports Prop_Tables CaseConv_Correct
begin

text \<open>
  Lookup in the compressed property tables of \<open>src/libunicode.c\<close>: \<open>get_index_pos\<close>
  finds a block through the index, \<open>lre_is_in_table\<close> decodes run lengths from there
  on.  A table is a list of bytes; reading past its end is undefined behaviour.

  The specification of a table is the scan of all its runs from the start
  (\<open>in_runs\<close>).  For an index that is consistent with its table, a condition the
  concrete tables are shown to satisfy, the indexed lookup gives the same answer
  and never leaves the table.
\<close>

section \<open>Lookup\<close>

definition get_le24 :: "int list \<Rightarrow> nat \<Rightarrow> int ub" where
  "get_le24 tab p = do {
     b0 \<leftarrow> arr_get tab p;
     b1 \<leftarrow> arr_get tab (p + 1);
     b2 \<leftarrow> arr_get tab (p + 2);
     Some (b0 + b1 * 2 ^ 8 + b2 * 2 ^ 16)
   }"

text \<open>The bisection loop of \<open>get_index_pos\<close>.\<close>

function index_search :: "int \<Rightarrow> int list \<Rightarrow> nat \<Rightarrow> nat \<Rightarrow> nat ub" where
  "index_search c index idx_min idx_max =
     (if idx_max - idx_min > 1 then do {
        let idx = (idx_max + idx_min) div 2;
        v \<leftarrow> get_le24 index (idx * 3);
        if c < v mod 2 ^ 21 then index_search c index idx_min idx
        else index_search c index idx idx_max
      } else Some idx_min)"
  by pat_completeness auto
termination
  by (relation "measure (\<lambda>(c, index, lo, hi). hi - lo)") auto

declare index_search.simps [simp del]

text \<open>The result is the position in the table with the code there, or \<open>None\<close> for \<open>-1\<close>.\<close>

definition get_index_pos :: "int \<Rightarrow> int list \<Rightarrow> nat \<Rightarrow> (nat \<times> int) option ub" where
  "get_index_pos c index len = do {
     v \<leftarrow> get_le24 index 0;
     if c < v mod 2 ^ 21 then Some (Some (0, 0))
     else do {
       code \<leftarrow> get_le24 index ((len - 1) * 3);
       if c \<ge> code then Some None
       else do {
         idx_min \<leftarrow> index_search c index 0 (len - 1);
         v \<leftarrow> get_le24 index (idx_min * 3);
         Some (Some ((idx_min + 1) * 32 + nat (v div 2 ^ 21), v mod 2 ^ 21))
       }
     }
   }"

text \<open>The decoding loop, on the bytes from \<open>p\<close> on.\<close>

fun run_scan :: "int \<Rightarrow> int list \<Rightarrow> int \<Rightarrow> bool \<Rightarrow> bool ub" where
  "run_scan c [] code bt = None"
| "run_scan c (b # p) code bt =
     (if b < 64 then
        let code1 = code + (b div 2 ^ 3 + 1); code2 = code1 + (b mod 2 ^ 3 + 1)
        in if c < code1 then Some bt
           else if c < code2 then Some (\<not> bt) else run_scan c p code2 bt
      else if b \<ge> 0x80 then
        let code1 = code + (b - 0x80 + 1)
        in if c < code1 then Some bt else run_scan c p code1 (\<not> bt)
      else if b < 0x60 then
        (case p of
           p0 # p' \<Rightarrow>
             let code1 = code + ((b - 0x40) * 2 ^ 8 + p0 + 1)
             in if c < code1 then Some bt else run_scan c p' code1 (\<not> bt)
         | _ \<Rightarrow> None)
      else
        (case p of
           p0 # p1 # p' \<Rightarrow>
             let code1 = code + ((b - 0x60) * 2 ^ 16 + p0 * 2 ^ 8 + p1 + 1)
             in if c < code1 then Some bt else run_scan c p' code1 (\<not> bt)
         | _ \<Rightarrow> None))"

definition lre_is_in_table :: "int \<Rightarrow> int list \<Rightarrow> int list \<Rightarrow> nat \<Rightarrow> bool ub" where
  "lre_is_in_table c tab index len = do {
     r \<leftarrow> get_index_pos c index len;
     case r of
       None \<Rightarrow> Some False
     | Some (pos, code) \<Rightarrow> if pos \<le> length tab then run_scan c (drop pos tab) code False else None
   }"

definition lre_is_cased :: "int \<Rightarrow> bool ub" where
  "lre_is_cased c = do {
     r \<leftarrow> find_case_entry c;
     case r of
       Some _ \<Rightarrow> Some True
     | None \<Rightarrow> lre_is_in_table c unicode_prop_Cased1_table unicode_prop_Cased1_index
                 (length unicode_prop_Cased1_index div 3)
   }"

definition lre_is_case_ignorable :: "int \<Rightarrow> bool ub" where
  "lre_is_case_ignorable c =
     lre_is_in_table c unicode_prop_Case_Ignorable_table unicode_prop_Case_Ignorable_index
       (length unicode_prop_Case_Ignorable_index div 3)"

definition lre_is_id_start :: "int \<Rightarrow> bool ub" where
  "lre_is_id_start c =
     lre_is_in_table c unicode_prop_ID_Start_table unicode_prop_ID_Start_index
       (length unicode_prop_ID_Start_index div 3)"

definition lre_is_id_continue :: "int \<Rightarrow> bool ub" where
  "lre_is_id_continue c = do {
     s \<leftarrow> lre_is_id_start c;
     if s then Some True
     else lre_is_in_table c unicode_prop_ID_Continue1_table unicode_prop_ID_Continue1_index
            (length unicode_prop_ID_Continue1_index div 3)
   }"

section \<open>Consistent indexes\<close>

text \<open>Decode \<open>k\<close> bytes without looking for a code point: the code and the bit reached.\<close>

fun run_skip :: "int list \<Rightarrow> nat \<Rightarrow> int \<Rightarrow> bool \<Rightarrow> (int \<times> bool) option" where
  "run_skip p 0 code bt = Some (code, bt)"
| "run_skip [] (Suc k) code bt = None"
| "run_skip (b # p) (Suc k) code bt =
     (if b < 0 then None
      else if b < 64 then run_skip p k (code + (b div 2 ^ 3 + 1) + (b mod 2 ^ 3 + 1)) bt
      else if b \<ge> 0x80 then run_skip p k (code + (b - 0x80 + 1)) (\<not> bt)
      else if b < 0x60 then
        (case (p, k) of
           (p0 # p', Suc k') \<Rightarrow> if p0 < 0 then None else run_skip p' k' (code + ((b - 0x40) * 2 ^ 8 + p0 + 1)) (\<not> bt)
         | _ \<Rightarrow> None)
      else
        (case (p, k) of
           (p0 # p1 # p', Suc (Suc k')) \<Rightarrow>
             if p0 < 0 \<or> p1 < 0 then None else run_skip p' k' (code + ((b - 0x60) * 2 ^ 16 + p0 * 2 ^ 8 + p1 + 1)) (\<not> bt)
         | _ \<Rightarrow> None))"

lemma run_skip_scan:
  assumes "run_skip p k code bt = Some (code', bt')"
  shows "code \<le> code' \<and> k \<le> length p \<and> (code' \<le> c \<longrightarrow> run_scan c p code bt = run_scan c (drop k p) code' bt') \<and>
     (c < code' \<longrightarrow> code \<le> c \<longrightarrow> (\<exists>b. run_scan c p code bt = Some b))"
  using assms
proof (induction p k code bt arbitrary: code' bt' rule: run_skip.induct)
  case (3 b p k code bt)
  have b0: "0 \<le> b" using "3.prems" by (auto split: if_splits)
  consider "b < 64" | "b \<ge> 0x80" | "64 \<le> b" "b < 0x60" | "0x60 \<le> b" "b < 0x80" by linarith
  then show ?case
  proof cases
    case 1
    have "run_skip p k (code + (b div 2 ^ 3 + 1) + (b mod 2 ^ 3 + 1)) bt = Some (code', bt')"
      using "3.prems" 1 b0 by simp
    from "3.IH"(1) [OF _ 1 this] b0 1 pos_imp_zdiv_nonneg_iff [of "8 :: int" b] pos_mod_sign [of "8 :: int" b]
    show ?thesis by (auto simp: Let_def)
  next
    case 2
    then have "run_skip p k (code + (b - 0x80 + 1)) (\<not> bt) = Some (code', bt')"
      using "3.prems" b0 by simp
    from "3.IH"(2) [OF _ _ 2 this] 2 show ?thesis by (auto simp: Let_def)
  next
    case 3
    then obtain p0 p' k' where pk: "p = p0 # p'" "k = Suc k'" "0 \<le> p0"
      and s: "run_skip p' k' (code + ((b - 0x40) * 2 ^ 8 + p0 + 1)) (\<not> bt) = Some (code', bt')"
      using "3.prems" b0 by (cases p; cases k) (auto split: if_splits)
    have "code \<le> code + ((b - 0x40) * 2 ^ 8 + p0 + 1)" using 3 pk(3) by simp
    with "3.IH"(3) [of p k p0 p' k' code' bt'] s 3 pk show ?thesis by (auto simp: Let_def)
  next
    case 4
    then obtain p0 p1 p' k' where pk: "p = p0 # p1 # p'" "k = Suc (Suc k')" "0 \<le> p0" "0 \<le> p1"
      and s: "run_skip p' k' (code + ((b - 0x60) * 2 ^ 16 + p0 * 2 ^ 8 + p1 + 1)) (\<not> bt) = Some (code', bt')"
      using "3.prems" b0 by (cases p; cases "tl p"; cases k; cases "k - 1") (auto split: if_splits)
    have "code \<le> code + ((b - 0x60) * 2 ^ 16 + p0 * 2 ^ 8 + p1 + 1)" using 4 pk(3,4) by simp
    with "3.IH"(4) [of p k p0 "p1 # p'" p1 p' "Suc k'" k' code' bt'] s 4 pk show ?thesis by (auto simp: Let_def)
  qed
qed auto

text \<open>
  The index is consistent with the table: between two entries the runs lead from
  one code to the next, with the bit off at each entry, and the last entry is the
  end of the last run.
\<close>

fun index_ok :: "int list \<Rightarrow> int list \<Rightarrow> nat \<Rightarrow> int \<Rightarrow> nat \<Rightarrow> bool" where
  "index_ok [b0, b1, b2] p pos code i =
     (case run_skip p (length p) code False of Some (e, bt) \<Rightarrow> e = b0 + b1 * 2 ^ 8 + b2 * 2 ^ 16 | None \<Rightarrow> False)"
| "index_ok (b0 # b1 # b2 # idx) p pos code i =
     (let v = b0 + b1 * 2 ^ 8 + b2 * 2 ^ 16; pos' = (i + 1) * 32 + nat (v div 2 ^ 21)
      in pos \<le> pos' \<and> run_skip p (pos' - pos) code False = Some (v mod 2 ^ 21, False) \<and>
         index_ok idx (drop (pos' - pos) p) pos' (v mod 2 ^ 21) (i + 1))"
| "index_ok _ p pos code i = False"

definition in_runs :: "int list \<Rightarrow> int \<Rightarrow> bool" where
  "in_runs tab c = (run_scan c tab 0 False = Some True)"

definition le24 :: "int list \<Rightarrow> nat \<Rightarrow> int" where
  "le24 idx j = idx ! (3 * j) + idx ! (3 * j + 1) * 2 ^ 8 + idx ! (3 * j + 2) * 2 ^ 16"

lemma index_ok_length: "index_ok idx p pos code i \<Longrightarrow> length idx mod 3 = 0 \<and> 3 \<le> length idx"
proof (induction idx p pos code i rule: index_ok.induct)
  case (2 b0 b1 b2 x idx p pos code i)
  then have "Suc (length idx) mod 3 = 0" by (simp add: Let_def)
  then show ?case by (simp add: mod_Suc)
qed auto

text \<open>Every entry of a consistent index is a place from which the scan can be resumed.\<close>

definition resumes :: "int list \<Rightarrow> nat \<Rightarrow> int \<Rightarrow> bool" where
  "resumes tab pos code \<longleftrightarrow> pos \<le> length tab \<and>
     (\<forall>c \<ge> code. run_scan c (drop pos tab) code False = run_scan c tab 0 False)"

lemma index_ok_entries:
  assumes "index_ok idx p pos code i" and "p = drop pos tab" and "resumes tab pos code"
  shows "code \<le> le24 idx (length idx div 3 - 1) \<and>
    (\<forall>j < length idx div 3 - 1. le24 idx j mod 2 ^ 21 \<le> le24 idx (length idx div 3 - 1) \<and>
       resumes tab ((i + j + 1) * 32 + nat (le24 idx j div 2 ^ 21)) (le24 idx j mod 2 ^ 21)) \<and>
    (\<forall>c. code \<le> c \<longrightarrow> (c < le24 idx (length idx div 3 - 1) \<longleftrightarrow> run_scan c tab 0 False \<noteq> None))"
  using assms
proof (induction idx p pos code i rule: index_ok.induct)
  case (1 b0 b1 b2 p pos code i)
  then obtain bt where "run_skip p (length p) code False = Some (b0 + b1 * 2 ^ 8 + b2 * 2 ^ 16, bt)"
    by (auto split: option.splits)
  note sk = run_skip_scan [OF this]
  have "c < b0 + b1 * 2 ^ 8 + b2 * 2 ^ 16 \<longleftrightarrow> run_scan c tab 0 False \<noteq> None" if "code \<le> c" for c
    using sk [of c] that 1(2,3) by (auto simp: resumes_def)
  then show ?case using sk by (simp add: le24_def)
next
  case (2 b0 b1 b2 x idx p pos code i)
  let ?idx = "x # idx"
  define v where "v = b0 + b1 * 2 ^ 8 + b2 * 2 ^ 16"
  define pos' where "pos' = (i + 1) * 32 + nat (v div 2 ^ 21)"
  have h: "pos \<le> pos'" "run_skip p (pos' - pos) code False = Some (v mod 2 ^ 21, False)"
    "index_ok ?idx (drop (pos' - pos) p) pos' (v mod 2 ^ 21) (i + 1)"
    using "2.prems"(1) by (simp_all add: Let_def v_def pos'_def)
  note sk = run_skip_scan [OF h(2)]
  have p': "drop (pos' - pos) p = drop pos' tab" using h(1) "2.prems"(2) by simp
  have r: "resumes tab pos' (v mod 2 ^ 21)"
    unfolding resumes_def
  proof (intro conjI allI impI)
    show "pos' \<le> length tab"
      using sk [of 0] "2.prems"(2,3) h(1) by (auto simp: resumes_def)
    fix c assume "v mod 2 ^ 21 \<le> c"
    then show "run_scan c (drop pos' tab) (v mod 2 ^ 21) False = run_scan c tab 0 False"
      using sk [of c] "2.prems"(2,3) p' by (auto simp: resumes_def)
  qed
  have ih: "v mod 2 ^ 21 \<le> le24 ?idx (length ?idx div 3 - 1) \<and>
    (\<forall>j < length ?idx div 3 - 1. le24 ?idx j mod 2 ^ 21 \<le> le24 ?idx (length ?idx div 3 - 1) \<and>
       resumes tab ((i + 1 + j + 1) * 32 + nat (le24 ?idx j div 2 ^ 21)) (le24 ?idx j mod 2 ^ 21)) \<and>
    (\<forall>c. v mod 2 ^ 21 \<le> c \<longrightarrow> (c < le24 ?idx (length ?idx div 3 - 1) \<longleftrightarrow> run_scan c tab 0 False \<noteq> None))"
    using "2.IH" [OF v_def pos'_def h(3) p' r] .
  have len: "1 \<le> length ?idx div 3" using index_ok_length [OF h(3)] by linarith
  have le: "le24 (b0 # b1 # b2 # ?idx) (Suc j) = le24 ?idx j" for j by (simp add: le24_def)
  have le0: "le24 (b0 # b1 # b2 # ?idx) 0 = v" by (simp add: le24_def v_def)
  have l3: "length (b0 # b1 # b2 # ?idx) div 3 - 1 = Suc (length ?idx div 3 - 1)" using len by simp
  show ?case
  proof (intro conjI allI impI)
    show "code \<le> le24 (b0 # b1 # b2 # ?idx) (length (b0 # b1 # b2 # ?idx) div 3 - 1)"
      unfolding l3 le using sk [of 0] ih by simp
  next
    fix j assume j: "j < length (b0 # b1 # b2 # ?idx) div 3 - 1"
    show "le24 (b0 # b1 # b2 # ?idx) j mod 2 ^ 21 \<le> le24 (b0 # b1 # b2 # ?idx) (length (b0 # b1 # b2 # ?idx) div 3 - 1)"
      unfolding l3 le using j l3 ih le0 le by (cases j) simp_all
    show "resumes tab ((i + j + 1) * 32 + nat (le24 (b0 # b1 # b2 # ?idx) j div 2 ^ 21)) (le24 (b0 # b1 # b2 # ?idx) j mod 2 ^ 21)"
    proof (cases j)
      case 0
      with r le0 show ?thesis by (simp add: pos'_def)
    next
      case (Suc j')
      with j l3 ih le show ?thesis by simp
    qed
  next
    fix c assume c: "code \<le> c"
    show "c < le24 (b0 # b1 # b2 # ?idx) (length (b0 # b1 # b2 # ?idx) div 3 - 1) \<longleftrightarrow> run_scan c tab 0 False \<noteq> None"
    proof (cases "v mod 2 ^ 21 \<le> c")
      case True
      with ih show ?thesis unfolding l3 le by simp
    next
      case False
      then have "run_scan c tab 0 False \<noteq> None"
        using sk [of c] c "2.prems"(2,3) by (auto simp: resumes_def)
      with False ih show ?thesis unfolding l3 le by simp
    qed
  qed
qed auto

lemma get_le24_eq: "3 * j + 2 < length idx \<Longrightarrow> get_le24 idx (j * 3) = Some (le24 idx j)"
  by (simp add: get_le24_def le24_def arr_simps mult.commute)

lemma index_search_spec:
  assumes "le24 idx lo mod 2 ^ 21 \<le> c" and "lo < hi" and "3 * hi < length idx" and "length idx mod 3 = 0"
  shows "\<exists>k. index_search c idx lo hi = Some k \<and> k < hi \<and> le24 idx k mod 2 ^ 21 \<le> c"
  using assms
proof (induction c idx lo hi rule: index_search.induct)
  case (1 c idx lo hi)
  show ?case
  proof (cases "hi - lo > 1")
    case False
    with "1.prems" show ?thesis by (subst index_search.simps) auto
  next
    case True
    let ?m = "(hi + lo) div 2"
    have m: "lo < ?m" "?m < hi" using True by linarith+
    then have g: "get_le24 idx (?m * 3) = Some (le24 idx ?m)"
      using "1.prems"(3,4) by (intro get_le24_eq) linarith
    have u: "index_search c idx lo hi = (if c < le24 idx ?m mod 2 ^ 21 then index_search c idx lo ?m else index_search c idx ?m hi)"
      using True g by (subst index_search.simps) (simp add: Let_def)
    show ?thesis
    proof (cases "c < le24 idx ?m mod 2 ^ 21")
      case lt: True
      with "1.IH"(1) [OF True refl g lt "1.prems"(1) m(1)] "1.prems"(3,4) m u show ?thesis by fastforce
    next
      case ge: False
      with "1.IH"(2) [OF True refl g ge _ m(2)] "1.prems"(3,4) m u show ?thesis by fastforce
    qed
  qed
qed

lemma lre_is_in_table_scan:
  assumes ok: "index_ok idx tab 0 0 0" and c: "0 \<le> c" and n: "n = length idx div 3" "2 \<le> n"
  shows "lre_is_in_table c tab idx n = Some (in_runs tab c)"
proof -
  have len: "length idx mod 3 = 0" using index_ok_length [OF ok] by simp
  have r0: "resumes tab 0 0" by (simp add: resumes_def)
  have res: "resumes tab ((j + 1) * 32 + nat (le24 idx j div 2 ^ 21)) (le24 idx j mod 2 ^ 21)" if "j < n - 1" for j
    using index_ok_entries [OF ok _ r0] that n(1) by simp
  have fin: "c < le24 idx (n - 1) \<longleftrightarrow> run_scan c tab 0 False \<noteq> None"
    using index_ok_entries [OF ok _ r0] c n(1) by simp
  have ends: "le24 idx 0 mod 2 ^ 21 \<le> le24 idx (n - 1)"
    using index_ok_entries [OF ok _ r0] n by simp
  have g0: "get_le24 idx 0 = Some (le24 idx 0)" using get_le24_eq [of 0 idx] n len by simp
  have g1: "get_le24 idx ((n - 1) * 3) = Some (le24 idx (n - 1))" using n len by (intro get_le24_eq) linarith
  have in_tab: "Some (in_runs tab c) = run_scan c tab 0 False" if "c < le24 idx (n - 1)"
    using fin that by (auto simp: in_runs_def)
  consider "c < le24 idx 0 mod 2 ^ 21" | "\<not> c < le24 idx 0 mod 2 ^ 21" "c \<ge> le24 idx (n - 1)"
    | "le24 idx 0 mod 2 ^ 21 \<le> c" "c < le24 idx (n - 1)" by linarith
  then show ?thesis
  proof cases
    case 1
    then have "get_index_pos c idx n = Some (Some (0, 0))" by (simp add: get_index_pos_def g0)
    with 1 ends in_tab show ?thesis by (simp add: lre_is_in_table_def)
  next
    case 2
    then have "get_index_pos c idx n = Some None" by (simp add: get_index_pos_def g0 g1 del: One_nat_def)
    with 2 fin show ?thesis by (simp add: lre_is_in_table_def in_runs_def)
  next
    case 3
    obtain k where k: "index_search c idx 0 (n - 1) = Some k" "k < n - 1" "le24 idx k mod 2 ^ 21 \<le> c"
    proof -
      have "0 < n - 1" "3 * (n - 1) < length idx" using n len by linarith+
      from index_search_spec [OF 3(1) this len] show ?thesis using that by blast
    qed
    have "get_le24 idx (k * 3) = Some (le24 idx k)" using k(2) n len by (intro get_le24_eq) linarith
    with 3 k(1) have "get_index_pos c idx n = Some (Some ((k + 1) * 32 + nat (le24 idx k div 2 ^ 21), le24 idx k mod 2 ^ 21))"
      by (simp add: get_index_pos_def g0 g1 del: One_nat_def)
    with res [OF k(2)] k(3) in_tab [OF 3(2)] show ?thesis by (simp add: lre_is_in_table_def resumes_def)
  qed
qed

section \<open>The property tables\<close>

lemma cased_index_ok: "index_ok unicode_prop_Cased1_index unicode_prop_Cased1_table 0 0 0"
  by code_simp

lemma case_ignorable_index_ok: "index_ok unicode_prop_Case_Ignorable_index unicode_prop_Case_Ignorable_table 0 0 0"
  by code_simp

lemma id_start_index_ok: "index_ok unicode_prop_ID_Start_index unicode_prop_ID_Start_table 0 0 0"
  by code_simp

lemma id_continue_index_ok: "index_ok unicode_prop_ID_Continue1_index unicode_prop_ID_Continue1_table 0 0 0"
  by code_simp

text \<open>
  C18.  The indexed lookups behind JavaScript identifiers and case handling read
  only inside their tables and answer, for every code point, exactly what a scan
  of all the runs of the table from its start answers.
\<close>

theorem property_lookup_scans:
  assumes "0 \<le> c"
  shows "lre_is_case_ignorable c = Some (in_runs unicode_prop_Case_Ignorable_table c) \<and>
    lre_is_id_start c = Some (in_runs unicode_prop_ID_Start_table c) \<and>
    lre_is_id_continue c = Some (in_runs unicode_prop_ID_Start_table c \<or> in_runs unicode_prop_ID_Continue1_table c) \<and>
    lre_is_cased c = Some ((\<exists>v \<in> set case_conv_table1. contains v c) \<or> in_runs unicode_prop_Cased1_table c)"
proof -
  have lens: "length unicode_prop_Case_Ignorable_index = 72" "length unicode_prop_ID_Start_index = 108"
    "length unicode_prop_ID_Continue1_index = 66" "length unicode_prop_Cased1_index = 18"
    by (simp_all add: unicode_prop_Case_Ignorable_index_def unicode_prop_ID_Start_index_def
        unicode_prop_ID_Continue1_index_def unicode_prop_Cased1_index_def)
  have 1: "lre_is_case_ignorable c = Some (in_runs unicode_prop_Case_Ignorable_table c)"
    unfolding lre_is_case_ignorable_def by (rule lre_is_in_table_scan [OF case_ignorable_index_ok assms refl]) (simp add: lens)
  have 2: "lre_is_id_start c = Some (in_runs unicode_prop_ID_Start_table c)"
    unfolding lre_is_id_start_def by (rule lre_is_in_table_scan [OF id_start_index_ok assms refl]) (simp add: lens)
  have 3: "lre_is_in_table c unicode_prop_ID_Continue1_table unicode_prop_ID_Continue1_index
      (length unicode_prop_ID_Continue1_index div 3) = Some (in_runs unicode_prop_ID_Continue1_table c)"
    by (rule lre_is_in_table_scan [OF id_continue_index_ok assms refl]) (simp add: lens)
  have 4: "lre_is_in_table c unicode_prop_Cased1_table unicode_prop_Cased1_index
      (length unicode_prop_Cased1_index div 3) = Some (in_runs unicode_prop_Cased1_table c)"
    by (rule lre_is_in_table_scan [OF cased_index_ok assms refl]) (simp add: lens)
  have "lre_is_cased c = Some ((\<exists>v \<in> set case_conv_table1. contains v c) \<or> in_runs unicode_prop_Cased1_table c)"
    using find_case_entry_spec [of c]
  proof (elim disjE exE conjE)
    fix idx assume "idx < 378" "find_case_entry c = Some (Some (idx, case_conv_table1 ! idx))"
      "contains (case_conv_table1 ! idx) c"
    moreover from this have "case_conv_table1 ! idx \<in> set case_conv_table1" by (simp add: table_lengths)
    ultimately show ?thesis by (auto simp: lre_is_cased_def)
  next
    assume "find_case_entry c = Some None" "\<forall>i<378. \<not> contains (case_conv_table1 ! i) c"
    moreover from this have "\<not> (\<exists>v \<in> set case_conv_table1. contains v c)"
      by (auto simp: in_set_conv_nth table_lengths)
    ultimately show ?thesis using 4 by (simp add: lre_is_cased_def)
  qed
  with 1 2 3 show ?thesis by (simp add: lre_is_id_continue_def)
qed

theorem property_lookup_scans_witness:
  "lre_is_id_start 0x41 = Some (in_runs unicode_prop_ID_Start_table 0x41) \<and> in_runs unicode_prop_ID_Start_table 0x41"
proof -
  have "run_scan 0x41 unicode_prop_ID_Start_table 0 False = Some True" by code_simp
  then show ?thesis using property_lookup_scans [of "0x41"] by (simp add: in_runs_def)
qed

end
