(* ===== verification/Mp_Arith.thy ===== *)
theory Mp_Arith
  imports Cutils_Bytes "HOL-Library.Monad_Syntax"
begin

text \<open>
  Multiple precision arithmetic of \<open>src/dtoa.c\<close> on little-endian arrays of 32 bit
  limbs (\<open>limb_t\<close>; \<open>dlimb_t\<close> has 64 bits).  An array argument with its length \<open>n\<close> is
  the list of its \<open>n\<close> limbs; a function that stores its result returns the new
  list next to its return value.  \<open>mp_val\<close> is the number that a list represents.
\<close>

type_synonym limb = u32
type_synonym dlimb = u64

fun mp_val :: "limb list \<Rightarrow> nat" where
  "mp_val [] = 0"
| "mp_val (x # xs) = unat x + 2 ^ 32 * mp_val xs"

section \<open>Operations\<close>

fun mp_add_ui :: "limb list \<Rightarrow> limb \<Rightarrow> limb \<times> limb list" where
  "mp_add_ui [] k = (k, [])"
| "mp_add_ui (x # xs) k =
     (if k = 0 then (k, x # xs)
      else let a = x + k; (c, r) = mp_add_ui xs (of_bool (a < k)) in (c, a # r))"

fun mp_mul1 :: "limb list \<Rightarrow> limb \<Rightarrow> limb \<Rightarrow> limb \<times> limb list" where
  "mp_mul1 [] b l = (l, [])"
| "mp_mul1 (x # xs) b l =
     (let t = ucast x * ucast b + ucast l :: dlimb;
          (c, r) = mp_mul1 xs b (ucast (drop_bit 32 t))
      in (c, ucast t # r))"

text \<open>\<open>d\<close> must be at least \<open>2^31\<close>.\<close>

definition udiv1norm_init :: "limb \<Rightarrow> limb" where
  "udiv1norm_init d =
     (let a1 = - d - 1 :: limb; a0 = - 1 :: limb
      in ucast ((push_bit 32 (ucast a1) OR ucast a0) div (ucast d) :: dlimb))"

text \<open>The quotient and the remainder; \<open>a1 < d\<close>.\<close>

definition udiv1norm :: "limb \<Rightarrow> limb \<Rightarrow> limb \<Rightarrow> limb \<Rightarrow> limb \<times> limb" where
  "udiv1norm a1 a0 d d_inv =
     (let n1m = signed_drop_bit 31 a0;
          n_adj = a0 + (n1m AND d);
          a = ucast d_inv * ucast (a1 - n1m) + ucast n_adj :: dlimb;
          q = ucast (drop_bit 32 a) + a1 :: limb;
          a = (push_bit 32 (ucast a1) OR ucast a0) - ucast q * ucast d - ucast d :: dlimb;
          ah = ucast (drop_bit 32 a) :: limb;
          q = q + (1 + ah);
          r = ucast a + (ah AND d) :: limb
      in (q, r))"

text \<open>The loops that run from the highest limb down return the remainder first.\<close>

fun mp_div1 :: "limb list \<Rightarrow> limb \<Rightarrow> limb \<Rightarrow> limb \<times> limb list" where
  "mp_div1 [] b r = (r, [])"
| "mp_div1 (x # xs) b r =
     (let (r1, q) = mp_div1 xs b r;
          a1 = push_bit 32 (ucast r1) OR ucast x :: dlimb
      in (ucast (a1 mod ucast b), ucast (a1 div ucast b) # q))"

fun mp_shr_loop :: "limb list \<Rightarrow> nat \<Rightarrow> limb \<Rightarrow> limb \<times> limb list" where
  "mp_shr_loop [] shift l = (l, [])"
| "mp_shr_loop (a # xs) shift l =
     (let (l1, r) = mp_shr_loop xs shift l
      in (a, (drop_bit shift a OR push_bit (32 - shift) l1) # r))"

definition mp_shr :: "limb list \<Rightarrow> nat \<Rightarrow> limb \<Rightarrow> limb \<times> limb list" where
  "mp_shr xs shift high = (let (l, r) = mp_shr_loop xs shift high in (l AND (push_bit shift 1 - 1), r))"

fun mp_shl :: "limb list \<Rightarrow> nat \<Rightarrow> limb \<Rightarrow> limb \<times> limb list" where
  "mp_shl [] shift l = (l, [])"
| "mp_shl (a # xs) shift l =
     (let (c, r) = mp_shl xs shift (drop_bit (32 - shift) a)
      in (c, (push_bit shift a OR l) # r))"

fun mp_div1norm_loop :: "limb list \<Rightarrow> limb \<Rightarrow> limb \<Rightarrow> limb \<Rightarrow> limb \<times> limb list" where
  "mp_div1norm_loop [] b r b_inv = (r, [])"
| "mp_div1norm_loop (x # xs) b r b_inv =
     (let (r1, q) = mp_div1norm_loop xs b r b_inv;
          (q0, r0) = udiv1norm r1 x b b_inv
      in (r0, q0 # q))"

text \<open>
  \<open>mp_div1norm\<close> with the same array as source and destination, as all callers have
  it: the second loop reads the limbs that \<open>mp_shl\<close> has shifted.
\<close>

definition mp_div1norm :: "limb list \<Rightarrow> limb \<Rightarrow> limb \<Rightarrow> limb \<Rightarrow> nat \<Rightarrow> limb \<times> limb list" where
  "mp_div1norm xs b r b_inv shift =
     (let (r, xs) = (if shift \<noteq> 0 then let (c, ys) = mp_shl xs shift 0 in (push_bit shift r OR c, ys) else (r, xs));
          (r, q) = mp_div1norm_loop xs b r b_inv
      in (drop_bit shift r, q))"

section \<open>Words\<close>

lemma unat_limb_less [simp]: "unat (x :: limb) < 2 ^ 32"
  using unsigned_less [of x, where ?'a = nat] by simp

lemma unat_ucast_limb [simp]: "unat (ucast (x :: limb) :: dlimb) = unat x"
  by (simp add: unsigned_ucast_eq take_bit_nat_eq_self_iff order.strict_trans [OF unat_limb_less])

lemma unat_ucast_dlimb: "unat (ucast (x :: dlimb) :: limb) = unat x mod 2 ^ 32"
  by (simp add: unsigned_ucast_eq take_bit_eq_mod)

lemma unat_high_dlimb: "unat (ucast (drop_bit 32 (x :: dlimb)) :: limb) = unat x div 2 ^ 32"
proof -
  have "unat x < 2 ^ 64" using unsigned_less [of x, where ?'a = nat] by simp
  then have "unat x div 2 ^ 32 < 2 ^ 32" by (simp add: less_mult_imp_div_less)
  then show ?thesis by (simp add: unat_ucast_dlimb unat_drop_bit)
qed

lemma unat_join: "unat (push_bit 32 (ucast (h :: limb)) OR ucast (l :: limb) :: dlimb) = unat h * 2 ^ 32 + unat l"
proof -
  have p: "unat (push_bit 32 (ucast h) :: dlimb) = unat h * 2 ^ 32"
    using unat_push_bit_small [of "ucast h :: dlimb" 32] unat_limb_less [of h] by simp
  have "unat (ucast l OR push_bit 32 (ucast h) :: dlimb) = unat (ucast l :: dlimb) + unat (push_bit 32 (ucast h) :: dlimb)"
    by (rule unat_or_high [where k = 32 and m = "unat h"]) (use unat_limb_less [of l] p in simp_all)
  then show ?thesis using p by (simp add: or.commute)
qed

lemma mult_limb_le: "unat (x :: limb) * unat (y :: limb) \<le> (2 ^ 32 - 1) * (2 ^ 32 - 1)"
proof (rule mult_mono)
  show "unat x \<le> 2 ^ 32 - 1" "unat y \<le> 2 ^ 32 - 1"
    using unat_limb_less [of x] unat_limb_less [of y] by linarith+
qed simp_all

lemma unat_mul_add: "unat (ucast (x :: limb) * ucast (y :: limb) + ucast (z :: limb) :: dlimb) = unat x * unat y + unat z"
proof -
  have "unat x * unat y + unat z < 2 ^ 64"
    using add_le_less_mono [OF mult_limb_le [of x y] unat_limb_less [of z]] by simp
  then show ?thesis by (simp add: unat_word_ariths)
qed

lemma unat_of_bool_limb: "unat (of_bool b :: limb) = of_bool b"
  by (cases b) simp_all

lemma unat_add_carry: "unat ((x :: limb) + k) + 2 ^ 32 * of_bool (x + k < k) = unat x + unat k"
proof -
  have e: "unat (x + k) = (if unat x + unat k < 2 ^ 32 then unat x + unat k else unat x + unat k - 2 ^ 32)"
    using unat_plus_if' [of x k] by simp
  have l: "unat x < 2 ^ 32" "unat k < 2 ^ 32" by (rule unat_limb_less)+
  show ?thesis
  proof (cases "unat x + unat k < 2 ^ 32")
    case True
    then have u: "unat (x + k) = unat x + unat k" using e by (simp only: if_True)
    then have "\<not> x + k < k" by (simp add: word_less_nat_alt)
    with u show ?thesis by simp
  next
    case False
    then have u: "unat (x + k) = unat x + unat k - 2 ^ 32" using e by (simp only: if_False)
    then have "unat (x + k) < unat k" using False l by linarith
    then have "x + k < k" by (simp only: word_less_nat_alt)
    with u False show ?thesis by simp
  qed
qed

section \<open>Results as numbers\<close>

lemma mp_val_less: "mp_val xs < 2 ^ (32 * length xs)"
proof (induction xs)
  case (Cons x xs)
  have "unat x + 2 ^ 32 * mp_val xs < 2 ^ 32 + 2 ^ 32 * mp_val xs" by simp
  also have "\<dots> = 2 ^ 32 * Suc (mp_val xs)" by simp
  also have "\<dots> \<le> 2 ^ 32 * 2 ^ (32 * length xs)" using Cons.IH by (intro mult_le_mono) auto
  finally show ?case by (simp add: power_add)
qed simp

lemma mp_val_append [val_simps]: "mp_val (xs @ ys) = mp_val xs + 2 ^ (32 * length xs) * mp_val ys"
  by (induction xs) (simp_all add: power_add algebra_simps)

lemma mp_val_replicate_0 [val_simps]: "mp_val (replicate n 0) = 0"
  by (induction n) simp_all

lemma mp_add_ui_length: "mp_add_ui xs k = (c, r) \<Longrightarrow> length r = length xs"
  by (induction xs arbitrary: k c r) (auto simp: Let_def split: if_splits prod.splits)

lemma mp_add_ui_val: "mp_add_ui xs k = (c, r) \<Longrightarrow> mp_val r + 2 ^ (32 * length xs) * unat c = mp_val xs + unat k"
proof (induction xs arbitrary: k c r)
  case (Cons x xs)
  show ?case
  proof (cases "k = 0")
    case False
    then obtain r1 where r1: "mp_add_ui xs (of_bool (x + k < k)) = (c, r1)" "r = (x + k) # r1"
      using Cons.prems by (auto simp: Let_def split: prod.splits)
    have "mp_val r + 2 ^ (32 * length (x # xs)) * unat c
        = unat (x + k) + 2 ^ 32 * (mp_val r1 + 2 ^ (32 * length xs) * unat c)"
      by (simp add: r1(2) power_add algebra_simps)
    also have "\<dots> = unat (x + k) + 2 ^ 32 * (mp_val xs + of_bool (x + k < k))"
      using Cons.IH [OF r1(1)] by (simp only: unat_of_bool_limb)
    also have "\<dots> = mp_val (x # xs) + unat k"
      using unat_add_carry [of x k] by (simp only: mp_val.simps distrib_left)
    finally show ?thesis .
  qed (use Cons.prems in auto)
qed auto

lemma mp_mul1_length: "mp_mul1 xs b l = (c, r) \<Longrightarrow> length r = length xs"
  by (induction xs arbitrary: l c r) (auto simp: Let_def split: prod.splits)

lemma mp_mul1_val: "mp_mul1 xs b l = (c, r) \<Longrightarrow> mp_val r + 2 ^ (32 * length xs) * unat c = mp_val xs * unat b + unat l"
proof (induction xs arbitrary: l c r)
  case (Cons x xs)
  define t where "t = (ucast x * ucast b + ucast l :: dlimb)"
  have t: "unat t = unat x * unat b + unat l" unfolding t_def by (rule unat_mul_add)
  obtain r1 where r1: "mp_mul1 xs b (ucast (drop_bit 32 t)) = (c, r1)" "r = ucast t # r1"
    using Cons.prems by (auto simp: Let_def t_def split: prod.splits)
  have "mp_val r + 2 ^ (32 * length (x # xs)) * unat c
      = unat t mod 2 ^ 32 + 2 ^ 32 * (mp_val r1 + 2 ^ (32 * length xs) * unat c)"
    by (simp add: r1(2) power_add algebra_simps unat_ucast_dlimb)
  also have "\<dots> = unat t mod 2 ^ 32 + 2 ^ 32 * (mp_val xs * unat b + unat t div 2 ^ 32)"
    using Cons.IH [OF r1(1)] by (simp only: unat_high_dlimb)
  also have "\<dots> = unat t + 2 ^ 32 * (mp_val xs * unat b)"
    by (simp add: distrib_left)
  finally show ?case by (simp add: t algebra_simps)
qed auto

lemma mp_div1_length: "mp_div1 xs b r = (r', q) \<Longrightarrow> length q = length xs"
  by (induction xs arbitrary: r' q) (auto simp: Let_def split: prod.splits)

lemma mp_div1_val:
  assumes "mp_div1 xs b r = (r', q)" and "r < b"
  shows "mp_val xs + 2 ^ (32 * length xs) * unat r = mp_val q * unat b + unat r' \<and> r' < b"
  using assms(1)
proof (induction xs arbitrary: r' q)
  case (Cons x xs)
  obtain r1 q1 where r1: "mp_div1 xs b r = (r1, q1)" by (cases "mp_div1 xs b r")
  define a1 where "a1 = (push_bit 32 (ucast r1) OR ucast x :: dlimb)"
  have a1: "unat a1 = unat r1 * 2 ^ 32 + unat x" unfolding a1_def by (rule unat_join)
  note ih = Cons.IH [OF r1]
  have res: "r' = ucast (a1 mod ucast b)" "q = ucast (a1 div ucast b) # q1"
    using Cons.prems r1 by (simp_all add: Let_def a1_def)
  have b0: "0 < unat b" using assms(2) by (simp add: word_less_nat_alt)
  have rb: "unat r1 < unat b" using ih by (simp add: word_less_nat_alt)
  have r': "unat r' = unat a1 mod unat b"
    using order.strict_trans [OF mod_less_divisor [OF b0, of "unat a1"] unat_limb_less [of b]]
    by (simp add: res unat_ucast_dlimb unat_mod)
  have "unat a1 < unat b * 2 ^ 32"
  proof -
    have "unat a1 < Suc (unat r1) * 2 ^ 32" using a1 unat_limb_less [of x] by simp
    also have "\<dots> \<le> unat b * 2 ^ 32" using rb by (intro mult_le_mono1) simp
    finally show ?thesis .
  qed
  then have "unat a1 div unat b < 2 ^ 32" using b0 by (simp add: div_less_iff_less_mult mult.commute)
  then have q0: "unat (ucast (a1 div ucast b) :: limb) = unat a1 div unat b"
    by (simp add: unat_ucast_dlimb unat_div)
  have "mp_val (x # xs) + 2 ^ (32 * length (x # xs)) * unat r
      = unat x + 2 ^ 32 * (mp_val xs + 2 ^ (32 * length xs) * unat r)"
    by (simp add: power_add algebra_simps)
  also have "\<dots> = unat x + 2 ^ 32 * (mp_val q1 * unat b + unat r1)" using ih by simp
  also have "\<dots> = unat a1 + 2 ^ 32 * (mp_val q1 * unat b)" by (simp add: a1 algebra_simps)
  also have "\<dots> = mp_val q * unat b + unat r'"
    by (simp add: res(2) q0 r' algebra_simps)
  finally show ?case using r' b0 by (simp add: word_less_nat_alt)
qed (use assms(2) in auto)

text \<open>Shifts.\<close>

lemma unat_push_bit_limb: "k \<le> 32 \<Longrightarrow> unat (push_bit k (x :: limb)) = unat x mod 2 ^ (32 - k) * 2 ^ k"
proof -
  assume k: "k \<le> 32"
  have "unat (push_bit k x) = (unat x * 2 ^ k) mod 2 ^ 32"
    by (simp only: unsigned_push_bit_eq) (simp add: push_bit_eq_mult take_bit_eq_mod)
  also have "\<dots> = (unat x * 2 ^ k) mod (2 ^ (32 - k) * 2 ^ k)" using k by (simp flip: power_add)
  finally show ?thesis by (simp only: mult_mod_left)
qed

lemma unat_or_shifted: "unat (l :: limb) < 2 ^ k \<Longrightarrow> k \<le> 32 \<Longrightarrow> unat (push_bit k x OR l) = unat x mod 2 ^ (32 - k) * 2 ^ k + unat l"
  using unat_or_high [of l k "push_bit k x" "unat x mod 2 ^ (32 - k)"] unat_push_bit_limb [of k x]
  by (simp add: or.commute add.commute)

lemma pow32_split: "k \<le> 32 \<Longrightarrow> (2 :: nat) ^ 32 = 2 ^ (32 - k) * 2 ^ k"
  by (simp flip: power_add)

lemma mp_shl_length: "mp_shl xs s l = (c, r) \<Longrightarrow> length r = length xs"
  by (induction xs arbitrary: l c r) (auto simp: Let_def split: prod.splits)

lemma mp_shl_val:
  assumes "mp_shl xs s l = (c, r)" and "s \<le> 32" and "unat l < 2 ^ s"
  shows "mp_val r + 2 ^ (32 * length xs) * unat c = mp_val xs * 2 ^ s + unat l \<and> unat c < 2 ^ s"
  using assms(1,3)
proof (induction xs arbitrary: l c r)
  case (Cons a xs)
  let ?h = "drop_bit (32 - s) a"
  obtain r1 where r1: "mp_shl xs s ?h = (c, r1)" "r = (push_bit s a OR l) # r1"
    using Cons.prems(1) by (auto simp: Let_def split: prod.splits)
  have h: "unat ?h = unat a div 2 ^ (32 - s)" by (rule unat_drop_bit)
  have "unat a < 2 ^ s * 2 ^ (32 - s)" using unat_limb_less [of a] pow32_split [OF assms(2)] by (simp add: mult.commute)
  then have hl: "unat ?h < 2 ^ s" unfolding h by (simp add: div_less_iff_less_mult)
  note ih = Cons.IH [OF r1(1) hl]
  have o: "unat (push_bit s a OR l) = unat a mod 2 ^ (32 - s) * 2 ^ s + unat l"
    using unat_or_shifted [OF Cons.prems(2) assms(2)] .
  have "mp_val r + 2 ^ (32 * length (a # xs)) * unat c
      = unat a mod 2 ^ (32 - s) * 2 ^ s + unat l + 2 ^ 32 * (mp_val r1 + 2 ^ (32 * length xs) * unat c)"
    by (simp add: r1(2) o power_add algebra_simps)
  also have "\<dots> = unat a mod 2 ^ (32 - s) * 2 ^ s + unat l + 2 ^ 32 * (mp_val xs * 2 ^ s + unat a div 2 ^ (32 - s))"
    using ih h by simp
  also have "\<dots> = (unat a mod 2 ^ (32 - s) + unat a div 2 ^ (32 - s) * 2 ^ (32 - s)) * 2 ^ s + unat l + 2 ^ 32 * mp_val xs * 2 ^ s"
    unfolding pow32_split [OF assms(2)] by (simp only: algebra_simps)
  also have "\<dots> = mp_val (a # xs) * 2 ^ s + unat l"
    by (simp add: algebra_simps)
  finally show ?case using ih by blast
qed auto

lemma mp_shr_loop_length: "mp_shr_loop xs s l = (l', r) \<Longrightarrow> length r = length xs"
  by (induction xs arbitrary: l' r) (auto simp: Let_def split: prod.splits)

lemma mp_shr_loop_val:
  assumes "mp_shr_loop xs s l = (l', r)" and "s \<le> 32"
  shows "mp_val xs + 2 ^ (32 * length xs) * (unat l mod 2 ^ s) = mp_val r * 2 ^ s + unat l' mod 2 ^ s"
  using assms(1)
proof (induction xs arbitrary: l' r)
  case (Cons a xs)
  obtain l1 r1 where r1: "mp_shr_loop xs s l = (l1, r1)" by (cases "mp_shr_loop xs s l")
  with Cons.prems have r: "l' = a" "r = (drop_bit s a OR push_bit (32 - s) l1) # r1" by (auto simp: Let_def)
  have d: "unat (drop_bit s a) = unat a div 2 ^ s" by (rule unat_drop_bit)
  have dl: "unat (drop_bit s a) < 2 ^ (32 - s)"
    unfolding d using unat_limb_less [of a] pow32_split [OF assms(2)] by (simp add: div_less_iff_less_mult)
  have o: "unat (drop_bit s a OR push_bit (32 - s) l1) = unat l1 mod 2 ^ s * 2 ^ (32 - s) + unat a div 2 ^ s"
    using unat_or_shifted [OF dl, of l1] assms(2) d by (simp add: or.commute)
  have "mp_val (a # xs) + 2 ^ (32 * length (a # xs)) * (unat l mod 2 ^ s)
      = unat a + 2 ^ 32 * (mp_val xs + 2 ^ (32 * length xs) * (unat l mod 2 ^ s))"
    by (simp add: power_add algebra_simps)
  also have "\<dots> = unat a + 2 ^ 32 * (mp_val r1 * 2 ^ s + unat l1 mod 2 ^ s)" using Cons.IH [OF r1] by simp
  also have "\<dots> = (unat a div 2 ^ s * 2 ^ s + unat a mod 2 ^ s) + 2 ^ 32 * (mp_val r1 * 2 ^ s + unat l1 mod 2 ^ s)"
    by (simp only: div_mult_mod_eq)
  also have "\<dots> = (unat a div 2 ^ s + unat l1 mod 2 ^ s * 2 ^ (32 - s)) * 2 ^ s + 2 ^ 32 * mp_val r1 * 2 ^ s + unat a mod 2 ^ s"
    unfolding pow32_split [OF assms(2)] by (simp only: algebra_simps)
  also have "\<dots> = mp_val r * 2 ^ s + unat l' mod 2 ^ s" by (simp add: r o algebra_simps)
  finally show ?case .
qed auto

lemma mp_shr_length: "mp_shr xs s l = (l', r) \<Longrightarrow> length r = length xs"
  by (auto simp: mp_shr_def dest: mp_shr_loop_length split: prod.splits)

lemma mp_shr_val:
  assumes "mp_shr xs s h = (rem, r)" and "s < 32" and "unat h < 2 ^ s"
  shows "mp_val xs + 2 ^ (32 * length xs) * unat h = mp_val r * 2 ^ s + unat rem \<and> unat rem < 2 ^ s"
proof -
  obtain l where l: "mp_shr_loop xs s h = (l, r)" "rem = l AND (push_bit s 1 - 1)"
    using assms(1) by (auto simp: mp_shr_def split: prod.splits)
  have "rem = l AND mask s" unfolding l(2) by (simp add: mask_eq_exp_minus_1 push_bit_eq_mult)
  then have "unat rem = unat l mod 2 ^ s" by (simp add: unat_and_mask)
  with mp_shr_loop_val [OF l(1)] assms(2,3) show ?thesis by simp
qed

end
