(* ===== verification/Mp_Div.thy ===== *)
theory Mp_Div
  imports Mp_Arith
begin

text \<open>
  Division by a precomputed reciprocal: \<open>udiv1norm\<close> of \<open>src/dtoa.c\<close> multiplies by
  \<open>udiv1norm_init\<close> of the divisor, corrects the estimate once without a branch, and
  returns the exact quotient and remainder; \<open>mp_div1norm\<close> built on it divides a
  limb array like \<open>mp_div1\<close>.
\<close>

section \<open>The estimate\<close>

text \<open>
  With \<open>v\<close> the reciprocal of the normalised divisor \<open>d\<close> in base \<open>B\<close>, the estimated
  quotient is the true one or one less.
\<close>

lemma udiv_estimate:
  fixes B H d a1 a0 v n1 q1 :: int
  assumes B: "B = 2 * H" and d: "H \<le> d" "d < B" and a: "0 \<le> a1" "a1 < d" "0 \<le> a0" "a0 < B"
    and v: "v = (B * B - 1) div d - B" and n1: "n1 = (if H \<le> a0 then 1 else 0)"
    and q1: "q1 = (v * (a1 + n1) + (a0 + n1 * (d - B))) div B + a1"
  shows "0 \<le> a1 * B + a0 - q1 * d" and "a1 * B + a0 - q1 * d < 2 * d"
proof -
  have pos: "0 < d" "0 < B" using d a B by linarith+
  define m where "m = (B * B - 1) div d"
  define e where "e = B * B - m * d"
  have "B * B - 1 - m * d = (B * B - 1) mod d" by (simp add: m_def minus_div_mult_eq_mod)
  then have e: "1 \<le> e" "e \<le> d"
    using pos_mod_sign [OF pos(1), of "B * B - 1"] pos_mod_bound [OF pos(1), of "B * B - 1"]
    unfolding e_def by linarith+
  define N where "N = m * a1 + a0 + n1 * (m - 2 * B + d)"
  have "v * (a1 + n1) + (a0 + n1 * (d - B)) + a1 * B = N"
    by (simp add: v m_def [symmetric] N_def algebra_simps)
  then have q: "q1 = N div B"
    using q1 div_mult_self1 [of B "v * (a1 + n1) + (a0 + n1 * (d - B))" a1] pos(2) by (simp add: mult.commute)
  have "N - B * q1 = N mod B" by (simp add: q minus_mult_div_eq_mod)
  then have "B * q1 \<le> N" "N - B + 1 \<le> B * q1"
    using pos_mod_sign [OF pos(2), of N] pos_mod_bound [OF pos(2), of N] by linarith+
  then have bq: "B * q1 * d \<le> N * d" "(N - B + 1) * d \<le> B * q1 * d"
    using pos(1) by (auto intro: mult_right_mono)
  have Nd: "N * d = B * B * a1 - e * a1 + a0 * d + n1 * ((B - d) * (B - d) - e)"
    by (simp add: N_def e_def algebra_simps)
  define X where "X = a1 * B + a0"
  have BX: "B * X = B * B * a1 + B * a0" by (simp add: X_def algebra_simps)
  have gap: "B * X - N * d = e * a1 + a0 * (B - d) - n1 * ((B - d) * (B - d) - e)"
    unfolding Nd BX by (simp add: algebra_simps)
  have ea: "0 \<le> e * a1" "e * a1 \<le> d * (d - 1)"
    using e a pos by (auto intro: mult_nonneg_nonneg mult_mono)
  have "0 \<le> B * X - N * d"
  proof (cases "H \<le> a0")
    case True
    then have "(B - d) * (B - d) \<le> a0 * (B - d)" using B d by (intro mult_right_mono) linarith+
    with True ea(1) e(1) show ?thesis unfolding gap n1 by simp
  next
    case False
    have "0 \<le> a0 * (B - d)" using a d by (intro mult_nonneg_nonneg) linarith+
    with False ea(1) show ?thesis unfolding gap n1 by simp
  qed
  then have "0 \<le> B * (X - q1 * d)" using bq(1) by (simp add: right_diff_distrib mult.assoc)
  then show "0 \<le> a1 * B + a0 - q1 * d" using pos(2) by (simp add: zero_le_mult_iff X_def)
  have "B * X - N * d < B * d + d"
  proof (cases "H \<le> a0")
    case True
    have "(a0 - (B - d)) * (B - d) \<le> (d - 1) * (B - d)" using a d by (intro mult_right_mono) linarith+
    moreover have "B * X - N * d = e * a1 + e + (a0 - (B - d)) * (B - d)"
      using True unfolding gap n1 by (simp add: algebra_simps)
    moreover have "d * (d - 1) + d + (d - 1) * (B - d) = B * d - B + d" by (simp add: algebra_simps)
    ultimately show ?thesis using ea(2) e(2) pos(2) by linarith
  next
    case False
    have "a0 * (B - d) \<le> d * (B - d)" using False a d by (intro mult_right_mono) linarith+
    moreover have "B * X - N * d = e * a1 + a0 * (B - d)" using False unfolding gap n1 by simp
    moreover have "d * (d - 1) + d * (B - d) = B * d - d" by (simp add: algebra_simps)
    ultimately show ?thesis using ea(2) pos by linarith
  qed
  moreover have "B * (X - q1 * d) = B * X - B * q1 * d" by (simp add: algebra_simps)
  moreover have "(N - B + 1) * d = N * d - B * d + d" by (simp add: algebra_simps)
  ultimately have "B * (X - q1 * d) < B * (2 * d)" using bq(2) by linarith
  then show "a1 * B + a0 - q1 * d < 2 * d" using pos(2) by (simp add: X_def)
qed

section \<open>On words\<close>

lemma signed_drop_bit_31: "signed_drop_bit 31 (a :: limb) = (if 2 ^ 31 \<le> unat a then - 1 else 0)"
proof -
  have msb: "bit a 31 \<longleftrightarrow> 2 ^ 31 \<le> unat a"
  proof -
    have "bit a 31 \<longleftrightarrow> odd (unat a div 2 ^ 31)" 
      using bit_iff_odd [of "unat a" 31] by (simp add: bit_unsigned_iff)
    moreover have "unat a div 2 ^ 31 = (if 2 ^ 31 \<le> unat a then 1 else 0)"
      using unat_limb_less [of a] by (auto simp: div_nat_eqI)
    ultimately show ?thesis by (simp split: if_splits)
  qed
  show ?thesis
  proof (rule bit_word_eqI)
    fix n assume "n < LENGTH(32)"
    then show "bit (signed_drop_bit 31 a) n = bit (if 2 ^ 31 \<le> unat a then - 1 else 0 :: limb) n"
      using msb by (cases n) (auto simp: bit_signed_drop_bit_iff min_def)
  qed
qed

lemma uint_limb: "0 \<le> uint (x :: limb)" "uint x < 2 ^ 32"
  using unsigned_less [of x, where ?'a = int] by simp_all

lemma unat_m1_limb: "unat (- 1 :: limb) = 2 ^ 32 - 1"
  by (simp add: unsigned_minus_1_eq_mask mask_eq_exp_minus_1)

lemma udiv1norm_init_val:
  assumes "2 ^ 31 \<le> unat d"
  shows "int (unat (udiv1norm_init d)) = (2 ^ 32 * 2 ^ 32 - 1) div int (unat d) - 2 ^ 32"
proof -
  define D where "D = unat d"
  have D: "2 ^ 31 \<le> D" "D < 2 ^ 32" using assms unat_limb_less [of d] by (simp_all add: D_def)
  define x where "x = (push_bit 32 (ucast (- d - 1 :: limb)) OR ucast (- 1 :: limb) :: dlimb)"
  have nd: "- d - 1 = - 1 - d" by simp
  have "unat (- 1 - d) = 2 ^ 32 - 1 - D"
    using unat_sub [of d "- 1"] by (simp add: D_def unat_m1_limb)
  then have "unat x = (2 ^ 32 - 1 - D) * 2 ^ 32 + (2 ^ 32 - 1)"
    unfolding x_def nd unat_join by (simp add: unat_m1_limb)
  then have x: "int (unat x) = (2 ^ 32 * 2 ^ 32 - 1) + (- (2 ^ 32)) * int D"
    using D(2) by (simp only: of_nat_add of_nat_mult) (simp add: of_nat_diff)
  have q: "int (unat (x div ucast d)) = (2 ^ 32 * 2 ^ 32 - 1) div int D - 2 ^ 32"
  proof -
    have "int (unat (x div ucast d)) = int (unat x) div int D"
      by (simp only: unat_div zdiv_int unat_ucast_limb D_def)
    also have "\<dots> = - (2 ^ 32) + (2 ^ 32 * 2 ^ 32 - 1) div int D"
      unfolding x by (rule div_mult_self1) (use D(1) in simp)
    finally show ?thesis by simp
  qed
  have "(2 ^ 32 * 2 ^ 32 - 1) div int D \<le> (2 ^ 32 * 2 ^ 32 - 1) div (2 ^ 31)"
    using D(1) by (intro zdiv_mono2) auto
  then have "int (unat (x div ucast d)) < 2 ^ 32" unfolding q by simp
  then have "unat (x div ucast d) < 2 ^ 32" by (metis of_nat_less_iff of_nat_numeral of_nat_power)
  then have "unat (udiv1norm_init d) = unat (x div ucast d)"
    unfolding udiv1norm_init_def Let_def x_def [symmetric] by (simp only: unat_ucast_dlimb mod_less)
  with q show ?thesis by (simp only: D_def)
qed

text \<open>The word operations as integers.\<close>

lemma mod_shift_up: "0 \<le> x + m \<Longrightarrow> x < 0 \<Longrightarrow> x mod m = x + (m :: int)"
proof -
  assume "0 \<le> x + m" "x < 0"
  then have "(x + m) mod m = x + m" by (intro mod_pos_pos_trivial) simp_all
  then show ?thesis by (simp only: mod_add_self2)
qed

lemma mod_shift_down: "m \<le> x \<Longrightarrow> x < 2 * m \<Longrightarrow> x mod m = x - (m :: int)"
proof -
  assume "m \<le> x" "x < 2 * m"
  then have "(x - m) mod m = x - m" by (intro mod_pos_pos_trivial) simp_all
  then show ?thesis by (simp only: minus_mod_self2)
qed

lemma uint_join: "uint (push_bit 32 (ucast (h :: limb)) OR ucast (l :: limb) :: dlimb) = uint h * 2 ^ 32 + uint l"
  using arg_cong [OF unat_join [of h l], of int] by simp

lemma uint_mul_add: "uint (ucast (x :: limb) * ucast (y :: limb) + ucast (z :: limb) :: dlimb) = uint x * uint y + uint z"
  using arg_cong [OF unat_mul_add [of x y z], of int] by simp

lemma uint_high: "uint (ucast (drop_bit 32 (x :: dlimb)) :: limb) = uint x div 2 ^ 32"
  using arg_cong [OF unat_high_dlimb [of x], of int] by (simp add: zdiv_int)

lemma uint_low: "uint (ucast (x :: dlimb) :: limb) = uint x mod 2 ^ 32"
  using arg_cong [OF unat_ucast_dlimb [of x], of int] by (simp add: zmod_int)

lemma uint_add_limb: "uint ((x :: limb) + y) = (uint x + uint y) mod 2 ^ 32"
  by (simp add: uint_word_ariths)

text \<open>
  The final correction: \<open>y\<close> is the remainder for the quotient \<open>q1 + 1\<close>; if it is
  negative, the high half of its 64 bit pattern is all ones.
\<close>

lemma udiv_correction:
  fixes a :: dlimb and d :: limb
  assumes a: "uint a = y mod 2 ^ 64" and y: "- uint d \<le> y" "y < uint d"
  shows "y < 0 \<Longrightarrow> ucast (drop_bit 32 a) = (- 1 :: limb) \<and> uint (ucast a + ((- 1 :: limb) AND d)) = y + uint d"
    and "0 \<le> y \<Longrightarrow> ucast (drop_bit 32 a) = (0 :: limb) \<and> uint (ucast a + (0 AND d) :: limb) = y"
proof -
  have dl: "uint d < 2 ^ 32" by (rule uint_limb)
  {
    assume neg: "y < 0"
    have ua: "uint a = y + 2 ^ 32 + (2 ^ 32 - 1) * 2 ^ 32"
      using a neg y dl mod_shift_up [of y "2 ^ 64"] by simp
    have rng: "0 \<le> y + 2 ^ 32" "y + 2 ^ 32 < 2 ^ 32" using neg y dl by simp_all
    have hi: "uint a div 2 ^ 32 = 2 ^ 32 - 1"
      unfolding ua using div_pos_pos_trivial [OF rng] by (subst div_mult_self1) simp_all
    have lo: "uint a mod 2 ^ 32 = y + 2 ^ 32"
      unfolding ua mod_mult_self1 using rng by (rule mod_pos_pos_trivial)
    have "uint (ucast (drop_bit 32 a) :: limb) = uint (- 1 :: limb)"
      unfolding uint_high hi using arg_cong [OF unat_m1_limb, of int] by simp
    then have "ucast (drop_bit 32 a) = (- 1 :: limb)" by (simp only: word_uint_eq_iff)
    moreover have "uint (ucast a + d) = y + uint d"
      unfolding uint_add_limb uint_low lo using mod_shift_down [of "2 ^ 32" "y + 2 ^ 32 + uint d"] rng y dl by simp
    ultimately show "ucast (drop_bit 32 a) = (- 1 :: limb) \<and> uint (ucast a + ((- 1 :: limb) AND d)) = y + uint d"
      by simp
  }
  {
    assume nn: "0 \<le> y"
    have ua: "uint a = y" using a nn y dl by simp
    have "uint (ucast (drop_bit 32 a) :: limb) = 0" unfolding uint_high ua using nn y dl by simp
    moreover have "uint (ucast a + (0 AND d) :: limb) = y" using nn y dl by (simp add: uint_low ua)
    ultimately show "ucast (drop_bit 32 a) = (0 :: limb) \<and> uint (ucast a + (0 AND d) :: limb) = y"
      by (simp add: uint_0_iff)
  }
qed

text \<open>
  \<open>udiv1norm\<close> with the reciprocal of its divisor is exact division of a two limb number.
\<close>

lemma udiv1norm_correct:
  assumes d: "2 ^ 31 \<le> unat d" and a1: "a1 < d" and r: "udiv1norm a1 a0 d (udiv1norm_init d) = (q, r)"
  shows "unat q = (unat a1 * 2 ^ 32 + unat a0) div unat d" and "unat r = (unat a1 * 2 ^ 32 + unat a0) mod unat d"
proof -
  define D A1 A0 where "D = uint d" and "A1 = uint a1" and "A0 = uint a0"
  define n1 where "n1 = (if 2 ^ 31 \<le> A0 then 1 else 0 :: int)"
  define v where "v = (2 ^ 32 * 2 ^ 32 - 1) div D - 2 ^ 32"
  define q1 where "q1 = (v * (A1 + n1) + (A0 + n1 * (D - 2 ^ 32))) div 2 ^ 32 + A1"
  have d31: "2 ^ 31 \<le> D" using d unfolding D_def by (simp flip: of_nat_le_iff [where 'a = int])
  have lims: "D < 2 ^ 32" "0 \<le> A1" "A1 < D" "0 \<le> A0" "A0 < 2 ^ 32"
    using a1 uint_limb [of d] uint_limb [of a1] uint_limb [of a0] unfolding D_def A1_def A0_def word_less_def
    by simp_all
  have est: "0 \<le> A1 * 2 ^ 32 + A0 - q1 * D" "A1 * 2 ^ 32 + A0 - q1 * D < 2 * D"
    using udiv_estimate [of "2 ^ 32" "2 ^ 31" D A1 A0 v n1 q1] d31 lims by (simp_all add: v_def n1_def q1_def)
  define n1m where "n1m = signed_drop_bit 31 a0"
  have n1m: "n1m = (if 2 ^ 31 \<le> A0 then - 1 else 0)"
    unfolding n1m_def signed_drop_bit_31 A0_def by (simp flip: of_nat_le_iff [where 'a = int])
  have u1: "uint (a1 - n1m) = A1 + n1"
  proof (cases "2 ^ 31 \<le> A0")
    case True
    then have e: "a1 - n1m = a1 + 1" by (simp add: n1m)
    have "uint (a1 + 1) = A1 + 1" using lims by (simp add: A1_def uint_add_limb)
    with True show ?thesis unfolding e by (simp add: n1_def)
  qed (simp add: n1m n1_def A1_def)
  have u2: "uint (a0 + (n1m AND d)) = A0 + n1 * (D - 2 ^ 32)"
  proof (cases "2 ^ 31 \<le> A0")
    case True
    then have "uint (a0 + (n1m AND d)) = (A0 + D) mod 2 ^ 32"
      by (simp add: n1m uint_add_limb A0_def D_def)
    with True d31 lims show ?thesis using mod_shift_down [of "2 ^ 32" "A0 + D"] by (simp add: n1_def)
  qed (simp add: n1m n1_def A0_def)
  define a where "a = (ucast (udiv1norm_init d) * ucast (a1 - n1m) + ucast (a0 + (n1m AND d)) :: dlimb)"
  have iv: "uint (udiv1norm_init d) = v" using udiv1norm_init_val [OF d] by (simp add: v_def D_def)
  have ua: "uint a = v * (A1 + n1) + (A0 + n1 * (D - 2 ^ 32))"
    unfolding a_def uint_mul_add u1 u2 iv ..
  have "0 \<le> uint a div 2 ^ 32" by (rule pos_imp_zdiv_nonneg_iff [THEN iffD2]) simp_all
  then have q1nn: "0 \<le> q1" unfolding q1_def ua [symmetric] using lims by linarith
  have XD: "A1 * 2 ^ 32 + A0 < 2 ^ 32 * D" using lims by simp
  then have "q1 * D < 2 ^ 32 * D" using est(1) by simp
  then have q1l: "q1 < 2 ^ 32" using d31 by simp
  define qw where "qw = (ucast (drop_bit 32 a) + a1 :: limb)"
  have qw: "uint qw = q1"
    unfolding qw_def uint_add_limb uint_high ua using q1nn q1l by (simp add: q1_def A1_def)
  define y where "y = A1 * 2 ^ 32 + A0 - q1 * D - D"
  define a2 where "a2 = ((push_bit 32 (ucast a1) OR ucast a0) - ucast qw * ucast d - ucast d :: dlimb)"
  have ua2: "uint a2 = y mod 2 ^ 64"
  proof -
    have "(push_bit 32 (ucast a1) OR ucast a0 :: dlimb) = word_of_int (A1 * 2 ^ 32 + A0)"
      unfolding A1_def A0_def uint_join [symmetric] by simp
    moreover have "(ucast qw :: dlimb) = word_of_int q1" "(ucast d :: dlimb) = word_of_int D"
      by (simp_all add: qw [symmetric] D_def)
    ultimately have "a2 = word_of_int y" unfolding a2_def y_def by simp
    then show ?thesis by (simp add: uint_word_of_int)
  qed
  have yb: "- uint d \<le> y" "y < uint d" using est by (simp_all add: y_def D_def)
  have res: "q = qw + (1 + ucast (drop_bit 32 a2))" "r = ucast a2 + (ucast (drop_bit 32 a2) AND d)"
    using r unfolding udiv1norm_def Let_def n1m_def [symmetric] a_def [symmetric] qw_def [symmetric] a2_def [symmetric]
    by simp_all
  have "uint q * D + uint r = A1 * 2 ^ 32 + A0 \<and> 0 \<le> uint r \<and> uint r < D"
  proof (cases "y < 0")
    case True
    with udiv_correction(1) [OF ua2 yb] res have "q = qw" "uint r = y + uint d" by simp_all
    with True yb qw show ?thesis by (simp add: y_def D_def)
  next
    case False
    with udiv_correction(2) [OF ua2 yb] res have q: "q = qw + 1" "uint r = y" by simp_all
    have "(q1 + 1) * D \<le> A1 * 2 ^ 32 + A0" using False by (simp add: y_def algebra_simps)
    then have "(q1 + 1) * D < 2 ^ 32 * D" using XD by linarith
    then have "q1 + 1 < 2 ^ 32" using d31 by simp
    then have "uint q = q1 + 1" using q(1) qw q1nn by (simp add: uint_add_limb)
    with q False yb show ?thesis by (simp add: y_def D_def algebra_simps)
  qed
  then have "A1 * 2 ^ 32 + A0 = D * uint q + uint r" "0 \<le> uint r" "uint r < D" by (simp_all add: mult.commute)
  then have "uint q = (A1 * 2 ^ 32 + A0) div D" "uint r = (A1 * 2 ^ 32 + A0) mod D"
    using int_div_pos_eq int_mod_pos_eq by metis+
  then have "int (unat q) = int ((unat a1 * 2 ^ 32 + unat a0) div unat d)"
      "int (unat r) = int ((unat a1 * 2 ^ 32 + unat a0) mod unat d)"
    by (simp_all add: A1_def A0_def D_def zdiv_int zmod_int)
  then show "unat q = (unat a1 * 2 ^ 32 + unat a0) div unat d" "unat r = (unat a1 * 2 ^ 32 + unat a0) mod unat d"
    by (simp_all only: of_nat_eq_iff)
qed

section \<open>Division of an array by one limb\<close>

lemma mp_div1norm_loop_eq:
  assumes b: "2 ^ 31 \<le> unat b" and r: "r < b"
  shows "mp_div1norm_loop xs b r (udiv1norm_init b) = mp_div1 xs b r"
proof (induction xs)
  case (Cons x xs)
  obtain r1 q1 where r1: "mp_div1 xs b r = (r1, q1)" by (cases "mp_div1 xs b r")
  obtain q0 r0 where u: "udiv1norm r1 x b (udiv1norm_init b) = (q0, r0)" by fastforce
  have r1b: "r1 < b" using mp_div1_val [OF r1 r] by blast
  define a1 where "a1 = (push_bit 32 (ucast r1) OR ucast x :: dlimb)"
  have a1: "unat a1 = unat r1 * 2 ^ 32 + unat x" unfolding a1_def by (rule unat_join)
  note v = udiv1norm_correct [OF b r1b u, folded a1]
  have "unat (ucast (a1 div ucast b) :: limb) = unat q0" "unat (ucast (a1 mod ucast b) :: limb) = unat r0"
    using v unat_limb_less [of q0] unat_limb_less [of r0] by (simp_all add: unat_ucast_dlimb unat_div unat_mod)
  then have "ucast (a1 div ucast b) = q0" "ucast (a1 mod ucast b) = r0" by (simp_all only: word_unat_eq_iff)
  then show ?case using Cons.IH r1 u by (simp add: Let_def a1_def)
qed simp

lemma mp_shl_0: "mp_shl xs 0 0 = (0, xs)"
proof (induction xs)
  case (Cons x xs)
  have "drop_bit 32 x = 0" by (simp add: word_unat_eq_iff unat_drop_bit)
  with Cons show ?case by simp
qed simp

lemma mp_div1norm_val:
  assumes b: "2 ^ 31 \<le> unat (push_bit shift b)" "unat b < 2 ^ (32 - shift)" "shift < 32"
    and res: "mp_div1norm xs (push_bit shift b) 0 (udiv1norm_init (push_bit shift b)) shift = (r, q)"
  shows "mp_val xs = mp_val q * unat b + unat r \<and> unat r < unat b \<and> length q = length xs"
proof -
  let ?b = "push_bit shift b"
  have ub: "unat ?b = unat b * 2 ^ shift" using b by (simp add: unat_push_bit_limb)
  obtain c ys where ys: "mp_shl xs shift 0 = (c, ys)" by fastforce
  have v: "mp_val ys + 2 ^ (32 * length xs) * unat c = mp_val xs * 2 ^ shift" "unat c < 2 ^ shift" "length ys = length xs"
    using mp_shl_val [OF ys] mp_shl_length [OF ys] b(3) by simp_all
  have "0 < unat b" using b(1) ub by (cases "unat b") simp_all
  then have "2 ^ shift \<le> unat ?b" unfolding ub by simp
  then have cb: "c < ?b" using v(2) by (simp add: word_less_nat_alt)
  have "(if shift \<noteq> 0 then let (c, ys) = mp_shl xs shift 0 in (push_bit shift 0 OR c, ys) else (0, xs)) = (c, ys)"
    using ys mp_shl_0 [of xs] by (cases "shift = 0") simp_all
  with res obtain r1 where r1: "mp_div1 ys ?b c = (r1, q)" "r = drop_bit shift r1"
    unfolding mp_div1norm_def by (auto simp: mp_div1norm_loop_eq [OF b(1) cb] split: prod.splits)
  note d = mp_div1_val [OF r1(1) cb]
  have e: "mp_val xs * 2 ^ shift = mp_val q * unat b * 2 ^ shift + unat r1" using d v ub by (simp add: mult.assoc)
  have ur: "unat r = unat r1 div 2 ^ shift" unfolding r1(2) by (rule unat_drop_bit)
  have "mp_val xs = mp_val xs * 2 ^ shift div 2 ^ shift" by simp
  also have "\<dots> = mp_val q * unat b + unat r" unfolding e ur by simp
  finally have "mp_val xs = mp_val q * unat b + unat r" .
  moreover have "unat r < unat b"
    using d unfolding ur by (simp add: word_less_nat_alt ub div_less_iff_less_mult)
  ultimately show ?thesis using mp_div1_length [OF r1(1)] v(3) by simp
qed



end
