(* ===== verification/Mpb.thy ===== *)
theory Mpb
  imports Mp_Div
begin

text \<open>
  The number type \<open>mpb_t\<close> of \<open>src/dtoa.c\<close>: a limb array with its length.  A value
  is the list of the limbs \<open>tab[0] .. tab[len - 1]\<close>, so \<open>len\<close> is the length of the list
  and storing at \<open>tab[len]\<close> followed by \<open>len++\<close> appends.  The memory behind \<open>tab\<close> is
  taken to be large enough.

  Shared results: every operation keeps the arrays normalised (\<open>mpb_ok\<close>), shifting and
  rounding is exact (\<open>round_div\<close> is the reference), comparison is comparison of the numbers.
\<close>

type_synonym mpb = "limb list"

definition mpb_ok :: "mpb \<Rightarrow> bool" where
  "mpb_ok r \<longleftrightarrow> r \<noteq> [] \<and> (1 < length r \<longrightarrow> last r \<noteq> 0)"

datatype rnd_mode = JS_RNDN | JS_RNDNA | JS_RNDZ

section \<open>Operations\<close>

fun mpb_renorm :: "mpb \<Rightarrow> mpb" where
  "mpb_renorm r = (if 1 < length r \<and> r ! (length r - 1) = 0 then mpb_renorm (butlast r) else r)"

declare mpb_renorm.simps [simp del]

definition mpb_get_bit :: "mpb \<Rightarrow> nat \<Rightarrow> limb" where
  "mpb_get_bit r k =
     (let l = k div 32; k = k mod 32
      in if length r \<le> l then 0 else drop_bit k (r ! l) AND 1)"

text \<open>The decision \<open>add_one\<close> of \<open>mpb_shr_round\<close> for a positive shift.\<close>

definition mpb_add_one :: "mpb \<Rightarrow> nat \<Rightarrow> rnd_mode \<Rightarrow> limb" where
  "mpb_add_one r shift rnd_mode =
     (case rnd_mode of
        JS_RNDZ \<Rightarrow> 0
      | _ \<Rightarrow>
        (let bit1 = mpb_get_bit r (shift - 1)
         in if bit1 \<noteq> 0 then
              let bit2 =
                    (if rnd_mode = JS_RNDNA then 1
                     else if 2 \<le> shift then
                       let k = shift - 1; l = k div 32; k = k mod 32;
                           b = foldl (OR) 0 (take (min l (length r)) r)
                       in if l < length r then b OR (r ! l AND (push_bit k 1 - 1)) else b
                     else 0)
              in if bit2 \<noteq> 0 then 1 else mpb_get_bit r shift
            else 0))"

definition mpb_shr_round :: "mpb \<Rightarrow> int \<Rightarrow> rnd_mode \<Rightarrow> mpb" where
  "mpb_shr_round r shift rnd_mode =
     (if shift = 0 then r
      else if shift < 0 then
        let s = nat (- shift); l = s div 32; s = s mod 32;
            r = (if s \<noteq> 0 then let (c, t) = mp_shl r s 0 in mpb_renorm (t @ [c]) else r)
        in (if 0 < l then replicate l 0 @ r else r)
      else
        let s = nat shift; add_one = mpb_add_one r s rnd_mode; l = s div 32; s = s mod 32
        in if length r \<le> l then [add_one]
           else
             let r = (if 0 < l then drop l r else r);
                 r = (if s \<noteq> 0 then mpb_renorm (snd (mp_shr r s 0)) else r)
             in if add_one \<noteq> 0 then
                  let (a, t) = mp_add_ui r 1 in if a \<noteq> 0 then t @ [a] else t
                else r)"

text \<open>The loop of \<open>mpb_cmp\<close> runs over both arrays from the highest index.\<close>

fun mpb_cmp_loop :: "(limb \<times> limb) list \<Rightarrow> int" where
  "mpb_cmp_loop [] = 0"
| "mpb_cmp_loop ((x, y) # xs) = (if x \<noteq> y then if x < y then - 1 else 1 else mpb_cmp_loop xs)"

definition mpb_cmp :: "mpb \<Rightarrow> mpb \<Rightarrow> int" where
  "mpb_cmp a b =
     (if length a < length b then - 1
      else if length b < length a then 1
      else mpb_cmp_loop (zip (rev a) (rev b)))"

definition mpb_set_u64 :: "u64 \<Rightarrow> mpb" where
  "mpb_set_u64 m =
     (let t0 = ucast m; t1 = ucast (drop_bit 32 m)
      in if t1 = 0 then [t0] else [t0, t1])"

definition mpb_get_u64 :: "mpb \<Rightarrow> u64" where
  "mpb_get_u64 r = (if length r = 1 then ucast (r ! 0) else ucast (r ! 0) OR push_bit 32 (ucast (r ! 1)))"

definition mpb_floor_log2 :: "mpb \<Rightarrow> int ub" where
  "mpb_floor_log2 a =
     (let v = a ! (length a - 1)
      in if v = 0 then Some (- 1)
         else do { z \<leftarrow> clz32 v; Some (int (length a) * 32 - 1 - int z) })"

definition mpb_mul1_base :: "mpb \<Rightarrow> limb \<Rightarrow> limb \<Rightarrow> mpb" where
  "mpb_mul1_base r radix_base a =
     (if r ! 0 = 0 \<and> length r = 1 then [a]
      else if radix_base = 0 then mpb_renorm (a # r)
      else let (c, t) = mp_mul1 r radix_base a in mpb_renorm (t @ [c]))"

section \<open>Normalised arrays\<close>

lemma mpb_renorm_val [simp]: "mp_val (mpb_renorm r) = mp_val r"
proof (induction r rule: mpb_renorm.induct)
  case (1 r)
  show ?case
  proof (cases "1 < length r \<and> r ! (length r - 1) = 0")
    case True
    then have "r = butlast r @ [0]" by (metis One_nat_def append_butlast_last_id last_conv_nth list.size(3) not_less_zero)
    then have "mp_val r = mp_val (butlast r)" using mp_val_append [of "butlast r" "[0]"] by simp
    with 1 True show ?thesis by (simp add: mpb_renorm.simps [of r])
  next
    case False
    then have "mpb_renorm r = r" by (subst mpb_renorm.simps) (simp only: if_False)
    then show ?thesis by simp
  qed
qed

lemma mpb_renorm_ok: "r \<noteq> [] \<Longrightarrow> mpb_ok (mpb_renorm r)"
proof (induction r rule: mpb_renorm.induct)
  case (1 r)
  show ?case
  proof (cases "1 < length r \<and> r ! (length r - 1) = 0")
    case True
    then have "butlast r \<noteq> []" by (cases r) (auto split: list.splits)
    with 1 True show ?thesis by (simp add: mpb_renorm.simps [of r])
  next
    case False
    with 1(2) show ?thesis by (subst mpb_renorm.simps) (auto simp: mpb_ok_def last_conv_nth)
  qed
qed

lemma mp_val_last: "xs \<noteq> [] \<Longrightarrow> mp_val xs = mp_val (butlast xs) + 2 ^ (32 * (length xs - 1)) * unat (last xs)"
  using mp_val_append [of "butlast xs" "[last xs]"] by simp

lemma mpb_ok_lower:
  assumes "mpb_ok r" and "1 < length r"
  shows "2 ^ (32 * (length r - 1)) \<le> mp_val r"
proof -
  have "0 < unat (last r)" using assms by (simp add: mpb_ok_def unat_gt_0)
  then show ?thesis using assms mp_val_last [of r] by (cases "unat (last r)") (auto simp: mpb_ok_def)
qed

lemma mpb_ok_last: "mpb_ok r \<Longrightarrow> 0 < mp_val r \<Longrightarrow> last r \<noteq> 0"
  by (cases r rule: rev_cases; cases "butlast r") (auto simp: mpb_ok_def split: if_splits)

lemma mp_val_0_iff: "mpb_ok r \<Longrightarrow> mp_val r = 0 \<longleftrightarrow> r = [0]"
proof
  assume ok: "mpb_ok r" and v: "mp_val r = 0"
  then have "\<not> 1 < length r" using mpb_ok_lower [of r] by fastforce
  then obtain x where "r = [x]" using ok by (cases r) (auto simp: mpb_ok_def)
  with v show "r = [0]" by (simp add: unsigned_eq_0_iff)
qed simp

lemma mp_val_Cons_div_mod: "mp_val (x # xs) mod 2 ^ 32 = unat x" "mp_val (x # xs) div 2 ^ 32 = mp_val xs"
  using unat_limb_less [of x] by simp_all

lemma mp_val_inj: "length a = length b \<Longrightarrow> mp_val a = mp_val b \<Longrightarrow> a = b"
proof (induction a b rule: list_induct2)
  case (Cons x xs y ys)
  from Cons.prems have "unat x = unat y" "mp_val xs = mp_val ys" by (metis mp_val_Cons_div_mod)+
  with Cons.IH show ?case by (simp add: word_unat_eq_iff)
qed simp

lemma mpb_ok_shorter_less:
  assumes "mpb_ok b" and "a \<noteq> []" and "length a < length b"
  shows "mp_val a < mp_val b"
proof -
  have "mp_val a < 2 ^ (32 * length a)" by (rule mp_val_less)
  also have "\<dots> \<le> 2 ^ (32 * (length b - 1))" using assms(3) by (intro power_increasing) auto
  also have "\<dots> \<le> mp_val b" using assms by (intro mpb_ok_lower) (cases a; auto)+
  finally show ?thesis .
qed

section \<open>Comparison\<close>

lemma sgn_less: "m < n \<Longrightarrow> sgn (int m - int n) = - 1" "n < m \<Longrightarrow> sgn (int m - int n) = 1"
  by (simp_all add: sgn_if)

lemma mpb_cmp_loop_val:
  assumes "length a = length b"
  shows "mpb_cmp_loop (zip (rev a) (rev b)) = sgn (int (mp_val a) - int (mp_val b))"
proof -
  have "mpb_cmp_loop (zip a b) = sgn (int (mp_val (rev a)) - int (mp_val (rev b)))" if "length a = length b" for a b
    using that
  proof (induction a b rule: list_induct2)
    case (Cons x xs y ys)
    let ?p = "2 ^ (32 * length xs) :: nat"
    have b: "mp_val (rev xs) < ?p" "mp_val (rev ys) < ?p"
      using mp_val_less [of "rev xs"] mp_val_less [of "rev ys"] Cons.hyps by simp_all
    have v: "mp_val (rev (x # xs)) = mp_val (rev xs) + ?p * unat x" "mp_val (rev (y # ys)) = mp_val (rev ys) + ?p * unat y"
      using Cons.hyps by (simp_all add: mp_val_append)
    have lt: "c + ?p * unat u < d + ?p * unat w" if "u < w" "c < ?p" for u w :: limb and c d
    proof -
      have "c + ?p * unat u < ?p * Suc (unat u)" using that(2) by simp
      also have "\<dots> \<le> ?p * unat w" using that(1) by (intro mult_le_mono2) (simp add: word_less_nat_alt)
      finally show ?thesis by simp
    qed
    show ?case
    proof (cases x y rule: linorder_cases)
      case less
      have "mp_val (rev (x # xs)) < mp_val (rev (y # ys))" unfolding v by (rule lt [OF less b(1)])
      with less show ?thesis by (auto simp add: sgn_less simp del: rev.simps)
    next
      case equal
      with Cons.IH v show ?thesis by simp
    next
      case greater
      have "mp_val (rev (y # ys)) < mp_val (rev (x # xs))" unfolding v by (rule lt [OF greater b(2)])
      with greater show ?thesis by (auto simp add: sgn_less simp del: rev.simps)
    qed
  qed simp
  from this [of "rev a" "rev b"] assms show ?thesis by simp
qed

lemma mpb_cmp_val:
  assumes "mpb_ok a" and "mpb_ok b"
  shows "mpb_cmp a b = sgn (int (mp_val a) - int (mp_val b))"
proof (cases "length a" "length b" rule: linorder_cases)
  case less
  with mpb_ok_shorter_less [OF assms(2), of a] assms(1) show ?thesis by (simp add: mpb_cmp_def mpb_ok_def sgn_less)
next
  case greater
  with mpb_ok_shorter_less [OF assms(1), of b] assms(2) show ?thesis by (simp add: mpb_cmp_def mpb_ok_def sgn_less)
qed (simp add: mpb_cmp_def mpb_cmp_loop_val)

section \<open>Conversion from and to 64 bit words\<close>

lemma mpb_set_u64_ok: "mpb_ok (mpb_set_u64 m)"
  by (simp add: mpb_set_u64_def Let_def mpb_ok_def)

lemma mpb_set_u64_val: "mp_val (mpb_set_u64 m) = unat m"
proof -
  define h l where "h = (ucast (drop_bit 32 m) :: limb)" and "l = (ucast m :: limb)"
  have "unat h = unat m div 2 ^ 32" "unat l = unat m mod 2 ^ 32"
    unfolding h_def l_def by (rule unat_high_dlimb unat_ucast_dlimb)+
  then have "unat m = unat l + 2 ^ 32 * unat h" by simp
  then show ?thesis by (simp add: mpb_set_u64_def Let_def flip: h_def l_def)
qed

lemma mpb_get_u64_val: "mpb_ok r \<Longrightarrow> unat (mpb_get_u64 r) = mp_val r mod 2 ^ 64"
proof -
  assume ok: "mpb_ok r"
  show ?thesis
  proof (cases "length r = 1")
    case True
    then obtain x where r: "r = [x]" by (cases r) auto
    have "unat x < 2 ^ 64" by (rule order.strict_trans [OF unat_limb_less]) simp
    then show ?thesis by (simp add: mpb_get_u64_def r)
  next
    case False
    then obtain x y ys where r: "r = x # y # ys" using ok by (cases r; cases "tl r") (auto simp: mpb_ok_def)
    have "unat (mpb_get_u64 r) = unat y * 2 ^ 32 + unat x"
      using unat_join [of y x] by (simp add: mpb_get_u64_def r or.commute)
    moreover have "mp_val r = (unat y * 2 ^ 32 + unat x) + 2 ^ 64 * mp_val ys" by (simp add: r)
    moreover have "unat y * 2 ^ 32 + unat x < 2 ^ 64"
      using mp_val_less [of "[x, y]"] by (simp add: mult.commute add.commute)
    ultimately show ?thesis by simp
  qed
qed

text \<open>The position of the highest bit.\<close>

lemma clz32_nonzero: "v \<noteq> 0 \<Longrightarrow> clz32 v = Some (32 - bit_len (unat v))"
  by (simp add: clz32_def)

lemma bit_len_high:
  assumes "0 < x" and "low < 2 ^ k"
  shows "bit_len (low + 2 ^ k * x) = k + bit_len x"
proof -
  have x: "2 ^ (bit_len x - 1) \<le> x" "x < 2 ^ bit_len x" using bit_len_lower [OF assms(1)] bit_len_upper [of x] by simp_all
  have p: "0 < bit_len x" using assms(1) by simp
  have "(2::nat) ^ (k + bit_len x - 1) = 2 ^ k * 2 ^ (bit_len x - 1)" using p by (simp flip: power_add)
  also have "\<dots> \<le> low + 2 ^ k * x" using x(1) by (intro trans_le_add2 mult_le_mono2)
  finally have lo: "2 ^ (k + bit_len x - 1) \<le> low + 2 ^ k * x" .
  have "low + 2 ^ k * x < 2 ^ k * Suc x" using assms(2) by simp
  also have "\<dots> \<le> 2 ^ k * 2 ^ bit_len x" using x(2) by (intro mult_le_mono2) simp
  finally have "low + 2 ^ k * x < 2 ^ Suc (k + bit_len x - 1)" using p by (simp add: power_add)
  from bit_len_unique [OF _ lo this] assms(1) p show ?thesis by simp
qed

lemma mpb_floor_log2_val:
  assumes "mpb_ok r" and "0 < mp_val r"
  shows "mpb_floor_log2 r = Some (int (bit_len (mp_val r)) - 1)"
proof -
  let ?v = "last r"
  have ne: "r \<noteq> []" using assms(1) by (simp add: mpb_ok_def)
  have v: "?v \<noteq> 0" by (rule mpb_ok_last [OF assms])
  have "bit_len (mp_val r) = 32 * (length r - 1) + bit_len (unat ?v)"
    unfolding mp_val_last [OF ne] using v mp_val_less [of "butlast r"] by (intro bit_len_high) (simp_all add: unat_gt_0)
  moreover have "bit_len (unat ?v) \<le> 32" by (simp add: bit_len_le_iff)
  moreover obtain n where "length r = Suc n" using ne by (cases "length r") simp_all
  ultimately show ?thesis
    using ne v by (simp add: mpb_floor_log2_def clz32_nonzero last_conv_nth of_nat_diff)
qed

lemma mpb_mul1_base_val:
  assumes "mpb_ok r"
  shows "mp_val (mpb_mul1_base r b a) = mp_val r * (if b = 0 then 2 ^ 32 else unat b) + unat a"
    and "mpb_ok (mpb_mul1_base r b a)"
proof -
  obtain c t where m: "mp_mul1 r b a = (c, t)" by fastforce
  show "mpb_ok (mpb_mul1_base r b a)"
    using m mpb_renorm_ok [of "t @ [c]"] mpb_renorm_ok [of "a # r"] by (simp add: mpb_mul1_base_def mpb_ok_def)
  have "r ! 0 = 0 \<and> length r = 1 \<Longrightarrow> mp_val r = 0" by (cases r) auto
  with m mp_mul1_val [OF m] mp_mul1_length [OF m]
  show "mp_val (mpb_mul1_base r b a) = mp_val r * (if b = 0 then 2 ^ 32 else unat b) + unat a"
    by (auto simp: mpb_mul1_base_def mp_val_append)
qed

section \<open>Rounding\<close>

text \<open>The reference: the quotient \<open>n / d\<close> rounded in each mode.\<close>

definition round_div :: "rnd_mode \<Rightarrow> nat \<Rightarrow> nat \<Rightarrow> nat" where
  "round_div rnd n d =
     (case rnd of
        JS_RNDZ \<Rightarrow> n div d
      | JS_RNDNA \<Rightarrow> (if d \<le> 2 * (n mod d) then n div d + 1 else n div d)
      | JS_RNDN \<Rightarrow> (if d < 2 * (n mod d) \<or> d = 2 * (n mod d) \<and> odd (n div d) then n div d + 1 else n div d))"

lemma mp_val_take_drop: "mp_val (take l r) = mp_val r mod 2 ^ (32 * l)" "mp_val (drop l r) = mp_val r div 2 ^ (32 * l)"
proof -
  have "mp_val (take l r) < 2 ^ (32 * l)"
  proof -
    have "mp_val (take l r) < 2 ^ (32 * length (take l r))" by (rule mp_val_less)
    also have "\<dots> \<le> 2 ^ (32 * l)" by (intro power_increasing) simp_all
    finally show ?thesis .
  qed
  moreover have "mp_val r = mp_val (take l r) + 2 ^ (32 * l) * mp_val (drop l r)"
  proof (cases "l \<le> length r")
    case True
    then show ?thesis using mp_val_append [of "take l r" "drop l r"] by simp
  qed simp
  ultimately show "mp_val (take l r) = mp_val r mod 2 ^ (32 * l)" "mp_val (drop l r) = mp_val r div 2 ^ (32 * l)"
    by simp_all
qed

lemma mp_val_nth: "l < length r \<Longrightarrow> unat (r ! l) = mp_val r div 2 ^ (32 * l) mod 2 ^ 32"
  using mp_val_take_drop(2) [of l r] mp_val_Cons_div_mod(1) [of "r ! l" "drop (Suc l) r"]
  by (simp only: Cons_nth_drop_Suc)

lemma mp_val_high_0: "length r \<le> l \<Longrightarrow> mp_val r < 2 ^ (32 * l)"
  using mp_val_less [of r] by (rule order.strict_trans2) (simp add: power_increasing)

lemma mpb_get_bit_val: "mpb_get_bit r k = of_bool (odd (mp_val r div 2 ^ k))"
proof (cases "length r \<le> k div 32")
  case True
  have "mp_val r < 2 ^ (32 * (k div 32))" by (rule mp_val_high_0) fact
  also have "\<dots> \<le> 2 ^ k" by (intro power_increasing) simp_all
  finally show ?thesis using True by (simp add: mpb_get_bit_def Let_def)
next
  case False
  let ?l = "k div 32" let ?k = "k mod 32"
  define x where "x = drop_bit ?k (r ! ?l)"
  have "unat (x AND mask 1) = unat x mod 2 ^ 1" by (simp only: unat_and_mask)
  then have "unat (x AND 1) = of_bool (odd (unat x))" by (simp add: mod2_eq_if)
  then have "x AND 1 = of_bool (odd (unat x))" by (simp only: word_unat_eq_iff unat_of_bool_limb)
  also have "odd (unat x) \<longleftrightarrow> odd (mp_val r div 2 ^ (32 * ?l) mod 2 ^ 32 div 2 ^ ?k)"
    using False by (simp only: x_def unat_drop_bit mp_val_nth not_le)
  also have "\<dots> \<longleftrightarrow> odd (mp_val r div 2 ^ (32 * ?l) div 2 ^ ?k)"
  proof -
    have "?k < 32" by simp
    then show ?thesis
      by (simp only: bit_iff_odd [symmetric] take_bit_eq_mod [symmetric] bit_take_bit_iff simp_thms)
  qed
  also have "mp_val r div 2 ^ (32 * ?l) div 2 ^ ?k = mp_val r div 2 ^ k"
    by (simp flip: div_mult2_eq power_add)
  finally show ?thesis using False by (simp add: mpb_get_bit_def Let_def x_def)
qed

text \<open>The bits below the rounding bit.\<close>

lemma foldl_or_0: "foldl (OR) b xs = 0 \<longleftrightarrow> b = 0 \<and> mp_val xs = 0"
proof (induction xs arbitrary: b)
  case (Cons x xs)
  have "b OR x = 0 \<longleftrightarrow> b = 0 \<and> x = 0" by (metis or_eq_0_iff)
  with Cons show ?case by (auto simp: unsigned_eq_0_iff)
qed simp

lemma mpb_low_bits:
  fixes r :: mpb
  assumes l: "l = k div 32"
  defines "b \<equiv> foldl (OR) 0 (take (min l (length r)) r)"
  shows "(if l < length r then b OR (r ! l AND (push_bit (k mod 32) 1 - 1)) else b) = 0 \<longleftrightarrow> mp_val r mod 2 ^ k = 0"
proof -
  have tk: "take (min l (length r)) r = take l r" by (simp add: min_def)
  have b: "b = 0 \<longleftrightarrow> mp_val r mod 2 ^ (32 * l) = 0"
    unfolding b_def tk foldl_or_0 by (simp only: mp_val_take_drop) simp
  have k: "k = 32 * l + k mod 32" using l by simp
  show ?thesis
  proof (cases "l < length r")
    case True
    have "r ! l AND (push_bit (k mod 32) 1 - 1) = r ! l AND mask (k mod 32)"
      by (simp add: mask_eq_exp_minus_1 push_bit_eq_mult)
    then have "unat (r ! l AND (push_bit (k mod 32) 1 - 1)) = mp_val r div 2 ^ (32 * l) mod 2 ^ 32 mod 2 ^ (k mod 32)"
      using True by (simp only: unat_and_mask mp_val_nth)
    also have "\<dots> = mp_val r div 2 ^ (32 * l) mod 2 ^ (k mod 32)"
      by (intro mod_mod_cancel le_imp_power_dvd) simp
    finally have "unat (r ! l AND (push_bit (k mod 32) 1 - 1)) = mp_val r div 2 ^ (32 * l) mod 2 ^ (k mod 32)" .
    then have h: "r ! l AND (push_bit (k mod 32) 1 - 1) = 0 \<longleftrightarrow> mp_val r div 2 ^ (32 * l) mod 2 ^ (k mod 32) = 0"
      by (metis unsigned_eq_0_iff)
    have "mp_val r mod 2 ^ k = 2 ^ (32 * l) * (mp_val r div 2 ^ (32 * l) mod 2 ^ (k mod 32)) + mp_val r mod 2 ^ (32 * l)"
      by (subst k) (simp only: power_add mod_mult2_eq)
    then show ?thesis using True h b by (auto simp: or_eq_0_iff)
  next
    case False
    then have "mp_val r mod 2 ^ (32 * l) = mp_val r" "mp_val r < 2 ^ (32 * l)"
      using mp_val_high_0 [of r l] by simp_all
    moreover have "(2::nat) ^ (32 * l) \<le> 2 ^ k" using k by (intro power_increasing) simp_all
    ultimately have "mp_val r mod 2 ^ k = mp_val r" by (intro mod_less) linarith
    then show ?thesis using False b \<open>mp_val r mod 2 ^ (32 * l) = mp_val r\<close> by simp
  qed
qed

lemma mpb_add_one_val:
  assumes "0 < s"
  shows "mp_val r div 2 ^ s + unat (mpb_add_one r s rnd) = round_div rnd (mp_val r) (2 ^ s)"
proof -
  define h where "h = (2::nat) ^ (s - 1)"
  let ?v = "mp_val r"
  have d: "2 ^ s = h * 2" using assms by (simp add: h_def flip: power_Suc2)
  have m: "?v mod (h * 2) = h * (?v div h mod 2) + ?v mod h" by (simp only: mod_mult2_eq)
  have hp: "0 < h" by (simp add: h_def)
  have ml: "?v mod h < h" using hp by simp
  define b2 where "b2 = (if 2 \<le> s then
      let k = s - 1; l = k div 32; k = k mod 32; b = foldl (OR) 0 (take (min l (length r)) r)
      in if l < length r then b OR (r ! l AND (push_bit k 1 - 1)) else b else 0)"
  have b2: "b2 = 0 \<longleftrightarrow> ?v mod h = 0"
  proof (cases "2 \<le> s")
    case True
    then show ?thesis using mpb_low_bits [OF refl, of "s - 1" r] by (simp only: b2_def Let_def if_True h_def)
  next
    case False
    with assms have "s = 1" by simp
    then show ?thesis by (simp add: b2_def h_def)
  qed
  have g: "mpb_get_bit r (s - 1) = of_bool (odd (?v div h))" "mpb_get_bit r s = of_bool (odd (?v div (h * 2)))"
    by (simp_all only: mpb_get_bit_val h_def [symmetric] d)
  have a: "mpb_add_one r s rnd = (case rnd of JS_RNDZ \<Rightarrow> 0
      | _ \<Rightarrow> if odd (?v div h) then if rnd = JS_RNDNA \<or> ?v mod h \<noteq> 0 then 1 else of_bool (odd (?v div (h * 2))) else 0)"
    by (cases rnd; cases "odd (?v div h)"; cases "?v mod h = 0"; cases "odd (?v div (h * 2))")
      (simp_all add: mpb_add_one_def g [unfolded One_nat_def] b2 flip: b2_def)
  show ?thesis
  proof (cases "odd (?v div h)")
    case False
    then have "?v mod (h * 2) < h" using m ml by (simp add: odd_iff_mod_2_eq_one)
    with False show ?thesis unfolding a round_div_def d by (cases rnd) simp_all
  next
    case True
    then have "?v mod (h * 2) = h + ?v mod h" using m by (simp add: odd_iff_mod_2_eq_one)
    with True hp show ?thesis unfolding a round_div_def d by (cases rnd) (auto simp: unat_of_bool_limb)
  qed
qed

lemma mpb_add_one_le: "unat (mpb_add_one r s rnd) \<le> 1"
  by (auto simp: mpb_add_one_def Let_def mpb_get_bit_val unat_of_bool_limb split: rnd_mode.splits)

text \<open>The left shift and the right shift of \<open>mpb_shr_round\<close>.\<close>

lemma mpb_shift_left:
  assumes ok: "mpb_ok r" and s: "s < 32"
  defines "r1 \<equiv> (if s \<noteq> 0 then let (c, t) = mp_shl r s 0 in mpb_renorm (t @ [c]) else r)"
  shows "mp_val r1 = mp_val r * 2 ^ s" and "mpb_ok r1"
proof -
  obtain c t where ct: "mp_shl r s 0 = (c, t)" by fastforce
  have "mp_val (t @ [c]) = mp_val r * 2 ^ s"
    using mp_shl_val [OF ct] mp_shl_length [OF ct] s by (simp add: mp_val_append)
  then show "mp_val r1 = mp_val r * 2 ^ s" "mpb_ok r1"
    using ct ok by (simp_all add: r1_def mpb_renorm_ok)
qed

lemma mpb_shift_right:
  assumes ok: "mpb_ok r" and l: "l < length r" and s: "s < 32"
  defines "r1 \<equiv> (if 0 < l then drop l r else r)"
  defines "r2 \<equiv> (if s \<noteq> 0 then mpb_renorm (snd (mp_shr r1 s 0)) else r1)"
  shows "mp_val r2 = mp_val r div 2 ^ (32 * l + s)" and "mpb_ok r2"
proof -
  have r1: "r1 = drop l r" by (simp add: r1_def)
  obtain m t where mt: "mp_shr r1 s 0 = (m, t)" by fastforce
  have "mp_val r1 = mp_val t * 2 ^ s + unat m" "unat m < 2 ^ s" using mp_shr_val [OF mt s] by simp_all
  then have "mp_val t = mp_val r1 div 2 ^ s" by simp
  then have "mp_val r2 = mp_val r1 div 2 ^ s" using mt by (simp add: r2_def)
  also have "\<dots> = mp_val r div 2 ^ (32 * l + s)"
    by (simp add: r1 mp_val_take_drop(2) power_add div_mult2_eq)
  finally show "mp_val r2 = mp_val r div 2 ^ (32 * l + s)" .
  have "r1 \<noteq> []" using l by (simp add: r1)
  moreover have "mpb_ok r1" using ok l by (auto simp: mpb_ok_def r1)
  ultimately show "mpb_ok r2" using mt mp_shr_length [OF mt] mpb_renorm_ok [of t] by (cases t) (auto simp: r2_def)
qed

lemma mpb_incr:
  assumes ok: "mpb_ok r"
  defines "r1 \<equiv> (let (a, t) = mp_add_ui r 1 in if a \<noteq> 0 then t @ [a] else t)"
  shows "mp_val r1 = mp_val r + 1" and "mpb_ok r1"
proof -
  obtain a t where at: "mp_add_ui r 1 = (a, t)" by fastforce
  have v: "mp_val t + 2 ^ (32 * length r) * unat a = mp_val r + 1" and len: "length t = length r"
    using mp_add_ui_val [OF at] mp_add_ui_length [OF at] by simp_all
  from v len show "mp_val r1 = mp_val r + 1" using at by (cases "a = 0") (simp_all add: r1_def mp_val_append)
  have "last t \<noteq> 0" if "a = 0" "1 < length t"
  proof
    assume "last t = 0"
    then have "mp_val t = mp_val (butlast t)" using that mp_val_last [of t] by (cases t) auto
    also have "\<dots> < 2 ^ (32 * (length r - 1))" using mp_val_less [of "butlast t"] len by simp
    also have "\<dots> \<le> mp_val r" using mpb_ok_lower [OF ok] that len by simp
    finally show False using v that by simp
  qed
  then show "mpb_ok r1" using at ok len by (auto simp: r1_def mpb_ok_def)
qed

lemma mpb_shr_round_val:
  assumes ok: "mpb_ok r" and nz: "shift < 0 \<Longrightarrow> 0 < mp_val r"
  shows "mp_val (mpb_shr_round r shift rnd) =
      (if 0 \<le> shift then round_div rnd (mp_val r) (2 ^ nat shift) else mp_val r * 2 ^ nat (- shift))
    \<and> mpb_ok (mpb_shr_round r shift rnd)"
proof (cases shift "0 :: int" rule: linorder_cases)
  case equal
  then show ?thesis using ok by (cases rnd) (simp_all add: mpb_shr_round_def round_div_def)
next
  case less
  define s where "s = nat (- shift)"
  define r1 where "r1 = (if s mod 32 \<noteq> 0 then let (c, t) = mp_shl r (s mod 32) 0 in mpb_renorm (t @ [c]) else r)"
  have r1: "mp_val r1 = mp_val r * 2 ^ (s mod 32)" "mpb_ok r1"
    using mpb_shift_left [OF ok, of "s mod 32"] by (simp_all add: r1_def)
  have e: "mpb_shr_round r shift rnd = replicate (s div 32) 0 @ r1"
    using less by (simp add: mpb_shr_round_def Let_def s_def [symmetric] r1_def)
  have "mp_val (replicate (s div 32) 0 @ r1) = mp_val r * (2 ^ (32 * (s div 32)) * 2 ^ (s mod 32))"
    by (simp add: mp_val_append mp_val_replicate_0 r1)
  also have "\<dots> = mp_val r * 2 ^ s" by (simp flip: power_add)
  finally have v: "mp_val (mpb_shr_round r shift rnd) = mp_val r * 2 ^ s" unfolding e .
  have "last r1 \<noteq> 0"
    using mpb_ok_last [OF r1(2)] r1 nz [OF less] by simp
  then have "mpb_ok (replicate (s div 32) 0 @ r1)" using r1(2) by (auto simp: mpb_ok_def)
  with v less show ?thesis by (simp add: e s_def)
next
  case greater
  define s where "s = nat shift"
  have s: "0 < s" using greater by (simp add: s_def)
  let ?a = "mpb_add_one r s rnd"
  note av = mpb_add_one_val [OF s, of r rnd]
  show ?thesis
  proof (cases "length r \<le> s div 32")
    case True
    have "mp_val r < 2 ^ (32 * (s div 32))" by (rule mp_val_high_0) fact
    also have "\<dots> \<le> 2 ^ s" by (intro power_increasing) simp_all
    finally have "mp_val r div 2 ^ s = 0" by simp
    moreover have "mpb_shr_round r shift rnd = [?a]"
      using greater True by (simp add: mpb_shr_round_def Let_def s_def [symmetric])
    ultimately show ?thesis using av greater by (simp add: mpb_ok_def s_def)
  next
    case False
    then have l: "s div 32 < length r" by simp
    define r1 where "r1 = (if 0 < s div 32 then drop (s div 32) r else r)"
    define r2 where "r2 = (if s mod 32 \<noteq> 0 then mpb_renorm (snd (mp_shr r1 (s mod 32) 0)) else r1)"
    have r2: "mp_val r2 = mp_val r div 2 ^ s" "mpb_ok r2"
      using mpb_shift_right [OF ok l, of "s mod 32", folded r1_def, folded r2_def] by simp_all
    have "mpb_shr_round r shift rnd
        = (if ?a \<noteq> 0 then let (a, t) = mp_add_ui r2 1 in if a \<noteq> 0 then t @ [a] else t else r2)"
      using greater False unfolding mpb_shr_round_def Let_def s_def [symmetric]
      by (simp only: r1_def [symmetric] r2_def [symmetric]) simp
    moreover have "?a \<noteq> 0 \<Longrightarrow> unat ?a = 1" using mpb_add_one_le [of r s rnd] by (auto simp: le_Suc_eq unsigned_eq_0_iff)
    ultimately show ?thesis using av r2 mpb_incr [OF r2(2)] greater by (cases "?a = 0") (simp_all add: s_def)
  qed
qed



end
