(* ===== verification/Itoa.thy ===== *)
theory Itoa
  imports Mpb Cutils_Strings
begin

text \<open>
  Printing of integers of \<open>src/dtoa.c\<close>.  A function that writes at \<open>buf\<close> and returns the
  number of characters returns the list of these characters.  The functions that fill a
  local array from its end backwards take the number of characters left in front of the
  write position: running out of them is a write before the array.

  \<open>radix_digits\<close> is the reference: the digits of a number, highest first, without leading
  zeros.
\<close>

section \<open>Operations\<close>

fun u32toa_len :: "u32 \<Rightarrow> nat \<Rightarrow> u8 list" where
  "u32toa_len n 0 = []"
| "u32toa_len n (Suc len) = (let digit = n mod 10 in u32toa_len (n div 10) len @ [ucast (digit + 0x30)])"

text \<open>The character of a digit as the printing loops compute it.\<close>

definition digit_to_a :: "u32 \<Rightarrow> u8" where
  "digit_to_a digit = ucast (if digit < 10 then digit + 0x30 else digit + (0x61 - 10))"

fun u64toa_bin_len :: "u64 \<Rightarrow> nat \<Rightarrow> nat \<Rightarrow> u8 list" where
  "u64toa_bin_len n radix_bits 0 = []"
| "u64toa_bin_len n radix_bits (Suc len) =
     (let mask = push_bit radix_bits 1 - 1 :: u32; digit = ucast (n AND ucast mask) :: u32
      in u64toa_bin_len (drop_bit radix_bits n) radix_bits len @ [digit_to_a digit])"

fun limb_to_a_loop :: "limb \<Rightarrow> u32 \<Rightarrow> nat \<Rightarrow> u8 list" where
  "limb_to_a_loop n radix 0 = []"
| "limb_to_a_loop n radix (Suc len) = (let digit = n mod radix in limb_to_a_loop (n div radix) radix len @ [digit_to_a digit])"

definition limb_to_a :: "limb \<Rightarrow> u32 \<Rightarrow> nat \<Rightarrow> u8 list" where
  "limb_to_a n radix len = (if radix = 10 then u32toa_len n len else limb_to_a_loop n radix len)"

fun u32toa_loop :: "nat \<Rightarrow> u32 \<Rightarrow> u8 list ub" where
  "u32toa_loop 0 n = None"
| "u32toa_loop (Suc q) n =
     (let c = ucast (n mod 10 + 0x30); n = n div 10
      in if n \<noteq> 0 then do { s \<leftarrow> u32toa_loop q n; Some (s @ [c]) } else Some [c])"

definition u32toa :: "u32 \<Rightarrow> u8 list ub" where
  "u32toa n = u32toa_loop 10 n"

definition i32toa :: "u32 \<Rightarrow> u8 list ub" where
  "i32toa n = (if 0 \<le> sint n then u32toa n else do { s \<leftarrow> u32toa (- n); Some (0x2d # s) })"

definition u64toa :: "u64 \<Rightarrow> u8 list ub" where
  "u64toa n =
     (if n < 0x100000000 then u32toa (ucast n)
      else
        let n1 = n div 1000000000; n = n mod 1000000000
        in do {
          s \<leftarrow>
            (if 0x100000000 \<le> n1 then
               let n2 = ucast (n1 div 1000000000) :: u32; n1 = n1 mod 1000000000;
                   (h, n2) = (if 10 \<le> n2 then ([ucast (n2 div 10 + 0x30)], n2 mod 10) else ([], n2))
               in Some (h @ [ucast (n2 + 0x30)] @ u32toa_len (ucast n1) 9)
             else u32toa (ucast n1));
          Some (s @ u32toa_len (ucast n) 9)
        })"

definition i64toa :: "u64 \<Rightarrow> u8 list ub" where
  "i64toa n = (if 0 \<le> sint n then u64toa n else do { s \<leftarrow> u64toa (- n); Some (0x2d # s) })"

fun u64toa_radix_loop :: "nat \<Rightarrow> u64 \<Rightarrow> u32 \<Rightarrow> u8 list ub" where
  "u64toa_radix_loop 0 n radix = None"
| "u64toa_radix_loop (Suc q) n radix =
     (let digit = ucast (n mod ucast radix) :: u32; n = n div ucast radix; c = digit_to_a digit
      in if n \<noteq> 0 then do { s \<leftarrow> u64toa_radix_loop q n radix; Some (s @ [c]) } else Some [c])"

definition u64toa_radix :: "u64 \<Rightarrow> u32 \<Rightarrow> u8 list ub" where
  "u64toa_radix n radix =
     (if radix = 10 then u64toa n
      else if radix AND (radix - 1) = 0 then
        do {
          z \<leftarrow> clz32 radix;
          let radix_bits = 31 - z;
          l \<leftarrow> (if n = 0 then Some 1
               else do { zn \<leftarrow> clz64 n; Some ((64 - zn + radix_bits - 1) div radix_bits) });
          Some (u64toa_bin_len n radix_bits l)
        }
      else u64toa_radix_loop 41 n radix)"

definition i64toa_radix :: "u64 \<Rightarrow> u32 \<Rightarrow> u8 list ub" where
  "i64toa_radix n radix =
     (if 0 \<le> sint n then u64toa_radix n radix
      else do { s \<leftarrow> u64toa_radix (- n) radix; Some (0x2d # s) })"

section \<open>Digits of a number\<close>

fun radix_digits :: "nat \<Rightarrow> nat \<Rightarrow> nat list" where
  "radix_digits b n = (if n < b \<or> b < 2 then [n] else radix_digits b (n div b) @ [n mod b])"

declare radix_digits.simps [simp del]

fun fixed_digits :: "nat \<Rightarrow> nat \<Rightarrow> nat \<Rightarrow> nat list" where
  "fixed_digits b 0 n = []"
| "fixed_digits b (Suc k) n = fixed_digits b k (n div b) @ [n mod b]"

definition digits_val :: "nat \<Rightarrow> nat list \<Rightarrow> nat" where
  "digits_val b ds = foldl (\<lambda>a d. a * b + d) 0 ds"

definition digit_char :: "nat \<Rightarrow> u8" where
  "digit_char d = of_nat (if d < 10 then d + 0x30 else d + 0x57)"

lemma digits_val_snoc [simp]: "digits_val b (ds @ [d]) = digits_val b ds * b + d"
  by (simp add: digits_val_def)

lemma digits_val_Nil [simp]: "digits_val b [] = 0"
  by (simp add: digits_val_def)

lemma radix_digits_val: "2 \<le> b \<Longrightarrow> digits_val b (radix_digits b n) = n"
proof (induction b n rule: radix_digits.induct)
  case (1 b n)
  then show ?case by (subst radix_digits.simps) (simp add: digits_val_def)
qed

lemma radix_digits_less: "2 \<le> b \<Longrightarrow> d \<in> set (radix_digits b n) \<Longrightarrow> d < b"
proof (induction b n rule: radix_digits.induct)
  case (1 b n)
  show ?case
  proof (cases "n < b")
    case False
    with 1(2,3) have "d \<in> set (radix_digits b (n div b)) \<or> d = n mod b" by (subst (asm) radix_digits.simps) auto
    with 1 False show ?thesis by auto
  qed (use 1(2,3) in \<open>subst (asm) radix_digits.simps, simp\<close>)
qed

lemma radix_digits_ne [simp]: "radix_digits b n \<noteq> []"
  by (subst radix_digits.simps) simp

lemma hd_radix_digits: "2 \<le> b \<Longrightarrow> 0 < n \<Longrightarrow> 0 < hd (radix_digits b n)"
proof (induction b n rule: radix_digits.induct)
  case (1 b n)
  show ?case
  proof (cases "n < b")
    case False
    then have "0 < n div b" using 1(2) by (simp add: div_greater_zero_iff)
    with 1 False show ?thesis by (subst radix_digits.simps) simp
  qed (use 1 in \<open>subst radix_digits.simps, simp\<close>)
qed

lemma radix_digits_split:
  assumes "2 \<le> b" and "0 < q" and "r < b ^ k"
  shows "radix_digits b (q * b ^ k + r) = radix_digits b q @ fixed_digits b k r"
  using assms(3)
proof (induction k arbitrary: r)
  case (Suc k)
  have "b * 1 \<le> b * (q * b ^ k)" using assms(1,2) by (intro mult_le_mono2) (simp add: Suc_le_eq)
  then have ge: "\<not> q * b ^ Suc k + r < b" by (simp only: mult_1_right power_Suc mult.left_commute not_less trans_le_add1)
  have "(q * b ^ Suc k + r) div b = q * b ^ k + r div b" "(q * b ^ Suc k + r) mod b = r mod b"
    using assms(1) div_mult_self2 [of b r "q * b ^ k"] mod_mult_self2 [of r b "q * b ^ k"]
    by (simp_all add: mult.left_commute add.commute)
  moreover have "r div b < b ^ k" using Suc.prems assms(1) by (simp add: div_less_iff_less_mult mult.commute)
  ultimately show ?case using ge Suc.IH assms(1) by (subst radix_digits.simps) simp
qed simp

lemma fixed_digits_radix:
  assumes "2 \<le> b" and "n < b ^ Suc k" and "k = 0 \<or> b ^ k \<le> n"
  shows "fixed_digits b (Suc k) n = radix_digits b n"
  using assms(2,3)
proof (induction k arbitrary: n)
  case 0
  then show ?case by (subst radix_digits.simps) simp
next
  case (Suc k)
  have ge: "b ^ Suc k \<le> n" using Suc.prems by simp
  have "b \<le> b ^ Suc k" using assms(1) by simp
  then have "\<not> n < b" using ge by linarith
  moreover have "fixed_digits b (Suc k) (n div b) = radix_digits b (n div b)"
  proof (rule Suc.IH)
    show "n div b < b ^ Suc k" using Suc.prems(1) assms(1) by (simp add: div_less_iff_less_mult mult.commute)
    show "k = 0 \<or> b ^ k \<le> n div b" using ge assms(1) by (simp add: less_eq_div_iff_mult_less_eq mult.commute)
  qed
  ultimately show ?case using assms(1) by (subst radix_digits.simps) simp
qed

section \<open>The functions print the digits\<close>

lemma digit_to_a_char: "unat d < 36 \<Longrightarrow> digit_to_a d = digit_char (unat d)"
proof -
  assume d: "unat d < 36"
  have "unat (d + 0x30) = unat d + 0x30" "unat (d + (0x61 - 10)) = unat d + 0x57"
    using d by (simp_all add: unat_word_ariths)
  then have "(ucast (d + 0x30) :: u8) = of_nat (unat d + 0x30)" "(ucast (d + (0x61 - 10)) :: u8) = of_nat (unat d + 0x57)"
    by (metis of_nat_unat)+
  then show ?thesis by (simp add: digit_to_a_def digit_char_def word_less_nat_alt)
qed

lemma dec_char: "unat (d :: u32) < 10 \<Longrightarrow> ucast (d + 0x30) = digit_char (unat d)"
  using digit_to_a_char [of d] by (simp add: digit_to_a_def word_less_nat_alt)

lemma unat_mod_10: "unat (n mod 10 :: u32) = unat n mod 10" "unat (n div 10 :: u32) = unat n div 10"
  by (simp_all add: unat_mod unat_div)

lemma u32toa_len_digits: "u32toa_len n len = map digit_char (fixed_digits 10 len (unat n))"
proof (induction len arbitrary: n)
  case (Suc len)
  have "ucast (n mod 10 + 0x30) = digit_char (unat n mod 10)"
    using dec_char [of "n mod 10"] by (simp add: unat_mod_10)
  with Suc show ?case by (simp add: unat_mod_10)
qed simp

lemma limb_to_a_digits:
  assumes "2 \<le> unat radix" and "unat radix \<le> 36"
  shows "limb_to_a n radix len = map digit_char (fixed_digits (unat radix) len (unat n))"
proof -
  have "limb_to_a_loop n radix len = map digit_char (fixed_digits (unat radix) len (unat n))"
  proof (induction len arbitrary: n)
    case (Suc len)
    have "unat n mod unat radix < 36" using assms mod_less_divisor [of "unat radix" "unat n"] by linarith
    then have "digit_to_a (n mod radix) = digit_char (unat n mod unat radix)"
      using digit_to_a_char [of "n mod radix"] by (simp add: unat_mod)
    with Suc show ?case by (simp add: unat_div)
  qed simp
  then show ?thesis using u32toa_len_digits [of n len] by (auto simp: limb_to_a_def)
qed

lemma u32toa_loop_digits: "unat n < 10 ^ q \<Longrightarrow> 0 < q \<Longrightarrow> u32toa_loop q n = Some (map digit_char (radix_digits 10 (unat n)))"
proof (induction q arbitrary: n)
  case (Suc q)
  have c: "ucast (n mod 10 + 0x30) = digit_char (unat n mod 10)"
    using dec_char [of "n mod 10"] by (simp add: unat_mod_10)
  have z: "n div 10 = 0 \<longleftrightarrow> unat n < 10" by (simp add: word_unat_eq_iff unat_mod_10 div_eq_0_iff)
  show ?case
  proof (cases "unat n < 10")
    case True
    with z c show ?thesis by (subst radix_digits.simps) simp
  next
    case False
    have "u32toa_loop q (n div 10) = Some (map digit_char (radix_digits 10 (unat (n div 10))))"
    proof (rule Suc.IH)
      show "unat (n div 10) < 10 ^ q" using Suc.prems(1) by (simp add: unat_mod_10)
      show "0 < q" using Suc.prems(1) False by (cases q) auto
    qed
    with False z c show ?thesis by (subst radix_digits.simps) (simp add: unat_mod_10)
  qed
qed simp

lemma u32toa_digits: "u32toa n = Some (map digit_char (radix_digits 10 (unat n)))"
proof -
  have "unat n < 10 ^ 10" by (rule order.strict_trans [OF unat_limb_less]) simp
  then show ?thesis unfolding u32toa_def by (rule u32toa_loop_digits) simp
qed

lemma unat_ucast_u64_u32: "unat (n :: u64) < 2 ^ 32 \<Longrightarrow> unat (ucast n :: u32) = unat n"
  by (simp add: unat_ucast_dlimb)

text \<open>The part of \<open>u64toa\<close> above the last nine digits.\<close>

lemma u64toa_high_digits:
  fixes n1 :: u64
  assumes "unat n1 < 19 * 10 ^ 9" and "0 < unat n1"
  shows "(if 0x100000000 \<le> n1 then
            let n2 = ucast (n1 div 1000000000) :: u32; n1 = n1 mod 1000000000;
                (h, n2) = (if 10 \<le> n2 then ([ucast (n2 div 10 + 0x30)], n2 mod 10) else ([], n2))
            in Some (h @ [ucast (n2 + 0x30)] @ u32toa_len (ucast n1) 9)
          else u32toa (ucast n1)) = Some (map digit_char (radix_digits 10 (unat n1)))"
proof (cases "0x100000000 \<le> n1")
  case False
  then have "unat n1 < 2 ^ 32" by (simp add: word_le_nat_alt)
  with False show ?thesis by (simp add: u32toa_digits unat_ucast_u64_u32)
next
  case True
  define n2 where "n2 = (ucast (n1 div 1000000000) :: u32)"
  define n3 where "n3 = n1 mod 1000000000"
  have q: "unat (n1 div 1000000000) = unat n1 div 1000000000" by (simp add: unat_div)
  have ge: "4294967296 \<le> unat n1" using True by (simp add: word_le_nat_alt)
  have b: "0 < unat n1 div 1000000000" "unat n1 div 1000000000 < 19" using assms(1) ge by (simp_all add: div_greater_zero_iff less_mult_imp_div_less)
  then have n2: "unat n2 = unat n1 div 1000000000" unfolding n2_def using q by (simp add: unat_ucast_u64_u32)
  have n3: "unat n3 = unat n1 mod 1000000000" by (simp add: n3_def unat_mod)
  then have l3: "unat n3 < 10 ^ 9" "unat (ucast n3 :: u32) = unat n3" by (simp_all add: unat_ucast_u64_u32)
  have n1: "unat n1 = unat n2 * 10 ^ 9 + unat n3" by (simp add: n2 n3)
  have s: "radix_digits 10 (unat n1) = radix_digits 10 (unat n2) @ fixed_digits 10 9 (unat n3)"
    unfolding n1 by (rule radix_digits_split) (use b n2 l3 in simp_all)
  show ?thesis
  proof (cases "unat n2 < 10")
    case lt: True
    then have "radix_digits 10 (unat n2) = [unat n2]" by (subst radix_digits.simps) simp
    moreover have "\<not> 10 \<le> n2" using lt by (simp add: word_le_nat_alt)
    ultimately show ?thesis
      using True lt unfolding Let_def n2_def [symmetric] n3_def [symmetric] by (simp add: s u32toa_len_digits l3 dec_char)
  next
    case ge10: False
    then have d: "unat n2 div 10 = 1" "10 \<le> n2" using b n2 by (simp_all add: word_le_nat_alt div_nat_eqI)
    have "radix_digits 10 (unat n2) = radix_digits 10 1 @ [unat n2 mod 10]"
      using ge10 d by (subst radix_digits.simps) simp
    moreover have "radix_digits 10 1 = [1]" by (subst radix_digits.simps) simp
    ultimately have r: "radix_digits 10 (unat n2) = [unat n2 div 10, unat n2 mod 10]" using d by simp
    have "ucast (n2 div 10 + 0x30) = digit_char (unat n2 div 10)" "ucast (n2 mod 10 + 0x30) = digit_char (unat n2 mod 10)"
      using dec_char [of "n2 div 10"] dec_char [of "n2 mod 10"] d by (simp_all add: unat_mod_10)
    with True d show ?thesis
      unfolding Let_def n2_def [symmetric] n3_def [symmetric] by (simp add: s r u32toa_len_digits l3)
  qed
qed

lemma u64toa_digits: "u64toa n = Some (map digit_char (radix_digits 10 (unat n)))"
proof (cases "n < 0x100000000")
  case True
  then have "unat n < 2 ^ 32" by (simp add: word_less_nat_alt)
  with True show ?thesis by (simp add: u64toa_def u32toa_digits unat_ucast_u64_u32)
next
  case False
  define n1 n0 where "n1 = n div 1000000000" and "n0 = n mod 1000000000"
  have ge: "2 ^ 32 \<le> unat n" using False by (simp add: word_less_nat_alt)
  have u: "unat n1 = unat n div 1000000000" "unat n0 = unat n mod 1000000000"
    by (simp_all add: n1_def n0_def unat_div unat_mod)
  have l0: "unat n0 < 10 ^ 9" by (simp add: u)
  then have l: "unat (ucast n0 :: u32) = unat n0" by (intro unat_ucast_u64_u32) simp
  have p1: "0 < unat n1" using ge by (simp add: u div_greater_zero_iff)
  have nn: "unat n = unat n1 * 10 ^ 9 + unat n0" by (simp add: u)
  have split: "radix_digits 10 (unat n) = radix_digits 10 (unat n1) @ fixed_digits 10 9 (unat n0)"
    unfolding nn by (rule radix_digits_split [OF _ p1 l0]) simp
  have "unat n < 19 * 10 ^ 9 * 1000000000" by (rule order.strict_trans [OF unat_u64_less]) simp
  then have u1: "unat n1 < 19 * 10 ^ 9" unfolding u by (rule less_mult_imp_div_less)
  note head = u64toa_high_digits [OF u1 p1]
  show ?thesis
    using False unfolding u64toa_def Let_def n1_def [symmetric] n0_def [symmetric] head [unfolded Let_def]
    by (simp add: u32toa_len_digits l split)
qed

text \<open>Other bases.\<close>

lemma radix_u64:
  fixes radix :: u32
  assumes "2 \<le> unat radix" and "unat radix \<le> 36"
  shows "digit_to_a (ucast (n mod ucast radix :: u64)) = digit_char (unat n mod unat radix)"
    and "unat (n div ucast radix :: u64) = unat n div unat radix"
proof -
  have l: "unat n mod unat radix < 36" using assms mod_less_divisor [of "unat radix" "unat n"] by linarith
  then have "unat (ucast (n mod ucast radix) :: u32) = unat n mod unat radix"
    by (subst unat_ucast_u64_u32) (simp_all add: unat_mod)
  with l show "digit_to_a (ucast (n mod ucast radix :: u64)) = digit_char (unat n mod unat radix)"
    using digit_to_a_char [of "ucast (n mod ucast radix)"] by simp
qed (simp add: unat_div)

lemma u64toa_radix_loop_digits:
  fixes radix :: u32
  assumes "2 \<le> unat radix" and "unat radix \<le> 36"
  shows "unat n < unat radix ^ q \<Longrightarrow> 0 < q \<Longrightarrow>
    u64toa_radix_loop q n radix = Some (map digit_char (radix_digits (unat radix) (unat n)))"
proof (induction q arbitrary: n)
  case (Suc q)
  note r = radix_u64 [OF assms, of n]
  have z: "n div ucast radix = 0 \<longleftrightarrow> unat n < unat radix"
    using assms by (simp add: word_unat_eq_iff [of "n div ucast radix"] r div_eq_0_iff)
  show ?case
  proof (cases "unat n < unat radix")
    case True
    with z r(1) show ?thesis by (subst radix_digits.simps) simp
  next
    case False
    have "u64toa_radix_loop q (n div ucast radix) radix = Some (map digit_char (radix_digits (unat radix) (unat (n div ucast radix))))"
    proof (rule Suc.IH)
      show "unat (n div ucast radix) < unat radix ^ q" 
        using Suc.prems(1) assms(1) by (simp add: r(2) div_less_iff_less_mult mult.commute)
      show "0 < q" using Suc.prems(1) False by (cases q) auto
    qed
    with False z r show ?thesis using assms by (subst radix_digits.simps) simp
  qed
qed simp

lemma u64toa_bin_len_digits:
  assumes "rb \<le> 5"
  shows "u64toa_bin_len n rb len = map digit_char (fixed_digits (2 ^ rb) len (unat n))"
proof (induction len arbitrary: n)
  case (Suc len)
  have "push_bit rb 1 - 1 = (mask rb :: u32)" by (simp add: mask_eq_exp_minus_1 push_bit_eq_mult)
  moreover have "(ucast (mask rb :: u32) :: u64) = mask rb"
    using assms by (intro bit_word_eqI) (auto simp: bit_ucast_iff bit_mask_iff)
  ultimately have m: "(ucast (push_bit rb 1 - 1 :: u32) :: u64) = mask rb" by simp
  have l: "unat n mod 2 ^ rb < 36"
  proof -
    have "unat n mod 2 ^ rb < 2 ^ rb" by simp
    also have "\<dots> \<le> 2 ^ 5" using assms by (intro power_increasing) simp_all
    finally show ?thesis by simp
  qed
  then have "unat (ucast (n AND mask rb) :: u32) = unat n mod 2 ^ rb"
    by (subst unat_ucast_u64_u32) (simp_all add: unat_and_mask)
  then have "digit_to_a (ucast (n AND mask rb)) = digit_char (unat n mod 2 ^ rb)"
    using l digit_to_a_char [of "ucast (n AND mask rb)"] by simp
  with Suc show ?case unfolding u64toa_bin_len.simps Let_def m by (simp add: unat_drop_bit)
qed simp

lemma pow2_test: "2 \<le> unat radix \<Longrightarrow> unat radix \<le> 36 \<Longrightarrow> (radix :: u32) AND (radix - 1) = 0 \<longleftrightarrow> unat radix \<in> {2, 4, 8, 16, 32}"
proof -
  have "\<forall>k \<in> {2..36}. (of_nat k :: u32) AND (of_nat k - 1) = 0 \<longleftrightarrow> k \<in> {2, 4, 8, 16, 32}"
    by code_simp
  moreover assume "2 \<le> unat radix" "unat radix \<le> 36"
  moreover have "of_nat (unat radix) = radix" by simp
  ultimately show ?thesis by (metis atLeastAtMost_iff)
qed

lemma pow2_radix:
  assumes "2 \<le> unat radix" "unat radix \<le> 36" and "(radix :: u32) AND (radix - 1) = 0"
  shows "\<exists>rb. unat radix = 2 ^ rb \<and> 0 < rb \<and> rb \<le> 5"
proof -
  have "unat radix \<in> {2 ^ 1, 2 ^ 2, 2 ^ 3, 2 ^ 4, 2 ^ 5}" using pow2_test [OF assms(1,2)] assms(3) by simp
  then show ?thesis
    by (elim insertE emptyE) (rule exI, erule conjI, simp)+
qed

lemma pow2_clz32:
  assumes "unat radix = 2 ^ rb" "0 < rb" "rb \<le> 5"
  shows "clz32 radix = Some (31 - rb)"
proof -
  have "bit_len (unat radix) = Suc rb" using assms by (intro bit_len_unique) simp_all
  moreover have "radix \<noteq> 0" using assms by auto
  ultimately show ?thesis by (simp add: clz32_def)
qed

lemma u64toa_bin_digits:
  fixes n :: u64
  assumes rb: "0 < rb" "rb \<le> 5"
  defines "l \<equiv> (if n = 0 then 1 else (bit_len (unat n) + rb - 1) div rb)"
  shows "u64toa_bin_len n rb l = map digit_char (radix_digits (2 ^ rb) (unat n))"
proof -
  have "\<exists>k. l = Suc k \<and> unat n < (2 ^ rb) ^ Suc k \<and> (k = 0 \<or> (2 ^ rb) ^ k \<le> unat n)"
  proof (cases "n = 0")
    case True
    then have "l = Suc 0" "unat n < (2 ^ rb) ^ Suc 0" by (simp_all add: l_def)
    then show ?thesis by blast
  next
    case False
    then have pos: "0 < unat n" by (simp add: unat_gt_0)
    let ?b = "bit_len (unat n)"
    have b: "0 < ?b" using pos by simp
    have l: "l = Suc ((?b - 1) div rb)"
    proof -
      have e: "?b + rb - 1 = (?b - 1) + rb" using b by simp
      have "l = (?b + rb - 1) div rb" using False by (simp only: l_def if_False)
      also have "\<dots> = (?b - 1) div rb + 1" unfolding e by (rule div_add_self2) (use rb(1) in simp)
      finally show ?thesis by simp
    qed
    define q where "q = (?b - 1) div rb"
    have d: "rb * q \<le> ?b - 1" "?b - 1 < rb * Suc q"
      unfolding q_def using dividend_less_times_div [OF rb(1), of "?b - 1"] by simp_all
    have "unat n < 2 ^ ?b" by (rule bit_len_upper)
    also have "\<dots> \<le> 2 ^ (rb * Suc q)" using d(2) b by (intro power_increasing) linarith+
    finally have u: "unat n < (2 ^ rb) ^ Suc q" by (simp only: power_mult)
    have "(2::nat) ^ (rb * q) \<le> 2 ^ (?b - 1)" using d(1) by (intro power_increasing) simp_all
    also have "\<dots> \<le> unat n" by (rule bit_len_lower [OF pos])
    finally have "(2 ^ rb) ^ q \<le> unat n" by (simp only: power_mult)
    with l u show ?thesis unfolding q_def [symmetric] by blast
  qed
  then obtain k where k: "l = Suc k" "unat n < (2 ^ rb) ^ Suc k" "k = 0 \<or> (2 ^ rb) ^ k \<le> unat n" by blast
  have "(2::nat) ^ 1 \<le> 2 ^ rb" using rb(1) by (intro power_increasing) simp_all
  then have "fixed_digits (2 ^ rb) (Suc k) (unat n) = radix_digits (2 ^ rb) (unat n)"
    by (intro fixed_digits_radix k) simp
  then show ?thesis by (simp only: u64toa_bin_len_digits [OF rb(2)] k(1))
qed

lemma u64toa_radix_digits:
  assumes r: "2 \<le> unat radix" "unat radix \<le> 36"
  shows "u64toa_radix n radix = Some (map digit_char (radix_digits (unat radix) (unat n)))"
proof -
  consider "radix = 10" | "radix \<noteq> 10" "radix AND (radix - 1) = 0" | "radix \<noteq> 10" "radix AND (radix - 1) \<noteq> 0" by blast
  then show ?thesis
  proof cases
    case 1
    then show ?thesis by (simp add: u64toa_radix_def u64toa_digits)
  next
    case 2
    then obtain rb where rb: "unat radix = 2 ^ rb" "0 < rb" "rb \<le> 5" using pow2_radix [OF r] by blast
    note z = pow2_clz32 [OF rb]
    have "bit_len (unat n) \<le> 64" using unat_u64_less [of n] by (simp add: bit_len_le_iff)
    then show ?thesis using 2 rb z u64toa_bin_digits [OF rb(2,3), of n]
      by (cases "n = 0") (simp_all add: u64toa_radix_def clz64_def)
  next
    case 3
    have "unat radix \<noteq> 2" using 3(2) pow2_test [OF r] by blast
    then have "(3::nat) ^ 41 \<le> unat radix ^ 41" using r(1) by (intro power_mono) simp_all
    then have "unat n < unat radix ^ 41" by (intro order.strict_trans2 [OF unat_u64_less]) simp
    with 3 show ?thesis by (simp add: u64toa_radix_def u64toa_radix_loop_digits [OF r])
  qed
qed

section \<open>Printed integers\<close>

text \<open>What a printed integer is: its sign, then its digits.\<close>

definition int_text :: "nat \<Rightarrow> int \<Rightarrow> u8 list" where
  "int_text b i = (if i < 0 then [0x2d] else []) @ map digit_char (radix_digits b (nat \<bar>i\<bar>))"

lemma int_text_uint: "int_text b (uint w) = map digit_char (radix_digits b (unat w))"
  by (simp add: int_text_def)

lemma unat_uminus_signed:
  fixes n :: "'a::len word"
  assumes "sint n < 0"
  shows "unat (- n) = nat (- sint n)"
proof -
  have "- sint n \<le> 2 ^ (LENGTH('a) - 1)" using sint_ge [of n] by linarith
  also have "\<dots> < (2::int) ^ LENGTH('a)" by (intro power_strict_increasing) simp_all
  finally have l: "- sint n < 2 ^ LENGTH('a)" .
  have "- n = word_of_int (- sint n)" by simp
  then have "uint (- n) = (- sint n) mod 2 ^ LENGTH('a)" by (metis uint_word_of_int)
  with l assms have "uint (- n) = - sint n" by simp
  then show ?thesis by (simp flip: nat_uint_eq)
qed

lemma unat_nonneg_signed:
  fixes n :: "'a::len word"
  assumes "0 \<le> sint n"
  shows "uint n = sint n"
proof -
  have "n = word_of_int (sint n)" by simp
  then have "uint n = sint n mod 2 ^ LENGTH('a)" by (metis uint_word_of_int)
  moreover have "sint n < 2 ^ LENGTH('a)"
    using sint_lt [of n] by (rule order.strict_trans2) (simp add: power_increasing)
  ultimately show ?thesis using assms by simp
qed

text \<open>
  C22: the integer printing functions write the sign and the digits of their argument
  in the base, highest digit first, without leading zeros, for every argument, and never
  write outside of their local arrays.
\<close>

theorem integer_printing:
  assumes r: "2 \<le> unat radix" "unat radix \<le> 36"
  shows "u32toa n = Some (int_text 10 (uint n)) \<and> i32toa n = Some (int_text 10 (sint n))
    \<and> u64toa m = Some (int_text 10 (uint m)) \<and> i64toa m = Some (int_text 10 (sint m))
    \<and> u64toa_radix m radix = Some (int_text (unat radix) (uint m))
    \<and> i64toa_radix m radix = Some (int_text (unat radix) (sint m))"
proof (intro conjI)
  show "u32toa n = Some (int_text 10 (uint n))" by (simp add: u32toa_digits int_text_uint)
  show "u64toa m = Some (int_text 10 (uint m))" by (simp add: u64toa_digits int_text_uint)
  show "u64toa_radix m radix = Some (int_text (unat radix) (uint m))"
    by (simp add: u64toa_radix_digits [OF r] int_text_uint)
  have pos: "map digit_char (radix_digits b (unat w)) = int_text b (sint w)" if "0 \<le> sint w"
    for w :: "'a::len word" and b using unat_nonneg_signed [OF that] by (metis int_text_uint)
  have neg: "0x2d # map digit_char (radix_digits b (unat (- w))) = int_text b (sint w)" if "\<not> 0 \<le> sint w"
    for w :: "'a::len word" and b using that by (simp add: int_text_def unat_uminus_signed)
  show "i32toa n = Some (int_text 10 (sint n))" by (simp add: i32toa_def u32toa_digits pos neg)
  show "i64toa m = Some (int_text 10 (sint m))" by (simp add: i64toa_def u64toa_digits pos neg)
  show "i64toa_radix m radix = Some (int_text (unat radix) (sint m))"
    by (simp add: i64toa_radix_def u64toa_radix_digits [OF r] pos neg)
qed

lemma integer_printing_witness:
  "i64toa_radix (- 255) 16 = Some [0x2d, 0x66, 0x66] \<and> u64toa 18446744073709551615 = Some (int_text 10 18446744073709551615)"
proof -
  have "2 \<le> unat (16 :: u32)" "unat (16 :: u32) \<le> 36" by simp_all
  from integer_printing [OF this, of 0 "- 255"] integer_printing [OF this, of 0 18446744073709551615]
  have "i64toa_radix (- 255) 16 = Some (int_text 16 (- 255))"
    "u64toa 18446744073709551615 = Some (int_text 10 18446744073709551615)" by simp_all
  moreover have "int_text 16 (- 255) = [0x2d, 0x66, 0x66]" by code_simp
  ultimately show ?thesis by simp
qed

end
