(* ===== verification/Log2_Radix.thy ===== *)
theory Log2_Radix
  imports Complex_Main Itoa "HOL-Library.Signed_Division"
begin

text \<open>
  \<open>mul_log2_radix\<close> of \<open>src/dtoa.c\<close>: the floor of \<open>a / log2(radix)\<close> by one multiplication with
  a rounded reciprocal.  It is proved exact on the range the comment of the code gives: for
  every radix the true reciprocal and the table entry lie between two neighbouring fractions
  whose denominators add up to more than 2048, and no fraction with a smaller denominator is
  between them.
\<close>

definition mul_log2_radix_table :: "u32 list" where
  "mul_log2_radix_table = [
     0x000000, 0xa1849d, 0x000000, 0x6e40d2, 0x6308c9, 0x5b3065, 0x000000, 0x50c24e,
     0x4d104d, 0x4a0027, 0x4768ce, 0x452e54, 0x433d00, 0x418677, 0x000000, 0x3ea16b,
     0x3d645a, 0x3c43c2, 0x3b3b9a, 0x3a4899, 0x39680b, 0x3897b3, 0x37d5af, 0x372069,
     0x367686, 0x35d6df, 0x354072, 0x34b261, 0x342bea, 0x33ac62, 0x000000, 0x32bfd9,
     0x3251dd, 0x31e8d6, 0x318465]"

definition mul_log2_radix :: "int \<Rightarrow> u32 \<Rightarrow> int ub" where
  "mul_log2_radix a radix =
     (if radix AND (radix - 1) = 0 then
        do {
          z \<leftarrow> clz32 radix;
          let radix_bits = 31 - int z;
          let a = (if a < 0 then a - (radix_bits - 1) else a);
          Some (a sdiv radix_bits)
        }
      else
        let mult = uint (mul_log2_radix_table ! (unat radix - 2))
        in Some (drop_bit 24 (a * mult)))"

section \<open>Neighbouring fractions\<close>

lemma farey_gap:
  fixes a m p1 q1 p2 q2 :: int
  assumes n: "p2 * q1 - p1 * q2 = 1" and q: "0 < q1" "0 < q2" and a: "0 < a" "a < q1 + q2"
    and b: "p1 * a < m * q1" "m * q2 < p2 * a"
  shows False
proof -
  have "q2 * 1 \<le> q2 * (m * q1 - p1 * a)" "q1 * 1 \<le> q1 * (p2 * a - m * q2)"
    using b q by (intro mult_left_mono; simp)+
  moreover have "q2 * (m * q1 - p1 * a) + q1 * (p2 * a - m * q2) = a * (p2 * q1 - p1 * q2)"
    by (simp add: algebra_simps)
  ultimately show False using a n by simp
qed

text \<open>\<open>x\<close> lies strictly between \<open>p1 / q1\<close> and \<open>p2 / q2\<close>.\<close>

definition between :: "int \<Rightarrow> int \<Rightarrow> int \<Rightarrow> int \<Rightarrow> real \<Rightarrow> bool" where
  "between p1 q1 p2 q2 x \<longleftrightarrow> of_int p1 < x * of_int q1 \<and> x * of_int q2 < of_int p2"

lemma no_integer_between:
  assumes n: "p2 * q1 - p1 * q2 = 1" and q: "0 < q1" "0 < q2" and a: "0 < a" "a < q1 + q2"
    and x: "between p1 q1 p2 q2 x" and y: "between p1 q1 p2 q2 y"
  shows "\<not> (of_int a * x \<le> of_int m \<and> of_int m \<le> of_int a * y)"
proof
  assume m: "of_int a * x \<le> of_int m \<and> of_int m \<le> of_int a * y"
  have "of_int (p1 * a) < of_int a * x * of_int q1"
    using x a by (simp add: between_def mult.commute mult.left_commute)
  also have "\<dots> \<le> of_int (m * q1)" using m q by simp
  finally have 1: "p1 * a < m * q1" by (simp only: of_int_less_iff)
  have "of_int (m * q2) \<le> of_int a * y * of_int q2" using m q by simp
  also have "\<dots> < of_int (p2 * a)"
    using y a by (simp add: between_def mult.commute mult.left_commute)
  finally have "m * q2 < p2 * a" by (simp only: of_int_less_iff)
  with farey_gap [OF n q a 1] show False by blast
qed

lemma floor_between:
  assumes n: "p2 * q1 - p1 * q2 = 1" and q: "0 < q1" "0 < q2" and a: "\<bar>a\<bar> < q1 + q2"
    and x: "between p1 q1 p2 q2 x" and y: "between p1 q1 p2 q2 y"
  shows "\<lfloor>of_int a * x\<rfloor> = \<lfloor>of_int a * y\<rfloor>"
proof -
  have le: "\<lfloor>of_int a * y\<rfloor> \<le> \<lfloor>of_int a * x\<rfloor>"
    if x: "between p1 q1 p2 q2 x" and y: "between p1 q1 p2 q2 y" for x y
  proof (rule ccontr)
    assume "\<not> ?thesis"
    then have lt: "of_int a * x < of_int \<lfloor>of_int a * y\<rfloor>" by (simp add: floor_less_iff not_le)
    have m: "of_int \<lfloor>of_int a * y\<rfloor> \<le> of_int a * y" by (rule of_int_floor_le)
    consider "0 < a" | "a = 0" | "a < 0" by linarith
    then show False
    proof cases
      case 1
      with no_integer_between [OF n q _ _ x y, of a "\<lfloor>of_int a * y\<rfloor>"] a lt m show False by auto
    next
      case 2
      with lt show False by simp
    next
      case 3
      with no_integer_between [OF n q _ _ y x, of "- a" "- \<lfloor>of_int a * y\<rfloor>"] a lt m show False by auto
    qed
  qed
  show ?thesis using le [OF x y] le [OF y x] by simp
qed

section \<open>Powers by bounds\<close>

text \<open>
  Bounds on a power by repeated squaring with truncated mantissas: \<open>(n, m, e)\<close> stands for
  \<open>r ^ n \<le> m * 2 ^ e\<close> or for \<open>m * 2 ^ e \<le> r ^ n\<close>.  A step gives the next bit of the exponent and
  the number of bits to drop.
\<close>

fun up_steps :: "nat \<Rightarrow> nat \<times> nat \<times> nat \<Rightarrow> (nat \<times> nat) list \<Rightarrow> nat \<times> nat \<times> nat" where
  "up_steps r s [] = s"
| "up_steps r (n, m, e) ((b, k) # ks) =
     up_steps r (2 * n + b, (m * m * (if b = 0 then 1 else r) + 2 ^ k - 1) div 2 ^ k, 2 * e + k) ks"

fun lo_steps :: "nat \<Rightarrow> nat \<times> nat \<times> nat \<Rightarrow> (nat \<times> nat) list \<Rightarrow> nat \<times> nat \<times> nat" where
  "lo_steps r s [] = s"
| "lo_steps r (n, m, e) ((b, k) # ks) =
     lo_steps r (2 * n + b, (m * m * (if b = 0 then 1 else r)) div 2 ^ k, 2 * e + k) ks"

lemma power_square_step: "b \<le> 1 \<Longrightarrow> (r :: nat) ^ (2 * n + b) = r ^ n * r ^ n * (if b = 0 then 1 else r)"
  by (auto simp: power_add mult_2 le_Suc_eq)

lemma square_shift: "(m * 2 ^ e) * (m * 2 ^ e) * c = m * m * c * (2::nat) ^ (2 * e)"
  by (subst mult_2) (simp only: power_add ac_simps)

lemma up_steps_bound:
  "up_steps r (n, m, e) ks = (n', m', e') \<Longrightarrow> \<forall>x \<in> set ks. fst x \<le> 1 \<Longrightarrow> r ^ n \<le> m * 2 ^ e \<Longrightarrow> r ^ n' \<le> m' * 2 ^ e'"
proof (induction ks arbitrary: n m e)
  case (Cons bk ks)
  obtain b k where bk: "bk = (b, k)" by fastforce
  define x where "x = m * m * (if b = 0 then 1 else r)"
  have "r ^ (2 * n + b) = r ^ n * r ^ n * (if b = 0 then 1 else r)"
    using Cons.prems(2) bk by (intro power_square_step) simp
  also have "\<dots> \<le> (m * 2 ^ e) * (m * 2 ^ e) * (if b = 0 then 1 else r)"
    using Cons.prems(3) by (intro mult_le_mono le_refl)
  also have "\<dots> = x * 2 ^ (2 * e)" unfolding x_def by (rule square_shift)
  also have "\<dots> \<le> (x + 2 ^ k - 1) div 2 ^ k * 2 ^ k * 2 ^ (2 * e)"
  proof (rule mult_le_mono1)
    have "x + 2 ^ k - 1 < 2 ^ k + (x + 2 ^ k - 1) div 2 ^ k * 2 ^ k" by (rule dividend_less_div_times) simp
    then show "x \<le> (x + 2 ^ k - 1) div 2 ^ k * 2 ^ k" by linarith
  qed
  finally have "r ^ (2 * n + b) \<le> (x + 2 ^ k - 1) div 2 ^ k * 2 ^ (2 * e + k)" by (simp only: power_add mult.assoc mult.commute [of "2 ^ k"])
  with Cons show ?case by (simp add: bk x_def)
qed simp

lemma lo_steps_bound:
  "lo_steps r (n, m, e) ks = (n', m', e') \<Longrightarrow> \<forall>x \<in> set ks. fst x \<le> 1 \<Longrightarrow> m * 2 ^ e \<le> r ^ n \<Longrightarrow> m' * 2 ^ e' \<le> r ^ n'"
proof (induction ks arbitrary: n m e)
  case (Cons bk ks)
  obtain b k where bk: "bk = (b, k)" by fastforce
  define x where "x = m * m * (if b = 0 then 1 else r)"
  have "x div 2 ^ k * 2 ^ (2 * e + k) = x div 2 ^ k * 2 ^ k * 2 ^ (2 * e)" by (simp add: power_add mult.assoc mult.commute)
  also have "\<dots> \<le> x * 2 ^ (2 * e)" by (intro mult_le_mono1) simp
  also have "\<dots> = (m * 2 ^ e) * (m * 2 ^ e) * (if b = 0 then 1 else r)" unfolding x_def by (rule square_shift [symmetric])
  also have "\<dots> \<le> r ^ n * r ^ n * (if b = 0 then 1 else r)"
    using Cons.prems(3) by (intro mult_le_mono le_refl)
  also have "\<dots> = r ^ (2 * n + b)" using Cons.prems(2) bk by (intro power_square_step [symmetric]) simp
  finally have "x div 2 ^ k * 2 ^ (2 * e + k) \<le> r ^ (2 * n + b)" .
  with Cons show ?case by (simp add: bk x_def)
qed simp

section \<open>The certificate\<close>

text \<open>For each radix the two fractions, each with the steps that bound the power.\<close>

definition log_cert :: "(nat \<times> nat \<times> nat \<times> (nat \<times> nat) list \<times> nat \<times> nat \<times> (nat \<times> nat) list) list" where
  "log_cert =
    [(3, 971, 1539, [(1, 0), (1, 0), (1, 0), (0, 8), (0, 40), (1, 40), (0, 40), (1, 41), (1, 41)], 665, 1054, [(0, 0), (1, 0), (0, 0), (0, 0), (1, 25), (1, 42), (0, 40), (0, 39), (1, 41)]),
     (5, 643, 1493, [(0, 0), (1, 0), (0, 0), (0, 7), (0, 39), (0, 40), (0, 40), (1, 42), (1, 41)], 789, 1832, [(1, 0), (0, 0), (0, 0), (0, 16), (1, 42), (0, 40), (1, 42), (0, 39), (1, 43)]),
     (6, 306, 791, [(0, 0), (0, 0), (1, 0), (1, 10), (0, 39), (0, 39), (1, 42), (0, 39)], 665, 1719, [(0, 0), (1, 0), (0, 0), (0, 12), (1, 42), (1, 43), (0, 40), (0, 39), (1, 42)]),
     (7, 571, 1603, [(0, 0), (0, 0), (0, 0), (1, 8), (1, 43), (1, 42), (0, 39), (1, 43), (1, 41)], 680, 1909, [(0, 0), (1, 0), (0, 0), (1, 19), (0, 40), (1, 43), (0, 40), (0, 39), (0, 40)]),
     (9, 153, 485, [(0, 0), (0, 0), (1, 0), (1, 21), (0, 39), (0, 39), (1, 43)], 512, 1623, [(0, 0), (0, 0), (0, 0), (0, 11), (0, 40), (0, 39), (0, 40), (0, 40), (0, 40)]),
     (10, 497, 1651, [(1, 0), (1, 0), (1, 10), (1, 43), (0, 40), (0, 40), (0, 40), (1, 43)], 146, 485, [(0, 0), (0, 0), (1, 0), (0, 20), (0, 40), (1, 43), (0, 40)]),
     (11, 37, 128, [(0, 0), (0, 0), (1, 0), (0, 23), (1, 42)], 579, 2003, [(0, 0), (0, 0), (1, 0), (0, 23), (0, 39), (0, 40), (0, 39), (1, 42), (1, 44)]),
     (12, 306, 1097, [(0, 0), (0, 0), (1, 0), (1, 29), (0, 39), (0, 39), (1, 43), (0, 39)], 359, 1287, [(0, 0), (1, 0), (1, 0), (0, 39), (0, 40), (1, 44), (1, 42), (1, 44)]),
     (13, 227, 840, [(1, 0), (1, 0), (0, 12), (0, 40), (0, 40), (1, 43), (1, 42)], 464, 1717, [(1, 0), (1, 0), (0, 12), (1, 44), (0, 39), (0, 40), (0, 39), (0, 40)]),
     (14, 462, 1759, [(1, 0), (1, 0), (0, 14), (0, 39), (1, 44), (1, 42), (1, 44), (0, 39)], 109, 415, [(1, 0), (0, 0), (1, 10), (1, 43), (0, 40), (1, 44)]),
     (15, 290, 1133, [(0, 0), (0, 0), (1, 0), (0, 31), (0, 39), (0, 40), (1, 43), (0, 39)], 247, 965, [(1, 0), (1, 0), (1, 19), (0, 40), (1, 43), (1, 43), (1, 44)]),
     (17, 343, 1402, [(0, 0), (1, 0), (0, 1), (1, 44), (0, 40), (1, 44), (1, 43), (1, 44)], 263, 1075, [(0, 0), (0, 0), (0, 0), (0, 26), (0, 39), (1, 44), (1, 44), (1, 44)]),
     (18, 153, 638, [(0, 0), (0, 0), (1, 0), (1, 40), (0, 39), (0, 39), (1, 44)], 359, 1497, [(0, 0), (1, 0), (1, 6), (0, 40), (0, 40), (1, 44), (1, 43), (1, 44)]),
     (19, 121, 514, [(1, 0), (1, 0), (1, 24), (0, 40), (0, 39), (1, 44)], 480, 2039, [(1, 0), (1, 0), (1, 24), (0, 40), (0, 39), (0, 40), (0, 40), (0, 40)]),
     (20, 351, 1517, [(0, 0), (1, 0), (0, 4), (1, 43), (1, 44), (1, 45), (1, 43), (1, 43)], 146, 631, [(0, 0), (0, 0), (1, 0), (0, 38), (0, 40), (1, 44), (0, 40)]),
     (21, 339, 1489, [(0, 0), (1, 0), (0, 4), (1, 45), (0, 39), (0, 39), (1, 45), (1, 43)], 130, 571, [(0, 0), (0, 0), (0, 0), (0, 31), (0, 39), (1, 44), (0, 40)]),
     (22, 37, 165, [(0, 0), (0, 0), (1, 1), (0, 39), (1, 43)], 431, 1922, [(1, 0), (0, 0), (1, 18), (0, 40), (1, 45), (1, 44), (1, 43), (1, 45)]),
     (23, 403, 1823, [(1, 0), (0, 0), (0, 15), (1, 44), (0, 39), (0, 39), (1, 44), (1, 43)], 191, 864, [(0, 0), (1, 0), (1, 10), (1, 45), (1, 43), (1, 44), (1, 45)]),
     (24, 306, 1403, [(0, 0), (0, 0), (1, 2), (1, 44), (0, 39), (0, 39), (1, 44), (0, 39)], 359, 1646, [(0, 0), (1, 0), (1, 11), (0, 39), (0, 40), (1, 45), (1, 43), (1, 45)]),
     (25, 424, 1969, [(1, 0), (0, 0), (1, 21), (0, 39), (1, 45), (0, 39), (0, 39), (0, 39)], 73, 339, [(0, 0), (0, 0), (1, 2), (0, 40), (0, 40), (1, 44)]),
     (26, 227, 1067, [(1, 0), (1, 0), (0, 26), (0, 40), (0, 40), (1, 44), (1, 43)], 237, 1114, [(1, 0), (1, 0), (0, 26), (1, 45), (1, 44), (0, 39), (1, 45)]),
     (27, 102, 485, [(1, 0), (0, 0), (0, 18), (1, 43), (1, 45), (0, 39)], 359, 1707, [(0, 0), (1, 0), (1, 13), (0, 39), (0, 40), (1, 44), (1, 44), (1, 44)]),
     (28, 353, 1697, [(0, 0), (1, 0), (1, 13), (0, 40), (0, 40), (0, 40), (0, 39), (1, 43)], 109, 524, [(1, 0), (0, 0), (1, 23), (1, 44), (0, 40), (1, 45)]),
     (29, 169, 821, [(0, 0), (1, 0), (0, 9), (1, 45), (0, 39), (0, 39), (1, 43)], 345, 1676, [(0, 0), (1, 0), (0, 9), (1, 45), (1, 43), (0, 40), (0, 40), (1, 45)]),
     (30, 290, 1423, [(0, 0), (0, 0), (1, 5), (0, 39), (0, 39), (0, 40), (1, 44), (0, 39)], 247, 1212, [(1, 0), (1, 0), (1, 34), (0, 40), (1, 44), (1, 44), (1, 45)]),
     (31, 131, 649, [(0, 0), (0, 0), (0, 0), (0, 40), (0, 39), (1, 45), (1, 43)], 371, 1838, [(0, 0), (1, 0), (1, 15), (1, 44), (0, 40), (0, 40), (1, 45), (1, 45)]),
     (33, 45, 227, [(0, 0), (1, 0), (1, 16), (0, 39), (1, 45)], 383, 1932, [(0, 0), (1, 0), (1, 16), (1, 45), (1, 44), (1, 44), (1, 44), (1, 45)]),
     (34, 343, 1745, [(0, 0), (1, 0), (0, 11), (1, 45), (0, 40), (1, 45), (1, 44), (1, 45)], 263, 1338, [(0, 0), (0, 0), (0, 1), (0, 40), (0, 39), (1, 45), (1, 45), (1, 45)]),
     (35, 379, 1944, [(0, 0), (1, 0), (1, 17), (1, 44), (1, 46), (0, 39), (1, 44), (1, 44)], 263, 1349, [(0, 0), (0, 0), (0, 2), (0, 39), (0, 39), (1, 44), (1, 44), (1, 46)]),
     (36, 153, 791, [(0, 0), (0, 0), (1, 7), (1, 45), (0, 39), (0, 39), (1, 45)], 359, 1856, [(0, 0), (1, 0), (1, 17), (0, 40), (0, 40), (1, 45), (1, 44), (1, 45)])]"

definition cert_ok :: "nat \<times> nat \<times> nat \<times> (nat \<times> nat) list \<times> nat \<times> nat \<times> (nat \<times> nat) list \<Rightarrow> bool" where
  "cert_ok c =
     (case c of (r, p1, q1, ups, p2, q2, los) \<Rightarrow>
        p2 * q1 = p1 * q2 + 1 \<and> 2048 < q1 + q2 \<and> 0 < q1 \<and> 0 < q2 \<and>
        p1 * 2 ^ 24 < unat (mul_log2_radix_table ! (r - 2)) * q1 \<and> unat (mul_log2_radix_table ! (r - 2)) * q2 < p2 * 2 ^ 24 \<and>
        (\<forall>x \<in> set ups. fst x \<le> 1) \<and> (\<forall>x \<in> set los. fst x \<le> 1) \<and>
        (case up_steps r (1, r, 0) ups of (n, m, e) \<Rightarrow> n = p1 \<and> e \<le> q1 \<and> m < 2 ^ (q1 - e)) \<and>
        (case lo_steps r (1, r, 0) los of (n, m, e) \<Rightarrow> n = p2 \<and> e \<le> q2 \<and> 2 ^ (q2 - e) < m))"

lemma log_cert_ok: "list_all cert_ok log_cert"
  unfolding log_cert_def list.pred_inject
  by (intro conjI TrueI; simp add: cert_ok_def mul_log2_radix_table_def)

lemma log2_bounds:
  fixes r p q :: nat
  assumes "2 \<le> r"
  shows "r ^ p < 2 ^ q \<Longrightarrow> real p < 1 / log 2 (real r) * real q"
    and "2 ^ q < r ^ p \<Longrightarrow> 1 / log 2 (real r) * real q < real p"
proof -
  have l: "0 < log 2 (real r)" using assms by simp
  have e: "real p * log 2 (real r) = log 2 (real (r ^ p))" using assms by (simp add: log_nat_power)
  have q: "log 2 (real (2 ^ q)) = real q" by simp
  {
    assume "r ^ p < 2 ^ q"
    then have "real (r ^ p) < real (2 ^ q)" by (simp only: of_nat_less_iff)
    then have "log 2 (real (r ^ p)) < log 2 (real (2 ^ q))" using assms by (subst log_less_cancel_iff) simp_all
    then have "real p * log 2 (real r) < real q" by (simp only: e q)
    then show "real p < 1 / log 2 (real r) * real q" using l by (simp add: field_simps)
  }
  {
    assume "2 ^ q < r ^ p"
    then have "real (2 ^ q) < real (r ^ p)" by (simp only: of_nat_less_iff)
    then have "log 2 (real (2 ^ q)) < log 2 (real (r ^ p))" using assms by (subst log_less_cancel_iff) simp_all
    then have "real q < real p * log 2 (real r)" by (simp only: e q)
    then show "1 / log 2 (real r) * real q < real p" using l by (simp add: field_simps)
  }
qed

lemma cert_ok_floor:
  assumes ok: "cert_ok (r, p1, q1, ups, p2, q2, los)" and r: "2 \<le> r" and a: "\<bar>a\<bar> \<le> 2048"
  shows "drop_bit 24 (a * uint (mul_log2_radix_table ! (r - 2))) = \<lfloor>of_int a / log 2 (real r)\<rfloor>"
proof -
  define t where "t = unat (mul_log2_radix_table ! (r - 2))"
  obtain n m e where up: "up_steps r (1, r, 0) ups = (n, m, e)" by (metis prod_cases3)
  obtain n' m' e' where lo: "lo_steps r (1, r, 0) los = (n', m', e')" by (metis prod_cases3)
  from ok have c: "p2 * q1 = p1 * q2 + 1" "2048 < q1 + q2" "0 < q1" "0 < q2" "p1 * 2 ^ 24 < t * q1" "t * q2 < p2 * 2 ^ 24"
      "\<forall>x \<in> set ups. fst x \<le> 1" "\<forall>x \<in> set los. fst x \<le> 1"
      "n = p1" "e \<le> q1" "m < 2 ^ (q1 - e)" "n' = p2" "e' \<le> q2" "2 ^ (q2 - e') < m'"
    unfolding cert_ok_def t_def prod.case up lo by - (elim conjE, assumption)+
  have "r ^ p1 \<le> m * 2 ^ e" using up_steps_bound [OF up c(7)] c(9) by simp
  also have "\<dots> < 2 ^ (q1 - e) * 2 ^ e" using c(11) by simp
  finally have 1: "r ^ p1 < 2 ^ q1" using c(10) by (simp flip: power_add)
  have "2 ^ q2 = 2 ^ (q2 - e') * (2 :: nat) ^ e'" using c(13) by (simp flip: power_add)
  also have "\<dots> < m' * 2 ^ e'" using c(14) by simp
  also have "\<dots> \<le> r ^ p2" using lo_steps_bound [OF lo c(8)] c(12) by simp
  finally have 2: "2 ^ q2 < r ^ p2" .
  have x: "between (int p1) (int q1) (int p2) (int q2) (1 / log 2 (real r))"
    using log2_bounds(1) [OF r 1] log2_bounds(2) [OF r 2] by (simp add: between_def)
  have y: "between (int p1) (int q1) (int p2) (int q2) (real t / 2 ^ 24)"
  proof -
    have "real (p1 * 2 ^ 24) < real (t * q1)" "real (t * q2) < real (p2 * 2 ^ 24)"
      using c(5,6) by (simp_all only: of_nat_less_iff)
    then show ?thesis by (simp add: between_def field_simps)
  qed
  have "\<lfloor>of_int a * (1 / log 2 (real r))\<rfloor> = \<lfloor>of_int a * (real t / 2 ^ 24)\<rfloor>"
  proof (rule floor_between [OF _ _ _ _ x y])
    show "int p2 * int q1 - int p1 * int q2 = 1" using c(1) by (simp flip: of_nat_mult)
  qed (use c a in auto)
  also have "of_int a * (real t / 2 ^ 24) = of_int (a * int t) / of_int (2 ^ 24)" by simp
  also have "\<lfloor>\<dots>\<rfloor> = a * int t div 2 ^ 24" by (rule floor_divide_of_int_eq)
  finally show ?thesis by (simp add: t_def drop_bit_eq_div)
qed

lemma log_cert_radix: "2 \<le> r \<Longrightarrow> r \<le> 36 \<Longrightarrow> r \<notin> {2, 4, 8, 16, 32} \<Longrightarrow> \<exists>c. (r, c) \<in> set log_cert"
proof -
  assume "2 \<le> r" "r \<le> 36" "r \<notin> {2, 4, 8, 16, 32}"
  then have "r \<in> {3, 5, 6, 7, 9, 10, 11, 12, 13, 14, 15, 17, 18, 19, 20, 21, 22, 23, 24, 25, 26, 27, 28, 29, 30, 31, 33, 34, 35, 36}"
    by simp presburger
  also have "\<dots> = fst ` set log_cert" by (simp add: log_cert_def)
  finally show ?thesis by force
qed

lemma floor_div_pow2:
  fixes a :: int
  assumes "0 < rb"
  shows "(if a < 0 then a - (int rb - 1) else a) sdiv int rb = \<lfloor>of_int a / log 2 (real (2 ^ rb))\<rfloor>"
proof -
  have "log 2 (real (2 ^ rb)) = of_int (int rb)" by simp
  then have e: "\<lfloor>of_int a / log 2 (real (2 ^ rb))\<rfloor> = a div int rb" by (simp only: floor_divide_of_int_eq)
  show ?thesis
  proof (cases "a < 0")
    case True
    have "a div int rb = - ((- a + (int rb - 1)) div int rb)"
    proof -
      let ?q = "a div int rb" and ?m = "a mod int rb"
      have m: "0 \<le> ?m" "?m < int rb" using assms by simp_all
      have "- a + (int rb - 1) = (int rb - 1 - ?m) + int rb * (- ?q)"
        using mult_div_mod_eq [of "int rb" a] by linarith
      then have "(- a + (int rb - 1)) div int rb = - ?q + (int rb - 1 - ?m) div int rb"
        using assms by (simp only: div_mult_self2 of_nat_eq_0_iff simp_thms less_numeral_extra)
      moreover have "(int rb - 1 - ?m) div int rb = 0" using m by (intro div_pos_pos_trivial) linarith+
      ultimately show ?thesis by simp
    qed
    with True assms e show ?thesis by (simp add: signed_divide_int_def sgn_if)
  qed (use assms e in \<open>simp add: signed_divide_int_def sgn_if\<close>)
qed

lemma mul_log2_radix_exact:
  assumes r: "2 \<le> unat radix" "unat radix \<le> 36" and a: "- 2048 \<le> a" "a \<le> 2047"
  shows "mul_log2_radix a radix = Some \<lfloor>of_int a / log 2 (real (unat radix))\<rfloor>"
proof (cases "radix AND (radix - 1) = 0")
  case True
  then obtain rb where rb: "unat radix = 2 ^ rb" "0 < rb" "rb \<le> 5" using pow2_radix [OF r] by blast
  then show ?thesis using True pow2_clz32 [OF rb] floor_div_pow2 [OF rb(2), of a]
    by (simp add: mul_log2_radix_def of_nat_diff)
next
  case False
  then have "unat radix \<notin> {2, 4, 8, 16, 32}" using pow2_test [OF r] by blast
  then obtain c where c: "(unat radix, c) \<in> set log_cert" using log_cert_radix [OF r] by blast
  then have "cert_ok (unat radix, c)" using log_cert_ok by (simp add: list_all_iff)
  then show ?thesis using cert_ok_floor [OF _ r(1), of _ _ _ _ _ _ a] False a
    by (cases c) (simp add: mul_log2_radix_def)
qed

text \<open>
  C23: \<open>mul_log2_radix a radix\<close> is the floor of \<open>a / log2(radix)\<close>, exactly, for every radix from
  2 to 36 and every \<open>a\<close> in the range that the code documents.
\<close>

theorem mul_log2_radix_floor:
  assumes r: "2 \<le> unat radix" "unat radix \<le> 36" and a: "- 2048 \<le> a" "a \<le> 2047"
  shows "mul_log2_radix a radix = Some \<lfloor>of_int a / log 2 (real (unat radix))\<rfloor>"
  by (rule mul_log2_radix_exact [OF assms])

lemma mul_log2_radix_floor_witness: "mul_log2_radix (- 1074) 10 = Some \<lfloor>of_int (- 1074) / log 2 (real (unat (10 :: u32)))\<rfloor>"
  by (rule mul_log2_radix_floor) simp_all

end
