(* ===== verification/Dtoa_Pow.thy ===== *)
theory Dtoa_Pow
  imports Log2_Radix
begin

text \<open>
  The tables of \<open>src/dtoa.c\<close> for powers and digit counts, \<open>pow_ui\<close> and \<open>pow_ui_inv\<close>.  The
  tables of powers of five and of their reciprocals hold what the general code computes,
  and the tables per radix hold what the (disabled) generator \<open>build_tables\<close> describes.
\<close>

section \<open>Tables\<close>

definition pow5_table :: "u32 list" where
  "pow5_table = [
     0x00000005, 0x00000019, 0x0000007d, 0x00000271, 0x00000c35, 0x00003d09, 0x0001312d, 0x0005f5e1,
     0x001dcd65, 0x009502f9, 0x02e90edd, 0x0e8d4a51, 0x48c27395, 0x6bcc41e9, 0x1afd498d, 0x86f26fc1,
     0xa2bc2ec5]"

definition pow5h_table :: "u32 list" where
  "pow5h_table = [
     0x00000001, 0x00000007, 0x00000023, 0x000000b1]"

definition pow5_inv_table :: "u32 list" where
  "pow5_inv_table = [
     0x99999999, 0x47ae147a, 0x0624dd2f, 0xa36e2eb1, 0x4f8b588e, 0x0c6f7a0b, 0xad7f29ab, 0x5798ee23,
     0x12e0be82, 0xb7cdfd9d, 0x5fd7fe17, 0x19799812, 0xc25c2684]"

definition digits_per_limb_table :: "nat list" where
  "digits_per_limb_table = [
     32, 20, 16, 13, 12, 11, 10, 10,
     9, 9, 8, 8, 8, 8, 8, 7,
     7, 7, 7, 7, 7, 7, 6, 6,
     6, 6, 6, 6, 6, 6, 6, 6,
     6, 6, 6]"

definition radix_base_table :: "u32 list" where
  "radix_base_table = [
     0x00000000, 0xcfd41b91, 0x00000000, 0x48c27395, 0x81bf1000, 0x75db9c97, 0x40000000, 0xcfd41b91,
     0x3b9aca00, 0x8c8b6d2b, 0x19a10000, 0x309f1021, 0x57f6c100, 0x98c29b81, 0x00000000, 0x18754571,
     0x247dbc80, 0x3547667b, 0x4c4b4000, 0x6b5a6e1d, 0x94ace180, 0xcaf18367, 0x0b640000, 0x0e8d4a51,
     0x1269ae40, 0x17179149, 0x1cb91000, 0x23744899, 0x2b73a840, 0x34e63b41, 0x40000000, 0x4cfa3cc1,
     0x5c13d840, 0x6d91b519, 0x81bf1000]"

definition dtoa_max_digits_table :: "int list" where
  "dtoa_max_digits_table = [
     54, 35, 28, 24, 22, 20, 19, 18,
     17, 17, 16, 16, 15, 15, 15, 14,
     14, 14, 14, 14, 13, 13, 13, 13,
     13, 13, 13, 12, 12, 12, 12, 12,
     12, 12, 12]"

definition atod_max_digits_table :: "int list" where
  "atod_max_digits_table = [
     64, 80, 32, 55, 49, 45, 21, 40,
     38, 37, 35, 34, 33, 32, 16, 31,
     30, 30, 29, 29, 28, 28, 27, 27,
     27, 26, 26, 26, 26, 25, 12, 25,
     25, 24, 24]"

definition max_exponent :: "int list" where
  "max_exponent = [
     1024, 647, 512, 442, 397, 365, 342, 324,
     309, 297, 286, 277, 269, 263, 256, 251,
     246, 242, 237, 234, 230, 227, 224, 221,
     218, 216, 214, 211, 209, 207, 205, 203,
     202, 200, 199]"

definition min_exponent :: "int list" where
  "min_exponent = [
     - 1075, - 679, - 538, - 463, - 416, - 383, - 359, - 340,
     - 324, - 311, - 300, - 291, - 283, - 276, - 269, - 263,
     - 258, - 254, - 249, - 245, - 242, - 238, - 235, - 232,
     - 229, - 227, - 224, - 222, - 220, - 217, - 215, - 214,
     - 212, - 210, - 208]"

section \<open>Powers\<close>

text \<open>The squaring loop; the last argument is the number of bits of \<open>b\<close> that are left.\<close>

fun pow_ui_loop :: "u64 \<Rightarrow> u32 \<Rightarrow> u32 \<Rightarrow> nat \<Rightarrow> u64" where
  "pow_ui_loop r a b 0 = r"
| "pow_ui_loop r a b (Suc i) =
     (let r = r * r; r = (if drop_bit i b AND 1 \<noteq> 0 then r * ucast a else r) in pow_ui_loop r a b i)"

definition pow_ui :: "u32 \<Rightarrow> u32 \<Rightarrow> u64 ub" where
  "pow_ui a b =
     (if b = 0 then Some 1
      else if b = 1 then Some (ucast a)
      else if (a = 5 \<or> a = 10) \<and> b \<le> 17 then
        let r = ucast (pow5_table ! (unat b - 1));
            r = (if 14 \<le> b then r OR push_bit 32 (ucast (pow5h_table ! (unat b - 14))) else r);
            r = (if a = 10 then push_bit (unat b) r else r)
        in Some r
      else
        do { z \<leftarrow> clz32 b; Some (pow_ui_loop (ucast a) a b (32 - z - 1)) })"

text \<open>The normalised power, its reciprocal and the shift.\<close>

definition pow_ui_inv :: "u32 \<Rightarrow> u32 \<Rightarrow> (u32 \<times> u32 \<times> nat) ub" where
  "pow_ui_inv a b =
     (if a = 5 \<and> 1 \<le> b \<and> b \<le> 13 then
        let r = pow5_table ! (unat b - 1)
        in do { shift \<leftarrow> clz32 r; Some (push_bit shift r, pow5_inv_table ! (unat b - 1), shift) }
      else
        do {
          p \<leftarrow> pow_ui a b;
          let r = (ucast p :: u32);
          shift \<leftarrow> clz32 r;
          let r = push_bit shift r;
          Some (r, udiv1norm_init r, shift)
        })"

section \<open>Powers are right\<close>

lemma pow_ui_loop_power:
  "r = ucast a ^ (unat b div 2 ^ i) \<Longrightarrow> pow_ui_loop r a b i = ucast a ^ unat b"
proof (induction i arbitrary: r)
  case (Suc i)
  define n where "n = unat b div 2 ^ i"
  have n: "unat b div 2 ^ Suc i = n div 2" by (simp only: n_def power_Suc2 div_mult2_eq)
  have "unat (drop_bit i b AND mask 1) = n mod 2 ^ 1" by (simp only: unat_and_mask unat_drop_bit n_def)
  then have "unat (drop_bit i b AND 1) = n mod 2" by simp
  then have o: "drop_bit i b AND 1 \<noteq> 0 \<longleftrightarrow> odd n" by (metis odd_iff_mod_2_eq_one even_iff_mod_2_eq_zero unsigned_eq_0_iff)
  have "(if odd n then r * r * ucast a else r * r) = ucast a ^ n"
  proof (cases "odd n")
    case True
    then have "n = Suc (n div 2 + n div 2)" by presburger
    then have "ucast a ^ n = ucast a ^ (n div 2) * ucast a ^ (n div 2) * (ucast a :: u64)" by (metis power_Suc2 power_add)
    with True Suc.prems n show ?thesis by simp
  next
    case False
    then have "n = n div 2 + n div 2" by presburger
    then have "ucast a ^ n = ucast a ^ (n div 2) * (ucast a ^ (n div 2) :: u64)" by (metis power_add)
    with False Suc.prems n show ?thesis by simp
  qed
  with Suc.IH [of "if odd n then r * r * ucast a else r * r"] o show ?case by (simp add: Let_def n_def)
qed simp

lemma pow5_table_power:
  "\<forall>b \<in> {2..17}.
     (let r = ucast (pow5_table ! (b - 1))
      in if 14 \<le> b then r OR push_bit 32 (ucast (pow5h_table ! (b - 14))) else r) = (5 :: u64) ^ b"
  by code_simp

lemma pow_ui_val: "pow_ui a b = Some (of_nat (unat a ^ unat b))"
proof -
  have cast: "(of_nat (unat a ^ unat b) :: u64) = ucast a ^ unat b" by simp
  consider "b = 0" | "b = 1" | "b \<noteq> 0" "b \<noteq> 1" "(a = 5 \<or> a = 10) \<and> b \<le> 17" | "b \<noteq> 0" "b \<noteq> 1" "\<not> ((a = 5 \<or> a = 10) \<and> b \<le> 17)"
    by blast
  then show ?thesis
  proof cases
    case 3
    have "unat b \<noteq> 0" "unat b \<noteq> 1" using 3(1,2) by (simp_all add: word_unat_eq_iff)
    moreover have "unat b \<le> 17" using 3(3) by (simp add: word_le_nat_alt)
    ultimately have b: "unat b \<in> {2..17}" by auto
    have g: "14 \<le> b \<longleftrightarrow> 14 \<le> unat b" by (simp add: word_le_nat_alt)
    have p: "(if 14 \<le> unat b then ucast (pow5_table ! (unat b - 1)) OR push_bit 32 (ucast (pow5h_table ! (unat b - 14)))
        else ucast (pow5_table ! (unat b - 1))) = (5 :: u64) ^ unat b"
      using pow5_table_power [THEN bspec, OF b] by (simp only: Let_def)
    have "(10 :: u64) ^ unat b = 5 ^ unat b * 2 ^ unat b" by (simp flip: power_mult_distrib)
    then have ten: "push_bit (unat b) (5 ^ unat b) = (10 :: u64) ^ unat b" by (simp add: push_bit_eq_mult)
    have "pow_ui a b = Some (if a = 10 then push_bit (unat b) (5 ^ unat b) else 5 ^ unat b)"
      using 3 by (simp only: pow_ui_def Let_def g p if_False if_True simp_thms)
    with 3(3) ten show ?thesis unfolding cast by auto
  next
    case 4
    have "2 ^ (bit_len (unat b) - 1) \<le> unat b" "unat b < 2 ^ Suc (bit_len (unat b) - 1)"
      using bit_len_lower [of "unat b"] bit_len_upper [of "unat b"] 4(1) by (simp_all add: unat_gt_0)
    then have "unat b div 2 ^ (bit_len (unat b) - 1) = 1" by (intro div_nat_eqI) simp_all
    then have "pow_ui_loop (ucast a) a b (bit_len (unat b) - 1) = ucast a ^ unat b" by (intro pow_ui_loop_power) simp
    moreover have "bit_len (unat b) \<le> 32" by (simp add: bit_len_le_iff)
    ultimately show ?thesis unfolding cast pow_ui_def if_not_P [OF 4(1)] if_not_P [OF 4(2)] if_not_P [OF 4(3)]
      using 4(1) by (simp add: clz32_def)
  qed (simp_all add: pow_ui_def)
qed

text \<open>
  C24: \<open>pow_ui a b\<close> is \<open>a ^ b\<close> modulo \<open>2 ^ 64\<close>, both with the tables for the bases five and
  ten and with the squaring loop.
\<close>

theorem pow_ui_power: "\<exists>p. pow_ui a b = Some p \<and> unat p = unat a ^ unat b mod 2 ^ 64"
proof -
  have "unat (of_nat (unat a ^ unat b) :: u64) = unat a ^ unat b mod 2 ^ 64"
    by (simp only: unsigned_of_nat) (simp add: take_bit_eq_mod)
  then show ?thesis unfolding pow_ui_val by blast
qed

section \<open>Reciprocals of powers\<close>

lemma pow_ui_small:
  assumes "unat a ^ unat b < 2 ^ 32"
  shows "\<exists>p. pow_ui a b = Some p \<and> unat (ucast p :: u32) = unat a ^ unat b"
proof -
  have "unat a ^ unat b < 2 ^ 64" using assms by simp
  then have "unat (of_nat (unat a ^ unat b) :: u64) = unat a ^ unat b"
    by (simp only: unsigned_of_nat) (simp add: take_bit_nat_eq_self)
  with assms show ?thesis unfolding pow_ui_val by (simp add: unat_ucast_u64_u32)
qed

text \<open>The shift of each power of five in the table of reciprocals.\<close>

definition pow5_shifts :: "(nat \<times> nat) list" where
  "pow5_shifts = [(1, 29), (2, 27), (3, 25), (4, 22), (5, 20), (6, 18), (7, 15), (8, 13), (9, 11), (10, 8), (11, 6), (12, 4), (13, 1)]"

lemma pow5_inv_table_init:
  "\<forall>(b, s) \<in> set pow5_shifts. pow5_table ! (b - 1) = 5 ^ b \<and>
     pow5_inv_table ! (b - 1) = udiv1norm_init (push_bit s (pow5_table ! (b - 1)))"
  by code_simp

lemma pow5_shifts_norm: "\<forall>(b, s) \<in> set pow5_shifts. (2 :: nat) ^ 31 \<le> 5 ^ b * 2 ^ s \<and> 5 ^ b * 2 ^ s < (2 :: nat) ^ 32"
  by (simp add: pow5_shifts_def)

lemma pow5_shifts_all: "fst ` set pow5_shifts = {1..13}"
  by code_simp

lemma norm_shift_unique:
  fixes x :: nat
  assumes "2 ^ 31 \<le> x * 2 ^ s" "x * 2 ^ s < 2 ^ 32" "2 ^ 31 \<le> x * 2 ^ t" "x * 2 ^ t < 2 ^ 32"
  shows "s = t"
proof -
  have less: False if "s < t" "2 ^ 31 \<le> x * 2 ^ s" "x * 2 ^ t < 2 ^ 32" for s t
  proof -
    have "(2::nat) ^ 32 = 2 ^ 31 * 2" by simp
    also have "\<dots> \<le> (x * 2 ^ s) * 2" using that(2) by (rule mult_le_mono1)
    also have "\<dots> = x * 2 ^ Suc s" by simp
    also have "\<dots> \<le> x * 2 ^ t" using that(1) by (intro mult_le_mono2 power_increasing) simp_all
    finally show False using that(3) by (simp only: not_less)
  qed
  from less [of s t] less [of t s] assms show ?thesis by (cases s t rule: linorder_cases) blast+
qed

lemma normalise_limb:
  assumes "0 < unat r"
  shows "\<exists>s. clz32 r = Some s \<and> s < 32 \<and> unat (push_bit s r) = unat r * 2 ^ s \<and> 2 ^ 31 \<le> unat r * 2 ^ s \<and> unat r < 2 ^ (32 - s)"
proof -
  let ?l = "bit_len (unat r)"
  have l: "?l \<le> 32" "0 < ?l" using assms by (simp_all add: bit_len_le_iff)
  have b: "2 ^ (?l - 1) \<le> unat r" "unat r < 2 ^ ?l" using bit_len_lower [OF assms] bit_len_upper [of "unat r"] by simp_all
  have "(2 :: nat) ^ 31 = 2 ^ (?l - 1) * 2 ^ (32 - ?l)" using l by (simp flip: power_add)
  also have "\<dots> \<le> unat r * 2 ^ (32 - ?l)" using b by simp
  finally have "2 ^ 31 \<le> unat r * 2 ^ (32 - ?l)" .
  moreover have "unat (push_bit (32 - ?l) r) = unat r * 2 ^ (32 - ?l)" using b l by (simp add: unat_push_bit_limb)
  moreover have "r \<noteq> 0" using assms by auto
  ultimately show ?thesis using l b by (intro exI [of _ "32 - ?l"]) (simp add: clz32_def)
qed

text \<open>
  What \<open>pow_ui_inv\<close> gives to its caller: the power shifted to the top of a limb, with the
  reciprocal of it.
\<close>

lemma pow_ui_inv_val:
  assumes "0 < unat a" and "unat a ^ unat b < 2 ^ 32"
  shows "\<exists>r s. pow_ui_inv a b = Some (push_bit s r, udiv1norm_init (push_bit s r), s)
    \<and> unat r = unat a ^ unat b \<and> s < 32 \<and> 2 ^ 31 \<le> unat (push_bit s r) \<and> unat r < 2 ^ (32 - s)"
proof (cases "a = 5 \<and> 1 \<le> b \<and> b \<le> 13")
  case True
  have "unat b \<in> fst ` set pow5_shifts" unfolding pow5_shifts_all using True by (simp add: word_le_nat_alt)
  then obtain s where s: "(unat b, s) \<in> set pow5_shifts" by force
  define r where "r = pow5_table ! (unat b - 1)"
  have t: "r = 5 ^ unat b" "pow5_inv_table ! (unat b - 1) = udiv1norm_init (push_bit s r)"
    using pow5_inv_table_init s by (auto simp: r_def)
  have n: "(2 :: nat) ^ 31 \<le> 5 ^ unat b * 2 ^ s" "5 ^ unat b * 2 ^ s < (2 :: nat) ^ 32" using pow5_shifts_norm s by auto
  have ur: "unat r = 5 ^ unat b"
  proof -
    have "r = of_nat (5 ^ unat b)" by (simp add: t)
    then show ?thesis using assms(2) True by (simp only: unsigned_of_nat) (simp add: take_bit_nat_eq_self)
  qed
  have "0 < unat r" by (simp add: ur)
  from normalise_limb [OF this] obtain s' where s': "clz32 r = Some s'" "s' < 32"
      "unat (push_bit s' r) = unat r * 2 ^ s'" "2 ^ 31 \<le> unat r * 2 ^ s'" "unat r < 2 ^ (32 - s')" by blast
  have "unat r * 2 ^ s' < 2 ^ (32 - s') * 2 ^ s'" using s'(5) by simp
  also have "\<dots> = 2 ^ 32" using s'(2) by (simp flip: power_add)
  finally have e: "s' = s" using norm_shift_unique [of "5 ^ unat b" s' s] n s'(4) unfolding ur by blast
  have "pow_ui_inv a b = Some (push_bit s r, udiv1norm_init (push_bit s r), s)"
    unfolding pow_ui_inv_def if_P [OF True] Let_def r_def [symmetric] t(2) using s'(1) by (simp add: e)
  moreover have "unat r = unat a ^ unat b" using True ur by simp
  ultimately show ?thesis using s' unfolding e by metis
next
  case False
  from pow_ui_small [OF assms(2)] obtain p where p: "pow_ui a b = Some p" "unat (ucast p :: u32) = unat a ^ unat b" by blast
  have "0 < unat (ucast p :: u32)" using assms(1) p(2) by simp
  from normalise_limb [OF this] obtain s where s: "clz32 (ucast p) = Some s" "s < 32"
      "unat (push_bit s (ucast p :: u32)) = unat (ucast p :: u32) * 2 ^ s" "2 ^ 31 \<le> unat (ucast p :: u32) * 2 ^ s"
      "unat (ucast p :: u32) < 2 ^ (32 - s)" by blast
  have "pow_ui_inv a b = Some (push_bit s (ucast p), udiv1norm_init (push_bit s (ucast p)), s)"
    unfolding pow_ui_inv_def if_not_P [OF False] using p(1) s(1) by (simp add: Let_def)
  with s p(2) show ?thesis by metis
qed

section \<open>The tables per radix\<close>

lemma table_values:
  "\<forall>r \<in> {2..36}.
     mul_log2_radix (- 1024) (of_nat r) = Some (- (max_exponent ! (r - 2))) \<and>
     mul_log2_radix (- 1075) (of_nat r) = Some (min_exponent ! (r - 2)) \<and>
     mul_log2_radix (- 53) (of_nat r) = Some (1 - dtoa_max_digits_table ! (r - 2)) \<and>
     mul_log2_radix (if (of_nat r :: u32) AND (of_nat r - 1) = 0 then 64 else 128) (of_nat r) = Some (atod_max_digits_table ! (r - 2)) \<and>
     mul_log2_radix 32 (of_nat r) = Some (int (digits_per_limb_table ! (r - 2))) \<and>
     radix_base_table ! (r - 2) = of_nat r ^ (digits_per_limb_table ! (r - 2))"
  by code_simp

lemma dtoa_tables_val:
  assumes "2 \<le> r" and "r \<le> 36"
  shows "max_exponent ! (r - 2) = \<lceil>1024 / log 2 (real r)\<rceil>
    \<and> min_exponent ! (r - 2) = \<lfloor>- 1075 / log 2 (real r)\<rfloor>
    \<and> dtoa_max_digits_table ! (r - 2) = 1 + \<lceil>53 / log 2 (real r)\<rceil>
    \<and> atod_max_digits_table ! (r - 2) = \<lfloor>(if r \<in> {2, 4, 8, 16, 32} then 64 else 128) / log 2 (real r)\<rfloor>
    \<and> int (digits_per_limb_table ! (r - 2)) = \<lfloor>32 / log 2 (real r)\<rfloor>
    \<and> radix_base_table ! (r - 2) = of_nat (r ^ (digits_per_limb_table ! (r - 2)))"
proof -
  define w where "w = (of_nat r :: u32)"
  have w: "unat w = r" using assms by (simp add: w_def unsigned_of_nat take_bit_nat_eq_self)
  have m: "mul_log2_radix a w = Some \<lfloor>of_int a / log 2 (real r)\<rfloor>" if "- 2048 \<le> a" "a \<le> 2047" for a
    using mul_log2_radix_exact [of w a] that assms w by simp
  have p: "w AND (w - 1) = 0 \<longleftrightarrow> r \<in> {2, 4, 8, 16, 32}" using pow2_test [of w] assms w by simp
  have "r \<in> {2..36}" using assms by simp
  note v = table_values [THEN bspec, OF this, folded w_def, unfolded p]
  have "- max_exponent ! (r - 2) = \<lfloor>- (1024 / log 2 (real r))\<rfloor>" "min_exponent ! (r - 2) = \<lfloor>- 1075 / log 2 (real r)\<rfloor>"
    "1 - dtoa_max_digits_table ! (r - 2) = \<lfloor>- (53 / log 2 (real r))\<rfloor>"
    "int (digits_per_limb_table ! (r - 2)) = \<lfloor>32 / log 2 (real r)\<rfloor>"
    using v m [of "- 1024"] m [of "- 1075"] m [of "- 53"] m [of 32] by simp_all
  moreover have "atod_max_digits_table ! (r - 2) = \<lfloor>(if r \<in> {2, 4, 8, 16, 32} then 64 else 128) / log 2 (real r)\<rfloor>"
    using v m [of 64] m [of 128] by (cases "r \<in> {2, 4, 8, 16, 32}") simp_all
  moreover have "radix_base_table ! (r - 2) = of_nat (r ^ (digits_per_limb_table ! (r - 2)))"
    using v by (simp add: w_def)
  ultimately show ?thesis by (simp add: ceiling_def)
qed

text \<open>
  C25: for every radix from 2 to 36 the tables of digit counts and exponent limits hold
  what the disabled generator \<open>build_tables\<close> of the same file computes in floating point, as
  exact values over the reals; \<open>radix_base_table\<close> holds the power of the radix with as many
  digits as fit in one limb (modulo \<open>2 ^ 32\<close>).
\<close>

theorem dtoa_tables_exact:
  assumes "2 \<le> r" and "r \<le> 36"
  shows "max_exponent ! (r - 2) = \<lceil>1024 / log 2 (real r)\<rceil>
    \<and> min_exponent ! (r - 2) = \<lfloor>- 1075 / log 2 (real r)\<rfloor>
    \<and> dtoa_max_digits_table ! (r - 2) = 1 + \<lceil>53 / log 2 (real r)\<rceil>
    \<and> atod_max_digits_table ! (r - 2) = \<lfloor>(if r \<in> {2, 4, 8, 16, 32} then 64 else 128) / log 2 (real r)\<rfloor>
    \<and> int (digits_per_limb_table ! (r - 2)) = \<lfloor>32 / log 2 (real r)\<rfloor>
    \<and> radix_base_table ! (r - 2) = of_nat (r ^ (digits_per_limb_table ! (r - 2)))"
  by (rule dtoa_tables_val [OF assms])

lemma dtoa_tables_exact_witness:
  "max_exponent ! 8 = \<lceil>1024 / log 2 (real 10)\<rceil> \<and> digits_per_limb_table ! 8 = 9 \<and> radix_base_table ! 8 = 10 ^ 9"
  using dtoa_tables_exact [of 10] by (simp add: digits_per_limb_table_def)

end
