(* ===== verification/Dtoa.thy ===== *)
theory Dtoa
  imports Dtoa_Pow
begin

text \<open>
  Conversion of doubles to text, \<open>js_dtoa\<close> of \<open>src/dtoa.c\<close>, with the scaling by powers of the
  radix that parsing shares.  A double is its 64 bit pattern.  The output is the text without
  the terminating zero byte, so its length is the return value.  \<open>int\<close> variables are integers;
  the ranges that occur are far from the limits of the C type.
\<close>

section \<open>Digits of a number with a dot\<close>

text \<open>
  The two loops of \<open>output_digits\<close> fill the buffer from its end.  Entries of
  \<open>digits_per_limb_table\<close> are positive, so that each round writes a digit; the test on
  \<open>digits_per_limb\<close> ends the recursion for other arguments.
\<close>

function output_digits_bin :: "mpb \<Rightarrow> nat \<Rightarrow> nat \<Rightarrow> nat \<Rightarrow> u8 list" where
  "output_digits_bin a radix_bits digits_per_limb n_digits =
     (let n = min n_digits digits_per_limb; n_digits' = n_digits - n;
          s = u64toa_bin_len (ucast (a ! 0)) radix_bits n
      in if n_digits' = 0 \<or> digits_per_limb = 0 then s
         else output_digits_bin (mpb_shr_round a (int (digits_per_limb * radix_bits)) JS_RNDZ) radix_bits digits_per_limb n_digits' @ s)"
  by pat_completeness auto
termination by (relation "measure (\<lambda>(a, rb, d, n). n)") auto

function output_digits_div :: "mpb \<Rightarrow> u32 \<Rightarrow> nat \<Rightarrow> nat \<Rightarrow> u8 list" where
  "output_digits_div a radix digits_per_limb n_digits =
     (if n_digits = 0 \<or> digits_per_limb = 0 then []
      else
        let n = min n_digits digits_per_limb; n_digits' = n_digits - n;
            (r, a) = mp_div1 a (radix_base_table ! (unat radix - 2)) 0; a = mpb_renorm a
        in output_digits_div a radix digits_per_limb n_digits' @ limb_to_a r radix n)"
  by pat_completeness auto
termination by (relation "measure (\<lambda>(a, r, d, n). n)") auto

declare output_digits_bin.simps [simp del] output_digits_div.simps [simp del]

definition output_digits :: "mpb \<Rightarrow> u32 \<Rightarrow> nat \<Rightarrow> nat \<Rightarrow> u8 list ub" where
  "output_digits a radix n_digits1 dot_pos =
     do {
       radix_bits \<leftarrow> (if radix AND (radix - 1) = 0 then do { z \<leftarrow> clz32 radix; Some (31 - z) } else Some 0);
       let digits_per_limb = digits_per_limb_table ! (unat radix - 2);
       let s = (if radix_bits \<noteq> 0 then output_digits_bin a radix_bits digits_per_limb n_digits1
                else output_digits_div a radix digits_per_limb n_digits1);
       Some (if dot_pos \<noteq> n_digits1 then take dot_pos s @ 0x2e # drop dot_pos s else s)
     }"

section \<open>Scaling by a power of the radix\<close>

text \<open>The multiplications of \<open>mul_pow\<close>; \<open>b\<close> is the power with exponent \<open>n0\<close>.\<close>

function mul_pow_up :: "mpb \<Rightarrow> u32 \<Rightarrow> nat \<Rightarrow> limb \<Rightarrow> nat \<Rightarrow> nat \<Rightarrow> mpb ub" where
  "mul_pow_up a radix1 d b n0 f =
     (if f = 0 \<or> d = 0 then Some a
      else
        let n = min f d
        in do {
          b \<leftarrow> (if n \<noteq> n0 then do { p \<leftarrow> pow_ui radix1 (of_nat n); Some (ucast p) } else Some b);
          let (h, a) = mp_mul1 a b 0;
          mul_pow_up (if h \<noteq> 0 then a @ [h] else a) radix1 d b n (f - n)
        })"
  by pat_completeness auto
termination by (relation "measure (\<lambda>(a, r, d, b, n0, f). f)") auto

text \<open>The divisions of \<open>mul_pow\<close>, which also collect the remainders.\<close>

function mul_pow_down :: "mpb \<Rightarrow> u32 \<Rightarrow> nat \<Rightarrow> limb \<times> limb \<times> nat \<Rightarrow> nat \<Rightarrow> nat \<Rightarrow> limb \<Rightarrow> (mpb \<times> limb) ub" where
  "mul_pow_down a radix1 d c n0 f rem =
     (if f = 0 \<or> d = 0 then Some (a, rem)
      else
        let n = min f d
        in do {
          c \<leftarrow> (if n \<noteq> n0 then pow_ui_inv radix1 (of_nat n) else Some c);
          let (b, b_inv, shift) = c;
          let (r, a) = mp_div1norm a b 0 b_inv shift;
          mul_pow_down (mpb_renorm a) radix1 d c n (f - n) (rem OR r)
        })"
  by pat_completeness auto
termination by (relation "measure (\<lambda>(a, r, d, c, n0, f, rem). f)") auto

declare mul_pow_up.simps [simp del] mul_pow_down.simps [simp del]

definition mul_pow :: "mpb \<Rightarrow> u32 \<Rightarrow> nat \<Rightarrow> int \<Rightarrow> bool \<Rightarrow> int \<Rightarrow> (mpb \<times> int) ub" where
  "mul_pow a radix1 radix_shift f is_int e =
     (let e_offset = - f * int radix_shift
      in if radix1 \<noteq> 1 then
           let d = digits_per_limb_table ! (unat radix1 - 2)
           in if 0 \<le> f then
                do { a \<leftarrow> mul_pow_up a radix1 d 0 0 (nat f); Some (a, e_offset) }
              else
                let f = nat (- f); l = (f + d - 1) div d; e_offset = e_offset + int l * 32
                in do {
                  extra_bits \<leftarrow>
                    (if \<not> is_int then do { k \<leftarrow> mpb_floor_log2 a; Some (max_int (e - k) 0) }
                     else Some (max_int (2 + e - e_offset) 0));
                  let e_offset = e_offset + extra_bits;
                  let a = mpb_shr_round a (- (int l * 32 + extra_bits)) JS_RNDZ;
                  (a, rem) \<leftarrow> mul_pow_down a radix1 d (0, 0, 0) 0 f 0;
                  Some (a[0 := a ! 0 OR of_bool (rem \<noteq> 0)], e_offset)
                }
         else Some (a, e_offset))"

definition mul_pow_round :: "u64 \<Rightarrow> int \<Rightarrow> u32 \<Rightarrow> nat \<Rightarrow> int \<Rightarrow> rnd_mode \<Rightarrow> mpb ub" where
  "mul_pow_round m e radix1 radix_shift f rnd_mode =
     do {
       (tmp1, e_offset) \<leftarrow> mul_pow (mpb_set_u64 m) radix1 radix_shift f True e;
       Some (mpb_shr_round tmp1 (- e + e_offset) rnd_mode)
     }"

text \<open>The shift of \<open>m\<close> by 64 or more is undefined.\<close>

definition round_to_d :: "mpb \<Rightarrow> int \<Rightarrow> rnd_mode \<Rightarrow> (u64 \<times> int) ub" where
  "round_to_d a e_offset rnd_mode =
     (if a ! 0 = 0 \<and> length a = 1 then Some (0, 0)
      else
        do {
          k \<leftarrow> mpb_floor_log2 a;
          let e = k + 1 - e_offset;
          let prec1 = 53;
          let e_min = - 1021;
          let prec = (if e < e_min then prec1 - (e_min - e) else prec1);
          let a = mpb_shr_round a (e + e_offset - prec) rnd_mode;
          if 64 \<le> 53 - prec then None
          else
            let m = push_bit (nat (53 - prec)) (mpb_get_u64 a)
            in if push_bit 53 1 \<le> m then Some (drop_bit 1 m, e + 1) else Some (m, e)
        })"

definition mul_pow_round_to_d :: "mpb \<Rightarrow> u32 \<Rightarrow> nat \<Rightarrow> int \<Rightarrow> rnd_mode \<Rightarrow> (u64 \<times> int) ub" where
  "mul_pow_round_to_d a radix1 radix_shift f rnd_mode =
     do {
       (a, e_offset) \<leftarrow> mul_pow a radix1 radix_shift f False 55;
       round_to_d a e_offset rnd_mode
     }"

section \<open>Bound of the length\<close>

abbreviation (input) "JS_DTOA_FORMAT_FREE \<equiv> 0 :: u32"
abbreviation (input) "JS_DTOA_FORMAT_FIXED \<equiv> 1 :: u32"
abbreviation (input) "JS_DTOA_FORMAT_FRAC \<equiv> 2 :: u32"
abbreviation (input) "JS_DTOA_FORMAT_MASK \<equiv> 3 :: u32"
abbreviation (input) "JS_DTOA_EXP_AUTO \<equiv> 0 :: u32"
abbreviation (input) "JS_DTOA_EXP_ENABLED \<equiv> 4 :: u32"
abbreviation (input) "JS_DTOA_EXP_DISABLED \<equiv> 8 :: u32"
abbreviation (input) "JS_DTOA_EXP_MASK \<equiv> 12 :: u32"
abbreviation (input) "JS_DTOA_MINUS_ZERO \<equiv> 16 :: u32"

definition js_dtoa_max_len :: "u64 \<Rightarrow> u32 \<Rightarrow> int \<Rightarrow> u32 \<Rightarrow> int ub" where
  "js_dtoa_max_len d radix n_digits flags =
     (let fmt = flags AND JS_DTOA_FORMAT_MASK;
          e = uint (drop_bit 52 d AND 0x7ff)
      in do {
        n \<leftarrow>
          (if fmt \<noteq> JS_DTOA_FORMAT_FRAC then
             let n = (if fmt = JS_DTOA_FORMAT_FREE then dtoa_max_digits_table ! (unat radix - 2) else n_digits)
             in if flags AND JS_DTOA_EXP_MASK = JS_DTOA_EXP_DISABLED then
                  if e = 0x7ff then Some 0
                  else do { k \<leftarrow> mul_log2_radix (e - 1023 - 1) radix; Some (n + (10 + \<bar>k\<bar>)) }
                else Some (n + (1 + 1 + 6))
           else
             if e = 0x7ff then Some 0
             else
               do {
                 n \<leftarrow> (if e - 1023 < 0 then Some 1
                       else do { k \<leftarrow> mul_log2_radix (e - 1023 - 1) radix; Some (2 + k) });
                 Some (n + (1 + 1 + 1 + n_digits))
               });
        Some (max_int n 9)
      })"

section \<open>Free format\<close>

text \<open>The mantissa with \<open>P\<close> digits: the loop that increments \<open>E\<close> until the mantissa is small enough.\<close>

partial_function (option) dtoa_mant :: "u64 \<Rightarrow> int \<Rightarrow> u32 \<Rightarrow> nat \<Rightarrow> int \<Rightarrow> u64 \<Rightarrow> int \<Rightarrow> (u64 \<times> int) ub" where
  "dtoa_mant m e radix1 radix_shift P mant_max1 E =
     do {
       tmp1 \<leftarrow> mul_pow_round m (e - 53) radix1 radix_shift (P - E) JS_RNDN;
       let mant = mpb_get_u64 tmp1;
       if mant < mant_max1 then Some (mant, E) else dtoa_mant m e radix1 radix_shift P mant_max1 (E + 1)
     }"

text \<open>The removal of trailing zero digits does not end for zero.\<close>

partial_function (option) dtoa_trim :: "u32 \<Rightarrow> u64 \<Rightarrow> int \<Rightarrow> (u64 \<times> int) ub" where
  "dtoa_trim radix mant P =
     (if mant mod ucast radix = 0 then dtoa_trim radix (mant div ucast radix) (P - 1) else Some (mant, P))"

text \<open>The successive tries; \<open>found\<close> is \<open>(P_found, E_found, mant_found)\<close>.\<close>

partial_function (option) dtoa_free_loop ::
    "u64 \<Rightarrow> int \<Rightarrow> u32 \<Rightarrow> u32 \<Rightarrow> nat \<Rightarrow> int \<Rightarrow> int \<Rightarrow> int \<times> int \<times> u64 \<Rightarrow> (int \<times> int \<times> u64) ub" where
  "dtoa_free_loop m e radix radix1 radix_shift E0 P found =
     do {
       mant_max1 \<leftarrow> pow_ui radix (of_int P);
       r1 \<leftarrow> dtoa_mant m e radix1 radix_shift P mant_max1 E0;
       let E = snd r1;
       r2 \<leftarrow> dtoa_trim radix (fst r1) P;
       let mant = fst r2;
       let P = snd r2;
       ok \<leftarrow>
         (if fst found = 0 then Some True
          else
            do {
              r3 \<leftarrow> mul_pow_round_to_d (mpb_set_u64 mant) radix1 radix_shift (E - P) JS_RNDN;
              Some (fst r3 = m \<and> snd r3 = e)
            });
       if ok then
         if P = 1 then Some (P, E, mant)
         else dtoa_free_loop m e radix radix1 radix_shift E0 (P - 1) (P, E, mant)
       else Some found
     }"

text \<open>The digits \<open>(P, E, number)\<close> of the free format.\<close>

definition dtoa_free :: "u64 \<Rightarrow> int \<Rightarrow> u32 \<Rightarrow> u32 \<Rightarrow> nat \<Rightarrow> int \<Rightarrow> (int \<times> int \<times> mpb) ub" where
  "dtoa_free m e radix radix1 radix_shift E =
     do {
       let P_max = dtoa_max_digits_table ! (unat radix - 2);
       (P, E, mant) \<leftarrow> dtoa_free_loop m e radix radix1 radix_shift E P_max (0, 0, 0);
       Some (P, E, mpb_set_u64 mant)
     }"

section \<open>Fixed and fractional format\<close>

partial_function (option) dtoa_fixed_loop :: "u64 \<Rightarrow> int \<Rightarrow> u32 \<Rightarrow> nat \<Rightarrow> int \<Rightarrow> mpb \<Rightarrow> int \<Rightarrow> (int \<times> mpb) ub" where
  "dtoa_fixed_loop m e radix1 radix_shift P mant_max E =
     do {
       tmp1 \<leftarrow> mul_pow_round m (e - 53) radix1 radix_shift (P - E) JS_RNDNA;
       if mpb_cmp tmp1 mant_max < 0 then Some (E, tmp1)
       else dtoa_fixed_loop m e radix1 radix_shift P mant_max (E + 1)
     }"

text \<open>A failing assertion is \<open>None\<close>.\<close>

definition dtoa_fixed :: "u64 \<Rightarrow> int \<Rightarrow> u32 \<Rightarrow> nat \<Rightarrow> int \<Rightarrow> int \<Rightarrow> (int \<times> int \<times> mpb) ub" where
  "dtoa_fixed m e radix1 radix_shift E n_digits =
     (if 1 \<le> n_digits \<and> n_digits \<le> 101 then
        do {
          let P = n_digits;
          (mant_max, pow_shift) \<leftarrow> mul_pow [1] radix1 radix_shift P False 0;
          let mant_max = mpb_shr_round mant_max pow_shift JS_RNDZ;
          (E, tmp1) \<leftarrow> dtoa_fixed_loop m e radix1 radix_shift P mant_max E;
          Some (P, E, tmp1)
        }
      else None)"

definition dtoa_frac :: "u64 \<Rightarrow> int \<Rightarrow> u32 \<Rightarrow> u32 \<Rightarrow> nat \<Rightarrow> int \<Rightarrow> int \<Rightarrow> u8 list ub" where
  "dtoa_frac m e radix radix1 radix_shift E n_digits =
     (if 0 \<le> n_digits \<and> n_digits \<le> 101 then
        do {
          tmp1 \<leftarrow> mul_pow_round m (e - 53) radix1 radix_shift n_digits JS_RNDNA;
          q \<leftarrow> output_digits tmp1 radix (nat (max_int (E + 1) 1 + n_digits)) (nat (max_int (E + 1) 1));
          Some (if q ! 0 = 0x30 \<and> 2 \<le> length q \<and> q ! 1 \<noteq> 0x2e then drop 1 q else q)
        }
      else None)"

section \<open>Output\<close>

definition dtoa_output :: "mpb \<Rightarrow> u32 \<Rightarrow> u32 \<Rightarrow> nat \<Rightarrow> int \<Rightarrow> u32 \<Rightarrow> int \<Rightarrow> int \<Rightarrow> u8 list ub" where
  "dtoa_output tmp1 radix radix1 radix_shift n_digits flags P E =
     (let fmt = flags AND JS_DTOA_FORMAT_MASK;
          E_max = (if fmt = JS_DTOA_FORMAT_FIXED then n_digits else dtoa_max_digits_table ! (unat radix - 2) + 4)
      in if flags AND JS_DTOA_EXP_MASK = JS_DTOA_EXP_ENABLED \<or>
            (flags AND JS_DTOA_EXP_MASK = JS_DTOA_EXP_AUTO \<and> (E \<le> - 6 \<or> E_max < E)) then
           do {
             q \<leftarrow> output_digits tmp1 radix (nat P) 1;
             let E = E - 1;
             let (E, c) = (if radix = 10 then (E, 0x65)
                           else if radix1 = 1 \<and> radix_shift \<le> 4 then (E * int radix_shift, 0x70)
                           else (E, 0x40));
             let (E, s) = (if E < 0 then (- E, 0x2d) else (E, 0x2b));
             x \<leftarrow> u32toa (of_int E);
             Some (q @ [c, s] @ x)
           }
         else if E \<le> 0 then
           do {
             q \<leftarrow> output_digits tmp1 radix (nat P) (nat P);
             Some ([0x30, 0x2e] @ replicate (nat (- E)) 0x30 @ q)
           }
         else
           do {
             q \<leftarrow> output_digits tmp1 radix (nat P) (nat (min_int P E));
             Some (q @ replicate (nat (E - P)) 0x30)
           })"

text \<open>Text literals.\<close>

definition c_lit :: "string \<Rightarrow> u8 list" where
  "c_lit s = map (\<lambda>c. of_nat (of_char c)) s"

text \<open>
  The fields of the double: sign, the mantissa with its highest bit at position 52, the
  exponent such that the value is \<open>m * 2 ^ (e - 53)\<close>.  The function is called for finite
  non-zero values.
\<close>

definition dtoa_decode :: "u64 \<Rightarrow> (u64 \<times> int) ub" where
  "dtoa_decode a =
     (let e = uint (drop_bit 52 a AND 0x7ff); m = a AND (push_bit 52 1 - 1)
      in do {
        (m, e) \<leftarrow>
          (if e = 0 then do { z \<leftarrow> clz64 m; let l = z - 11; Some (push_bit l m, e - (int l - 1)) }
           else Some (m OR push_bit 52 1, e));
        Some (m, e - 1022)
      })"

text \<open>The test for the fast path of integers.\<close>

definition dtoa_is_fast_int :: "u64 \<Rightarrow> int \<Rightarrow> u32 \<Rightarrow> bool" where
  "dtoa_is_fast_int m e flags \<longleftrightarrow>
     flags AND JS_DTOA_FORMAT_MASK = JS_DTOA_FORMAT_FREE \<and> 1 \<le> e \<and> e \<le> 53 \<and>
     m AND (push_bit (nat (53 - e)) 1 - 1) = 0 \<and> flags AND JS_DTOA_EXP_MASK \<noteq> JS_DTOA_EXP_ENABLED"

definition js_dtoa :: "u64 \<Rightarrow> u32 \<Rightarrow> int \<Rightarrow> u32 \<Rightarrow> u8 list ub" where
  "js_dtoa d radix n_digits flags =
     do {
       radix_shift \<leftarrow> ctz32 radix;
       let radix1 = drop_bit radix_shift radix;
       let fmt = flags AND JS_DTOA_FORMAT_MASK;
       let sgn = drop_bit 63 d;
       let e = drop_bit 52 d AND 0x7ff;
       let m = d AND (push_bit 52 1 - 1);
       let minus = (if sgn \<noteq> 0 then [0x2d] else []);
       if e = 0x7ff then Some (if m = 0 then minus @ c_lit ''Infinity'' else c_lit ''NaN'')
       else if e = 0 \<and> m = 0 then
         do {
           let P = (if fmt = JS_DTOA_FORMAT_FREE then 1 else if fmt = JS_DTOA_FORMAT_FRAC then n_digits + 1 else n_digits);
           q \<leftarrow> dtoa_output [0] radix radix1 radix_shift n_digits flags P 1;
           Some ((if sgn \<noteq> 0 \<and> flags AND JS_DTOA_MINUS_ZERO \<noteq> 0 then [0x2d] else []) @ q)
         }
       else
         do {
           (m, e) \<leftarrow> dtoa_decode d;
           q \<leftarrow>
             (if dtoa_is_fast_int m e flags then u64toa_radix (drop_bit (nat (53 - e)) m) radix
              else
                do {
                  k \<leftarrow> mul_log2_radix (e - 1) radix;
                  let E = 1 + k;
                  if fmt = JS_DTOA_FORMAT_FREE then
                    do {
                      (P, E, tmp1) \<leftarrow> dtoa_free m e radix radix1 radix_shift E;
                      dtoa_output tmp1 radix radix1 radix_shift n_digits flags P E
                    }
                  else if fmt = JS_DTOA_FORMAT_FRAC then dtoa_frac m e radix radix1 radix_shift E n_digits
                  else
                    do {
                      (P, E, tmp1) \<leftarrow> dtoa_fixed m e radix1 radix_shift E n_digits;
                      dtoa_output tmp1 radix radix1 radix_shift n_digits flags P E
                    }
                });
           Some (minus @ q)
         }
     }"

end
