(* ===== verification/Dtoa_Round.thy ===== *)
theory Dtoa_Round
  imports Dtoa
begin

text \<open>
  The scaling of \<open>src/dtoa.c\<close> is exact up to one correct rounding: \<open>mul_pow\<close> multiplies exactly,
  or divides and keeps a sticky bit; rounding what it returns is rounding the exact quotient.
  \<open>mul_pow_round\<close> gives the correctly rounded integer, \<open>mul_pow_round_to_d\<close> the correctly
  rounded double.
\<close>

section \<open>Rounded quotients\<close>

lemma round_div_cancel: "0 < k \<Longrightarrow> round_div rnd (n * k) (d * k) = round_div rnd n d"
  by (cases rnd) (simp_all add: round_div_def mult_mod_left [symmetric])

lemma round_div_exact: "0 < d \<Longrightarrow> round_div rnd (q * d) d = q"
  by (cases rnd) (simp_all add: round_div_def)

lemma round_div_bounds:
  assumes "0 < d"
  shows "n div d \<le> round_div rnd n d" and "round_div rnd n d \<le> n div d + 1"
  by (cases rnd; simp add: round_div_def)+

text \<open>
  A quotient with a sticky bit: the lowest bit is set when the division was inexact.  With at
  least two bits to drop, rounding it is rounding the exact fraction.
\<close>

definition sticky :: "nat \<Rightarrow> nat \<Rightarrow> nat" where
  "sticky a b = (if a mod b \<noteq> 0 \<and> even (a div b) then a div b + 1 else a div b)"

lemma sticky_round:
  assumes b: "0 < b" and s: "2 \<le> s"
  shows "round_div rnd (sticky a b) (2 ^ s) = round_div rnd a (b * 2 ^ s)"
proof -
  define q r h where "q = a div b" and "r = a mod b" and "h = (2::nat) ^ (s - 1)"
  have h: "2 ^ s = 2 * h" "even h" "0 < h" using s by (simp_all add: h_def flip: power_Suc)
  define k m where "k = q div (2 * h)" and "m = q mod (2 * h)"
  have q: "q = k * (2 * h) + m" unfolding k_def m_def by (rule div_mult_mod_eq [symmetric])
  have m: "m < 2 * h" using h(3) by (simp add: m_def)
  have ev: "even m \<longleftrightarrow> even q" by (simp add: q)
  have "m + 1 < 2 * h" if "even q" using that m ev by presburger
  then have sm: "(if r \<noteq> 0 \<and> even q then m + 1 else m) < 2 * h" using m by simp
  have st: "sticky a b = k * (2 * h) + (if r \<noteq> 0 \<and> even q then m + 1 else m)"
    unfolding sticky_def q_def [symmetric] r_def [symmetric] by (simp add: q)
  then have sd: "sticky a b div (2 * h) = k" "sticky a b mod (2 * h) = (if r \<noteq> 0 \<and> even q then m + 1 else m)"
    using sm h(3) by simp_all
  have ad: "a div (b * (2 * h)) = k" "a mod (b * (2 * h)) = b * m + r"
    by (simp_all only: div_mult2_eq mod_mult2_eq k_def m_def q_def r_def)
  have rb: "r < b" using b by (simp add: r_def)
  have lt: "m < h \<Longrightarrow> b * m + r < b * h"
  proof -
    assume "m < h"
    then have "b * Suc m \<le> b * h" by (intro mult_le_mono2) simp
    then show "b * m + r < b * h" using rb by simp
  qed
  have gt: "h < m \<Longrightarrow> b * h < b * m + r" using b by (simp add: trans_less_add1)
  define m' where "m' = (if r \<noteq> 0 \<and> even q then m + 1 else m)"
  have lt': "m < h \<Longrightarrow> m' < h"
  proof -
    assume "m < h"
    then have "even m \<Longrightarrow> m + 1 < h" using h(2) by presburger
    with \<open>m < h\<close> show "m' < h" using ev by (simp add: m'_def)
  qed
  have gt': "h < m \<Longrightarrow> h < m'" by (simp add: m'_def)
  have eq': "m = h \<Longrightarrow> m' = (if r \<noteq> 0 then h + 1 else h)" using ev h(2) by (simp add: m'_def)
  show ?thesis
    unfolding round_div_def h(1) sd ad m'_def [symmetric]
    using lt gt lt' gt' eq' by (cases m h rule: linorder_cases; cases rnd) auto
qed

section \<open>Multiplying and dividing by powers\<close>

text \<open>The odd part of a radix.\<close>

definition radix1_ok :: "u32 \<Rightarrow> bool" where
  "radix1_ok radix1 \<longleftrightarrow> odd (unat radix1) \<and> 3 \<le> unat radix1 \<and> unat radix1 \<le> 35"

lemma digits_fit:
  assumes "radix1_ok radix1"
  defines "d \<equiv> digits_per_limb_table ! (unat radix1 - 2)"
  shows "0 < d" and "d \<le> 20" and "unat radix1 ^ d < 2 ^ 32"
proof -
  let ?R = "[3, 5, 7, 9, 11, 13, 15, 17, 19, 21, 23, 25, 27, 29, 31, 33, 35] :: nat list"
  let ?P = "\<lambda>r. 0 < digits_per_limb_table ! (r - 2) \<and> digits_per_limb_table ! (r - 2) \<le> 20 \<and> r ^ (digits_per_limb_table ! (r - 2)) < 2 ^ 32"
  have "list_all ?P ?R" by (simp add: digits_per_limb_table_def)
  moreover have "unat radix1 \<in> set ?R" using assms(1) unfolding radix1_ok_def by (simp, presburger)
  ultimately have "?P (unat radix1)" by (simp only: list_all_iff)
  then show "0 < d" "d \<le> 20" "unat radix1 ^ d < 2 ^ 32" unfolding d_def by blast+
qed

lemma power_fits:
  assumes "radix1_ok radix1" and "n \<le> digits_per_limb_table ! (unat radix1 - 2)"
  shows "unat radix1 ^ n < 2 ^ 32" and "unat (of_nat n :: u32) = n" and "0 < unat radix1"
proof -
  note d = digits_fit [OF assms(1)]
  have "unat radix1 ^ n \<le> unat radix1 ^ (digits_per_limb_table ! (unat radix1 - 2))"
    using assms by (intro power_increasing) (simp_all add: radix1_ok_def)
  with d(3) show "unat radix1 ^ n < 2 ^ 32" by linarith
  show "unat (of_nat n :: u32) = n"
    using assms(2) d(2) by (simp add: unsigned_of_nat take_bit_nat_eq_self)
  show "0 < unat radix1" using assms(1) by (simp add: radix1_ok_def)
qed

lemma mpb_mul_append:
  assumes ok: "mpb_ok a" and pos: "0 < mp_val a" and b: "0 < unat b" and m: "mp_mul1 a b 0 = (h, t)"
  defines "t' \<equiv> (if h \<noteq> 0 then t @ [h] else t)"
  shows "mpb_ok t'" and "mp_val t' = mp_val a * unat b"
proof -
  have v: "mp_val t + 2 ^ (32 * length a) * unat h = mp_val a * unat b" and l: "length t = length a"
    using mp_mul1_val [OF m] mp_mul1_length [OF m] by simp_all
  show e: "mp_val t' = mp_val a * unat b" using v l by (cases "h = 0") (simp_all add: t'_def mp_val_append)
  have "last t \<noteq> 0" if "h = 0" "1 < length t"
  proof
    assume "last t = 0"
    then have "mp_val t = mp_val (butlast t)" using that mp_val_last [of t] by (cases t) auto
    also have "\<dots> < 2 ^ (32 * (length a - 1))" using mp_val_less [of "butlast t"] l by simp
    also have "\<dots> \<le> mp_val a" using mpb_ok_lower [OF ok] that l by simp
    also have "\<dots> \<le> mp_val a * unat b" using b by simp
    finally show False using v that by simp
  qed
  then show "mpb_ok t'" using ok l by (auto simp: t'_def mpb_ok_def)
qed

lemma mul_pow_up_val:
  assumes r: "radix1_ok radix1" and d: "d = digits_per_limb_table ! (unat radix1 - 2)"
  shows "mpb_ok a \<Longrightarrow> 0 < mp_val a \<Longrightarrow> n0 = 0 \<or> unat b = unat radix1 ^ n0 \<Longrightarrow>
    \<exists>a'. mul_pow_up a radix1 d b n0 f = Some a' \<and> mpb_ok a' \<and> mp_val a' = mp_val a * unat radix1 ^ f"
proof (induction f arbitrary: a b n0 rule: less_induct)
  case (less f)
  note d0 = digits_fit [OF r, folded d]
  show ?case
  proof (cases "f = 0")
    case True
    then show ?thesis using less.prems(1) by (subst mul_pow_up.simps) simp
  next
    case False
    define n where "n = min f d"
    have n: "0 < n" "n \<le> f" "n \<le> d" using False d0(1) by (simp_all add: n_def)
    note pf = power_fits [OF r n(3) [unfolded d]]
    have "\<exists>b'. (if n \<noteq> n0 then do { p \<leftarrow> pow_ui radix1 (of_nat n); Some (ucast p) } else Some b) = Some b' \<and> unat b' = unat radix1 ^ n"
    proof (cases "n = n0")
      case True
      with less.prems(3) n(1) show ?thesis by simp
    next
      case False
      with pow_ui_small [of radix1 "of_nat n"] pf show ?thesis by auto
    qed
    then obtain b' where b': "(if n \<noteq> n0 then do { p \<leftarrow> pow_ui radix1 (of_nat n); Some (ucast p) } else Some b) = Some b'"
      "unat b' = unat radix1 ^ n" by blast
    obtain h t where m: "mp_mul1 a b' 0 = (h, t)" by fastforce
    have bp: "0 < unat b'" using b'(2) pf(3) by simp
    note t = mpb_mul_append [OF less.prems(1,2) bp m]
    define t' where "t' = (if h \<noteq> 0 then t @ [h] else t)"
    have tv: "mpb_ok t'" "mp_val t' = mp_val a * unat radix1 ^ n" "0 < mp_val t'"
      using t b'(2) less.prems(2) pf(3) by (simp_all add: t'_def)
    have "mul_pow_up a radix1 d b n0 f = mul_pow_up t' radix1 d b' n (f - n)"
      using False d0(1) b'(1) m by (subst mul_pow_up.simps) (simp add: n_def [symmetric] t'_def Let_def)
    moreover obtain a' where "mul_pow_up t' radix1 d b' n (f - n) = Some a'" "mpb_ok a'"
        "mp_val a' = mp_val t' * unat radix1 ^ (f - n)"
      using less.IH [of "f - n" t' n b'] tv b'(2) n by auto
    moreover have "unat radix1 ^ n * unat radix1 ^ (f - n) = unat radix1 ^ f"
      using n(2) by (simp flip: power_add)
    ultimately show ?thesis using tv(2) by (simp add: mult.assoc)
  qed
qed

text \<open>The division loop keeps the exact quotient and whether there was a remainder.\<close>

lemma mul_pow_down_val:
  assumes r: "radix1_ok radix1" and d: "d = digits_per_limb_table ! (unat radix1 - 2)"
  shows "a \<noteq> [] \<Longrightarrow> mpb_ok a \<Longrightarrow> n0 = 0 \<or> pow_ui_inv radix1 (of_nat n0) = Some c \<Longrightarrow>
    \<exists>a' rem'. mul_pow_down a radix1 d c n0 f rem = Some (a', rem') \<and> mpb_ok a'
      \<and> mp_val a' = mp_val a div unat radix1 ^ f
      \<and> (rem' = 0 \<longleftrightarrow> rem = 0 \<and> mp_val a mod unat radix1 ^ f = 0)"
proof (induction f arbitrary: a c n0 rem rule: less_induct)
  case (less f)
  note d0 = digits_fit [OF r, folded d]
  show ?case
  proof (cases "f = 0")
    case True
    then show ?thesis using less.prems(2) by (subst mul_pow_down.simps) simp
  next
    case False
    define n where "n = min f d"
    have n: "0 < n" "n \<le> f" "n \<le> d" using False d0(1) by (simp_all add: n_def)
    note pf = power_fits [OF r n(3) [unfolded d]]
    obtain b s where bs: "pow_ui_inv radix1 (of_nat n) = Some (push_bit s b, udiv1norm_init (push_bit s b), s)"
      "unat b = unat radix1 ^ n" "s < 32" "2 ^ 31 \<le> unat (push_bit s b)" "unat b < 2 ^ (32 - s)"
      using pow_ui_inv_val [of radix1 "of_nat n"] pf by auto
    let ?c = "(push_bit s b, udiv1norm_init (push_bit s b), s)"
    have c: "(if n \<noteq> n0 then pow_ui_inv radix1 (of_nat n) else Some c) = Some ?c"
      using less.prems(3) n(1) bs(1) by auto
    obtain x q where q: "mp_div1norm a (push_bit s b) 0 (udiv1norm_init (push_bit s b)) s = (x, q)" by fastforce
    have v: "mp_val a = mp_val q * unat b + unat x" "unat x < unat b" "length q = length a"
      using mp_div1norm_val [OF bs(4,5,3) q] by simp_all
    have dm: "mp_val q = mp_val a div unat b" "unat x = mp_val a mod unat b" using v by simp_all
    have "q \<noteq> []" using v(3) less.prems(1) by auto
    then have ok: "mpb_ok (mpb_renorm q)" "mpb_renorm q \<noteq> []"
      using mpb_renorm_ok [of q] by (auto simp: mpb_ok_def)
    have u: "mul_pow_down a radix1 d c n0 f rem = mul_pow_down (mpb_renorm q) radix1 d ?c n (f - n) (rem OR x)"
      using False d0(1) c q by (subst mul_pow_down.simps) (simp add: n_def [symmetric] Let_def)
    obtain a' rem' where ih: "mul_pow_down (mpb_renorm q) radix1 d ?c n (f - n) (rem OR x) = Some (a', rem')" "mpb_ok a'"
        "mp_val a' = mp_val (mpb_renorm q) div unat radix1 ^ (f - n)"
        "rem' = 0 \<longleftrightarrow> rem OR x = 0 \<and> mp_val (mpb_renorm q) mod unat radix1 ^ (f - n) = 0"
      using less.IH [of "f - n" "mpb_renorm q" n ?c "rem OR x"] ok bs(1) n by auto
    have p: "unat radix1 ^ f = unat b * unat radix1 ^ (f - n)" using n(2) bs(2) by (simp flip: power_add)
    have "mp_val a' = mp_val a div unat radix1 ^ f" using ih(3) dm by (simp add: p div_mult2_eq)
    moreover have "mp_val a mod unat radix1 ^ f = unat b * (mp_val q mod unat radix1 ^ (f - n)) + unat x"
      by (simp add: p mod_mult2_eq dm)
    moreover have "x = 0 \<longleftrightarrow> unat x = 0" by (simp add: unsigned_eq_0_iff)
    moreover have "0 < unat b" using v(2) by simp
    ultimately show ?thesis using u ih by (auto simp: or_eq_0_iff)
  qed
qed

section \<open>The scaled number\<close>

lemma sticky_bit:
  assumes "mpb_ok a" and "mp_val a = n div b" and "st \<longleftrightarrow> n mod b \<noteq> 0"
  defines "a' \<equiv> a[0 := a ! 0 OR of_bool st]"
  shows "mpb_ok a'" and "mp_val a' = sticky n b"
proof -
  obtain x xs where a: "a = x # xs" using assms(1) by (cases a) (auto simp: mpb_ok_def)
  have x: "unat (x OR 1) = (if even (unat x) then unat x + 1 else unat x)"
  proof -
    have "unat (x OR 1) = unat x OR unat (1 :: limb)" by (rule unsigned_or_eq)
    also have "\<dots> = unat x OR 1" by simp
    also have "\<dots> = unat x + of_bool (even (unat x))" by (rule or_one_eq)
    finally show ?thesis by simp
  qed
  have ev: "even (mp_val a) \<longleftrightarrow> even (unat x)" by (simp add: a)
  show "mpb_ok a'" using assms(1) by (auto simp: mpb_ok_def a'_def a)
  show "mp_val a' = sticky n b"
  proof (cases st)
    case True
    then have "mp_val a' = unat (x OR 1) + 2 ^ 32 * mp_val xs" by (simp add: a'_def a)
    also have "\<dots> = (if even (mp_val a) then mp_val a + 1 else mp_val a)" unfolding ev x by (simp add: a)
    finally show ?thesis using True assms(3) by (simp add: sticky_def assms(2))
  next
    case False
    then have "a' = a" by (simp add: a'_def a)
    with False assms(2,3) show ?thesis by (simp add: sticky_def)
  qed
qed

text \<open>Upwards, the product is exact.\<close>

lemma mul_pow_nonneg:
  assumes "radix1 = 1 \<or> radix1_ok radix1" and "mpb_ok a" and "0 < mp_val a" and "0 \<le> f \<or> radix1 = 1"
  shows "\<exists>a'. mul_pow a radix1 rs f is_int e = Some (a', - f * int rs) \<and> mpb_ok a' \<and> mp_val a' = mp_val a * unat radix1 ^ nat f"
proof (cases "radix1 = 1")
  case True
  with assms(2) show ?thesis by (simp add: mul_pow_def)
next
  case False
  then have r: "radix1_ok radix1" using assms(1) by blast
  from mul_pow_up_val [OF r refl assms(2,3), of 0 0 "nat f"] False assms(4) show ?thesis
    by (auto simp: mul_pow_def Let_def)
qed

text \<open>
  Downwards, it is the quotient with a sticky bit, of the number shifted to the left by enough
  bits; \<open>extra\<close> is \<open>extra_bits\<close> of the code and \<open>l\<close> bounds the limbs of the divisor.
\<close>

lemma mul_pow_neg:
  assumes r: "radix1_ok radix1" and a: "mpb_ok a" "0 < mp_val a" and f: "f < 0"
  defines "F \<equiv> nat (- f)"
  shows "\<exists>a' l extra. mul_pow a radix1 rs f is_int e = Some (a', int (F * rs + 32 * l + extra)) \<and> mpb_ok a'
    \<and> mp_val a' = sticky (mp_val a * 2 ^ (32 * l + extra)) (unat radix1 ^ F)
    \<and> unat radix1 ^ F \<le> 2 ^ (32 * l)
    \<and> int extra = (if is_int then max (2 + e - int (F * rs + 32 * l)) 0 else max (e - (int (bit_len (mp_val a)) - 1)) 0)"
proof -
  define d where "d = digits_per_limb_table ! (unat radix1 - 2)"
  note d0 = digits_fit [OF r, folded d_def]
  define l where "l = (F + d - 1) div d"
  define eo where "eo = - f * int rs + int l * 32"
  have eo: "eo = int (F * rs + 32 * l)" using f by (simp add: eo_def F_def)
  define x where "x = (if is_int then max (2 + e - eo) 0 else max (e - (int (bit_len (mp_val a)) - 1)) 0)"
  have x: "0 \<le> x" by (simp add: x_def)
  define extra where "extra = nat x"
  have sh: "mp_val (mpb_shr_round a (- (int l * 32 + x)) JS_RNDZ) = mp_val a * 2 ^ (32 * l + extra)
      \<and> mpb_ok (mpb_shr_round a (- (int l * 32 + x)) JS_RNDZ)"
  proof (cases "l = 0 \<and> extra = 0")
    case True
    then show ?thesis using a(1) x by (simp add: extra_def mpb_shr_round_def)
  next
    case False
    then have "- (int l * 32 + x) < 0" using x by (auto simp: extra_def)
    moreover have "nat (int l * 32 + x) = 32 * l + extra" using x by (simp add: extra_def nat_add_distrib nat_mult_distrib)
    ultimately show ?thesis using mpb_shr_round_val [OF a(1), of "- (int l * 32 + x)" JS_RNDZ] a(2) by simp
  qed
  have "mpb_shr_round a (- (int l * 32 + x)) JS_RNDZ \<noteq> []" using sh by (simp add: mpb_ok_def)
  from mul_pow_down_val [OF r d_def this, of 0 "(0, 0, 0)" F 0] sh obtain a' rem'
    where dn: "mul_pow_down (mpb_shr_round a (- (int l * 32 + x)) JS_RNDZ) radix1 d (0, 0, 0) 0 F 0 = Some (a', rem')"
      "mpb_ok a'" "mp_val a' = mp_val a * 2 ^ (32 * l + extra) div unat radix1 ^ F"
      "rem' = 0 \<longleftrightarrow> mp_val a * 2 ^ (32 * l + extra) mod unat radix1 ^ F = 0" by auto
  have "radix1 \<noteq> 1" using r by (auto simp: radix1_ok_def)
  then have m: "mul_pow a radix1 rs f is_int e = Some (a'[0 := a' ! 0 OR of_bool (rem' \<noteq> 0)], eo + x)"
  proof -
    assume r1: "radix1 \<noteq> 1"
    have nf: "\<not> 0 \<le> f" using f by simp
    have ex: "(if \<not> is_int then do { k \<leftarrow> mpb_floor_log2 a; Some (max_int (e - k) 0) } else Some (max_int (2 + e - eo) 0)) = Some x"
      by (simp add: x_def mpb_floor_log2_val [OF a])
    show ?thesis
      unfolding mul_pow_def Let_def if_P [OF r1] if_not_P [OF nf] d_def [symmetric] F_def [symmetric] l_def [symmetric] eo_def [symmetric] ex
      using dn(1) by simp
  qed
  have "F \<le> d * l"
  proof -
    have "F + d - 1 < d * Suc ((F + d - 1) div d)" using dividend_less_times_div [OF d0(1)] by simp
    then show ?thesis using d0(1) by (simp add: l_def)
  qed
  then have "unat radix1 ^ F \<le> unat radix1 ^ (d * l)" using r by (intro power_increasing) (simp_all add: radix1_ok_def)
  also have "\<dots> = (unat radix1 ^ d) ^ l" by (simp add: power_mult)
  also have "\<dots> \<le> (2 ^ 32) ^ l" using d0(3) by (intro power_mono) simp_all
  finally have b: "unat radix1 ^ F \<le> 2 ^ (32 * l)" by (simp add: power_mult)
  show ?thesis
    using m b x eo sticky_bit [OF dn(2,3), of "rem' \<noteq> 0"] dn(4)
    by (intro exI [of _ "a'[0 := a' ! 0 OR of_bool (rem' \<noteq> 0)]"] exI [of _ l] exI [of _ extra])
      (simp add: extra_def x_def)
qed

text \<open>
  The exact value of \<open>m * 2^e * radix^f\<close> as a fraction, for \<open>radix = radix1 * 2^radix_shift\<close>.
\<close>

definition scaled_num :: "nat \<Rightarrow> int \<Rightarrow> nat \<Rightarrow> int \<Rightarrow> nat" where
  "scaled_num m e radix f = m * 2 ^ nat e * radix ^ nat f"

definition scaled_den :: "int \<Rightarrow> nat \<Rightarrow> int \<Rightarrow> nat" where
  "scaled_den e radix f = 2 ^ nat (- e) * radix ^ nat (- f)"

text \<open>Powers of two and of the radix with integer exponents.\<close>

lemma nat_exp_balance: "a + b + c = 0 \<Longrightarrow> (2::nat) ^ nat a * 2 ^ nat b * 2 ^ nat c = 2 ^ nat (- a) * 2 ^ nat (- b) * 2 ^ nat (- c)"
proof -
  assume "a + b + c = 0"
  then have "nat a + nat b + nat c = nat (- a) + nat (- b) + nat (- c)" by linarith
  then show ?thesis by (simp only: power_add [symmetric])
qed

lemma radix_power:
  fixes r1 :: nat
  assumes "0 \<le> f"
  shows "(r1 * 2 ^ rs) ^ nat f = r1 ^ nat f * 2 ^ nat (f * int rs)"
proof -
  have "(2 ^ rs) ^ nat f = (2::nat) ^ (rs * nat f)" by (rule power_mult [symmetric])
  also have "rs * nat f = nat (f * int rs)" using assms by (simp add: nat_mult_distrib)
  finally show ?thesis by (simp only: power_mult_distrib)
qed

lemma round_div_ratio:
  assumes "n1 * d2 = n2 * d1" and "0 < d1" and "0 < d2"
  shows "round_div rnd n1 d1 = round_div rnd n2 d2"
proof -
  have "round_div rnd n1 d1 = round_div rnd (n1 * d2) (d1 * d2)" using round_div_cancel [OF assms(3)] by simp
  also have "\<dots> = round_div rnd (n2 * d1) (d2 * d1)" using assms(1) by (simp add: mult.commute)
  finally show ?thesis using round_div_cancel [OF assms(2)] by simp
qed

lemma mpb_shr_round_ratio:
  assumes "mpb_ok a" and "0 < mp_val a" and "0 < d" and "n * 2 ^ nat shift = mp_val a * 2 ^ nat (- shift) * d"
  shows "mp_val (mpb_shr_round a shift rnd) = round_div rnd n d" and "mpb_ok (mpb_shr_round a shift rnd)"
proof -
  note v = mpb_shr_round_val [OF assms(1), of shift rnd]
  show "mpb_ok (mpb_shr_round a shift rnd)" using v assms(2) by simp
  show "mp_val (mpb_shr_round a shift rnd) = round_div rnd n d"
  proof (cases "0 \<le> shift")
    case True
    with assms(3,4) have "round_div rnd (mp_val a) (2 ^ nat shift) = round_div rnd n d"
      by (intro round_div_ratio) simp_all
    with v True show ?thesis by simp
  next
    case False
    then have "n = mp_val a * 2 ^ nat (- shift) * d" using assms(4) by simp
    with v False assms(2,3) show ?thesis by (simp add: round_div_exact)
  qed
qed

lemma scaled_balance:
  assumes "0 \<le> f \<or> r1 = 1" and "s = - e + - f * int rs"
  shows "scaled_num m e (r1 * 2 ^ rs) f * 2 ^ nat s = m * r1 ^ nat f * 2 ^ nat (- s) * scaled_den e (r1 * 2 ^ rs) f"
proof -
  have b: "(2::nat) ^ nat e * 2 ^ nat (f * int rs) * 2 ^ nat s = 2 ^ nat (- e) * 2 ^ nat (- (f * int rs)) * 2 ^ nat (- s)"
    by (rule nat_exp_balance) (simp add: assms(2))
  show ?thesis
  proof (cases "0 \<le> f")
    case True
    have "nat (- (f * int rs)) = 0" using True by simp
    with b True show ?thesis
      unfolding scaled_num_def scaled_den_def radix_power [OF True] by (simp add: ac_simps)
  next
    case False
    then have 1: "r1 = 1" "0 \<le> - f" "nat f = 0" "nat (f * int rs) = 0" using assms(1) by (auto simp: mult_nonpos_nonneg)
    show ?thesis
      unfolding scaled_num_def scaled_den_def radix_power [OF 1(2)] using b 1 by (simp add: ac_simps)
  qed
qed

lemma mul_pow_round_val:
  fixes radix1 :: u32 and rs :: nat
  assumes r: "radix1 = 1 \<or> radix1_ok radix1" and m: "m \<noteq> 0"
  defines "radix \<equiv> unat radix1 * 2 ^ rs"
  shows "\<exists>t. mul_pow_round m e radix1 rs f rnd = Some t \<and> mpb_ok t
    \<and> mp_val t = round_div rnd (scaled_num (unat m) e radix f) (scaled_den e radix f)"
proof -
  let ?a = "mpb_set_u64 m"
  have a: "mpb_ok ?a" "mp_val ?a = unat m" "0 < mp_val ?a"
    using m by (simp_all add: mpb_set_u64_ok mpb_set_u64_val unat_gt_0)
  have r0: "0 < unat radix1" using r by (auto simp: radix1_ok_def)
  have den: "0 < scaled_den e radix f" using r0 by (simp add: scaled_den_def radix_def)
  show ?thesis
  proof (cases "0 \<le> f \<or> radix1 = 1")
    case True
    from mul_pow_nonneg [OF r a(1,3) True, of rs True e] obtain a' where
      a': "mul_pow ?a radix1 rs f True e = Some (a', - f * int rs)" "mpb_ok a'" "mp_val a' = unat m * unat radix1 ^ nat f"
      using a(2) by auto
    define s where "s = - e + - f * int rs"
    have bal: "scaled_num (unat m) e radix f * 2 ^ nat s = mp_val a' * 2 ^ nat (- s) * scaled_den e radix f"
      using scaled_balance [of f "unat radix1" s e rs "unat m"] True by (auto simp: s_def a'(3) radix_def)
    have "0 < mp_val a'" using a'(3) a r0 by simp
    note v = mpb_shr_round_ratio [OF a'(2) this den bal, of rnd]
    show ?thesis unfolding mul_pow_round_def a'(1) bind.bind_lunit prod.case s_def [symmetric] using v by blast
  next
    case False
    then have nf: "f < 0" and ok: "radix1_ok radix1" using r by auto
    define F where "F = nat (- f)"
    from mul_pow_neg [OF ok a(1,3) nf, of rs True e] obtain a' l x where
      a': "mul_pow ?a radix1 rs f True e = Some (a', int (F * rs + 32 * l + x))" "mpb_ok a'"
        "mp_val a' = sticky (unat m * 2 ^ (32 * l + x)) (unat radix1 ^ F)"
      and x: "int x = max (2 + e - int (F * rs + 32 * l)) 0"
      using a(2) by (auto simp: F_def)
    define s where "s = nat (- e + int (F * rs + 32 * l + x))"
    have s: "2 \<le> s" "int s = - e + int (F * rs + 32 * l + x)" using x by (auto simp: s_def)
    have "mp_val (mpb_shr_round a' (- e + int (F * rs + 32 * l + x)) rnd) = round_div rnd (mp_val a') (2 ^ s)
        \<and> mpb_ok (mpb_shr_round a' (- e + int (F * rs + 32 * l + x)) rnd)"
      using mpb_shr_round_val [OF a'(2), of "int s" rnd] unfolding s(2) [symmetric] by simp
    moreover have "round_div rnd (mp_val a') (2 ^ s) = round_div rnd (unat m * 2 ^ (32 * l + x)) (unat radix1 ^ F * 2 ^ s)"
      unfolding a'(3) by (rule sticky_round) (use r0 s in simp_all)
    moreover have "\<dots> = round_div rnd (scaled_num (unat m) e radix f) (scaled_den e radix f)"
    proof (rule round_div_ratio [OF _ _ den])
      have "32 * l + x + (nat (- e) + F * rs) = nat e + s" using s(2) by linarith
      then have "(2::nat) ^ (32 * l + x) * (2 ^ nat (- e) * 2 ^ (F * rs)) = 2 ^ nat e * 2 ^ s" by (simp only: power_add [symmetric])
      moreover have "radix ^ F = unat radix1 ^ F * 2 ^ (F * rs)"
        by (simp add: radix_def power_mult_distrib power_mult [symmetric] mult.commute [of rs])
      ultimately show "unat m * 2 ^ (32 * l + x) * scaled_den e radix f = scaled_num (unat m) e radix f * (unat radix1 ^ F * 2 ^ s)"
        using nf by (simp add: scaled_num_def scaled_den_def F_def [symmetric] ac_simps)
    qed (use r0 in simp)
    ultimately show ?thesis unfolding mul_pow_round_def a'(1) bind.bind_lunit prod.case by metis
  qed
qed

end
