(* ===== verification/Dtoa_Double.thy ===== *)
theory Dtoa_Double
  imports Dtoa_Round
begin

text \<open>
  Rounding to a double: \<open>round_to_d\<close> and \<open>mul_pow_round_to_d\<close> of \<open>src/dtoa.c\<close> return the
  mantissa and the exponent of the correctly rounded value, with fewer bits for
  subnormal numbers.
\<close>

section \<open>The reference\<close>

text \<open>
  A positive fraction \<open>n / d\<close> with \<open>2^(e0-1) \<le> n / d < 2^e0\<close>, written without fractions.
\<close>

definition has_exp :: "nat \<Rightarrow> nat \<Rightarrow> int \<Rightarrow> bool" where
  "has_exp n d e0 \<longleftrightarrow> d * 2 ^ nat (e0 - 1) \<le> n * 2 ^ nat (1 - e0) \<and> n * 2 ^ nat (- e0) < d * 2 ^ nat e0"

text \<open>The number of bits of a double with that exponent; fewer for subnormal numbers.\<close>

definition d_prec :: "int \<Rightarrow> int" where
  "d_prec e0 = (if e0 < - 1021 then 53 - (- 1021 - e0) else 53)"

text \<open>\<open>n / d\<close> in units of the last bit, rounded.\<close>

definition d_units :: "rnd_mode \<Rightarrow> nat \<Rightarrow> nat \<Rightarrow> int \<Rightarrow> nat" where
  "d_units rnd n d e0 = round_div rnd (n * 2 ^ nat (d_prec e0 - e0)) (d * 2 ^ nat (e0 - d_prec e0))"

text \<open>Mantissa and exponent of a rounded number: the value is \<open>m * 2 ^ (e - 53)\<close>.\<close>

definition d_pair :: "nat \<Rightarrow> int \<Rightarrow> u64 \<times> int" where
  "d_pair k e0 =
     (let m = k * 2 ^ nat (53 - d_prec e0)
      in if 2 ^ 53 \<le> m then (of_nat (m div 2), e0 + 1) else (of_nat m, e0))"

lemma round_div_le: "n < d * c \<Longrightarrow> round_div rnd n d \<le> c"
proof -
  assume "n < d * c"
  then have "n div d < c" by (cases "d = 0") (simp_all add: div_less_iff_less_mult mult.commute)
  then show ?thesis by (cases rnd) (simp_all add: round_div_def)
qed

lemma round_div_0: "2 * n < d \<Longrightarrow> round_div rnd n d = 0"
  by (cases rnd) (simp_all add: round_div_def)

lemma has_exp_ratio:
  assumes "has_exp n d e0" and "n * d' = n' * d" and "0 < d" and "0 < d'"
  shows "has_exp n' d' e0"
proof -
  have "d' * 2 ^ nat (e0 - 1) * d \<le> n' * 2 ^ nat (1 - e0) * d"
  proof -
    have "d' * 2 ^ nat (e0 - 1) * d = (d * 2 ^ nat (e0 - 1)) * d'" by (simp add: ac_simps)
    also have "\<dots> \<le> (n * 2 ^ nat (1 - e0)) * d'" using assms(1) by (intro mult_le_mono1) (simp add: has_exp_def)
    also have "\<dots> = n * d' * 2 ^ nat (1 - e0)" by (simp add: ac_simps)
    also have "\<dots> = n' * 2 ^ nat (1 - e0) * d" unfolding assms(2) by (simp add: ac_simps)
    finally show ?thesis .
  qed
  moreover have "n' * 2 ^ nat (- e0) * d < d' * 2 ^ nat e0 * d"
  proof -
    have "n' * 2 ^ nat (- e0) * d = n' * d * 2 ^ nat (- e0)" by (simp add: ac_simps)
    also have "\<dots> = (n * 2 ^ nat (- e0)) * d'" unfolding assms(2) [symmetric] by (simp add: ac_simps)
    also have "\<dots> < (d * 2 ^ nat e0) * d'" using assms(1,4) by (intro mult_strict_right_mono) (simp_all add: has_exp_def)
    finally show ?thesis by (simp add: ac_simps)
  qed
  ultimately show ?thesis using assms(3) by (simp add: has_exp_def)
qed

text \<open>The exponent exists and is unique.\<close>

lemma has_exp_exists:
  assumes "0 < n" and "0 < d"
  shows "\<exists>e0. has_exp n d e0"
proof (cases "d \<le> n")
  case True
  let ?b = "bit_len (n div d)"
  have p: "0 < n div d" using True assms by (simp add: div_greater_zero_iff)
  then have b: "0 < ?b" by simp
  have "d * 2 ^ (?b - 1) \<le> n" using bit_len_lower [OF p] assms by (simp add: less_eq_div_iff_mult_less_eq mult.commute)
  moreover have "n < d * 2 ^ ?b" using bit_len_upper [of "n div d"] assms by (simp add: div_less_iff_less_mult mult.commute)
  ultimately have "has_exp n d (int ?b)" using b by (simp add: has_exp_def nat_diff_distrib')
  then show ?thesis ..
next
  case False
  let ?b = "bit_len ((d - 1) div n)"
  have p: "0 < (d - 1) div n" using False assms by (simp add: div_greater_zero_iff)
  then have b: "0 < ?b" by simp
  have "n * 2 ^ (?b - 1) \<le> d - 1" using bit_len_lower [OF p] assms by (simp add: less_eq_div_iff_mult_less_eq mult.commute)
  then have lo: "n * 2 ^ (?b - 1) < d" using assms by linarith
  have "d - 1 < n * 2 ^ ?b" using bit_len_upper [of "(d - 1) div n"] assms by (simp add: div_less_iff_less_mult mult.commute)
  then have hi: "d \<le> n * 2 ^ ?b" by linarith
  have "has_exp n d (1 - int ?b)" using b lo hi by (simp add: has_exp_def nat_diff_distrib')
  then show ?thesis ..
qed

lemma has_exp_nat: "0 < n \<Longrightarrow> has_exp n (2 ^ k) (int (bit_len n) - int k)"
proof -
  assume n: "0 < n"
  have l: "2 ^ (bit_len n - 1) \<le> n" "n < 2 ^ bit_len n" using bit_len_lower [OF n] bit_len_upper by simp_all
  have b: "0 < bit_len n" using n by simp
  define e0 where "e0 = int (bit_len n) - int k"
  have "k + nat (e0 - 1) = (bit_len n - 1) + nat (1 - e0)" using b unfolding e0_def by linarith
  then have "(2::nat) ^ k * 2 ^ nat (e0 - 1) = 2 ^ (bit_len n - 1) * 2 ^ nat (1 - e0)" by (simp only: power_add [symmetric])
  then have 1: "2 ^ k * 2 ^ nat (e0 - 1) \<le> n * 2 ^ nat (1 - e0)" using l(1) by simp
  have "bit_len n + nat (- e0) = k + nat e0" unfolding e0_def by linarith
  then have "(2::nat) ^ bit_len n * 2 ^ nat (- e0) = 2 ^ k * 2 ^ nat e0" by (simp only: power_add [symmetric])
  then have "n * 2 ^ nat (- e0) < 2 ^ k * 2 ^ nat e0" using l(2) by (metis mult_less_mono1 zero_less_numeral zero_less_power)
  with 1 show ?thesis by (simp add: has_exp_def e0_def)
qed

lemma powr_base_int:
  assumes "0 < r"
  shows "real r powr (of_int e) = real r ^ nat e / real r ^ nat (- e)"
proof (cases "0 \<le> e")
  case True
  then have "real r powr (of_int e) = real r powr (real (nat e))" by simp
  also have "\<dots> = real r ^ nat e" by (rule powr_realpow) (use assms in simp)
  finally show ?thesis using True by simp
next
  case False
  then have "real r powr (of_int e) = 1 / real r powr (real (nat (- e)))" by (simp add: powr_minus_divide [symmetric])
  also have "real r powr (real (nat (- e))) = real r ^ nat (- e)" by (rule powr_realpow) (use assms in simp)
  finally show ?thesis using False by simp
qed

lemma powr_int_nat: "2 powr (of_int e) = (2 :: real) ^ nat e / 2 ^ nat (- e)"
  using powr_base_int [of 2 e] by simp

lemma has_exp_real:
  assumes "0 < d"
  shows "has_exp n d e0 \<longleftrightarrow> 2 powr (of_int e0 - 1) \<le> real n / real d \<and> real n / real d < 2 powr (of_int e0)"
proof -
  have p: "of_int e0 - 1 = (of_int (e0 - 1) :: real)" by simp
  have "2 powr (of_int e0 - 1) \<le> real n / real d \<longleftrightarrow> real (d * 2 ^ nat (e0 - 1)) \<le> real (n * 2 ^ nat (1 - e0))"
    unfolding p powr_int_nat using assms by (simp add: field_simps)
  moreover have "real n / real d < 2 powr (of_int e0) \<longleftrightarrow> real (n * 2 ^ nat (- e0)) < real (d * 2 ^ nat e0)"
    unfolding powr_int_nat using assms by (simp add: field_simps)
  ultimately show ?thesis unfolding has_exp_def by (simp only: of_nat_le_iff of_nat_less_iff)
qed

lemma has_exp_unique:
  assumes "0 < d" and "has_exp n d e" and "has_exp n d e'"
  shows "e = e'"
proof -
  have le: "e' \<le> e" if "has_exp n d e" "has_exp n d e'" for e e'
  proof (rule ccontr)
    assume "\<not> ?thesis"
    then have "2 powr (of_int e) \<le> (2 :: real) powr (of_int e' - 1)" by simp
    moreover have "real n / real d < 2 powr (of_int e)" "2 powr (of_int e' - 1) \<le> real n / real d"
      using that unfolding has_exp_real [OF assms(1)] by simp_all
    ultimately show False by linarith
  qed
  show ?thesis using le [OF assms(2,3)] le [OF assms(3,2)] by simp
qed

section \<open>Rounding of a number\<close>

lemma d_units_bound:
  assumes "has_exp n d e0" and "0 < d"
  shows "d_units rnd n d e0 * 2 ^ nat (53 - d_prec e0) \<le> 2 ^ 53"
proof -
  define p where "p = d_prec e0"
  have p53: "p \<le> 53" by (simp add: p_def d_prec_def)
  let ?n = "n * 2 ^ nat (p - e0)" and ?d = "d * 2 ^ nat (e0 - p)"
  have lt: "?n * 2 ^ nat (- p) < ?d * 2 ^ nat p"
  proof -
    have "real n / real d < 2 powr (of_int e0)" using assms by (simp add: has_exp_real)
    then have "real n / real d * 2 powr (of_int (p - e0)) < 2 powr (of_int e0) * 2 powr (of_int (p - e0))"
      by (rule mult_strict_right_mono) simp
    also have "\<dots> = 2 powr (of_int p)" by (simp flip: powr_add)
    finally have "real n * 2 ^ nat (p - e0) * 2 ^ nat (- p) < real d * 2 ^ nat (e0 - p) * 2 ^ nat p"
      unfolding powr_int_nat using assms(2) by (simp add: field_simps)
    then have "real (?n * 2 ^ nat (- p)) < real (?d * 2 ^ nat p)" by simp
    then show ?thesis by (simp only: of_nat_less_iff)
  qed
  show ?thesis
  proof (cases "0 \<le> p")
    case True
    then have "?n < ?d * 2 ^ nat p" using lt by simp
    then have "d_units rnd n d e0 \<le> 2 ^ nat p" unfolding d_units_def p_def [symmetric] by (rule round_div_le)
    then have "d_units rnd n d e0 * 2 ^ nat (53 - p) \<le> 2 ^ nat p * 2 ^ nat (53 - p)" by (rule mult_le_mono1)
    also have "\<dots> = 2 ^ 53" using True p53 by (simp flip: power_add nat_add_distrib)
    finally show ?thesis by (simp only: p_def)
  next
    case False
    have "?n * 2 \<le> ?n * 2 ^ nat (- p)" using False by (intro mult_le_mono2) (cases "nat (- p)", simp_all)
    also have "\<dots> < ?d" using lt False by simp
    finally have "2 * ?n < ?d" by (simp add: mult.commute)
    then have "d_units rnd n d e0 = 0" unfolding d_units_def p_def [symmetric] by (rule round_div_0)
    then show ?thesis by simp
  qed
qed

lemma round_to_d_units:
  assumes a: "mpb_ok a" "0 < mp_val a" and e0: "e0 = int (bit_len (mp_val a)) - eo" "- 1085 < e0"
    and k: "mp_val (mpb_shr_round a (int (bit_len (mp_val a)) - d_prec e0) rnd) = k"
    and okr: "mpb_ok (mpb_shr_round a (int (bit_len (mp_val a)) - d_prec e0) rnd)"
    and b: "k * 2 ^ nat (53 - d_prec e0) \<le> 2 ^ 53"
  shows "round_to_d a eo rnd = Some (d_pair k e0)"
proof -
  define p where "p = d_prec e0"
  define t where "t = mpb_shr_round a (int (bit_len (mp_val a)) - p) rnd"
  have p: "p = (if e0 < - 1021 then 53 - (- 1021 - e0) else 53)" by (simp only: p_def d_prec_def)
  have sh: "\<not> 64 \<le> 53 - p" using e0(2) by (simp add: p)
  have nz: "\<not> (a ! 0 = 0 \<and> length a = 1)" using a by (cases a) auto
  define m where "m = k * 2 ^ nat (53 - p)"
  have m: "m \<le> 2 ^ 53" using b by (simp add: m_def p_def)
  have "k \<le> m" by (simp add: m_def)
  then have "k < 2 ^ 64" using m by simp
  then have ku: "unat (mpb_get_u64 t) = k" using mpb_get_u64_val [of t] okr k by (simp add: t_def p_def)
  have "unat (mpb_get_u64 t) * 2 ^ nat (53 - p) < 2 ^ LENGTH(64)" using m by (simp add: ku m_def [symmetric])
  then have um: "unat (push_bit (nat (53 - p)) (mpb_get_u64 t)) = m"
    using unat_push_bit_small [of "mpb_get_u64 t" "nat (53 - p)"] by (simp only: ku m_def)
  then have wm: "push_bit (nat (53 - p)) (mpb_get_u64 t) = of_nat m" by (metis of_nat_unat ucast_id)
  have ge: "push_bit 53 1 \<le> (of_nat m :: u64) \<longleftrightarrow> 2 ^ 53 \<le> m"
    using um by (simp add: word_le_nat_alt wm)
  have "unat (drop_bit 1 (of_nat m :: u64)) = m div 2" using um unfolding wm by (simp add: unat_drop_bit)
  then have half: "drop_bit 1 (of_nat m :: u64) = of_nat (m div 2)" by (metis of_nat_unat ucast_id)
  have e: "int (bit_len (mp_val a)) - 1 + 1 - eo = e0" using e0 by simp
  have s: "e0 + eo - p = int (bit_len (mp_val a)) - p" using e0 by simp
  show ?thesis
    unfolding round_to_d_def if_not_P [OF nz] mpb_floor_log2_val [OF a] bind.bind_lunit Let_def e p [symmetric] s t_def [symmetric]
      if_not_P [OF sh] wm ge half
    by (simp add: d_pair_def p_def [symmetric] m_def [symmetric])
qed

section \<open>Scaling and rounding\<close>

lemma round_div_real:
  assumes "real n1 / real d1 = real n2 / real d2" and "0 < d1" and "0 < d2"
  shows "round_div rnd n1 d1 = round_div rnd n2 d2"
proof (rule round_div_ratio [OF _ assms(2,3)])
  have "real (n1 * d2) = real (n2 * d1)" using assms by (simp add: field_simps)
  then show "n1 * d2 = n2 * d1" by (simp only: of_nat_eq_iff)
qed

lemma powr_int_diff: "2 powr (of_int (x - y)) = (2 :: real) powr (of_int x) / 2 powr (of_int y)"
  by (simp add: powr_diff)

lemma powr_int_of_nat: "2 powr (of_int (int k)) = (2 :: real) ^ k"
  by (simp add: powr_realpow)

lemma d_units_real:
  assumes "0 < d" and "0 < d'" and "real n' / real d' = real n / real d * 2 powr (of_int (d_prec e0 - e0))"
  shows "d_units rnd n d e0 = round_div rnd n' d'"
  unfolding d_units_def
proof (rule round_div_real)
  show "real (n * 2 ^ nat (d_prec e0 - e0)) / real (d * 2 ^ nat (e0 - d_prec e0)) = real n' / real d'"
    unfolding assms(3) powr_int_nat by simp
qed (use assms(1,2) in simp_all)

lemma has_exp_shift:
  assumes "has_exp x y L" and "0 < y" and "0 < d" and v: "real n / real d = real x / real y * 2 powr (of_int (- eo))"
  shows "has_exp n d (L - eo)"
proof -
  have e: "2 powr (of_int (L - eo) - 1) = (2 :: real) powr (of_int L - 1) * 2 powr (of_int (- eo))"
    "2 powr (of_int (L - eo)) = (2 :: real) powr (of_int L) * 2 powr (of_int (- eo))"
    unfolding powr_add [symmetric] by (simp_all add: algebra_simps)
  show ?thesis
    using assms(1) unfolding has_exp_real [OF assms(2)] has_exp_real [OF assms(3)] v e
    by (intro conjI mult_right_mono mult_strict_right_mono) simp_all
qed

text \<open>The two results of \<open>mul_pow\<close>: \<open>a'\<close> stands for \<open>x / y\<close>, exactly or with a sticky bit.\<close>

lemma round_to_d_exact:
  assumes a: "mpb_ok a'" "0 < mp_val a'" and v: "0 < d" "real n / real d = real (mp_val a') * 2 powr (of_int (- eo))"
    and e0: "has_exp n d e0" "- 1085 < e0"
  shows "round_to_d a' eo rnd = Some (d_pair (d_units rnd n d e0) e0)"
proof -
  define L where "L = int (bit_len (mp_val a'))"
  have "has_exp (mp_val a') (2 ^ 0) L" using has_exp_nat [OF a(2), of 0] by (simp add: L_def)
  then have "has_exp n d (L - eo)" by (rule has_exp_shift) (use v in simp_all)
  then have e: "e0 = L - eo" using has_exp_unique [OF v(1) e0(1)] by blast
  define s where "s = L - d_prec e0"
  let ?n = "n * 2 ^ nat (d_prec e0 - e0)" and ?d = "d * 2 ^ nat (e0 - d_prec e0)"
  have "real ?n / real ?d = real n / real d * 2 powr (of_int (d_prec e0 - e0))" unfolding powr_int_nat by simp
  also have "\<dots> = real (mp_val a') * 2 powr (of_int (- s))" unfolding v(2) by (simp add: s_def e flip: powr_add)
  also have "\<dots> = real (mp_val a') * 2 ^ nat (- s) / 2 ^ nat s" unfolding powr_int_nat by simp
  finally have "real (?n * 2 ^ nat s) = real (mp_val a' * 2 ^ nat (- s) * ?d)" using v(1) by (simp add: field_simps)
  then have eq: "?n * 2 ^ nat s = mp_val a' * 2 ^ nat (- s) * ?d" by (simp only: of_nat_eq_iff)
  have "0 < ?d" using v(1) by simp
  from mpb_shr_round_ratio [OF a this eq, of rnd]
  have "mp_val (mpb_shr_round a' s rnd) = d_units rnd n d e0" "mpb_ok (mpb_shr_round a' s rnd)" by (simp_all add: d_units_def)
  then show ?thesis
    using d_units_bound [OF e0(1) v(1), of rnd] e e0(2) by (intro round_to_d_units [OF a]) (simp_all add: L_def s_def)
qed

lemma sticky_bit_len: "2 \<le> a div b \<Longrightarrow> bit_len (sticky a b) = bit_len (a div b)"
proof -
  assume q: "2 \<le> a div b"
  define q where "q = a div b"
  have "bit_len (q + 1) = bit_len q" if "even q"
  proof -
    have "0 < q" using q by (simp add: q_def)
    note l = bit_len_lower [OF this] bit_len_upper [of q]
    obtain k where k: "bit_len q = Suc k" using \<open>0 < q\<close> by (cases "bit_len q") (auto dest: bit_len_pos)
    have "k \<noteq> 0" using l q k by (cases k) (auto simp: q_def)
    then have "even ((2::nat) ^ Suc k)" by simp
    with that l(2) k have "q + 1 < 2 ^ Suc k" by (metis Suc_eq_plus1 Suc_leI even_Suc le_neq_implies_less)
    with l(1) k show ?thesis by (intro bit_len_unique [where k = k, THEN trans]) simp_all
  qed
  then show ?thesis by (simp add: sticky_def q_def)
qed

lemma round_to_d_sticky:
  assumes a: "mpb_ok a'" "mp_val a' = sticky x y" "0 < y" "2 ^ 55 \<le> x div y"
    and v: "0 < d" "real n / real d = real x / real y * 2 powr (of_int (- eo))"
    and e0: "has_exp n d e0" "- 1085 < e0"
  shows "round_to_d a' eo rnd = Some (d_pair (d_units rnd n d e0) e0)"
proof -
  define q where "q = x div y"
  have q: "(2 :: nat) \<le> 2 ^ 55" "0 < q" using a(4) by (simp_all add: q_def)
  have bl: "bit_len (mp_val a') = bit_len q" unfolding a(2) q_def by (rule sticky_bit_len) (use q(1) a(4) in linarith)
  have pos: "0 < mp_val a'" using a(2) q(2) by (simp add: sticky_def q_def)
  define L where "L = int (bit_len q)"
  have "(2 :: nat) ^ 55 < 2 ^ bit_len q" using a(4) bit_len_upper [of q] unfolding q_def by (rule order.strict_trans1)
  then have "55 < bit_len q" by (rule power_less_imp_less_exp [rotated]) simp
  then have L: "56 \<le> L" by (simp add: L_def)
  have "has_exp x y L"
  proof -
    have "2 ^ (bit_len q - 1) * y \<le> x" using bit_len_lower [OF q(2)] a(3) by (simp add: q_def less_eq_div_iff_mult_less_eq)
    moreover have "x < 2 ^ bit_len q * y" using bit_len_upper [of q] a(3) by (simp add: q_def div_less_iff_less_mult)
    moreover have "nat (L - 1) = bit_len q - 1" by (simp add: L_def nat_diff_distrib')
    ultimately show ?thesis using L by (simp add: has_exp_def mult.commute) (simp add: L_def)
  qed
  then have "has_exp n d (L - eo)" by (rule has_exp_shift [OF _ a(3) v])
  then have e: "e0 = L - eo" using has_exp_unique [OF v(1) e0(1)] by blast
  define s where "s = nat (L - d_prec e0)"
  have s: "2 \<le> s" "int s = L - d_prec e0" using L by (auto simp: s_def d_prec_def)
  have "d_units rnd n d e0 = round_div rnd x (y * 2 ^ s)"
  proof (rule d_units_real [OF v(1)])
    have "real n / real d * 2 powr (of_int (d_prec e0 - e0)) = real x / real y * 2 powr (of_int (- int s))"
      unfolding v(2) by (simp add: s(2) e flip: powr_add)
    also have "\<dots> = real x / real (y * 2 ^ s)" unfolding powr_int_nat by simp
    finally show "real x / real (y * 2 ^ s) = real n / real d * 2 powr (of_int (d_prec e0 - e0))" by simp
  qed (use a(3) in simp)
  also have "\<dots> = round_div rnd (mp_val a') (2 ^ s)" unfolding a(2) by (rule sticky_round [OF a(3) s(1), symmetric])
  finally have u: "mp_val (mpb_shr_round a' (int s) rnd) = d_units rnd n d e0" "mpb_ok (mpb_shr_round a' (int s) rnd)"
    using mpb_shr_round_val [OF a(1), of "int s" rnd] by simp_all
  then show ?thesis
    using d_units_bound [OF e0(1) v(1), of rnd] e e0(2) unfolding s(2)
    by (intro round_to_d_units [OF a(1) pos]) (simp_all add: L_def bl)
qed

lemma mul_pow_round_to_d_val:
  fixes radix1 :: u32 and rs :: nat
  assumes r: "radix1 = 1 \<or> radix1_ok radix1" and a: "mpb_ok a" "0 < mp_val a"
    and R: "R = unat radix1 * 2 ^ rs" and n: "n = scaled_num (mp_val a) 0 R f" and d: "d = scaled_den 0 R f"
    and e0: "has_exp n d e0" "- 1085 < e0"
  shows "mul_pow_round_to_d a radix1 rs f rnd = Some (d_pair (d_units rnd n d e0) e0)"
proof -
  have r0: "0 < unat radix1" using r by (auto simp: radix1_ok_def)
  have d0: "0 < d" using r0 by (simp add: d scaled_den_def R)
  show ?thesis
  proof (cases "0 \<le> f \<or> radix1 = 1")
    case True
    from mul_pow_nonneg [OF r a True, of rs False 55] obtain a' where
      a': "mul_pow a radix1 rs f False 55 = Some (a', - f * int rs)" "mpb_ok a'" "mp_val a' = mp_val a * unat radix1 ^ nat f"
      by blast
    define s where "s = - f * int rs"
    have "n * 2 ^ nat s = mp_val a' * 2 ^ nat (- s) * d"
      using scaled_balance [of f "unat radix1" s 0 rs "mp_val a"] True by (auto simp: s_def a'(3) n d R)
    then have "real (n * 2 ^ nat s) = real (mp_val a' * 2 ^ nat (- s) * d)" by (simp only:)
    then have "real n / real d = real (mp_val a') * (2 ^ nat (- s) / 2 ^ nat (- (- s)))" using d0 by (simp add: field_simps)
    then have v: "real n / real d = real (mp_val a') * 2 powr (of_int (- s))" unfolding powr_int_nat .
    have pos: "0 < mp_val a'" using a'(3) a(2) r0 by simp
    show ?thesis
      unfolding mul_pow_round_to_d_def a'(1) bind.bind_lunit prod.case s_def [symmetric]
      by (rule round_to_d_exact [OF a'(2) pos d0 v e0])
  next
    case False
    then have f: "f < 0" and ok: "radix1_ok radix1" using r by auto
    define F where "F = nat (- f)"
    from mul_pow_neg [OF ok a f, of rs False 55] obtain a' l x where
      a': "mul_pow a radix1 rs f False 55 = Some (a', int (F * rs + 32 * l + x))" "mpb_ok a'"
        "mp_val a' = sticky (mp_val a * 2 ^ (32 * l + x)) (unat radix1 ^ F)"
        "unat radix1 ^ F \<le> 2 ^ (32 * l)"
      and x: "int x = max (55 - (int (bit_len (mp_val a)) - 1)) 0"
      by (auto simp: F_def)
    have y: "0 < unat radix1 ^ F" using r0 by simp
    have big: "2 ^ 55 \<le> mp_val a * 2 ^ (32 * l + x) div unat radix1 ^ F"
    proof -
      have "2 ^ 55 * unat radix1 ^ F \<le> 2 ^ 55 * 2 ^ (32 * l)" using a'(4) by (intro mult_le_mono2)
      also have "\<dots> = 2 ^ (55 + 32 * l)" by (simp only: power_add)
      also have "\<dots> \<le> 2 ^ (bit_len (mp_val a) - 1 + (32 * l + x))" using x by (intro power_increasing) auto
      also have "\<dots> = 2 ^ (bit_len (mp_val a) - 1) * 2 ^ (32 * l + x)" by (simp only: power_add)
      also have "\<dots> \<le> mp_val a * 2 ^ (32 * l + x)" using bit_len_lower [OF a(2)] by (intro mult_le_mono1)
      finally show ?thesis using y by (simp only: less_eq_div_iff_mult_less_eq)
    qed
    have "R ^ F = unat radix1 ^ F * 2 ^ (F * rs)"
      by (simp add: R power_mult_distrib power_mult [symmetric] mult.commute [of rs])
    then have nd: "n = mp_val a" "d = unat radix1 ^ F * 2 ^ (F * rs)"
      using f by (simp_all add: n d scaled_num_def scaled_den_def F_def)
    have "2 powr (of_int (- int (F * rs + 32 * l + x))) = 1 / (2 ^ (F * rs) * (2 :: real) ^ (32 * l + x))"
      unfolding powr_int_nat by (simp add: nat_add_distrib power_add [symmetric] add.assoc flip: of_nat_mult of_nat_add)
    then have v: "real n / real d = real (mp_val a * 2 ^ (32 * l + x)) / real (unat radix1 ^ F) * 2 powr (of_int (- int (F * rs + 32 * l + x)))"
      unfolding nd by simp
    show ?thesis
      unfolding mul_pow_round_to_d_def a'(1) bind.bind_lunit prod.case
      by (rule round_to_d_sticky [OF a'(2,3) y big d0 v e0])
  qed
qed

section \<open>Correct rounding\<close>

lemma round_div_half:
  assumes "0 < d" and "rnd \<noteq> JS_RNDZ"
  shows "\<bar>real (round_div rnd n d) - real n / real d\<bar> \<le> 1 / 2"
proof -
  define q r where "q = n div d" and "r = n mod d"
  have r: "r < d" using assms(1) by (simp add: r_def)
  have "real n = real q * real d + real r" unfolding q_def r_def by (simp flip: of_nat_mult of_nat_add)
  then have v: "real n / real d = real q + real r / real d" using assms(1) by (simp add: field_simps)
  have "2 * real r \<le> real d \<Longrightarrow> real r / real d \<le> 1 / 2" "real d \<le> 2 * real r \<Longrightarrow> 1 / 2 \<le> real r / real d" "real r / real d < 1" "0 \<le> real r / real d"
    using assms(1) r by (simp_all add: field_simps)
  moreover have "d < 2 * r \<Longrightarrow> real d \<le> 2 * real r" "d \<le> 2 * r \<Longrightarrow> real d \<le> 2 * real r" "\<not> d < 2 * r \<Longrightarrow> 2 * real r \<le> real d"
    "\<not> d \<le> 2 * r \<Longrightarrow> 2 * real r \<le> real d" by linarith+
  ultimately show ?thesis
    unfolding v round_div_def q_def [symmetric] r_def [symmetric] using assms by (cases rnd) (auto simp: abs_le_iff split: if_splits)
qed

text \<open>The value of the pair, and its distance from the exact value.\<close>

lemma d_pair_value:
  assumes "d_pair k e0 = (m, e)" and "k * 2 ^ nat (53 - d_prec e0) \<le> 2 ^ 53"
  shows "real (unat m) * 2 powr (of_int (e - 53)) = real k * 2 powr (of_int (e0 - d_prec e0))" and "unat m < 2 ^ 53"
proof -
  define M where "M = k * 2 ^ nat (53 - d_prec e0)"
  have p: "d_prec e0 \<le> 53" by (simp add: d_prec_def)
  have u: "unat (of_nat x :: u64) = x" if "x \<le> 2 ^ 53" for x
    using that by (simp add: unsigned_of_nat take_bit_nat_eq_self)
  have "real M * 2 powr (of_int (e0 - 53)) = real k * 2 powr (of_int (e0 - d_prec e0))"
  proof -
    have "(2 :: real) ^ nat (53 - d_prec e0) = 2 powr (of_int (53 - d_prec e0))" unfolding powr_int_nat using p by simp
    then have "real M * 2 powr (of_int (e0 - 53)) = real k * (2 powr (of_int (53 - d_prec e0)) * 2 powr (of_int (e0 - 53)))"
      by (simp add: M_def)
    also have "\<dots> = real k * 2 powr (of_int (e0 - d_prec e0))" unfolding powr_add [symmetric] by simp
    finally show ?thesis .
  qed
  moreover have "unat m < 2 ^ 53 \<and> real (unat m) * 2 powr (of_int (e - 53)) = real M * 2 powr (of_int (e0 - 53))"
  proof (cases "2 ^ 53 \<le> M")
    case True
    then have M: "M = 2 ^ 53" using assms(2) by (simp add: M_def)
    then have m: "m = of_nat (2 ^ 52)" "e = e0 + 1" using assms(1) by (simp_all add: d_pair_def M_def [symmetric])
    have "real (unat m) = 2 ^ 52" unfolding m(1) using u [of "2 ^ 52"] by simp
    moreover have "2 powr (of_int (e - 53)) = (2 :: real) powr (of_int (e0 - 53)) * 2" unfolding m(2) by (simp add: powr_add [symmetric] powr_mult_base algebra_simps)
    ultimately show ?thesis using u [of "2 ^ 52"] by (simp add: M m(1))
  next
    case False
    then have "m = of_nat M" "e = e0" using assms(1) by (simp_all add: d_pair_def M_def [symmetric])
    with False u [of M] show ?thesis by simp
  qed
  ultimately show "real (unat m) * 2 powr (of_int (e - 53)) = real k * 2 powr (of_int (e0 - d_prec e0))" "unat m < 2 ^ 53"
    by simp_all
qed

lemma d_units_error:
  assumes "0 < d" and "rnd \<noteq> JS_RNDZ"
  shows "\<bar>real (d_units rnd n d e0) * 2 powr (of_int (e0 - d_prec e0)) - real n / real d\<bar> \<le> 2 powr (of_int (e0 - d_prec e0)) / 2"
proof -
  let ?n = "n * 2 ^ nat (d_prec e0 - e0)" and ?d = "d * 2 ^ nat (e0 - d_prec e0)" and ?u = "2 powr (of_int (e0 - d_prec e0)) :: real"
  have "real ?n / real ?d = real n / real d * 2 powr (of_int (d_prec e0 - e0))" unfolding powr_int_nat by simp
  also have "\<dots> = real n / real d / ?u" by (simp add: powr_diff)
  finally have e: "real ?n / real ?d * ?u = real n / real d" by simp
  have "\<bar>real (d_units rnd n d e0) - real ?n / real ?d\<bar> * ?u \<le> 1 / 2 * ?u"
    unfolding d_units_def using assms by (intro mult_right_mono round_div_half) simp_all
  moreover have "\<bar>real (d_units rnd n d e0) - real ?n / real ?d\<bar> * ?u = \<bar>(real (d_units rnd n d e0) - real ?n / real ?d) * ?u\<bar>"
    by (simp add: abs_mult)
  ultimately show ?thesis unfolding left_diff_distrib e by linarith
qed

text \<open>
  C26: \<open>mul_pow_round\<close> returns the integer nearest to \<open>m * 2^e * radix^f\<close>, rounded exactly once
  in the mode asked for: halves go to the even integer or away from zero.
\<close>

theorem mul_pow_round_correct:
  assumes "radix1 = 1 \<or> radix1_ok radix1" and "m \<noteq> 0" and "rnd \<noteq> JS_RNDZ"
  shows "\<exists>t. mul_pow_round m e radix1 rs f rnd = Some t \<and> mpb_ok t
    \<and> mp_val t = round_div rnd (scaled_num (unat m) e (unat radix1 * 2 ^ rs) f) (scaled_den e (unat radix1 * 2 ^ rs) f)
    \<and> \<bar>real (mp_val t) - real (unat m) * 2 powr (of_int e) * real (unat radix1 * 2 ^ rs) powr (of_int f)\<bar> \<le> 1 / 2"
proof -
  define R where "R = unat radix1 * 2 ^ rs"
  have R: "0 < R" using assms(1) by (auto simp: R_def radix1_ok_def)
  obtain t where t: "mul_pow_round m e radix1 rs f rnd = Some t" "mpb_ok t"
      "mp_val t = round_div rnd (scaled_num (unat m) e R f) (scaled_den e R f)"
    using mul_pow_round_val [OF assms(1,2), of e rs f rnd] by (auto simp: R_def)
  have d: "0 < scaled_den e R f" using R by (simp add: scaled_den_def)
  have "real (unat m) * 2 powr (of_int e) * real R powr (of_int f) = real (scaled_num (unat m) e R f) / real (scaled_den e R f)"
    unfolding scaled_num_def scaled_den_def powr_int_nat powr_base_int [OF R] by simp
  then show ?thesis using t round_div_half [OF d assms(3), of "scaled_num (unat m) e R f"] by (simp add: R_def)
qed

lemma mul_pow_round_correct_witness:
  "\<exists>t. mul_pow_round 7 (- 1) 5 1 0 JS_RNDNA = Some t \<and> mp_val t = 4"
proof -
  have "radix1_ok 5" by (simp add: radix1_ok_def)
  then obtain t where "mul_pow_round 7 (- 1) 5 1 0 JS_RNDNA = Some t"
      "mp_val t = round_div JS_RNDNA (scaled_num (unat (7 :: u64)) (- 1) (unat (5 :: u32) * 2 ^ 1) 0) (scaled_den (- 1) (unat (5 :: u32) * 2 ^ 1) 0)"
    using mul_pow_round_correct [of 5 7 JS_RNDNA "- 1" 1 0] by auto
  then show ?thesis by (simp add: round_div_def scaled_num_def scaled_den_def)
qed



end
