(* ===== verification/Dtoa_Text.thy ===== *)
theory Dtoa_Text
  imports Dtoa_Double
begin

text \<open>
  The texts that \<open>js_dtoa\<close> of \<open>src/dtoa.c\<close> writes: \<open>output_digits\<close> prints the digits of a
  number with a dot, the fractional format prints the number rounded to the requested
  digits, and special values have their fixed texts.
\<close>

section \<open>Digits\<close>

lemma fixed_digits_append: "fixed_digits b (k + n) v = fixed_digits b k (v div b ^ n) @ fixed_digits b n v"
proof (induction n arbitrary: v)
  case (Suc n)
  then show ?case by (simp add: div_mult2_eq [symmetric] power_Suc)
qed simp

lemma fixed_digits_mod: "n \<le> k \<Longrightarrow> fixed_digits b n (v mod b ^ k) = fixed_digits b n v"
proof (induction n arbitrary: v k)
  case (Suc n)
  then obtain j where k: "k = Suc j" "n \<le> j" by (cases k) auto
  have "v mod b ^ k div b = v div b mod b ^ j"
    by (simp only: k power_Suc mod_mult2_eq) (cases "b = 0"; simp)
  moreover have "v mod b ^ k mod b = v mod b" by (rule mod_mod_cancel) (simp add: k)
  ultimately show ?case using Suc.IH [OF k(2)] by simp
qed simp

lemma length_fixed_digits [simp]: "length (fixed_digits b n v) = n"
  by (induction n arbitrary: v) simp_all

lemma digits_per_limb_pow2:
  assumes "unat radix = 2 ^ rb" "0 < rb" "rb \<le> 5"
  defines "d \<equiv> digits_per_limb_table ! (unat radix - 2)"
  shows "0 < d" and "d * rb \<le> 32"
proof -
  have "rb \<in> {1, 2, 3, 4, 5}" using assms(2,3) by auto
  then have "0 < digits_per_limb_table ! (2 ^ rb - 2) \<and> digits_per_limb_table ! (2 ^ rb - 2) * rb \<le> 32"
    by (auto simp: digits_per_limb_table_def)
  then show "0 < d" "d * rb \<le> 32" by (simp_all add: d_def assms(1))
qed

lemma output_digits_bin_val:
  assumes rb: "0 < rb" "rb \<le> 5" and d: "0 < d" "d * rb \<le> 32"
  shows "mpb_ok a \<Longrightarrow> output_digits_bin a rb d n = map digit_char (fixed_digits (2 ^ rb) n (mp_val a))"
proof (induction n arbitrary: a rule: less_induct)
  case (less n)
  define k where "k = min n d"
  obtain x xs where a: "a = x # xs" using less.prems by (cases a) (auto simp: mpb_ok_def)
  have "k * rb \<le> d * rb" by (intro mult_le_mono1) (simp add: k_def)
  with d(2) have kr: "k * rb \<le> 32" by (rule order_trans [rotated])
  have low: "u64toa_bin_len (ucast (a ! 0)) rb k = map digit_char (fixed_digits (2 ^ rb) k (mp_val a))"
  proof -
    have "mp_val a mod 2 ^ 32 mod (2 ^ rb) ^ k = mp_val a mod (2 ^ rb) ^ k"
      unfolding power_mult [symmetric] using kr by (intro mod_mod_cancel le_imp_power_dvd) (simp add: mult.commute)
    then have "fixed_digits (2 ^ rb) k (mp_val a mod 2 ^ 32) = fixed_digits (2 ^ rb) k (mp_val a)"
      by (metis fixed_digits_mod order_refl)
    moreover have "unat (ucast (a ! 0) :: u64) = mp_val a mod 2 ^ 32" using mp_val_Cons_div_mod(1) [of x xs] by (simp add: a)
    ultimately show ?thesis by (simp only: u64toa_bin_len_digits [OF rb(2)])
  qed
  show ?case
  proof (cases "n \<le> d")
    case True
    then have "k = n" by (simp add: k_def)
    with low True show ?thesis by (subst output_digits_bin.simps) (simp add: Let_def)
  next
    case False
    then have k: "k = d" "n - k \<noteq> 0" "n - d < n" using d(1) by (simp_all add: k_def)
    define a1 where "a1 = mpb_shr_round a (int (d * rb)) JS_RNDZ"
    have a1: "mpb_ok a1" "mp_val a1 = mp_val a div (2 ^ rb) ^ d"
      using mpb_shr_round_val [OF less.prems, of "int (d * rb)" JS_RNDZ]
      by (simp_all add: a1_def round_div_def nat_mult_distrib power_mult [symmetric] mult.commute del: of_nat_mult)
    have "output_digits_bin a rb d n = output_digits_bin a1 rb d (n - d) @ u64toa_bin_len (ucast (a ! 0)) rb d"
      using False d(1) by (subst output_digits_bin.simps) (simp add: Let_def a1_def)
    also have "\<dots> = map digit_char (fixed_digits (2 ^ rb) (n - d + d) (mp_val a))"
      using less.IH [OF k(3) a1(1)] a1(2) low k(1) by (simp add: fixed_digits_append)
    finally show ?thesis using False by simp
  qed
qed

lemma radix_base_fits:
  assumes "2 \<le> unat radix" "unat radix \<le> 36" "unat radix \<notin> {2, 4, 8, 16, 32}"
  defines "d \<equiv> digits_per_limb_table ! (unat radix - 2)"
  shows "0 < d" and "unat (radix_base_table ! (unat radix - 2)) = unat radix ^ d"
proof -
  let ?R = "[3, 5, 6, 7, 9, 10, 11, 12, 13, 14, 15, 17, 18, 19, 20, 21, 22, 23, 24, 25, 26, 27, 28, 29, 30, 31, 33, 34, 35, 36] :: nat list"
  let ?P = "\<lambda>r. 0 < digits_per_limb_table ! (r - 2) \<and> unat (radix_base_table ! (r - 2)) = r ^ (digits_per_limb_table ! (r - 2))"
  have "list_all ?P ?R" by (simp add: digits_per_limb_table_def radix_base_table_def)
  moreover have "unat radix \<in> set ?R" using assms(1-3) by (simp, presburger)
  ultimately have "?P (unat radix)" by (simp only: list_all_iff)
  then show "0 < d" "unat (radix_base_table ! (unat radix - 2)) = unat radix ^ d" unfolding d_def by blast+
qed

lemma output_digits_div_val:
  assumes r: "2 \<le> unat radix" "unat radix \<le> 36" "unat radix \<notin> {2, 4, 8, 16, 32}"
    and d: "d = digits_per_limb_table ! (unat radix - 2)"
  shows "mpb_ok a \<Longrightarrow> output_digits_div a radix d n = map digit_char (fixed_digits (unat radix) n (mp_val a))"
proof (induction n arbitrary: a rule: less_induct)
  case (less n)
  note b = radix_base_fits [OF r, folded d]
  show ?case
  proof (cases "n = 0")
    case False
    define k where "k = min n d"
    have k: "0 < k" "k \<le> n" "k \<le> d" using False b(1) by (simp_all add: k_def)
    let ?b = "radix_base_table ! (unat radix - 2)"
    obtain x q where q: "mp_div1 a ?b 0 = (x, q)" by fastforce
    have "0 < unat ?b" using r(1) by (simp add: b(2))
    then have "0 < ?b" by (simp add: word_less_nat_alt)
    from mp_div1_val [OF q this] have v: "mp_val a = mp_val q * unat radix ^ d + unat x" "unat x < unat radix ^ d"
      by (simp_all add: b(2) word_less_nat_alt)
    then have x: "unat x = mp_val a mod unat radix ^ d" by simp
    have qv: "mp_val q = mp_val a div unat radix ^ d" unfolding v(1) using v(2) r(1) by (subst div_mult_self3) simp_all
    have "q \<noteq> []" using mp_div1_length [OF q] less.prems by (auto simp: mpb_ok_def)
    then have ok: "mpb_ok (mpb_renorm q)" by (rule mpb_renorm_ok)
    have low: "limb_to_a x radix k = map digit_char (fixed_digits (unat radix) k (mp_val a))"
      unfolding limb_to_a_digits [OF r(1,2)] x by (simp add: fixed_digits_mod [OF k(3)])
    have "output_digits_div a radix d n = output_digits_div (mpb_renorm q) radix d (n - k) @ limb_to_a x radix k"
      using False b(1) q by (subst output_digits_div.simps) (simp add: k_def Let_def)
    also have "\<dots> = map digit_char (fixed_digits (unat radix) (n - k) (mp_val q) @ fixed_digits (unat radix) k (mp_val a))"
      using less.IH [of "n - k" "mpb_renorm q"] ok k low by simp
    also have "fixed_digits (unat radix) (n - k) (mp_val q) = fixed_digits (unat radix) (n - k) (mp_val a div unat radix ^ k)"
    proof (cases "n \<le> d")
      case True
      then show ?thesis by (simp add: k_def)
    next
      case False
      then show ?thesis by (simp add: k_def qv)
    qed
    also have "fixed_digits (unat radix) (n - k) (mp_val a div unat radix ^ k) @ fixed_digits (unat radix) k (mp_val a)
        = fixed_digits (unat radix) n (mp_val a)"
      using fixed_digits_append [of "unat radix" "n - k" k "mp_val a"] k(2) by simp
    finally show ?thesis .
  qed (subst output_digits_div.simps, simp)
qed

text \<open>\<open>n\<close> digits with a dot after the first \<open>dot\<close>, unless it would be the last character.\<close>

definition dotted :: "nat \<Rightarrow> u8 list \<Rightarrow> u8 list" where
  "dotted dot s = (if dot \<noteq> length s then take dot s @ 0x2e # drop dot s else s)"

lemma output_digits_val:
  assumes r: "2 \<le> unat radix" "unat radix \<le> 36" and a: "mpb_ok a"
  shows "output_digits a radix n dot = Some (dotted dot (map digit_char (fixed_digits (unat radix) n (mp_val a))))"
proof (cases "radix AND (radix - 1) = 0")
  case True
  then obtain rb where rb: "unat radix = 2 ^ rb" "0 < rb" "rb \<le> 5" using pow2_radix [OF r] by blast
  note d = digits_per_limb_pow2 [OF rb]
  show ?thesis
    using True rb pow2_clz32 [OF rb] output_digits_bin_val [OF rb(2,3) d a, of n]
    by (simp add: output_digits_def dotted_def Let_def)
next
  case False
  then have "unat radix \<notin> {2, 4, 8, 16, 32}" using pow2_test [OF r] by blast
  from output_digits_div_val [OF r this refl a, of n] False show ?thesis
    by (simp add: output_digits_def dotted_def Let_def)
qed

section \<open>The fields of a double\<close>

text \<open>The magnitude of a finite double as mantissa and exponent of two, as IEEE 754 defines it.\<close>

definition double_mag :: "u64 \<Rightarrow> nat \<times> int" where
  "double_mag d =
     (let e = unat d div 2 ^ 52 mod 2 ^ 11; f = unat d mod 2 ^ 52
      in if e = 0 then (f, - 1074) else (2 ^ 52 + f, int e - 1075))"

definition double_abs :: "u64 \<Rightarrow> real" where
  "double_abs d = (case double_mag d of (m, e) \<Rightarrow> real m * 2 powr (of_int e))"

definition finite_double :: "u64 \<Rightarrow> bool" where
  "finite_double d \<longleftrightarrow> unat d div 2 ^ 52 mod 2 ^ 11 \<noteq> 2047"

definition zero_double :: "u64 \<Rightarrow> bool" where
  "zero_double d \<longleftrightarrow> unat d mod 2 ^ 63 = 0"

lemma double_fields:
  fixes d :: u64
  shows "unat (drop_bit 52 d AND 0x7ff) = unat d div 2 ^ 52 mod 2 ^ 11" and "unat (d AND (push_bit 52 1 - 1)) = unat d mod 2 ^ 52"
proof -
  have m: "(0x7ff :: u64) = mask 11" "push_bit 52 1 - 1 = (mask 52 :: u64)" by (simp_all add: mask_eq_exp_minus_1)
  show "unat (drop_bit 52 d AND 0x7ff) = unat d div 2 ^ 52 mod 2 ^ 11" unfolding m by (simp only: unat_and_mask unat_drop_bit)
  show "unat (d AND (push_bit 52 1 - 1)) = unat d mod 2 ^ 52" unfolding m by (simp only: unat_and_mask)
qed

lemma zero_double_iff: "zero_double d \<longleftrightarrow> unat d div 2 ^ 52 mod 2 ^ 11 = 0 \<and> unat d mod 2 ^ 52 = 0"
proof -
  have "unat d mod (2 ^ 52 * 2 ^ 11) = 2 ^ 52 * (unat d div 2 ^ 52 mod 2 ^ 11) + unat d mod 2 ^ 52" by (rule mod_mult2_eq)
  moreover have "(2::nat) ^ 52 * 2 ^ 11 = 2 ^ 63" by simp
  ultimately show ?thesis by (simp add: zero_double_def)
qed

lemma dtoa_decode_val:
  assumes "finite_double d" and "\<not> zero_double d"
  shows "\<exists>m e. dtoa_decode d = Some (m, e) \<and> 2 ^ 52 \<le> unat m \<and> unat m < 2 ^ 53 \<and> - 1073 \<le> e \<and> e \<le> 1024
    \<and> double_abs d = real (unat m) * 2 powr (of_int (e - 53)) \<and> 2 ^ nat (- 1021 - e) dvd unat m
    \<and> (if unat d div 2 ^ 52 mod 2 ^ 11 = 0 then e < - 1021 \<and> unat m = unat d mod 2 ^ 52 * 2 ^ nat (- 1021 - e)
        else e = int (unat d div 2 ^ 52 mod 2 ^ 11) - 1022 \<and> unat m = unat d mod 2 ^ 52 + 2 ^ 52)"
proof -
  define E f where "E = unat d div 2 ^ 52 mod 2 ^ 11" and "f = unat d mod 2 ^ 52"
  have f: "f < 2 ^ 52" by (simp add: f_def)
  have "E < 2 ^ 11" by (simp add: E_def)
  then have E: "E < 2047" using assms(1) unfolding finite_double_def E_def [symmetric] by simp
  let ?m = "d AND (push_bit 52 1 - 1)"
  have um: "unat ?m = f" using double_fields(2) [of d] by (simp only: f_def)
  have ue: "uint (drop_bit 52 d AND 0x7ff) = int E" using double_fields(1) [of d] by (simp only: E_def) (metis uint_nat)
  show ?thesis
  proof (cases "E = 0")
    case True
    have f0: "0 < f" using True assms(2) unfolding zero_double_iff E_def [symmetric] f_def [symmetric] by simp
    define l where "l = 53 - bit_len f"
    have b: "0 < bit_len f" "bit_len f \<le> 52" using f0 f by (simp_all add: bit_len_le_iff)
    have fb: "2 ^ (bit_len f - 1) \<le> f" "f < 2 ^ bit_len f" using bit_len_lower [OF f0] bit_len_upper [of f] by simp_all
    have l: "1 \<le> l" "l \<le> 52" "l + bit_len f = 53" using b by (simp_all add: l_def)
    have "f * 2 ^ l < 2 ^ bit_len f * 2 ^ l" using fb(2) by simp
    also have "\<dots> = 2 ^ 53" using l(3) by (simp flip: power_add add: add.commute)
    finally have hi: "f * 2 ^ l < 2 ^ 53" .
    have "bit_len f - 1 + l = 52" using l b by simp
    then have "(2::nat) ^ 52 = 2 ^ (bit_len f - 1) * 2 ^ l" by (simp only: power_add [symmetric])
    also have "\<dots> \<le> f * 2 ^ l" using fb(1) by (rule mult_le_mono1)
    finally have lo: "2 ^ 52 \<le> f * 2 ^ l" .
    have pm: "unat (push_bit l ?m) = f * 2 ^ l"
      using unat_push_bit_small [of ?m l] hi unfolding um by simp
    have "?m \<noteq> 0" using um f0 by auto
    then have "dtoa_decode d = Some (push_bit l ?m, - (int l - 1) - 1022)"
      using True um b unfolding dtoa_decode_def Let_def ue by (simp add: clz64_def l_def)
    moreover have "double_abs d = real (f * 2 ^ l) * 2 powr (of_int (- (int l - 1) - 1022 - 53))"
    proof -
      have "(2::real) ^ l * 2 powr (of_int (- (int l - 1) - 1022 - 53)) = 2 powr (of_int (- 1074))"
        unfolding powr_int_of_nat [symmetric] powr_add [symmetric] by simp
      then show ?thesis
        using True unfolding double_abs_def double_mag_def Let_def E_def [symmetric] f_def [symmetric] by (simp add: mult.assoc)
    qed
    ultimately show ?thesis unfolding E_def [symmetric] f_def [symmetric] using lo hi l pm True
      by (intro exI [of _ "push_bit l ?m"] exI) auto
  next
    case False
    have "unat (?m OR push_bit 52 1) = f + 2 ^ 52"
      using unat_or_high [of ?m 52 "push_bit 52 1" 1] um f by simp
    moreover have "dtoa_decode d = Some (?m OR push_bit 52 1, int E - 1022)"
      using False unfolding dtoa_decode_def Let_def ue by simp
    moreover have "double_abs d = real (f + 2 ^ 52) * 2 powr (of_int (int E - 1022 - 53))"
      using False unfolding double_abs_def double_mag_def Let_def E_def [symmetric] f_def [symmetric] by (simp add: add.commute)
    ultimately show ?thesis unfolding E_def [symmetric] f_def [symmetric] using f E False
      by (intro exI [of _ "?m OR push_bit 52 1"] exI [of _ "int E - 1022"]) simp
  qed
qed

text \<open>The radix and its odd part.\<close>

lemma radix_split:
  assumes "2 \<le> unat radix" "unat radix \<le> 36"
  shows "\<exists>rs. ctz32 radix = Some rs \<and> unat radix = unat (drop_bit rs radix) * 2 ^ rs \<and> (drop_bit rs radix = 1 \<or> radix1_ok (drop_bit rs radix))"
proof -
  define rs where "rs = low_zeros (unat radix)"
  obtain m where m: "odd m" "unat radix = 2 ^ rs * m" using low_zeros_factor [of "unat radix"] assms(1) by (auto simp: rs_def)
  have u: "unat (drop_bit rs radix) = m" unfolding unat_drop_bit using m(2) by simp
  have "radix \<noteq> 0" using assms(1) by auto
  then have "ctz32 radix = Some rs" by (simp add: ctz32_def rs_def)
  moreover have "drop_bit rs radix = 1 \<or> radix1_ok (drop_bit rs radix)"
  proof (cases "m = 1")
    case True
    then show ?thesis using u by (simp add: word_unat_eq_iff)
  next
    case False
    have "m \<le> unat radix" using m(2) by simp
    with assms(2) m(1) False have "3 \<le> m" "m \<le> 35" by presburger+
    with m(1) u show ?thesis by (simp add: radix1_ok_def)
  qed
  ultimately show ?thesis using m(2) u by (simp add: mult.commute)
qed

text \<open>The estimate of the number of digits in front of the dot.\<close>

lemma digit_estimate:
  assumes "2 \<le> R" and E: "E = 1 + \<lfloor>of_int (e - 1) / log 2 (real R)\<rfloor>"
  shows "real R powr (of_int (E - 1)) \<le> 2 powr (of_int (e - 1))" and "2 powr (of_int (e - 1)) < real R powr (of_int E)"
    and "R = 2 \<Longrightarrow> E = e"
proof -
  have l: "0 < log 2 (real R)" using assms(1) by simp
  have p: "real R powr x = 2 powr (log 2 (real R) * x)" for x
  proof -
    have "real R = 2 powr (log 2 (real R))" using assms(1) by simp
    then show ?thesis by (metis powr_powr)
  qed
  have f: "of_int (E - 1) \<le> of_int (e - 1) / log 2 (real R)" "of_int (e - 1) / log 2 (real R) < of_int E"
    unfolding E by linarith+
  show "real R powr (of_int (E - 1)) \<le> 2 powr (of_int (e - 1))"
    unfolding p using f(1) l by (simp add: pos_le_divide_eq mult.commute)
  show "2 powr (of_int (e - 1)) < real R powr (of_int E)"
    unfolding p using f(2) l by (simp add: pos_divide_less_eq mult.commute)
  show "R = 2 \<Longrightarrow> E = e" by (simp add: E)
qed

text \<open>A number with \<open>n\<close> digits after the dot.\<close>

definition frac_text :: "nat \<Rightarrow> nat \<Rightarrow> nat \<Rightarrow> u8 list" where
  "frac_text R n N =
     map digit_char (radix_digits R (N div R ^ n)) @
     (if n = 0 then [] else 0x2e # map digit_char (fixed_digits R n (N mod R ^ n)))"

lemma digit_char_0: "d < 36 \<Longrightarrow> digit_char d = 0x30 \<longleftrightarrow> d = 0"
  and digit_char_not_dot: "d < 36 \<Longrightarrow> digit_char d \<noteq> 0x2e"
proof -
  assume d: "d < 36"
  have u: "unat (digit_char d) = (if d < 10 then d + 0x30 else d + 0x57)"
    using d by (simp add: digit_char_def unsigned_of_nat take_bit_nat_eq_self)
  show "digit_char d = 0x30 \<longleftrightarrow> d = 0" unfolding word_unat_eq_iff u using d by auto
  show "digit_char d \<noteq> 0x2e" unfolding word_unat_eq_iff u using d by auto
qed

lemma fixed_digits_less: "0 < b \<Longrightarrow> d \<in> set (fixed_digits b n v) \<Longrightarrow> d < b"
  by (induction n arbitrary: v) auto

text \<open>The removal of one leading zero.\<close>

lemma frac_digits:
  assumes R: "2 \<le> R" "R \<le> 36" and I: "N div R ^ n = I" and K: "I < R ^ K" "0 < K" "K = 1 \<or> R ^ (K - 2) \<le> I"
  defines "q \<equiv> dotted K (map digit_char (fixed_digits R (K + n) N))"
  shows "(if q ! 0 = 0x30 \<and> 2 \<le> length q \<and> q ! 1 \<noteq> 0x2e then drop 1 q else q) = frac_text R n N"
proof -
  let ?tail = "if n = 0 then [] else 0x2e # map digit_char (fixed_digits R n N)"
  have q: "q = map digit_char (fixed_digits R K I) @ ?tail"
    by (auto simp: q_def dotted_def fixed_digits_append I)
  have tail: "frac_text R n N = map digit_char (radix_digits R I) @ ?tail"
    by (simp add: frac_text_def I fixed_digits_mod)
  obtain k where k: "K = Suc k" using K(2) by (cases K) auto
  show ?thesis
  proof (cases "k = 0 \<or> R ^ k \<le> I")
    case True
    then have e: "fixed_digits R K I = radix_digits R I" unfolding k using K(1) R(1) by (intro fixed_digits_radix) (simp_all add: k)
    then have q': "q = frac_text R n N" by (simp add: q tail)
    have no: "\<not> (q ! 0 = 0x30 \<and> 2 \<le> length q \<and> q ! 1 \<noteq> 0x2e)"
    proof (cases "k = 0")
      case True
      then have "fixed_digits R K I = [I mod R]" by (simp add: k)
      then show ?thesis by (simp add: q)
    next
      case False
      then have "R ^ k \<le> I" using True by blast
      moreover have "0 < R ^ k" using R(1) by simp
      ultimately have I0: "0 < I" by linarith
      obtain x xs where xs: "radix_digits R I = x # xs" by (cases "radix_digits R I") simp_all
      then have "0 < x" "x < R" using hd_radix_digits [OF R(1) I0] radix_digits_less [OF R(1), of x I] by simp_all
      then have "digit_char x \<noteq> 0x30" using R(2) digit_char_0 [of x] by simp
      then show ?thesis by (simp add: q' tail xs)
    qed
    show ?thesis unfolding if_not_P [OF no] by (rule q')
  next
    case False
    then obtain j where j: "k = Suc j" "I < R ^ k" by (cases k) auto
    have "fixed_digits R (1 + k) I = fixed_digits R 1 (I div R ^ k) @ fixed_digits R k I" by (rule fixed_digits_append)
    then have z: "fixed_digits R K I = 0 # fixed_digits R k I" using j(2) by (simp add: k)
    have e: "fixed_digits R k I = radix_digits R I"
      unfolding j(1) using j K(3) R(1) by (intro fixed_digits_radix) (simp_all add: k)
    obtain x xs where xs: "radix_digits R I = x # xs" by (cases "radix_digits R I") simp_all
    then have "x < R" using radix_digits_less [OF R(1), of x I] by simp
    then have "digit_char x \<noteq> 0x2e" using digit_char_not_dot [of x] R(2) by simp
    moreover have "q = digit_char 0 # map digit_char (x # xs) @ ?tail" by (simp add: q z e xs)
    ultimately show ?thesis using digit_char_0 [of 0] by (simp add: tail xs)
  qed
qed

lemma scaled_real:
  assumes "0 < R"
  shows "real (scaled_num m e R f) / real (scaled_den e R f) = real m * 2 powr (of_int e) * real R powr (of_int f)"
  unfolding scaled_num_def scaled_den_def powr_int_nat powr_base_int [OF assms] by simp

lemma round_div_less_real:
  assumes "0 < d" and "real n / real d < real c"
  shows "round_div rnd n d \<le> c"
proof (rule round_div_le)
  have "real n < real (d * c)" using assms by (simp add: field_simps)
  then show "n < d * c" by (simp only: of_nat_less_iff)
qed

lemma round_div_ge_real:
  assumes "0 < d" and "real c \<le> real n / real d"
  shows "c \<le> round_div rnd n d"
proof -
  have "real (c * d) \<le> real n" using assms by (simp add: field_simps)
  then have "c * d \<le> n" by (simp only: of_nat_le_iff)
  then have "c \<le> n div d" using assms(1) by (simp add: less_eq_div_iff_mult_less_eq)
  then show ?thesis using round_div_bounds(1) [OF assms(1), of n rnd] by (rule order_trans)
qed

text \<open>The range of the rounded number, from the estimate.\<close>

lemma scaled_range:
  assumes R: "2 \<le> R" and x: "2 powr (of_int (e - 1)) \<le> x" "x < 2 powr (of_int e)" and E: "E = 1 + \<lfloor>of_int (e - 1) / log 2 (real R)\<rfloor>"
    and v: "0 < d" "real n / real d = x * real R powr (of_int f)"
  shows "0 \<le> E + f \<Longrightarrow> round_div rnd n d < R ^ nat (E + f + 1)"
    and "E + f < 0 \<Longrightarrow> round_div rnd n d \<le> 1"
    and "0 \<le> E - 1 + f \<Longrightarrow> R ^ nat (E - 1 + f) \<le> round_div rnd n d"
    and "0 \<le> E + f \<Longrightarrow> round_div rnd n d \<le> 2 * R ^ nat (E + f)"
proof -
  note est = digit_estimate [OF R E]
  have R0: "0 < R" using R by simp
  have e2: "2 powr (of_int e) = 2 * (2 :: real) powr (of_int (e - 1))" by (simp add: powr_diff)
  define c where "c = (if R = 2 then 1 else 2 :: nat)"
  have xc: "x < real c * real R powr (of_int E)"
  proof (cases "R = 2")
    case True
    with x(2) est(3) show ?thesis by (simp add: c_def)
  next
    case False
    have "x < 2 * 2 powr (of_int (e - 1))" using x(2) unfolding e2 .
    also have "\<dots> < 2 * real R powr (of_int E)" using est(2) by simp
    finally show ?thesis using False by (simp add: c_def)
  qed
  then have "x * real R powr (of_int f) < real c * real R powr (of_int E) * real R powr (of_int f)"
    using R0 by (intro mult_strict_right_mono) simp_all
  also have "\<dots> = real c * real R powr (of_int (E + f))" by (simp add: powr_add)
  finally have hi: "real n / real d < real c * real R powr (of_int (E + f))" unfolding v(2) .
  have cR: "c < R" "c \<le> 2" using R by (auto simp: c_def)
  {
    assume nn: "0 \<le> E + f"
    then have "real n / real d < real (c * R ^ nat (E + f))" using hi unfolding powr_base_int [OF R0] by simp
    then have le: "round_div rnd n d \<le> c * R ^ nat (E + f)" by (rule round_div_less_real [OF v(1)])
    also have "\<dots> \<le> 2 * R ^ nat (E + f)" using cR(2) by (rule mult_le_mono1)
    finally show "round_div rnd n d \<le> 2 * R ^ nat (E + f)" .
    note le
    also have "c * R ^ nat (E + f) < R * R ^ nat (E + f)" using cR(1) R0 by simp
    also have "\<dots> = R ^ nat (E + f + 1)" using nn by (simp add: nat_add_distrib)
    finally show "round_div rnd n d < R ^ nat (E + f + 1)" .
  }
  {
    assume "E + f < 0"
    then have "real R powr (of_int (E + f)) \<le> real R powr (of_int (- 1))" using R by (intro powr_mono) simp_all
    also have "\<dots> = 1 / real R" using R0 by (simp add: powr_minus_divide)
    finally have "real c * real R powr (of_int (E + f)) \<le> real c * (1 / real R)" by (intro mult_left_mono) simp_all
    also have "\<dots> \<le> 1" using cR(1) R0 by simp
    finally have "real n / real d < real 1" using hi by simp
    then show "round_div rnd n d \<le> 1" by (rule round_div_less_real [OF v(1)])
  }
  {
    assume nn: "0 \<le> E - 1 + f"
    have "real R powr (of_int (E - 1)) * real R powr (of_int f) \<le> x * real R powr (of_int f)"
      using est(1) x(1) by (intro mult_right_mono) simp_all
    then have "real R powr (of_int (E - 1 + f)) \<le> real n / real d" unfolding v(2) by (simp add: powr_add)
    then have "real (R ^ nat (E - 1 + f)) \<le> real n / real d" using nn unfolding powr_base_int [OF R0] by simp
    then show "R ^ nat (E - 1 + f) \<le> round_div rnd n d" by (rule round_div_ge_real [OF v(1)])
  }
qed

lemma round_div_away:
  assumes "0 < d"
  shows "real (round_div JS_RNDNA n d) - real n / real d \<noteq> - (1 / 2)"
proof
  assume "real (round_div JS_RNDNA n d) - real n / real d = - (1 / 2)"
  then have "2 * real (round_div JS_RNDNA n d) * real d + real d = 2 * real n" using assms by (simp add: field_simps)
  then have "real (2 * round_div JS_RNDNA n d * d + d) = real (2 * n)" by simp
  then have e: "2 * round_div JS_RNDNA n d * d + d = 2 * n" by (simp only: of_nat_eq_iff)
  define q r where "q = n div d" and "r = n mod d"
  have n: "n = q * d + r" "r < d" unfolding q_def r_def using assms by simp_all
  have "round_div JS_RNDNA n d = (if d \<le> 2 * r then q + 1 else q)" by (simp add: round_div_def q_def r_def)
  with e n show False by (auto simp: algebra_simps split: if_splits)
qed

section \<open>The fractional format\<close>

lemma mant_range:
  assumes "2 ^ 52 \<le> unat m" "unat m < 2 ^ 53"
  shows "2 powr (of_int (e - 1)) \<le> real (unat m) * 2 powr (of_int (e - 53))" and "real (unat m) * 2 powr (of_int (e - 53)) < 2 powr (of_int e)"
proof -
  have p: "(2 :: real) powr (of_int (e - 1)) = 2 ^ 52 * 2 powr (of_int (e - 53))" "(2 :: real) powr (of_int e) = 2 ^ 53 * 2 powr (of_int (e - 53))"
    by (simp_all add: powr_diff)
  have m: "(2 :: real) ^ 52 \<le> real (unat m)" "real (unat m) < 2 ^ 53"
  proof -
    have "real (2 ^ 52) \<le> real (unat m)" using assms(1) by (simp only: of_nat_le_iff)
    then show "(2 :: real) ^ 52 \<le> real (unat m)" by simp
    have "real (unat m) < real (2 ^ 53)" using assms(2) by (simp only: of_nat_less_iff)
    then show "real (unat m) < 2 ^ 53" by simp
  qed
  show "2 powr (of_int (e - 1)) \<le> real (unat m) * 2 powr (of_int (e - 53))" unfolding p(1) using m(1) by (intro mult_right_mono) simp_all
  show "real (unat m) * 2 powr (of_int (e - 53)) < 2 powr (of_int e)" unfolding p(2) using m(2) by (intro mult_strict_right_mono) simp_all
qed

lemma dtoa_frac_val:
  assumes R: "2 \<le> unat radix" "unat radix \<le> 36" and rs: "unat radix = unat radix1 * 2 ^ rs" "radix1 = 1 \<or> radix1_ok radix1"
    and m: "2 ^ 52 \<le> unat m" "unat m < 2 ^ 53" and nd: "0 \<le> nd" "nd \<le> 101"
    and E: "E = 1 + \<lfloor>of_int (e - 1) / log 2 (real (unat radix))\<rfloor>"
  shows "\<exists>N. dtoa_frac m e radix radix1 rs E nd = Some (frac_text (unat radix) (nat nd) N)
    \<and> N = round_div JS_RNDNA (scaled_num (unat m) (e - 53) (unat radix) nd) (scaled_den (e - 53) (unat radix) nd)"
proof -
  define N where "N = round_div JS_RNDNA (scaled_num (unat m) (e - 53) (unat radix) nd) (scaled_den (e - 53) (unat radix) nd)"
  let ?R = "unat radix" and ?n = "nat nd"
  have R0: "0 < ?R" using R by simp
  have "m \<noteq> 0" using m(1) by auto
  from mul_pow_round_val [OF rs(2) this, of "e - 53" rs nd JS_RNDNA] obtain t where
    t: "mul_pow_round m (e - 53) radix1 rs nd JS_RNDNA = Some t" "mpb_ok t" "mp_val t = N"
    by (auto simp: N_def rs(1))
  have d: "0 < scaled_den (e - 53) ?R nd" using R0 by (simp add: scaled_den_def)
  note rng = scaled_range [OF R(1) mant_range [OF m, of e] E d scaled_real [OF R0], of JS_RNDNA, folded N_def]
  define K where "K = nat (max (E + 1) 1)"
  have K: "0 < K" "nat (max_int (E + 1) 1 + nd) = K + ?n" "nat (max_int (E + 1) 1) = K"
    using nd(1) by (simp_all add: K_def nat_add_distrib)
  have "N < ?R ^ (K + ?n)"
  proof (cases "0 \<le> E + nd")
    case True
    then have "N < ?R ^ nat (E + nd + 1)" by (rule rng(1))
    also have "\<dots> \<le> ?R ^ (K + ?n)" using R0 nd(1) True by (intro power_increasing) (auto simp: K_def)
    finally show ?thesis .
  next
    case False
    then have "N \<le> 1" using rng(2) by simp
    also have "1 < ?R ^ (K + ?n)" using R(1) K(1) by (intro one_less_power) simp_all
    finally show ?thesis .
  qed
  then have I: "N div ?R ^ ?n < ?R ^ K" using R0 by (simp add: div_less_iff_less_mult power_add)
  have lo: "K = 1 \<or> ?R ^ (K - 2) \<le> N div ?R ^ ?n"
  proof (cases "1 \<le> E")
    case True
    have "?R ^ nat (E - 1 + nd) \<le> N" using rng(3) True nd(1) by simp
    moreover have "nat (E - 1 + nd) = (K - 2) + ?n" using True nd(1) by (simp add: K_def nat_diff_distrib' nat_add_distrib)
    ultimately have "?R ^ (K - 2) * ?R ^ ?n \<le> N" by (simp add: power_add)
    then show ?thesis using R0 by (simp add: less_eq_div_iff_mult_less_eq)
  qed (simp add: K_def)
  have "dtoa_frac m e radix radix1 rs E nd = Some (frac_text ?R ?n N)"
    unfolding dtoa_frac_def K(2,3) using nd t output_digits_val [OF R t(2)] frac_digits [OF R refl I K(1) lo]
    by simp
  then show ?thesis by (simp add: N_def)
qed

section \<open>The whole conversion\<close>

definition sign_text :: "u64 \<Rightarrow> u8 list" where
  "sign_text d = (if 2 ^ 63 \<le> unat d then [0x2d] else [])"

lemma sign_bit: "(if drop_bit 63 d \<noteq> 0 then [0x2d] else []) = sign_text d"
proof -
  have "drop_bit 63 d = 0 \<longleftrightarrow> unat (drop_bit 63 d) = 0" by (simp add: unsigned_eq_0_iff)
  also have "\<dots> \<longleftrightarrow> unat d < 2 ^ 63" unfolding unat_drop_bit by (simp add: div_eq_0_iff)
  finally have "drop_bit 63 d = 0 \<longleftrightarrow> unat d < 2 ^ 63" .
  then show ?thesis by (simp add: sign_text_def)
qed

lemma bind_Some_map: "Option.bind x (\<lambda>q. Some (f q)) = map_option f x"
  by (cases x) simp_all

text \<open>The part of \<open>js_dtoa\<close> after the special values.\<close>

lemma js_dtoa_nonzero:
  assumes d: "finite_double d" "\<not> zero_double d" and dec: "dtoa_decode d = Some (m, e)"
    and R: "2 \<le> unat radix" "unat radix \<le> 36" and E: "- 1073 \<le> e" "e \<le> 1024"
    and rs: "ctz32 radix = Some rs" "radix1 = drop_bit rs radix"
  shows "js_dtoa d radix nd flags =
    map_option (\<lambda>q. sign_text d @ q)
      (if dtoa_is_fast_int m e flags then u64toa_radix (drop_bit (nat (53 - e)) m) radix
       else
         let E = 1 + \<lfloor>of_int (e - 1) / log 2 (real (unat radix))\<rfloor>; fmt = flags AND JS_DTOA_FORMAT_MASK
         in if fmt = JS_DTOA_FORMAT_FREE then
              do {
                (P, E, tmp1) \<leftarrow> dtoa_free m e radix radix1 rs E;
                dtoa_output tmp1 radix radix1 rs nd flags P E
              }
            else if fmt = JS_DTOA_FORMAT_FRAC then dtoa_frac m e radix radix1 rs E nd
            else
              do {
                (P, E, tmp1) \<leftarrow> dtoa_fixed m e radix1 rs E nd;
                dtoa_output tmp1 radix radix1 rs nd flags P E
              })"
proof -
  have f: "\<not> drop_bit 52 d AND 0x7ff = 0x7ff"
  proof
    assume "drop_bit 52 d AND 0x7ff = 0x7ff"
    then have "unat (drop_bit 52 d AND 0x7ff) = 2047" by simp
    then show False using d(1) unfolding double_fields(1) finite_double_def by blast
  qed
  have z: "\<not> (drop_bit 52 d AND 0x7ff = 0 \<and> d AND (push_bit 52 1 - 1) = 0)"
  proof
    assume "drop_bit 52 d AND 0x7ff = 0 \<and> d AND (push_bit 52 1 - 1) = 0"
    then have "unat (drop_bit 52 d AND 0x7ff) = 0" "unat (d AND (push_bit 52 1 - 1)) = 0" by simp_all
    then show False using d(2) unfolding double_fields zero_double_iff by simp
  qed
  have l: "mul_log2_radix (e - 1) radix = Some \<lfloor>of_int (e - 1) / log 2 (real (unat radix))\<rfloor>"
    using mul_log2_radix_exact [OF R, of "e - 1"] E by simp
  show ?thesis
    unfolding js_dtoa_def rs(1) bind.bind_lunit Let_def if_not_P [OF f] if_not_P [OF z] dec l prod.case sign_bit rs(2) [symmetric]
    by (rule bind_Some_map)
qed

text \<open>
  C28: in the fractional format (\<open>toFixed\<close>) \<open>js_dtoa\<close> prints, for every finite non-zero double, every
  radix and up to 101 fraction digits, the sign and the number \<open>N\<close> with \<open>n\<close> fraction digits,
  where \<open>N\<close> is the integer nearest to \<open>|d| * radix^n\<close> (halves away from zero), without superfluous
  leading zeros.
\<close>

theorem js_dtoa_frac_correct:
  assumes d: "finite_double d" "\<not> zero_double d" and R: "2 \<le> unat radix" "unat radix \<le> 36" and nd: "0 \<le> nd" "nd \<le> 101"
    and flags: "flags AND JS_DTOA_FORMAT_MASK = JS_DTOA_FORMAT_FRAC"
  shows "\<exists>N. js_dtoa d radix nd flags = Some (sign_text d @ frac_text (unat radix) (nat nd) N)
    \<and> \<bar>real N - double_abs d * real (unat radix) ^ nat nd\<bar> \<le> 1 / 2
    \<and> (real N - double_abs d * real (unat radix) ^ nat nd \<noteq> - (1 / 2))"
proof -
  obtain m e where dec: "dtoa_decode d = Some (m, e)" "2 ^ 52 \<le> unat m" "unat m < 2 ^ 53" "- 1073 \<le> e" "e \<le> 1024"
      "double_abs d = real (unat m) * 2 powr (of_int (e - 53))"
    using dtoa_decode_val [OF d] by blast
  obtain rs where rs: "ctz32 radix = Some rs" "unat radix = unat (drop_bit rs radix) * 2 ^ rs" "drop_bit rs radix = 1 \<or> radix1_ok (drop_bit rs radix)"
    using radix_split [OF R] by blast
  have slow: "\<not> dtoa_is_fast_int m e flags" "\<not> flags AND JS_DTOA_FORMAT_MASK = JS_DTOA_FORMAT_FREE"
    using flags by (simp_all add: dtoa_is_fast_int_def)
  obtain N where N: "dtoa_frac m e radix (drop_bit rs radix) rs (1 + \<lfloor>of_int (e - 1) / log 2 (real (unat radix))\<rfloor>) nd
        = Some (frac_text (unat radix) (nat nd) N)"
      "N = round_div JS_RNDNA (scaled_num (unat m) (e - 53) (unat radix) nd) (scaled_den (e - 53) (unat radix) nd)"
    using dtoa_frac_val [OF R rs(2,3) dec(2,3) nd refl] by blast
  have R0: "0 < unat radix" using R by simp
  have dn: "0 < scaled_den (e - 53) (unat radix) nd" using R0 by (simp add: scaled_den_def)
  have v: "double_abs d * real (unat radix) ^ nat nd = real (scaled_num (unat m) (e - 53) (unat radix) nd) / real (scaled_den (e - 53) (unat radix) nd)"
    unfolding scaled_real [OF R0] dec(6) powr_base_int [OF R0] using nd(1) by simp
  have "js_dtoa d radix nd flags = Some (sign_text d @ frac_text (unat radix) (nat nd) N)"
    unfolding js_dtoa_nonzero [OF d dec(1) R dec(4,5) rs(1) refl] if_not_P [OF slow(1)] Let_def if_not_P [OF slow(2)] if_P [OF flags] N(1)
    by simp
  moreover have "\<bar>real N - double_abs d * real (unat radix) ^ nat nd\<bar> \<le> 1 / 2"
    unfolding N(2) v by (rule round_div_half [OF dn]) simp
  moreover have "real N - double_abs d * real (unat radix) ^ nat nd \<noteq> - (1 / 2)"
    unfolding N(2) v by (rule round_div_away [OF dn])
  ultimately show ?thesis by blast
qed

lemma js_dtoa_frac_correct_witness:
  "\<exists>N. js_dtoa 0x4004000000000000 10 0 2 = Some (sign_text 0x4004000000000000 @ frac_text (unat (10 :: u32)) (nat 0) N)
    \<and> \<bar>real N - double_abs 0x4004000000000000 * real (unat (10 :: u32)) ^ nat 0\<bar> \<le> 1 / 2
    \<and> real N - double_abs 0x4004000000000000 * real (unat (10 :: u32)) ^ nat 0 \<noteq> - (1 / 2)"
  by (rule js_dtoa_frac_correct) (simp_all add: finite_double_def zero_double_def)

end
