(* ===== verification/Dtoa_Free.thy ===== *)
theory Dtoa_Free
  imports Dtoa_Text
begin

text \<open>
  The digit search of \<open>js_dtoa\<close> in \<open>src/dtoa.c\<close>.  The loops that adjust the exponent end after at
  most one step, with exactly the requested number of digits; the free format ends with digits
  that parsing rounds back to the same double, the first try with \<open>dtoa_max_digits_table\<close> digits
  always succeeding, as the comment in the code states.
\<close>

section \<open>The mantissa with a given number of digits\<close>

definition dig :: "rnd_mode \<Rightarrow> nat \<Rightarrow> u64 \<Rightarrow> int \<Rightarrow> int \<Rightarrow> int \<Rightarrow> nat" where
  "dig rnd R m e P E = round_div rnd (scaled_num (unat m) (e - 53) R (P - E)) (scaled_den (e - 53) R (P - E))"

definition dx :: "u64 \<Rightarrow> int \<Rightarrow> real" where
  "dx m e = real (unat m) * 2 powr (of_int (e - 53))"

lemma dig_half:
  assumes "0 < R" and "rnd \<noteq> JS_RNDZ"
  shows "\<bar>real (dig rnd R m e P E) - dx m e * real R powr (of_int (P - E))\<bar> \<le> 1 / 2"
proof -
  have "0 < scaled_den (e - 53) R (P - E)" using assms(1) by (simp add: scaled_den_def)
  from round_div_half [OF this assms(2), of "scaled_num (unat m) (e - 53) R (P - E)"] show ?thesis
    unfolding dig_def dx_def scaled_real [OF assms(1)] by simp
qed

lemma dig_bounds:
  assumes R: "2 \<le> R" and m: "2 ^ 52 \<le> unat m" "unat m < 2 ^ 53" and rnd: "rnd \<noteq> JS_RNDZ" and P: "1 \<le> P"
    and E: "E = 1 + \<lfloor>of_int (e - 1) / log 2 (real R)\<rfloor>"
  shows "dig rnd R m e P E \<le> 2 * R ^ nat P" and "dig rnd R m e P (E + 1) < R ^ nat P"
    and "R ^ nat (P - 1) \<le> dig rnd R m e P E"
    and "R ^ nat P \<le> dig rnd R m e P E \<Longrightarrow> R ^ nat (P - 1) \<le> dig rnd R m e P (E + 1)"
    and "R ^ nat P \<le> dig rnd R m e P E \<Longrightarrow> real R powr (of_int E) * (1 - 1 / (2 * real R ^ nat P)) \<le> dx m e"
proof -
  have R0: "0 < R" using R by simp
  have d: "0 < scaled_den (e - 53) R f" for f using R0 by (simp add: scaled_den_def)
  note rng = scaled_range [OF R mant_range [OF m, of e] E d scaled_real [OF R0], where rnd = rnd]
  show "dig rnd R m e P E \<le> 2 * R ^ nat P" "R ^ nat (P - 1) \<le> dig rnd R m e P E"
    using rng(4) [of "P - E"] rng(3) [of "P - E"] P by (simp_all add: dig_def)
  show "dig rnd R m e P (E + 1) < R ^ nat P" using rng(1) [of "P - (E + 1)"] P by (simp add: dig_def)
  {
    assume big: "R ^ nat P \<le> dig rnd R m e P E"
    let ?x = "dx m e"
    have pw: "real R ^ nat P = real R powr (of_int P)" using P by (simp add: powr_base_int [OF R0, of P])
    have "real R ^ nat P \<le> real (dig rnd R m e P E)" using big by (metis of_nat_le_iff of_nat_power)
    then have lo: "real R ^ nat P - 1 / 2 \<le> ?x * real R powr (of_int (P - E))" using dig_half [OF R0 rnd, of m e P E] by linarith
    then have "(real R ^ nat P - 1 / 2) * real R powr (of_int (E - P)) \<le> ?x * real R powr (of_int (P - E)) * real R powr (of_int (E - P))"
      by (intro mult_right_mono) simp_all
    also have "\<dots> = ?x" using R0 by (simp add: mult.assoc flip: powr_add)
    finally have *: "(real R ^ nat P - 1 / 2) * real R powr (of_int (E - P)) \<le> ?x" .
    have e: "real R powr (of_int E) = real R ^ nat P * real R powr (of_int (E - P))" unfolding pw by (simp flip: powr_add)
    have "real R powr (of_int E) * (1 - 1 / (2 * real R ^ nat P)) = real R ^ nat P * (1 - 1 / (2 * real R ^ nat P)) * real R powr (of_int (E - P))"
      unfolding e by (simp only: ac_simps)
    also have "real R ^ nat P * (1 - 1 / (2 * real R ^ nat P)) = real R ^ nat P - 1 / 2" using R0 by (simp add: field_simps)
    finally show "real R powr (of_int E) * (1 - 1 / (2 * real R ^ nat P)) \<le> ?x" using * by simp
    have "?x * real R powr (of_int (P - E)) = ?x * real R powr (of_int (P - (E + 1))) * real R"
    proof -
      have "real R powr (of_int (P - E)) = real R powr (of_int (P - (E + 1)) + 1)" by simp
      also have "\<dots> = real R powr (of_int (P - (E + 1))) * real R" unfolding powr_add using R0 by simp
      finally show ?thesis by simp
    qed
    moreover have "real R ^ nat P = real R ^ nat (P - 1) * real R" using P by (simp add: nat_diff_distrib' flip: power_Suc2)
    ultimately have "(real R ^ nat (P - 1) - ?x * real R powr (of_int (P - (E + 1)))) * real R \<le> 1 / 2" using lo unfolding left_diff_distrib by linarith
    moreover have "1 / 4 * real R < (real R ^ nat (P - 1) - ?x * real R powr (of_int (P - (E + 1)))) * real R"
      if "1 / 4 < real R ^ nat (P - 1) - ?x * real R powr (of_int (P - (E + 1)))" using that R0 by (intro mult_strict_right_mono) simp_all
    moreover have "1 / 2 \<le> 1 / 4 * real R" using R by simp
    ultimately have "real R ^ nat (P - 1) - ?x * real R powr (of_int (P - (E + 1))) \<le> 1 / 4" by linarith
    then have "real (R ^ nat (P - 1)) - 1 < real (dig rnd R m e P (E + 1))" using dig_half [OF R0 rnd, of m e P "E + 1"] unfolding of_nat_power by linarith
    then show "R ^ nat (P - 1) \<le> dig rnd R m e P (E + 1)" by linarith
  }
qed

section \<open>The loops that adjust the exponent\<close>

text \<open>What \<open>js_dtoa\<close> passes to the digit generators: a normalised mantissa, the radix split into its odd part and a power of two, and the first estimate of the exponent.\<close>

definition dtoa_in :: "u64 \<Rightarrow> int \<Rightarrow> u32 \<Rightarrow> u32 \<Rightarrow> nat \<Rightarrow> int \<Rightarrow> bool" where
  "dtoa_in m e radix radix1 rs E0 \<longleftrightarrow>
     2 \<le> unat radix \<and> unat radix \<le> 36 \<and> unat radix = unat radix1 * 2 ^ rs \<and> (radix1 = 1 \<or> radix1_ok radix1) \<and>
     2 ^ 52 \<le> unat m \<and> unat m < 2 ^ 53 \<and> E0 = 1 + \<lfloor>of_int (e - 1) / log 2 (real (unat radix))\<rfloor>"

lemma dtoa_inD:
  assumes "dtoa_in m e radix radix1 rs E0"
  shows "2 \<le> unat radix" "unat radix \<le> 36" "unat radix = unat radix1 * 2 ^ rs" "radix1 = 1 \<or> radix1_ok radix1"
    "2 ^ 52 \<le> unat m" "unat m < 2 ^ 53" "E0 = 1 + \<lfloor>of_int (e - 1) / log 2 (real (unat radix))\<rfloor>" "m \<noteq> 0"
  using assms unfolding dtoa_in_def by blast+ (use assms in \<open>auto simp: dtoa_in_def\<close>)

lemma mul_pow_round_dig:
  assumes "dtoa_in m e radix radix1 rs E0"
  shows "\<exists>t. mul_pow_round m (e - 53) radix1 rs (P - E) rnd = Some t \<and> mpb_ok t \<and> mp_val t = dig rnd (unat radix) m e P E"
  using mul_pow_round_val [OF dtoa_inD(4,8) [OF assms], of "e - 53" rs "P - E" rnd] unfolding dig_def dtoa_inD(3) [OF assms] .

text \<open>What a loop that starts at \<open>E0\<close> returns: the estimate or the next exponent, and a number of exactly \<open>P\<close> digits.\<close>

definition dig_result :: "rnd_mode \<Rightarrow> nat \<Rightarrow> u64 \<Rightarrow> int \<Rightarrow> int \<Rightarrow> int \<Rightarrow> int \<Rightarrow> nat \<Rightarrow> bool" where
  "dig_result rnd R m e P E0 E n \<longleftrightarrow>
     n = dig rnd R m e P E \<and> R ^ nat (P - 1) \<le> n \<and> n < R ^ nat P \<and> (E = E0 \<or> E = E0 + 1 \<and> R ^ nat P \<le> dig rnd R m e P E0)"

lemma dig_result_first:
  assumes "dtoa_in m e radix radix1 rs E0" and "1 \<le> P" and "rnd \<noteq> JS_RNDZ"
  shows "dig rnd (unat radix) m e P E0 < unat radix ^ nat P \<Longrightarrow> dig_result rnd (unat radix) m e P E0 E0 (dig rnd (unat radix) m e P E0)"
    and "\<not> dig rnd (unat radix) m e P E0 < unat radix ^ nat P
      \<Longrightarrow> dig_result rnd (unat radix) m e P E0 (E0 + 1) (dig rnd (unat radix) m e P (E0 + 1))"
  using dig_bounds [OF dtoa_inD(1,5,6) [OF assms(1)] assms(3,2) dtoa_inD(7) [OF assms(1)]] by (simp_all add: dig_result_def)

lemma max_digits_fit:
  assumes "2 \<le> R" "R \<le> 36" and "P \<le> dtoa_max_digits_table ! (R - 2)"
  shows "2 * R ^ nat P < 2 ^ 64"
proof -
  have "\<forall>r \<in> {2..<37}. 2 * r ^ nat (dtoa_max_digits_table ! (r - 2)) < 2 ^ 64"
    unfolding atLeastLessThan_upt by (simp add: upt_rec dtoa_max_digits_table_def)
  moreover have "R \<in> {2..<37}" using assms by simp
  ultimately have "2 * R ^ nat (dtoa_max_digits_table ! (R - 2)) < 2 ^ 64" by blast
  moreover have "R ^ nat P \<le> R ^ nat (dtoa_max_digits_table ! (R - 2))" using assms by (intro power_increasing) simp_all
  ultimately show ?thesis by linarith
qed

lemma unat_of_nat_u64: "n < 2 ^ 64 \<Longrightarrow> unat (of_nat n :: u64) = n"
  by (simp only: unsigned_of_nat) (simp add: take_bit_nat_eq_self)

lemma dtoa_mant_val:
  assumes i: "dtoa_in m e radix radix1 rs E0" and P: "1 \<le> P" "P \<le> dtoa_max_digits_table ! (unat radix - 2)"
  shows "\<exists>mant E. dtoa_mant m e radix1 rs P (of_nat (unat radix ^ nat P)) E0 = Some (mant, E)
    \<and> dig_result JS_RNDN (unat radix) m e P E0 E (unat mant)"
proof -
  let ?R = "unat radix" and ?dig = "dig JS_RNDN (unat radix) m e P"
  note fit = max_digits_fit [OF dtoa_inD(1,2) [OF i] P(2)]
  define M :: u64 where "M = of_nat (?R ^ nat P)"
  have mx: "unat M = ?R ^ nat P" unfolding M_def using fit by (intro unat_of_nat_u64) linarith
  have step: "dtoa_mant m e radix1 rs P M E =
      (if ?dig E < ?R ^ nat P then Some (of_nat (?dig E), E) else dtoa_mant m e radix1 rs P M (E + 1))"
    if lim: "?dig E \<le> 2 * ?R ^ nat P" for E
  proof -
    obtain t where t: "mul_pow_round m (e - 53) radix1 rs (P - E) JS_RNDN = Some t" "mpb_ok t" "mp_val t = ?dig E"
      using mul_pow_round_dig [OF i] by blast
    have "?dig E < 2 ^ 64" using lim fit by linarith
    then have u: "unat (mpb_get_u64 t) = ?dig E" using mpb_get_u64_val [OF t(2)] t(3) by simp
    then have w: "mpb_get_u64 t = of_nat (?dig E)" by (metis of_nat_unat ucast_id)
    show ?thesis by (subst dtoa_mant.simps) (simp add: t(1) Let_def word_less_nat_alt u mx w [symmetric])
  qed
  note b = dig_bounds [OF dtoa_inD(1,5,6) [OF i] _ P(1) dtoa_inD(7) [OF i], of JS_RNDN, simplified]
  have u: "unat (of_nat (?dig E) :: u64) = ?dig E" if "?dig E < ?R ^ nat P" for E using that fit by (intro unat_of_nat_u64) linarith
  have "\<exists>mant E. dtoa_mant m e radix1 rs P M E0 = Some (mant, E) \<and> dig_result JS_RNDN ?R m e P E0 E (unat mant)"
  proof (cases "?dig E0 < ?R ^ nat P")
    case True
    then show ?thesis using step [OF b(1)] dig_result_first(1) [OF i P(1)] u by simp
  next
    case False
    have 2: "?dig (E0 + 1) \<le> 2 * ?R ^ nat P" using b(2) by linarith
    show ?thesis using step [OF b(1)] step [OF 2] False b(2) dig_result_first(2) [OF i P(1)] u by simp
  qed
  then show ?thesis by (simp only: M_def)
qed

lemma dtoa_fixed_val:
  assumes i: "dtoa_in m e radix radix1 rs E0" and P: "1 \<le> P" "P \<le> 101"
  shows "\<exists>E t. dtoa_fixed m e radix1 rs E0 P = Some (P, E, t) \<and> mpb_ok t \<and> dig_result JS_RNDNA (unat radix) m e P E0 E (mp_val t)"
proof -
  let ?R = "unat radix" and ?dig = "dig JS_RNDNA (unat radix) m e P"
  have one: "mpb_ok [1]" "0 < mp_val [1]" by (simp_all add: mpb_ok_def)
  obtain a where a: "mul_pow [1] radix1 rs P False 0 = Some (a, - P * int rs)" "mpb_ok a" "mp_val a = unat radix1 ^ nat P"
    using mul_pow_nonneg [OF dtoa_inD(4) [OF i] one, of P rs False 0] P by auto
  define mx where "mx = mpb_shr_round a (- P * int rs) JS_RNDZ"
  have a0: "0 < mp_val a" using a(3) dtoa_inD(4) [OF i] by (auto simp: radix1_ok_def)
  have "mp_val mx = mp_val a * 2 ^ (nat P * rs)" "mpb_ok mx"
    using mpb_shr_round_val [OF a(2), of "- P * int rs" JS_RNDZ] a0 P by (auto simp: mx_def nat_mult_distrib round_div_def mult_le_0_iff)
  then have mx: "mp_val mx = ?R ^ nat P" "mpb_ok mx"
    by (simp_all add: a(3) dtoa_inD(3) [OF i] power_mult_distrib power_mult [symmetric] mult.commute)
  have step: "\<exists>t. mpb_ok t \<and> mp_val t = ?dig E \<and> dtoa_fixed_loop m e radix1 rs P mx E =
      (if ?dig E < ?R ^ nat P then Some (E, t) else dtoa_fixed_loop m e radix1 rs P mx (E + 1))" for E
  proof -
    obtain t where t: "mul_pow_round m (e - 53) radix1 rs (P - E) JS_RNDNA = Some t" "mpb_ok t" "mp_val t = ?dig E"
      using mul_pow_round_dig [OF i] by blast
    have "mpb_cmp t mx < 0 \<longleftrightarrow> ?dig E < ?R ^ nat P"
      by (simp add: mpb_cmp_val [OF t(2) mx(2)] sgn_less t(3) mx(1) del: of_nat_power)
    then show ?thesis using t by (subst dtoa_fixed_loop.simps) auto
  qed
  note b = dig_bounds(2) [OF dtoa_inD(1,5,6) [OF i] _ P(1) dtoa_inD(7) [OF i], of JS_RNDNA, simplified]
  have "\<exists>E t. dtoa_fixed_loop m e radix1 rs P mx E0 = Some (E, t) \<and> mpb_ok t \<and> dig_result JS_RNDNA ?R m e P E0 E (mp_val t)"
  proof (cases "?dig E0 < ?R ^ nat P")
    case True
    then show ?thesis using step [of E0] dig_result_first(1) [OF i P(1), of JS_RNDNA] by auto
  next
    case False
    then show ?thesis using step [of E0] step [of "E0 + 1"] b dig_result_first(2) [OF i P(1), of JS_RNDNA] by auto
  qed
  then show ?thesis using P by (auto simp: dtoa_fixed_def a(1) Let_def mx_def)
qed

section \<open>The removal of trailing zeros\<close>

lemma dtoa_trim_val:
  assumes r: "2 \<le> unat radix" "0 < unat mant" "unat mant < unat radix ^ nat P"
  shows "\<exists>mant' P'. dtoa_trim radix mant P = Some (mant', P') \<and> 1 \<le> P' \<and> P' \<le> P \<and> unat mant = unat mant' * unat radix ^ nat (P - P')
    \<and> 0 < unat mant' \<and> unat mant' < unat radix ^ nat P' \<and> \<not> unat radix dvd unat mant'"
  using assms(2,3)
proof (induction "unat mant" arbitrary: mant P rule: less_induct)
  case less
  have u: "unat (ucast radix :: u64) = unat radix" by (rule unat_ucast_limb)
  have z: "mant mod ucast radix = 0 \<longleftrightarrow> unat mant mod unat radix = 0" by (simp add: word_unat_eq_iff unat_mod)
  show ?case
  proof (cases "unat mant mod unat radix = 0")
    case False
    have "1 \<le> P" using less.prems by (cases "P \<le> 0") auto
    with False less.prems show ?thesis
      by (subst dtoa_trim.simps) (simp add: z dvd_eq_mod_eq_0)
  next
    case True
    let ?m = "mant div ucast radix"
    have m: "unat ?m = unat mant div unat radix" by (simp add: unat_div u)
    have q: "unat mant = unat ?m * unat radix" using div_mult_mod_eq [of "unat mant" "unat radix"] True by (simp only: m)
    have 1: "unat ?m < unat mant" unfolding m using r(1) less.prems(1) by (intro div_less_dividend) simp_all
    have m0: "0 < unat ?m" using less.prems(1) unfolding q by simp
    have "1 < nat P"
    proof (rule ccontr)
      assume "\<not> 1 < nat P"
      then have "unat radix ^ nat P \<le> unat radix" using r(1) by (cases "nat P") auto
      with less.prems(2) have "unat mant < unat radix" by linarith
      then have "unat ?m = 0" unfolding m by (rule div_less)
      with m0 show False by simp
    qed
    then obtain k where k: "nat P = Suc k" "nat (P - 1) = k" by (cases "nat P") auto
    have 2: "unat ?m < unat radix ^ nat (P - 1)" using less.prems(2) r(1) unfolding q k by (simp only: power_Suc2 mult_less_cancel2)
    from less.hyps [OF 1 m0 2] obtain m' P' where IH: "dtoa_trim radix ?m (P - 1) = Some (m', P')" "1 \<le> P'" "P' \<le> P - 1"
        "unat ?m = unat m' * unat radix ^ nat (P - 1 - P')" "0 < unat m'" "unat m' < unat radix ^ nat P'" "\<not> unat radix dvd unat m'" by blast
    have "nat (P - P') = Suc (nat (P - 1 - P'))" using IH(3) by simp
    then have "unat mant = unat m' * unat radix ^ nat (P - P')" unfolding q IH(4) by (simp only: power_Suc ac_simps)
    moreover have "dtoa_trim radix mant P = Some (m', P')" by (subst dtoa_trim.simps) (simp only: z True if_True IH(1) simp_thms)
    ultimately show ?thesis using IH(2,3,5,6,7) by auto
  qed
qed

section \<open>Rounding back\<close>

lemma d_prec_diff: "d_prec e0 - e0 = min (53 - e0) 1074"
  by (simp add: d_prec_def)

lemma round_div_nearest:
  assumes "0 < d" and near: "\<bar>real n / real d - real K\<bar> < 1 / 2 \<or> \<bar>real n / real d - real K\<bar> \<le> 1 / 2 \<and> even K"
  shows "round_div JS_RNDN n d = K"
proof -
  define q r where "q = n div d" and "r = n mod d"
  have r: "r < d" using assms(1) by (simp add: r_def)
  have "real n = real q * real d + real r" unfolding q_def r_def by (simp flip: of_nat_mult of_nat_add)
  then have v: "real n / real d = real q + real r / real d" using assms(1) by (simp add: field_simps)
  define t where "t = real r / real d"
  have t: "0 \<le> t" "t < 1" "d < 2 * r \<longleftrightarrow> 1 / 2 < t" "d = 2 * r \<longleftrightarrow> t = 1 / 2"
    unfolding t_def using assms(1) r by (auto simp: field_simps)
  from near have "\<bar>real q + t - real K\<bar> < 1 / 2 \<or> \<bar>real q + t - real K\<bar> \<le> 1 / 2 \<and> even K" unfolding v t_def .
  moreover have "round_div JS_RNDN n d = (if 1 / 2 < t \<or> t = 1 / 2 \<and> odd q then q + 1 else q)"
    unfolding round_div_def q_def [symmetric] r_def [symmetric] t(3,4) by simp
  moreover have "K = q \<or> K = q + 1 \<or> K < q \<or> q + 1 < K" by linarith
  moreover have "K < q \<Longrightarrow> real K + 1 \<le> real q" "q + 1 < K \<Longrightarrow> real q + 2 \<le> real K" by linarith+
  ultimately show ?thesis using t(1,2) by (auto simp: abs_le_iff abs_less_iff)
qed

lemma d_pair_nearest:
  assumes d: "0 < d" and u: "u = 2 powr (of_int (min (53 - e0) 1074))"
    and near: "\<bar>real n / real d * u - real K\<bar> < 1 / 2 \<or> \<bar>real n / real d * u - real K\<bar> \<le> 1 / 2 \<and> even K"
  shows "d_units JS_RNDN n d e0 = K"
proof -
  let ?n = "n * 2 ^ nat (d_prec e0 - e0)" and ?d = "d * 2 ^ nat (e0 - d_prec e0)"
  have v: "real ?n / real ?d = real n / real d * u" unfolding u d_prec_diff [symmetric] powr_int_nat by simp
  have "0 < ?d" using d by simp
  then show ?thesis unfolding d_units_def using near unfolding v [symmetric] by (rule round_div_nearest)
qed

text \<open>
  A number close enough to the double \<open>(m, e)\<close> rounds to it: nearer than half a unit in the last place, and
  below a power of two, where the units are half as large, at most a quarter.
\<close>

lemma abs_scale: "0 < u \<Longrightarrow> \<bar>y * u - x * u\<bar> = \<bar>y - x\<bar> * (u :: real)"
  by (simp add: abs_mult flip: left_diff_distrib)

lemma d_pair_same:
  assumes d: "0 < d" and m: "unat m < 2 ^ 53" "2 ^ nat (- 1021 - e) dvd unat m" and h: "h = 2 powr (of_int (e - 53))"
    and near: "\<bar>real n / real d - real (unat m) * h\<bar> < h / 2"
  shows "d_pair (d_units JS_RNDN n d e) e = (m, e)"
proof -
  define j where "j = nat (- 1021 - e)"
  obtain K where K: "unat m = K * 2 ^ j" using m(2) unfolding j_def by (metis dvd_def mult.commute)
  define u :: real where "u = 2 powr (of_int (min (53 - e) 1074))"
  have "h * u = 2 powr (of_int (- int j))" unfolding h u_def powr_add [symmetric] of_int_add [symmetric] j_def
    by (rule arg_cong [where f = "\<lambda>x. 2 powr (of_int x)"]) simp
  then have hu: "h * u = 1 / 2 ^ j" by (simp add: powr_minus_divide powr_realpow)
  have u0: "0 < u" by (simp add: u_def)
  have "real (unat m) * h * u = real K" using hu by (simp add: K mult.assoc)
  then have "\<bar>real n / real d * u - real K\<bar> = \<bar>real n / real d - real (unat m) * h\<bar> * u"
    using abs_scale [OF u0] by metis
  also have "\<dots> < h / 2 * u" using near u0 by (rule mult_strict_right_mono)
  also have "\<dots> \<le> 1 / 2" using hu by simp
  finally have "d_units JS_RNDN n d e = K" using d_pair_nearest [OF d u_def] by blast
  moreover have "nat (53 - d_prec e) = j" by (simp add: j_def d_prec_def)
  moreover have "\<not> 2 ^ 53 \<le> K * 2 ^ j" using m(1) unfolding K by simp
  ultimately show ?thesis unfolding d_pair_def Let_def by (simp add: K [symmetric])
qed

lemma d_pair_below:
  assumes d: "0 < d" and m: "unat m = 2 ^ 52" "2 ^ nat (- 1021 - e) dvd unat m" and h: "h = 2 powr (of_int (e - 53))"
    and near: "\<bar>real n / real d - 2 ^ 52 * h\<bar> \<le> h / 4"
  shows "d_pair (d_units JS_RNDN n d (e - 1)) (e - 1) = (m, e)"
proof -
  define j where "j = nat (- 1020 - e)"
  have j: "j \<le> 53"
  proof -
    have "nat (- 1021 - e) \<le> 52"
      using m(2) unfolding m(1) by (metis one_less_numeral_iff power_dvd_imp_le semiring_norm(76))
    then show ?thesis by (simp add: j_def)
  qed
  define K :: nat where "K = 2 ^ (53 - j)"
  have K: "K * 2 ^ j = 2 ^ 53" using j by (simp add: K_def flip: power_add)
  define u :: real where "u = 2 powr (of_int (min (53 - (e - 1)) 1074))"
  have "h * u = 2 powr (of_int (1 - int j))" unfolding h u_def powr_add [symmetric] of_int_add [symmetric] j_def
    by (rule arg_cong [where f = "\<lambda>x. 2 powr (of_int x)"]) simp
  then have hu: "h * u = 2 / 2 ^ j" by (simp add: powr_diff powr_realpow)
  have u0: "0 < u" by (simp add: u_def)
  have "2 ^ 52 * h * u = 2 ^ 53 / 2 ^ j" using hu by (simp add: mult.assoc)
  also have "\<dots> = real K"
  proof -
    have "real K * 2 ^ j = 2 ^ 53" using arg_cong [OF K, of real] by (simp only: of_nat_mult of_nat_power of_nat_numeral)
    then show ?thesis by (simp add: field_simps)
  qed
  finally have "\<bar>real n / real d * u - real K\<bar> = \<bar>real n / real d - 2 ^ 52 * h\<bar> * u"
    using abs_scale [OF u0] by metis
  also have "\<dots> \<le> h / 4 * u" using near u0 by (intro mult_right_mono) simp_all
  also have "h / 4 * u = 1 / 2 / 2 ^ j" using hu by simp
  finally have *: "\<bar>real n / real d * u - real K\<bar> \<le> 1 / 2 / 2 ^ j" .
  have "d_units JS_RNDN n d (e - 1) = K"
  proof (rule d_pair_nearest [OF d u_def], cases "j = 0")
    case True
    then show "\<bar>real n / real d * u - real K\<bar> < 1 / 2 \<or> \<bar>real n / real d * u - real K\<bar> \<le> 1 / 2 \<and> even K" using * by (simp add: K_def)
  next
    case False
    then have "1 / 2 / 2 ^ j < 1 / (2 :: real)" by (simp add: field_simps)
    with * show "\<bar>real n / real d * u - real K\<bar> < 1 / 2 \<or> \<bar>real n / real d * u - real K\<bar> \<le> 1 / 2 \<and> even K" by linarith
  qed
  moreover have "nat (53 - d_prec (e - 1)) = j" by (simp add: j_def d_prec_def)
  moreover have "of_nat (2 ^ 53 div 2) = m" using m(1) by (simp add: word_unat_eq_iff)
  ultimately show ?thesis unfolding d_pair_def Let_def by (simp add: K)
qed

lemma pow2_units: "k \<le> 53 \<Longrightarrow> 2 powr (of_int (e - k)) = (2 :: real) ^ nat (53 - k) * 2 powr (of_int (e - 53))"
  unfolding powr_int_of_nat [symmetric] powr_add [symmetric] by simp

lemma round_back:
  assumes d: "0 < d" and m: "2 ^ 52 \<le> unat m" "unat m < 2 ^ 53" "2 ^ nat (- 1021 - e) dvd unat m" and h: "h = 2 powr (of_int (e - 53))"
    and near: "\<bar>real n / real d - real (unat m) * h\<bar> < h / 2"
    and quarter: "unat m = 2 ^ 52 \<Longrightarrow> \<bar>real n / real d - real (unat m) * h\<bar> \<le> h / 4"
  shows "\<exists>e0. has_exp n d e0 \<and> e - 1 \<le> e0 \<and> d_pair (d_units JS_RNDN n d e0) e0 = (m, e)"
proof -
  define y where "y = real n / real d"
  note y = y_def [symmetric]
  have h0: "0 < h" by (simp add: h)
  note pw = pow2_units [of _ e, folded h]
  have p: "2 powr (of_int e) = 2 ^ 53 * h" "2 powr (of_int e - 1) = 2 ^ 52 * h" "2 powr (of_int (e - 1) - 1) = 2 ^ 51 * h"
    "2 powr (of_int (e - 1)) = 2 ^ 52 * h"
    using pw [of 0] pw [of 1] pw [of 2] by simp_all
  have "real (unat m + 1) \<le> real (2 ^ 53)" using m(2) by (simp only: of_nat_le_iff)
  then have "real (unat m) + 1 \<le> 2 ^ 53" by simp
  then have "(real (unat m) + 1) * h \<le> 2 ^ 53 * h" using h0 by (intro mult_right_mono) simp_all
  then have hi: "y < 2 ^ 53 * h" using near h0 unfolding y distrib_right by linarith
  show ?thesis
  proof (cases "2 ^ 52 * h \<le> y")
    case True
    then have "has_exp n d e" using hi unfolding has_exp_real [OF d] p y by simp
    then show ?thesis using d_pair_same [OF d m(2,3) h near] by auto
  next
    case False
    have eq: "unat m = 2 ^ 52"
    proof (rule ccontr)
      assume "unat m \<noteq> 2 ^ 52"
      then have "real (2 ^ 52 + 1) \<le> real (unat m)" using m(1) by (simp only: of_nat_le_iff)
      then have "2 ^ 52 + 1 \<le> real (unat m)" by simp
      then have "(2 ^ 52 + 1) * h \<le> real (unat m) * h" using h0 by (intro mult_right_mono) simp_all
      then show False using False near h0 unfolding y distrib_right by linarith
    qed
    have q: "\<bar>y - 2 ^ 52 * h\<bar> \<le> h / 4" using quarter [OF eq] unfolding eq y by simp
    then have "has_exp n d (e - 1)" using False h0 unfolding has_exp_real [OF d] p y abs_le_iff by simp
    then show ?thesis using d_pair_below [OF d eq m(3) h q [unfolded y_def]] by auto
  qed
qed


lemma max_digits_precise:
  assumes "2 \<le> R" "R \<le> 36"
  shows "1 \<le> dtoa_max_digits_table ! (R - 2)"
    and "2 ^ 53 \<le> R ^ nat (dtoa_max_digits_table ! (R - 2) - 1)" and "R \<noteq> 2 \<Longrightarrow> 2 ^ 53 + 1 \<le> R ^ nat (dtoa_max_digits_table ! (R - 2) - 1)"
    and "dtoa_max_digits_table ! (R - 2) \<le> 54"
proof -
  have "\<forall>r \<in> {2..<37}. 1 \<le> dtoa_max_digits_table ! (r - 2) \<and> 2 ^ 53 \<le> r ^ nat (dtoa_max_digits_table ! (r - 2) - 1)
      \<and> (r \<noteq> 2 \<longrightarrow> 2 ^ 53 + 1 \<le> r ^ nat (dtoa_max_digits_table ! (r - 2) - 1)) \<and> dtoa_max_digits_table ! (r - 2) \<le> 54"
    unfolding atLeastLessThan_upt by (simp add: upt_rec dtoa_max_digits_table_def)
  moreover have "R \<in> {2..<37}" using assms by simp
  ultimately show "1 \<le> dtoa_max_digits_table ! (R - 2)" "2 ^ 53 \<le> R ^ nat (dtoa_max_digits_table ! (R - 2) - 1)"
    "R \<noteq> 2 \<Longrightarrow> 2 ^ 53 + 1 \<le> R ^ nat (dtoa_max_digits_table ! (R - 2) - 1)" "dtoa_max_digits_table ! (R - 2) \<le> 54" by blast+
qed

text \<open>With the largest number of digits the printed number is that close.\<close>

lemma dig_close:
  assumes i: "dtoa_in m e radix radix1 rs E0" and R: "R = unat radix" and P: "P = dtoa_max_digits_table ! (R - 2)"
    and n: "dig_result JS_RNDN R m e P E0 E n" and h: "h = 2 powr (of_int (e - 53))"
  shows "\<bar>real n * real R powr (of_int (E - P)) - real (unat m) * h\<bar> < h / 2"
    and "unat m = 2 ^ 52 \<Longrightarrow> \<bar>real n * real R powr (of_int (E - P)) - real (unat m) * h\<bar> \<le> h / 4"
proof -
  let ?e = "\<bar>real n * real R powr (of_int (E - P)) - real (unat m) * h\<bar>"
  define B where "B = real R ^ nat (P - 1)"
  have R2: "2 \<le> R" "R \<le> 36" using dtoa_inD(1,2) [OF i] by (simp_all add: R)
  then have R0: "0 < R" by simp
  note mx = max_digits_precise [OF R2, folded P]
  have h0: "0 < h" by (simp add: h)
  have "real (2 ^ 53) \<le> real (R ^ nat (P - 1))" using mx(2) by (simp only: of_nat_le_iff)
  then have B: "2 ^ 53 \<le> B" by (simp add: B_def)
  have half: "?e \<le> real R powr (of_int (E - P)) / 2"
  proof -
    have nd: "n = dig JS_RNDN R m e P E" using n by (simp add: dig_result_def)
    let ?w = "real R powr (of_int (E - P))" and ?z = "dx m e * real R powr (of_int (P - E))"
    have w: "0 < ?w" using R0 by simp
    have "real (unat m) * h = ?z * ?w" using R0 by (simp add: dx_def h mult.assoc flip: powr_add)
    then have "?e = \<bar>real n - ?z\<bar> * ?w" using abs_scale [OF w, of "real n" ?z] by (simp only:)
    also have "\<dots> \<le> 1 / 2 * ?w" using dig_half [OF R0, of JS_RNDN m e P E] w unfolding nd by (intro mult_right_mono) simp_all
    finally show ?thesis by simp
  qed
  have split: "real R powr (of_int (E' - P)) * B = real R powr (of_int (E' - 1))" for E'
  proof -
    have "B = real R powr (of_int (P - 1))" unfolding B_def powr_base_int [OF R0] using mx(1) by simp
    then show ?thesis by (simp flip: powr_add)
  qed
  define er where "er = ?e"
  note half' = half [folded er_def]
  have "er < h / 2 \<and> (unat m = 2 ^ 52 \<longrightarrow> er \<le> h / 4)"
  proof (cases "E = E0")
    case True
    have "real R powr (of_int (E - P)) * 2 ^ 53 \<le> real R powr (of_int (E - P)) * B" using B by (intro mult_left_mono) simp_all
    also have "\<dots> \<le> 2 powr (of_int (e - 1))" unfolding split using digit_estimate(1) [OF R2(1) dtoa_inD(7) [OF i, folded R]] True by simp
    also have "\<dots> = 2 ^ 52 * h" using pow2_units [of 1 e] by (simp add: h)
    finally have "er \<le> h / 4" using half' by simp
    then show ?thesis using h0 by simp
  next
    case False
    then have big: "R ^ nat P \<le> dig JS_RNDN R m e P E0" and E: "E = E0 + 1" using n by (simp_all add: dig_result_def)
    have lo: "real R powr (of_int E0) * (1 - 1 / (2 * real R ^ nat P)) \<le> real (unat m) * h"
      using dig_bounds(5) [OF R2(1) dtoa_inD(5,6) [OF i] _ mx(1) dtoa_inD(7) [OF i, folded R] big] by (simp add: dx_def h)
    define w where "w = real R powr (of_int (E - P))"
    have w0: "0 < w" using R0 by (simp add: w_def)
    have RP: "real R ^ nat P = B * real R" using mx(1) by (simp add: B_def nat_diff_distrib' flip: power_Suc2)
    have wB: "real R powr (of_int E0) = w * B" using split [of E] by (simp add: w_def E)
    have "w * (B - 1 / (2 * real R)) = w * B * (1 - 1 / (2 * real R ^ nat P))"
      unfolding RP using R0 B by (simp add: field_simps)
    then have lo': "w * (B - 1 / (2 * real R)) \<le> real (unat m) * h" using lo by (simp only: wB)
    have "R \<noteq> 2"
    proof
      assume 2: "R = 2"
      have "real R powr (of_int E0) = 2 ^ 53 * h"
        using digit_estimate(3) [OF R2(1) dtoa_inD(7) [OF i, folded R] 2] 2 pow2_units [of 0 e] by (simp add: h)
      moreover have "nat P = 54" by (simp add: P 2 dtoa_max_digits_table_def)
      ultimately have "(2 ^ 53 * (1 - 1 / (2 * 2 ^ 54))) * h \<le> real (unat m) * h" using lo 2 by (simp add: mult.assoc mult.commute [of h])
      then have "2 ^ 53 * (1 - 1 / (2 * 2 ^ 54)) \<le> real (unat m)" using h0 by (simp only: mult_le_cancel_right_pos)
      moreover have "real (unat m + 1) \<le> real (2 ^ 53)" using dtoa_inD(6) [OF i] by (simp only: of_nat_le_iff)
      ultimately show False by simp
    qed
    from mx(3) [OF this] have "real (2 ^ 53 + 1) \<le> real (R ^ nat (P - 1))" by (simp only: of_nat_le_iff)
    moreover have "1 / (2 * real R) \<le> 1" using R2(1) by simp
    ultimately have "2 ^ 53 \<le> B - 1 / (2 * real R)" by (simp add: B_def)
    then have "w * 2 ^ 53 \<le> w * (B - 1 / (2 * real R))" using w0 by (intro mult_left_mono) simp_all
    then have *: "w * 2 ^ 53 \<le> real (unat m) * h" using lo' by linarith
    have "real (unat m) < real (2 ^ 53)" using dtoa_inD(6) [OF i] by (simp only: of_nat_less_iff)
    then have "real (unat m) * h < 2 ^ 53 * h" using h0 by simp
    with * half' have "er < h / 2" unfolding w_def by simp
    moreover have "er \<le> h / 4" if "unat m = 2 ^ 52" using * half' unfolding w_def that by simp
    ultimately show ?thesis by blast
  qed
  then show "?e < h / 2" "unat m = 2 ^ 52 \<Longrightarrow> ?e \<le> h / 4" unfolding er_def by blast+
qed


section \<open>The free format\<close>

text \<open>The tries: a mantissa of exactly \<open>P\<close> digits, trimmed, that rounds back to the double when asked to.\<close>

lemma trimmed_round:
  assumes i: "dtoa_in m e radix radix1 rs E0" and e: "- 1073 \<le> e" and mant: "0 < unat mant"
    and y: "real R powr (of_int (E0 - 1)) \<le> real (unat mant) * real R powr (of_int (E - P))" and R: "R = unat radix"
  defines "n \<equiv> scaled_num (unat mant) 0 R (E - P)" and "d \<equiv> scaled_den 0 R (E - P)"
  shows "\<exists>e0. has_exp n d e0 \<and> mul_pow_round_to_d (mpb_set_u64 mant) radix1 rs (E - P) JS_RNDN = Some (d_pair (d_units JS_RNDN n d e0) e0)"
proof -
  have R2: "2 \<le> R" "R \<le> 36" using dtoa_inD(1,2) [OF i] by (simp_all add: R)
  then have R0: "0 < R" by simp
  have d0: "0 < d" using R0 by (simp add: d_def scaled_den_def)
  have n0: "0 < n" using R0 mant by (simp add: n_def scaled_num_def)
  obtain e0 where e0: "has_exp n d e0" using has_exp_exists [OF n0 d0] by blast
  have nd: "real n / real d = real (unat mant) * real R powr (of_int (E - P))"
    unfolding n_def d_def scaled_real [OF R0] by simp
  have "2 powr (of_int (e - 1)) < real R * real R powr (of_int (E0 - 1))"
    using digit_estimate(2) [OF R2(1) dtoa_inD(7) [OF i, folded R]] R0 powr_add [of "real R" 1 "of_int (E0 - 1)"] by simp
  also have "\<dots> \<le> 2 ^ 6 * real R powr (of_int (E0 - 1))" using R2(2) by (intro mult_right_mono) simp_all
  also have "\<dots> \<le> 2 ^ 6 * (real n / real d)" using y unfolding nd by simp
  also have "\<dots> < 2 ^ 6 * 2 powr (of_int e0)" using e0 unfolding has_exp_real [OF d0] by simp
  also have "\<dots> = 2 powr (of_int (e0 + 6))" by (simp add: powr_add)
  finally have "- 1085 < e0" using e by simp
  then show ?thesis
    using mul_pow_round_to_d_val [OF dtoa_inD(4) [OF i] mpb_set_u64_ok _ dtoa_inD(3) [OF i, folded R] _ _ e0, of mant "E - P" JS_RNDN] mant e0
    by (auto simp: mpb_set_u64_val n_def d_def)
qed

definition free_found :: "u64 \<Rightarrow> int \<Rightarrow> u32 \<Rightarrow> u32 \<Rightarrow> nat \<Rightarrow> int \<Rightarrow> int \<times> int \<times> u64 \<Rightarrow> bool" where
  "free_found m e radix radix1 rs E0 f \<longleftrightarrow>
     (case f of (P, E, mant) \<Rightarrow>
        1 \<le> P \<and> P \<le> dtoa_max_digits_table ! (unat radix - 2) \<and> (E = E0 \<or> E = E0 + 1) \<and>
        unat radix ^ nat (P - 1) \<le> unat mant \<and> unat mant < unat radix ^ nat P \<and> \<not> unat radix dvd unat mant \<and>
        mul_pow_round_to_d (mpb_set_u64 mant) radix1 rs (E - P) JS_RNDN = Some (m, e))"

lemma free_try:
  assumes i: "dtoa_in m e radix radix1 rs E0" and e: "- 1073 \<le> e" "2 ^ nat (- 1021 - e) dvd unat m"
    and P: "1 \<le> P" "P \<le> dtoa_max_digits_table ! (unat radix - 2)"
  shows "\<exists>r1 mant P' m' e'. pow_ui radix (of_int P) = Some (of_nat (unat radix ^ nat P))
    \<and> dtoa_mant m e radix1 rs P (of_nat (unat radix ^ nat P)) E0 = Some r1 \<and> dtoa_trim radix (fst r1) P = Some (mant, P')
    \<and> P' \<le> P \<and> mul_pow_round_to_d (mpb_set_u64 mant) radix1 rs (snd r1 - P') JS_RNDN = Some (m', e')
    \<and> (m' = m \<and> e' = e \<longrightarrow> free_found m e radix radix1 rs E0 (P', snd r1, mant))
    \<and> (P = dtoa_max_digits_table ! (unat radix - 2) \<longrightarrow> m' = m \<and> e' = e)"
proof -
  let ?R = "unat radix"
  note R = dtoa_inD(1,2) [OF i]
  obtain mant E where r1: "dtoa_mant m e radix1 rs P (of_nat (?R ^ nat P)) E0 = Some (mant, E)" "dig_result JS_RNDN ?R m e P E0 E (unat mant)"
    using dtoa_mant_val [OF i P] by blast
  then have lo: "?R ^ nat (P - 1) \<le> unat mant" "unat mant < ?R ^ nat P" and EE: "E = E0 \<or> E = E0 + 1" by (auto simp: dig_result_def)
  have m0: "0 < unat mant" using lo(1) R(1) by (metis gr0I le_zero_eq power_eq_0_iff not_numeral_le_zero)
  from dtoa_trim_val [OF R(1) m0 lo(2)] obtain mant' P' where t: "dtoa_trim radix mant P = Some (mant', P')" "1 \<le> P'" "P' \<le> P"
      "unat mant = unat mant' * ?R ^ nat (P - P')" "0 < unat mant'" "unat mant' < ?R ^ nat P'" "\<not> ?R dvd unat mant'" by blast
  have R0: "0 < ?R" using R by simp
  have R1: "real 1 \<le> real ?R" using R by (simp only: of_nat_le_iff)
  have "nat (P - 1) = nat (P' - 1) + nat (P - P')" using t(2,3) by simp
  then have "?R ^ nat (P' - 1) * ?R ^ nat (P - P') \<le> unat mant' * ?R ^ nat (P - P')" using lo(1) t(4) by (simp only: power_add)
  then have lo': "?R ^ nat (P' - 1) \<le> unat mant'" using R0 by simp
  define y where "y = real (unat mant) * real ?R powr (of_int (E - P))"
  have yp: "y = real (unat mant') * real ?R powr (of_int (E - P'))"
  proof -
    have "real ?R ^ nat (P - P') = real ?R powr (of_int (P - P'))" unfolding powr_base_int [OF R0] using t(3) by simp
    then have "real (?R ^ nat (P - P')) * real ?R powr (of_int (E - P)) = real ?R powr (of_int (E - P'))"
      by (simp flip: powr_add)
    then show ?thesis unfolding y_def t(4) of_nat_mult by (simp only: mult.assoc)
  qed
  have "real ?R powr (of_int (E0 - 1)) \<le> y"
  proof -
    have "real ?R powr (of_int (E0 - 1)) \<le> real ?R powr (of_int (E - 1))" using EE R1 by (intro powr_mono) auto
    also have "\<dots> = real ?R ^ nat (P - 1) * real ?R powr (of_int (E - P))"
    proof -
      have "real ?R ^ nat (P - 1) = real ?R powr (of_int (P - 1))" unfolding powr_base_int [OF R0] using P(1) by simp
      then show ?thesis by (simp flip: powr_add)
    qed
    also have "\<dots> \<le> y"
    proof -
      have "real (?R ^ nat (P - 1)) \<le> real (unat mant)" using lo(1) by (simp only: of_nat_le_iff)
      then show ?thesis unfolding y_def of_nat_power by (rule mult_right_mono) simp
    qed
    finally show ?thesis .
  qed
  note tr = trimmed_round [OF i e(1) t(5) this [unfolded yp] refl]
  let ?n = "scaled_num (unat mant') 0 ?R (E - P')" and ?d = "scaled_den 0 ?R (E - P')"
  have d0: "0 < ?d" using R0 by (simp add: scaled_den_def)
  obtain e0 m' e' where e0: "has_exp ?n ?d e0" "d_pair (d_units JS_RNDN ?n ?d e0) e0 = (m', e')"
      "mul_pow_round_to_d (mpb_set_u64 mant') radix1 rs (E - P') JS_RNDN = Some (m', e')" using tr by (metis surj_pair)
  have "m' = m \<and> e' = e" if mx: "P = dtoa_max_digits_table ! (?R - 2)"
  proof -
    have q: "real ?n / real ?d = y" unfolding scaled_real [OF R0] yp by simp
    note c = dig_close [OF i refl mx r1(2) refl, folded y_def, folded q]
    from round_back [OF d0 dtoa_inD(5,6) [OF i] e(2) refl c(1) c(2)] obtain e1 where
      e1: "has_exp ?n ?d e1" "d_pair (d_units JS_RNDN ?n ?d e1) e1 = (m, e)" by blast
    with has_exp_unique [OF d0 e0(1) e1(1)] e0(2) show ?thesis by simp
  qed
  moreover have "unat (of_int P :: u32) = nat P"
  proof -
    have "nat P < 2 ^ 32" using P(2) max_digits_precise(4) [OF R] by simp
    then have "unat (of_nat (nat P) :: u32) = nat P" by (simp only: unsigned_of_nat) (simp add: take_bit_nat_eq_self)
    then show ?thesis using P(1) by simp
  qed
  ultimately show ?thesis
    using r1 t e0 lo' P(2) EE by (intro exI [of _ "(mant, E)"] exI [of _ mant'] exI [of _ P'] exI [of _ m'] exI [of _ e']) (simp add: pow_ui_val free_found_def)
qed

text \<open>The search ends, with digits that round back to the double.\<close>

lemma dtoa_free_loop_val:
  assumes i: "dtoa_in m e radix radix1 rs E0" and e: "- 1073 \<le> e" "2 ^ nat (- 1021 - e) dvd unat m"
  shows "\<lbrakk>1 \<le> P; P \<le> dtoa_max_digits_table ! (unat radix - 2);
      fst found = 0 \<and> P = dtoa_max_digits_table ! (unat radix - 2) \<or> fst found \<noteq> 0 \<and> free_found m e radix radix1 rs E0 found\<rbrakk>
    \<Longrightarrow> \<exists>f. dtoa_free_loop m e radix radix1 rs E0 P found = Some f \<and> free_found m e radix radix1 rs E0 f"
proof (induction "nat P" arbitrary: P found rule: less_induct)
  case less
  from free_try [OF i e less.prems(1,2)] obtain r1 mant P' m' e' where
    t: "pow_ui radix (of_int P) = Some (of_nat (unat radix ^ nat P))" "dtoa_mant m e radix1 rs P (of_nat (unat radix ^ nat P)) E0 = Some r1"
      "dtoa_trim radix (fst r1) P = Some (mant, P')" "P' \<le> P"
      "mul_pow_round_to_d (mpb_set_u64 mant) radix1 rs (snd r1 - P') JS_RNDN = Some (m', e')"
    and ff: "m' = m \<and> e' = e \<Longrightarrow> free_found m e radix radix1 rs E0 (P', snd r1, mant)"
    and mx: "P = dtoa_max_digits_table ! (unat radix - 2) \<Longrightarrow> m' = m \<and> e' = e"
    by blast
  have ok: "(if fst found = 0 then Some True
      else Option.bind (mul_pow_round_to_d (mpb_set_u64 mant) radix1 rs (snd r1 - P') JS_RNDN) (\<lambda>r3. Some (fst r3 = m \<and> snd r3 = e)))
    = Some (m' = m \<and> e' = e)" using less.prems(3) mx t(5) by auto
  have loop: "dtoa_free_loop m e radix radix1 rs E0 P found =
      (if m' = m \<and> e' = e then if P' = 1 then Some (P', snd r1, mant) else dtoa_free_loop m e radix radix1 rs E0 (P' - 1) (P', snd r1, mant)
       else Some found)"
    by (subst dtoa_free_loop.simps) (simp only: t(1-3) bind.bind_lunit Let_def fst_conv snd_conv ok)
  show ?case
  proof (cases "m' = m \<and> e' = e")
    case False
    then show ?thesis using less.prems(3) mx loop by (intro exI [of _ found]) auto
  next
    case True
    note f = ff [OF True]
    then have P': "1 \<le> P'" by (simp add: free_found_def)
    show ?thesis
    proof (cases "P' = 1")
      case True
      then show ?thesis using \<open>m' = m \<and> e' = e\<close> loop f by simp
    next
      case False
      have "nat (P' - 1) < nat P" "1 \<le> P' - 1" "P' - 1 \<le> dtoa_max_digits_table ! (unat radix - 2)"
        using P' False t(4) less.prems by simp_all
      from less.hyps [OF this, of "(P', snd r1, mant)"] f P' show ?thesis using True False loop by simp
    qed
  qed
qed

lemma dtoa_free_val:
  assumes i: "dtoa_in m e radix radix1 rs E0" and e: "- 1073 \<le> e" "2 ^ nat (- 1021 - e) dvd unat m"
  shows "\<exists>P E mant. dtoa_free m e radix radix1 rs E0 = Some (P, E, mpb_set_u64 mant) \<and> free_found m e radix radix1 rs E0 (P, E, mant)"
proof -
  have "1 \<le> dtoa_max_digits_table ! (unat radix - 2)" using max_digits_precise(1) dtoa_inD(1,2) [OF i] by blast
  from dtoa_free_loop_val [OF i e this order_refl, of "(0, 0, 0)"] show ?thesis
    by (auto simp: dtoa_free_def Let_def)
qed

end
