(* ===== verification/Atod.thy ===== *)
theory Atod
  imports Dtoa
begin

text \<open>
  Parsing of numbers, \<open>js_atod\<close> of \<open>src/dtoa.c\<close>.  The text is the array of its bytes with the
  terminating zero; a pointer into it is an index, and reading outside of the array is
  \<open>None\<close>.  The result is the bit pattern of the double with the position where parsing
  stopped (\<open>*pnext\<close>).  Arithmetic on the exponent that leaves the range of \<open>int\<close> is undefined
  and gives \<open>None\<close>.
\<close>

definition to_digit :: "u8 \<Rightarrow> int" where
  "to_digit w =
     (let c = uint w
      in if 0x30 \<le> c \<and> c \<le> 0x39 then c - 0x30
         else if 0x41 \<le> c \<and> c \<le> 0x5a then c - 0x41 + 10
         else if 0x61 \<le> c \<and> c \<le> 0x7a then c - 0x61 + 10
         else 36)"

abbreviation (input) "JS_ATOD_INT_ONLY \<equiv> 1 :: u32"
abbreviation (input) "JS_ATOD_ACCEPT_BIN_OCT \<equiv> 2 :: u32"
abbreviation (input) "JS_ATOD_ACCEPT_LEGACY_OCTAL \<equiv> 4 :: u32"
abbreviation (input) "JS_ATOD_ACCEPT_UNDERSCORES \<equiv> 8 :: u32"

text \<open>Ways to leave the parser early: \<open>fail\<close> (NaN) and \<open>overflow\<close> (infinity), at a position.\<close>

datatype atod_stop = Atod_Fail nat | Atod_Infinity nat

type_synonym 'a atod = "(atod_stop + 'a) ub"

definition atod_bind :: "'a atod \<Rightarrow> ('a \<Rightarrow> 'b atod) \<Rightarrow> 'b atod" where
  "atod_bind x f = (case x of None \<Rightarrow> None | Some (Inl s) \<Rightarrow> Some (Inl s) | Some (Inr v) \<Rightarrow> f v)"

text \<open>Results of \<open>int\<close> arithmetic.\<close>

definition c_int :: "int \<Rightarrow> int ub" where
  "c_int i = (if - (2 ^ 31) \<le> i \<and> i < 2 ^ 31 then Some i else None)"

section \<open>Sign and prefix\<close>

definition atod_sign :: "u8 list \<Rightarrow> (bool \<times> nat) ub" where
  "atod_sign str =
     do {
       c \<leftarrow> arr_get str 0;
       Some (if c = 0x2b then (False, 1) else if c = 0x2d then (True, 1) else (False, 0))
     }"

text \<open>The first index from \<open>i\<close> on that is not an octal digit.\<close>

function atod_octal_end :: "u8 list \<Rightarrow> nat \<Rightarrow> nat ub" where
  "atod_octal_end str i =
     (case arr_get str i of
        None \<Rightarrow> None
      | Some c \<Rightarrow> if 0x30 \<le> c \<and> c \<le> 0x37 then atod_octal_end str (Suc i) else Some i)"
  by pat_completeness auto
termination
  by (relation "measure (\<lambda>(str, i). length str - i)") (auto simp: arr_get_def split: if_splits)

declare atod_octal_end.simps [simp del]

text \<open>The prefix gives the position, the radix (still 0 when there is none) and the separator.\<close>

definition atod_prefix :: "u8 list \<Rightarrow> nat \<Rightarrow> u32 \<Rightarrow> u32 \<Rightarrow> int \<Rightarrow> (nat \<times> u32 \<times> int) atod" where
  "atod_prefix str p radix flags sep =
     do {
       c0 \<leftarrow> arr_get str p;
       if c0 = 0x30 then
         do {
           c1 \<leftarrow> arr_get str (p + 1);
           pre \<leftarrow>
             (if (c1 = 0x78 \<or> c1 = 0x58) \<and> (radix = 0 \<or> radix = 16) then Some (Some (p + 2, 16, sep))
              else if (c1 = 0x6f \<or> c1 = 0x4f) \<and> radix = 0 \<and> flags AND JS_ATOD_ACCEPT_BIN_OCT \<noteq> 0 then
                Some (Some (p + 2, 8, sep))
              else if (c1 = 0x62 \<or> c1 = 0x42) \<and> radix = 0 \<and> flags AND JS_ATOD_ACCEPT_BIN_OCT \<noteq> 0 then
                Some (Some (p + 2, 2, sep))
              else if 0x30 \<le> c1 \<and> c1 \<le> 0x39 \<and> radix = 0 \<and> flags AND JS_ATOD_ACCEPT_LEGACY_OCTAL \<noteq> 0 then
                do {
                  i \<leftarrow> atod_octal_end str (p + 1);
                  ci \<leftarrow> arr_get str i;
                  Some (if ci = 0x38 \<or> ci = 0x39 then None else Some (p + 1, 8, 256))
                }
              else Some None);
           case pre of
             None \<Rightarrow>
               Some (Inr (p, radix,
                 if 0x30 \<le> c1 \<and> c1 \<le> 0x39 \<and> radix = 0 \<and> flags AND JS_ATOD_ACCEPT_LEGACY_OCTAL \<noteq> 0 then 256 else sep))
           | Some (p, radix, sep) \<Rightarrow>
               do {
                 c \<leftarrow> arr_get str p;
                 Some (if uint radix \<le> to_digit c then Inl (Atod_Fail p) else Inr (p, radix, sep))
               }
         }
       else if flags AND JS_ATOD_INT_ONLY = 0 then
         do {
           s \<leftarrow> strstart (drop p str) (c_lit ''Infinity'' @ [0]);
           Some (case s of
               Some rest \<Rightarrow> Inl (Atod_Infinity (length str - length rest))
             | None \<Rightarrow> Inr (p, radix, sep))
         }
       else Some (Inr (p, radix, sep))
     }"

section \<open>Digits\<close>

text \<open>
  The handling of the dot at the head of both digit loops: \<open>None\<close> (inside) is the \<open>break\<close> at a
  second dot, otherwise the new position and dot position.
\<close>

definition atod_dot :: "u8 list \<Rightarrow> nat \<Rightarrow> int \<Rightarrow> u32 \<Rightarrow> int \<Rightarrow> nat \<Rightarrow> int \<Rightarrow> int \<Rightarrow> (nat \<times> int) option atod" where
  "atod_dot str p_start radix flags sep p pos dot_pos =
     do {
       c \<leftarrow> arr_get str p;
       is_dot \<leftarrow>
         (if c = 0x2e then
            if p_start < p then Some (flags AND JS_ATOD_INT_ONLY = 0)
            else do { c1 \<leftarrow> arr_get str (p + 1); Some (to_digit c1 < radix \<and> flags AND JS_ATOD_INT_ONLY = 0) }
          else Some False);
       Some (if is_dot then
               if uint c = sep then Inl (Atod_Fail p)
               else if 0 \<le> dot_pos then Inr None
               else Inr (Some (p + 1, pos))
             else Inr (Some (p, dot_pos)))
     }"

text \<open>A separator is skipped when the following character is accepted.\<close>

definition atod_sep :: "u8 list \<Rightarrow> bool \<Rightarrow> int \<Rightarrow> (u8 \<Rightarrow> bool) \<Rightarrow> nat \<Rightarrow> nat ub" where
  "atod_sep str inside sep ok p =
     do {
       c \<leftarrow> arr_get str p;
       if uint c = sep \<and> inside then do { c1 \<leftarrow> arr_get str (p + 1); Some (if ok c1 then p + 1 else p) }
       else Some p
     }"

lemma atod_dot_ge: "atod_dot str p_start radix flags sep p pos dot_pos = Some (Inr (Some (p', d'))) \<Longrightarrow> p \<le> p'"
  by (auto simp: atod_dot_def bind_eq_Some_conv split: if_splits)

lemma atod_sep_ge: "atod_sep str inside sep ok p = Some p' \<Longrightarrow> p \<le> p'"
  by (auto simp: atod_sep_def bind_eq_Some_conv split: if_splits)

lemma arr_get_less: "arr_get xs i = Some x \<Longrightarrow> i < length xs"
  by (auto simp: arr_get_def split: if_splits)

text \<open>The loop over leading zeros: position, digit position and dot position after it.\<close>

function atod_zeros :: "u8 list \<Rightarrow> nat \<Rightarrow> int \<Rightarrow> u32 \<Rightarrow> int \<Rightarrow> nat \<Rightarrow> int \<Rightarrow> int \<Rightarrow> (nat \<times> int \<times> int) atod" where
  "atod_zeros str p_start radix flags sep p pos dot_pos =
     (case atod_dot str p_start radix flags sep p pos dot_pos of
        None \<Rightarrow> None
      | Some (Inl s) \<Rightarrow> Some (Inl s)
      | Some (Inr None) \<Rightarrow> Some (Inr (p, pos, dot_pos))
      | Some (Inr (Some (p1, dot_pos1))) \<Rightarrow>
        (case atod_sep str (p_start < p1) sep (\<lambda>c. c = 0x30) p1 of
           None \<Rightarrow> None
         | Some p2 \<Rightarrow>
           (case arr_get str p2 of
              None \<Rightarrow> None
            | Some c \<Rightarrow>
              if c \<noteq> 0x30 then Some (Inr (p2, pos, dot_pos1))
              else atod_zeros str p_start radix flags sep (Suc p2) (pos + 1) dot_pos1)))"
  by pat_completeness auto
termination
  by (relation "measure (\<lambda>(str, p_start, radix, flags, sep, p, pos, dot_pos). length str - p)")
    (auto dest!: atod_dot_ge atod_sep_ge arr_get_less)

text \<open>The state of the loop over the significant digits.\<close>

record atod_digits =
  ad_tmp0 :: mpb
  ad_cur_limb :: limb
  ad_limb_digit_count :: nat
  ad_digit_count :: int
  ad_extra_digits :: limb
  ad_pos :: int
  ad_dot_pos :: int

definition atod_add_digit :: "u32 \<Rightarrow> limb \<Rightarrow> atod_digits \<Rightarrow> atod_digits" where
  "atod_add_digit radix c s =
     (let max_digits = atod_max_digits_table ! (unat radix - 2);
          digits_per_limb = digits_per_limb_table ! (unat radix - 2);
          radix_base = radix_base_table ! (unat radix - 2)
      in if ad_digit_count s < max_digits then
           let cur_limb = ad_cur_limb s * radix + c;
               limb_digit_count = ad_limb_digit_count s + 1;
               s = (if limb_digit_count = digits_per_limb then
                      s\<lparr>ad_tmp0 := mpb_mul1_base (ad_tmp0 s) radix_base cur_limb, ad_cur_limb := 0, ad_limb_digit_count := 0\<rparr>
                    else s\<lparr>ad_cur_limb := cur_limb, ad_limb_digit_count := limb_digit_count\<rparr>)
           in s\<lparr>ad_digit_count := ad_digit_count s + 1\<rparr>
         else s\<lparr>ad_extra_digits := ad_extra_digits s OR c\<rparr>)"

function atod_digits_loop :: "u8 list \<Rightarrow> nat \<Rightarrow> u32 \<Rightarrow> u32 \<Rightarrow> int \<Rightarrow> nat \<Rightarrow> atod_digits \<Rightarrow> (nat \<times> atod_digits) atod" where
  "atod_digits_loop str p_start radix flags sep p s =
     (case atod_dot str p_start (uint radix) flags sep p (ad_pos s) (ad_dot_pos s) of
        None \<Rightarrow> None
      | Some (Inl x) \<Rightarrow> Some (Inl x)
      | Some (Inr None) \<Rightarrow> Some (Inr (p, s))
      | Some (Inr (Some (p1, dot_pos1))) \<Rightarrow>
        (case atod_sep str (p_start < p1) sep (\<lambda>c. to_digit c < uint radix) p1 of
           None \<Rightarrow> None
         | Some p2 \<Rightarrow>
           (case arr_get str p2 of
              None \<Rightarrow> None
            | Some w \<Rightarrow>
              let s = s\<lparr>ad_dot_pos := dot_pos1\<rparr>; c = to_digit w
              in if uint radix \<le> c then Some (Inr (p2, s))
                 else
                   atod_digits_loop str p_start radix flags sep (Suc p2)
                     (atod_add_digit radix (of_int c) (s\<lparr>ad_pos := ad_pos s + 1\<rparr>)))))"
  by pat_completeness auto
termination
  by (relation "measure (\<lambda>(str, p_start, radix, flags, sep, p, s). length str - p)")
    (auto dest!: atod_dot_ge atod_sep_ge arr_get_less)

declare atod_zeros.simps [simp del] atod_digits_loop.simps [simp del]

text \<open>What follows the loop: the number, the count of digits and the offset of the exponent.\<close>

definition atod_mantissa :: "u32 \<Rightarrow> nat \<Rightarrow> int \<Rightarrow> atod_digits \<Rightarrow> (mpb \<times> bool \<times> int) ub" where
  "atod_mantissa radix radix_bits sig_pos s =
     do {
       tmp0 \<leftarrow>
         (if ad_limb_digit_count s \<noteq> 0 then
            do { b \<leftarrow> pow_ui radix (of_nat (ad_limb_digit_count s)); Some (mpb_mul1_base (ad_tmp0 s) (ucast b) (ad_cur_limb s)) }
          else Some (ad_tmp0 s));
       let (is_zero, expn_offset) =
         (if ad_digit_count s = 0 then (True, 0)
          else (False, sig_pos + ad_digit_count s - (if ad_dot_pos s < 0 then ad_pos s else ad_dot_pos s)));
       let tmp0 = (if radix_bits \<noteq> 0 \<and> ad_extra_digits s \<noteq> 0 then tmp0[0 := tmp0 ! 0 OR 1] else tmp0);
       Some (tmp0, is_zero, expn_offset)
     }"

section \<open>Exponent\<close>

text \<open>The digits of the exponent: the position after them, the exponent and whether it overflowed.\<close>

function atod_exp_loop :: "u8 list \<Rightarrow> int \<Rightarrow> nat \<Rightarrow> int \<Rightarrow> bool \<Rightarrow> (nat \<times> int \<times> bool) ub" where
  "atod_exp_loop str sep p expn expn_overflow =
     (case atod_sep str True sep (\<lambda>c. to_digit c < 10) p of
        None \<Rightarrow> None
      | Some p1 \<Rightarrow>
        (case arr_get str p1 of
           None \<Rightarrow> None
         | Some w \<Rightarrow>
           let c = to_digit w
           in if 10 \<le> c then Some (p1, expn, expn_overflow)
              else
                let (expn, expn_overflow) =
                  (if \<not> expn_overflow then
                     if (2 ^ 31 - 1 - 2 - 9) div 10 < expn then (expn, True) else (expn * 10 + c, expn_overflow)
                   else (expn, expn_overflow))
                in atod_exp_loop str sep (Suc p1) expn expn_overflow))"
  by pat_completeness auto
termination
  by (relation "measure (\<lambda>(str, sep, p, expn, ov). length str - p)") (auto dest!: atod_sep_ge arr_get_less)

declare atod_exp_loop.simps [simp del]

text \<open>Whether the character starts an exponent.\<close>

definition atod_is_exp :: "u32 \<Rightarrow> nat \<Rightarrow> u32 \<Rightarrow> u8 \<Rightarrow> bool" where
  "atod_is_exp radix radix_bits flags c \<longleftrightarrow>
     flags AND JS_ATOD_INT_ONLY = 0 \<and>
     (radix = 10 \<and> (c = 0x65 \<or> c = 0x45) \<or>
      radix \<noteq> 10 \<and> (c = 0x40 \<or> 1 \<le> radix_bits \<and> radix_bits \<le> 4 \<and> (c = 0x70 \<or> c = 0x50)))"

text \<open>
  The exponent part: the new position, the exponent, whether it is a binary exponent, and
  whether it is too large (with its sign).
\<close>

definition atod_exponent ::
    "u8 list \<Rightarrow> nat \<Rightarrow> u32 \<Rightarrow> nat \<Rightarrow> u32 \<Rightarrow> int \<Rightarrow> nat \<Rightarrow> (nat \<times> int \<times> bool \<times> bool \<times> bool) atod" where
  "atod_exponent str p_start radix radix_bits flags sep p =
     do {
       c \<leftarrow> arr_get str p;
       if atod_is_exp radix radix_bits flags c \<and> p_start < p then
         do {
           let is_bin_exp = (c = 0x70 \<or> c = 0x50);
           let p = p + 1;
           c \<leftarrow> arr_get str p;
           let (exp_is_neg, p) = (if c = 0x2b then (False, p + 1) else if c = 0x2d then (True, p + 1) else (False, p));
           c \<leftarrow> arr_get str p;
           if 10 \<le> to_digit c then Some (Inl (Atod_Fail p))
           else
             do {
               (p, expn, expn_overflow) \<leftarrow> atod_exp_loop str sep (p + 1) (to_digit c) False;
               Some (Inr (p, if exp_is_neg then - expn else expn, is_bin_exp, expn_overflow, exp_is_neg))
             }
         }
       else Some (Inr (p, 0, False, False, False))
     }"

section \<open>Value\<close>

text \<open>The bit pattern without the sign for a rounded mantissa and exponent.\<close>

definition atod_encode :: "u64 \<Rightarrow> int \<Rightarrow> u64" where
  "atod_encode m e =
     (if m = 0 then 0
      else if 1024 < e then push_bit 52 0x7ff
      else if e < - 1073 then 0
      else if e < - 1021 then drop_bit (nat (- e - 1021)) m
      else push_bit 52 (of_int (e + 1022)) OR (m AND (push_bit 52 1 - 1)))"

definition atod_value :: "mpb \<Rightarrow> u32 \<Rightarrow> u32 \<Rightarrow> nat \<Rightarrow> nat \<Rightarrow> int \<Rightarrow> int \<Rightarrow> int \<Rightarrow> bool \<Rightarrow> u64 ub" where
  "atod_value tmp0 radix radix1 radix_shift radix_bits digit_count expn_offset expn is_bin_exp =
     (if radix_bits \<noteq> 0 then
        do {
          expn \<leftarrow> (if \<not> is_bin_exp then c_int (expn * int radix_bits) else Some expn);
          expn \<leftarrow> c_int (expn - expn_offset * int radix_bits);
          expn1 \<leftarrow> c_int (expn + digit_count * int radix_bits);
          if 1024 + int radix_bits \<le> expn1 then Some (push_bit 52 0x7ff)
          else if expn1 \<le> - 1075 then Some 0
          else do { (m, e) \<leftarrow> round_to_d tmp0 (- expn) JS_RNDN; Some (atod_encode m e) }
        }
      else
        do {
          expn \<leftarrow> c_int (expn - expn_offset);
          expn1 \<leftarrow> c_int (expn + digit_count);
          if max_exponent ! (unat radix - 2) + 1 \<le> expn1 then Some (push_bit 52 0x7ff)
          else if expn1 \<le> min_exponent ! (unat radix - 2) then Some 0
          else do { (m, e) \<leftarrow> mul_pow_round_to_d tmp0 radix1 radix_shift expn JS_RNDN; Some (atod_encode m e) }
        })"

definition atod_start :: "int \<Rightarrow> int \<Rightarrow> atod_digits" where
  "atod_start pos dot_pos =
     \<lparr>ad_tmp0 = [0], ad_cur_limb = 0, ad_limb_digit_count = 0, ad_digit_count = 0, ad_extra_digits = 0,
      ad_pos = pos, ad_dot_pos = dot_pos\<rparr>"

text \<open>From the sign to the bit pattern without the sign.\<close>

definition atod_parse :: "u8 list \<Rightarrow> nat \<Rightarrow> u32 \<Rightarrow> u32 \<Rightarrow> (nat \<times> u64) atod" where
  "atod_parse str p_start radix flags =
     atod_bind (atod_prefix str p_start radix flags (if flags AND JS_ATOD_ACCEPT_UNDERSCORES \<noteq> 0 then 0x5f else 256))
       (\<lambda>(p, radix, sep).
          let radix = (if radix = 0 then 10 else radix)
          in do {
            radix_shift \<leftarrow> ctz32 radix;
            let radix1 = drop_bit radix_shift radix;
            let radix_bits = (if radix1 = 1 then radix_shift else 0);
            atod_bind (atod_zeros str p_start (uint radix) flags sep p 0 (- 1))
              (\<lambda>(p, pos, dot_pos).
                 atod_bind (atod_digits_loop str p_start radix flags sep p (atod_start pos dot_pos))
                   (\<lambda>(p, s).
                      do {
                        (tmp0, is_zero, expn_offset) \<leftarrow> atod_mantissa radix radix_bits pos s;
                        atod_bind (atod_exponent str p_start radix radix_bits flags sep p)
                          (\<lambda>(p, expn, is_bin_exp, expn_overflow, exp_is_neg).
                             if \<not> is_zero \<and> expn_overflow then
                               Some (Inr (p, if exp_is_neg then 0 else push_bit 52 0x7ff))
                             else if p = p_start then Some (Inl (Atod_Fail p))
                             else if is_zero then Some (Inr (p, 0))
                             else
                               do {
                                 a \<leftarrow> atod_value tmp0 radix radix1 radix_shift radix_bits (ad_digit_count s) expn_offset expn is_bin_exp;
                                 Some (Inr (p, a))
                               })
                      }))
          })"

text \<open>\<open>NAN\<close> is the quiet NaN without sign.\<close>

definition js_atod :: "u8 list \<Rightarrow> u32 \<Rightarrow> u32 \<Rightarrow> (u64 \<times> nat) ub" where
  "js_atod str radix flags =
     do {
       (is_neg, p_start) \<leftarrow> atod_sign str;
       r \<leftarrow> atod_parse str p_start radix flags;
       let sign = (if is_neg then push_bit 63 1 else 0);
       Some (case r of
           Inl (Atod_Fail p) \<Rightarrow> (0x7ff8000000000000, p)
         | Inl (Atod_Infinity p) \<Rightarrow> (push_bit 52 0x7ff OR sign, p)
         | Inr (p, a) \<Rightarrow> (a OR sign, p))
     }"

end
