(* ===== verification/Atod_Text.thy ===== *)
theory Atod_Text
  imports Dtoa_Free Atod
begin

text \<open>
  The scanner of \<open>js_atod\<close> of \<open>src/dtoa.c\<close> on texts of digits with an optional dot and an
  optional exponent: it reads all of the digits, and its mantissa, digit count and exponent
  offset are those of the number the digits denote.
\<close>

section \<open>Characters\<close>

lemma drop_ConsD: "drop p str = x # xs \<Longrightarrow> arr_get str p = Some x" "drop p str = x # xs \<Longrightarrow> drop (Suc p) str = xs"
proof -
  assume d: "drop p str = x # xs"
  have "p < length str" using d by (metis drop_all leI list.distinct(1))
  then show "arr_get str p = Some x" using d by (simp add: arr_get_def Cons_nth_drop_Suc [symmetric])
  show "drop (Suc p) str = xs" using d by (metis drop_Suc list.sel(3) tl_drop)
qed

lemma uint_digit_char: "d < 36 \<Longrightarrow> uint (digit_char d) = (if d < 10 then int d + 0x30 else int d + 0x57)"
  by (simp add: digit_char_def unsigned_of_nat uint_nat take_bit_nat_eq_self)

lemma to_digit_char: "d < 36 \<Longrightarrow> to_digit (digit_char d) = int d"
  by (simp add: to_digit_def Let_def uint_digit_char)

definition sep_ok :: "int \<Rightarrow> bool" where
  "sep_ok sep \<longleftrightarrow> sep = 0x5f \<or> sep = 256"

lemma digit_char_not_sep: "d < 36 \<Longrightarrow> sep_ok sep \<Longrightarrow> uint (digit_char d) \<noteq> sep"
  by (auto simp: uint_digit_char sep_ok_def)

text \<open>A character that ends the digits.\<close>

definition stop_char :: "nat \<Rightarrow> u8 \<Rightarrow> bool" where
  "stop_char R c \<longleftrightarrow> int R \<le> to_digit c \<and> c \<noteq> 0x2e \<and> c \<noteq> 0x5f"

lemma stop_char_not_sep: "stop_char R c \<Longrightarrow> sep_ok sep \<Longrightarrow> uint c \<noteq> sep"
proof
  assume c: "stop_char R c" "sep_ok sep" "uint c = sep"
  have "uint c < 256" using uint_lt2p [of c] by simp
  with c have "uint c = 0x5f" by (auto simp: sep_ok_def)
  then have "c = 0x5f" using word_of_int_uint [of c] by simp
  with c(1) show False by (simp add: stop_char_def)
qed

section \<open>One step of the loops\<close>

lemma atod_dot_other: "drop p str = c # cs \<Longrightarrow> c \<noteq> 0x2e \<Longrightarrow> atod_dot str ps R flags sep p pos dot = Some (Inr (Some (p, dot)))"
  by (simp add: atod_dot_def drop_ConsD(1))

lemma atod_dot_dot:
  "drop p str = 0x2e # cs \<Longrightarrow> ps < p \<Longrightarrow> sep_ok sep \<Longrightarrow> flags AND JS_ATOD_INT_ONLY = 0 \<Longrightarrow> dot < 0
    \<Longrightarrow> atod_dot str ps R flags sep p pos dot = Some (Inr (Some (Suc p, pos)))"
  by (auto simp: atod_dot_def drop_ConsD(1) sep_ok_def)

lemma atod_sep_other: "drop p str = c # cs \<Longrightarrow> uint c \<noteq> sep \<Longrightarrow> atod_sep str inside sep ok p = Some p"
  by (simp add: atod_sep_def drop_ConsD(1))

lemma atod_zeros_step:
  assumes "drop p str = c # cs" "c \<noteq> 0x2e" "uint c \<noteq> sep"
  shows "atod_zeros str ps R flags sep p pos dot =
    (if c \<noteq> 0x30 then Some (Inr (p, pos, dot)) else atod_zeros str ps R flags sep (Suc p) (pos + 1) dot)"
  using assms by (subst atod_zeros.simps) (simp add: atod_dot_other atod_sep_other drop_ConsD(1))

lemma atod_zeros_dot:
  assumes "drop p str = 0x2e # c # cs" "c \<noteq> 0x2e" "uint c \<noteq> sep" "ps < p" "sep_ok sep" "flags AND JS_ATOD_INT_ONLY = 0" "dot < 0"
  shows "atod_zeros str ps R flags sep p pos dot = atod_zeros str ps R flags sep (Suc p) pos pos"
proof -
  have n: "drop (Suc p) str = c # cs" using drop_ConsD(2) [OF assms(1)] .
  show ?thesis
    unfolding atod_zeros_step [OF n assms(2,3)]
    by (subst atod_zeros.simps) (simp add: atod_dot_dot [OF assms(1,4-7)] atod_sep_other [OF n assms(3)] drop_ConsD(1) [OF n])
qed

text \<open>Feeding one digit to the state.\<close>

definition atod_feed :: "u32 \<Rightarrow> nat list \<Rightarrow> atod_digits \<Rightarrow> atod_digits" where
  "atod_feed radix = fold (\<lambda>d s. atod_add_digit radix (of_nat d) (s\<lparr>ad_pos := ad_pos s + 1\<rparr>))"

lemma atod_feed_simps [simp]:
  "atod_feed radix [] s = s"
  "atod_feed radix (d # ds) s = atod_feed radix ds (atod_add_digit radix (of_nat d) (s\<lparr>ad_pos := ad_pos s + 1\<rparr>))"
  by (simp_all add: atod_feed_def)

lemma atod_feed_append: "atod_feed radix (ds @ ds') s = atod_feed radix ds' (atod_feed radix ds s)"
  by (simp add: atod_feed_def)

lemma atod_add_digit_dot: "atod_add_digit radix c (s\<lparr>ad_dot_pos := x\<rparr>) = (atod_add_digit radix c s)\<lparr>ad_dot_pos := x\<rparr>"
  "ad_dot_pos (atod_add_digit radix c s) = ad_dot_pos s" "ad_pos (atod_add_digit radix c s) = ad_pos s"
  by (simp_all add: atod_add_digit_def Let_def)

lemma atod_feed_dot: "atod_feed radix ds (s\<lparr>ad_dot_pos := x\<rparr>) = (atod_feed radix ds s)\<lparr>ad_dot_pos := x\<rparr>"
proof (induction ds arbitrary: s)
  case (Cons d ds)
  have "s\<lparr>ad_dot_pos := x, ad_pos := ad_pos (s\<lparr>ad_dot_pos := x\<rparr>) + 1\<rparr> = s\<lparr>ad_pos := ad_pos s + 1, ad_dot_pos := x\<rparr>" by simp
  then show ?case by (simp only: atod_feed_simps atod_add_digit_dot(1) Cons.IH)
qed simp

lemma atod_feed_pos: "ad_dot_pos (atod_feed radix ds s) = ad_dot_pos s" "ad_pos (atod_feed radix ds s) = ad_pos s + int (length ds)"
  by (induction ds arbitrary: s) (simp_all add: atod_add_digit_dot(2,3))

lemma atod_digits_step:
  assumes p: "drop p str = c # cs" "c \<noteq> 0x2e" "uint c \<noteq> sep"
  shows "atod_digits_loop str ps radix flags sep p s =
    (if uint radix \<le> to_digit c then Some (Inr (p, s))
     else atod_digits_loop str ps radix flags sep (Suc p) (atod_add_digit radix (of_int (to_digit c)) (s\<lparr>ad_pos := ad_pos s + 1\<rparr>)))"
proof -
  have "s\<lparr>ad_dot_pos := ad_dot_pos s\<rparr> = s" by simp
  then show ?thesis using assms
    by (subst atod_digits_loop.simps) (simp add: atod_dot_other atod_sep_other drop_ConsD(1) Let_def)
qed

lemma atod_digits_dot:
  assumes "drop p str = 0x2e # c # cs" "c \<noteq> 0x2e" "uint c \<noteq> sep" "ps < p" "sep_ok sep" "flags AND JS_ATOD_INT_ONLY = 0" "ad_dot_pos s < 0"
  shows "atod_digits_loop str ps radix flags sep p s = atod_digits_loop str ps radix flags sep (Suc p) (s\<lparr>ad_dot_pos := ad_pos s\<rparr>)"
proof -
  have n: "drop (Suc p) str = c # cs" using drop_ConsD(2) [OF assms(1)] .
  show ?thesis
    unfolding atod_digits_step [OF n assms(2,3)]
    by (subst atod_digits_loop.simps) (simp add: atod_dot_dot [OF assms(1,4-7)] atod_sep_other [OF n assms(3)] drop_ConsD(1) [OF n] Let_def)
qed

section \<open>Runs of digits\<close>

lemma drop_runD:
  "drop p str = map f ds @ rest \<Longrightarrow> drop (p + length ds) str = rest"
proof -
  assume d: "drop p str = map f ds @ rest"
  have "drop (p + length ds) str = drop (length ds) (drop p str)" by (simp add: add.commute)
  then show ?thesis unfolding d by simp
qed

lemma atod_zeros_run:
  assumes "sep_ok sep" "set ds \<subseteq> {..<36}" "drop p str = map digit_char ds @ c # cs" "\<forall>d \<in> set ds. d = 0"
  shows "atod_zeros str ps R flags sep p pos dot = atod_zeros str ps R flags sep (p + length ds) (pos + int (length ds)) dot"
  using assms(2-4)
proof (induction ds arbitrary: p pos)
  case (Cons d ds)
  then have p: "drop p str = digit_char d # (map digit_char ds @ c # cs)" and d: "d < 36" "d = 0" by simp_all
  have z: "digit_char d = 0x30" using d by (simp add: digit_char_def)
  have "atod_zeros str ps R flags sep p pos dot = atod_zeros str ps R flags sep (Suc p) (pos + 1) dot"
    using atod_zeros_step [OF p digit_char_not_dot [OF d(1)] digit_char_not_sep [OF d(1) assms(1)]] z by simp
  also have "\<dots> = atod_zeros str ps R flags sep (Suc p + length ds) (pos + 1 + int (length ds)) dot"
    using Cons.prems by (intro Cons.IH [OF _ drop_ConsD(2) [OF p]]) simp_all
  finally show ?case by (simp add: add.assoc)
qed simp

lemma atod_digits_run:
  assumes "sep_ok sep" "set ds \<subseteq> {..<unat radix}" "unat radix \<le> 36" "drop p str = map digit_char ds @ c # cs"
  shows "atod_digits_loop str ps radix flags sep p s = atod_digits_loop str ps radix flags sep (p + length ds) (atod_feed radix ds s)"
  using assms(2-4)
proof (induction ds arbitrary: p s)
  case (Cons d ds)
  then have p: "drop p str = digit_char d # (map digit_char ds @ c # cs)" and d: "d < 36" "d < unat radix" by simp_all
  have t: "to_digit (digit_char d) = int d" by (rule to_digit_char [OF d(1)])
  have u: "\<not> uint radix \<le> int d" using d(2) by (simp only: uint_nat of_nat_le_iff not_le)
  let ?s = "atod_add_digit radix (of_nat d) (s\<lparr>ad_pos := ad_pos s + 1\<rparr>)"
  have "atod_digits_loop str ps radix flags sep p s = atod_digits_loop str ps radix flags sep (Suc p) ?s"
    unfolding atod_digits_step [OF p digit_char_not_dot [OF d(1)] digit_char_not_sep [OF d(1) assms(1)]] t if_not_P [OF u]
    by (simp only: of_int_of_nat_eq)
  also have "\<dots> = atod_digits_loop str ps radix flags sep (Suc p + length ds) (atod_feed radix ds ?s)"
    using Cons.prems by (intro Cons.IH [OF _ _ drop_ConsD(2) [OF p]]) simp_all
  finally show ?case by simp
qed simp

text \<open>The stop at a character that is no digit, and at the first significant digit.\<close>

lemma atod_zeros_stop:
  assumes "drop p str = c # cs" "c \<noteq> 0x30" "c \<noteq> 0x2e" "uint c \<noteq> sep"
  shows "atod_zeros str ps R flags sep p pos dot = Some (Inr (p, pos, dot))"
  using atod_zeros_step [OF assms(1,3,4)] assms(2) by simp

lemma atod_digits_stop:
  assumes "drop p str = c # cs" "stop_char (unat radix) c" "sep_ok sep"
  shows "atod_digits_loop str ps radix flags sep p s = Some (Inr (p, s))"
proof -
  have "uint radix \<le> to_digit c" using assms(2) unfolding stop_char_def uint_nat by blast
  then show ?thesis
    using atod_digits_step [OF assms(1), of sep ps radix flags s] stop_char_not_sep [OF assms(2,3)] assms(2) by (simp add: stop_char_def)
qed

lemma stop_char_not_zero: "stop_char R c \<Longrightarrow> 2 \<le> R \<Longrightarrow> c \<noteq> 0x30"
  by (auto simp: stop_char_def to_digit_def)

text \<open>The texts: digits, and after a dot more digits.\<close>

definition num_chars :: "nat list \<Rightarrow> nat list option \<Rightarrow> u8 list" where
  "num_chars A B = map digit_char A @ (case B of None \<Rightarrow> [] | Some b \<Rightarrow> 0x2e # map digit_char b)"

definition num_digits :: "nat list \<Rightarrow> nat list option \<Rightarrow> nat list" where
  "num_digits A B = A @ (case B of None \<Rightarrow> [] | Some b \<Rightarrow> b)"

abbreviation (input) "lead_zeros ds \<equiv> length (takeWhile (\<lambda>d. d = 0) ds)"
abbreviation (input) "sig_digits ds \<equiv> dropWhile (\<lambda>d. d = (0 :: nat)) ds"

lemma zero_run_split: "takeWhile (\<lambda>d. d = (0::nat)) ds = replicate (lead_zeros ds) 0"
  by (induction ds) auto

lemma after_dot_char:
  assumes "set b \<subseteq> {..<36}" "stop_char R c" "sep_ok sep"
  obtains c' cs' where "map digit_char b @ c # cs = c' # cs'" "c' \<noteq> 0x2e" "uint c' \<noteq> sep"
proof (cases b)
  case Nil
  then show ?thesis using that [of c cs] assms(2) stop_char_not_sep [OF assms(2,3)] by (simp add: stop_char_def)
next
  case (Cons d b')
  then have "d < 36" using assms(1) by simp
  then show ?thesis using that [of "digit_char d"] Cons digit_char_not_dot digit_char_not_sep assms(3) by simp
qed

lemma atod_zeros_sig:
  assumes ds: "set ds \<subseteq> {..<36}" "drop p str = map digit_char ds @ c # cs" and c: "sep_ok sep" "sig_digits ds \<noteq> [] \<or> c \<noteq> 0x30 \<and> c \<noteq> 0x2e \<and> uint c \<noteq> sep"
  shows "atod_zeros str ps r flags sep p pos dot = Some (Inr (p + lead_zeros ds, pos + int (lead_zeros ds), dot))"
proof -
  let ?z = "takeWhile (\<lambda>d. d = 0) ds"
  have z: "set ?z \<subseteq> {..<36}" "\<forall>d \<in> set ?z. d = 0" using ds(1) by (auto dest: set_takeWhileD)
  have e: "drop p str = map digit_char ?z @ map digit_char (sig_digits ds) @ c # cs"
    using ds(2) by (simp flip: map_append append_assoc)
  obtain c' cs' where c': "map digit_char (sig_digits ds) @ c # cs = c' # cs'" "c' \<noteq> 0x30" "c' \<noteq> 0x2e" "uint c' \<noteq> sep"
  proof (cases "sig_digits ds")
    case Nil
    then show ?thesis using that [of c cs] c(2) by simp
  next
    case (Cons d ds')
    then have "d < 36" "d \<noteq> 0" using ds(1) hd_dropWhile [of "\<lambda>d. d = 0" ds] set_dropWhileD [of d "\<lambda>d. d = 0" ds] by auto
    then show ?thesis using that [of "digit_char d"] Cons digit_char_not_dot digit_char_not_sep c(1) digit_char_0 by simp
  qed
  show ?thesis
    unfolding atod_zeros_run [OF c(1) z(1) e [unfolded c'(1)] z(2)] using atod_zeros_stop [OF drop_runD [OF e, unfolded c'(1)] c'(2-4)] by simp
qed

lemma atod_digits_sig:
  assumes ds: "set ds \<subseteq> {..<unat radix}" "unat radix \<le> 36" "drop p str = map digit_char ds @ c # cs"
    and c: "stop_char (unat radix) c" "sep_ok sep"
  shows "atod_digits_loop str ps radix flags sep p s = Some (Inr (p + length ds, atod_feed radix ds s))"
  unfolding atod_digits_run [OF c(2) ds] by (rule atod_digits_stop [OF drop_runD [OF ds(3)] c])

lemma atod_scan:
  assumes A: "set (num_digits A B) \<subseteq> {..<unat radix}" "2 \<le> unat radix" "unat radix \<le> 36" "A \<noteq> []"
    and str: "drop p str = num_chars A B @ c # cs" and ps: "ps \<le> p"
    and c: "stop_char (unat radix) c" "sep_ok sep" "flags AND JS_ATOD_INT_ONLY = 0"
  defines "ds \<equiv> num_digits A B" and "dot \<equiv> (case B of None \<Rightarrow> - 1 | Some b \<Rightarrow> int (length A))"
  shows "\<exists>p1 d0. atod_zeros str ps r flags sep p 0 (- 1) = Some (Inr (p1, int (lead_zeros ds), d0))
    \<and> atod_digits_loop str ps radix flags sep p1 (atod_start (int (lead_zeros ds)) d0) =
        Some (Inr (p + length (num_chars A B), (atod_feed radix (sig_digits ds) (atod_start (int (lead_zeros ds)) d0))\<lparr>ad_dot_pos := dot\<rparr>))"
proof -
  have stop: "c \<noteq> 0x30 \<and> c \<noteq> 0x2e \<and> uint c \<noteq> sep"
    using stop_char_not_zero [OF c(1) A(2)] stop_char_not_sep [OF c(1,2)] c(1) by (simp add: stop_char_def)
  show ?thesis
  proof (cases B)
    case None
    have d36: "set A \<subseteq> {..<36}" and dr: "set A \<subseteq> {..<unat radix}" using A(1,3) None by (auto simp: num_digits_def)
    have s: "drop p str = map digit_char A @ c # cs" using str None by (simp add: num_chars_def)
    note z = atod_zeros_sig [OF d36 s c(2) disjI2 [OF stop], of ps r flags 0 "- 1"]
    let ?z = "takeWhile (\<lambda>d. d = 0) A"
    have s': "drop p str = map digit_char ?z @ map digit_char (sig_digits A) @ c # cs" using s by (simp flip: map_append append_assoc)
    have "set (sig_digits A) \<subseteq> {..<unat radix}" using dr by (auto dest: set_dropWhileD)
    note d = atod_digits_sig [OF this A(3) drop_runD [OF s'] c(1,2), of ps flags "atod_start (int (lead_zeros A)) (- 1)"]
    have "lead_zeros A + length (sig_digits A) = length A" by (metis length_append takeWhile_dropWhile_id)
    moreover have "x\<lparr>ad_dot_pos := - 1\<rparr> = x" if "ad_dot_pos x = - 1" for x using that by (cases x) simp
    ultimately show ?thesis using z d None
      by (auto simp: ds_def num_digits_def num_chars_def dot_def atod_feed_pos atod_start_def add.assoc intro!: exI [of _ "- 1"])
  next
    case (Some b)
    have dr: "set A \<subseteq> {..<unat radix}" "set b \<subseteq> {..<unat radix}" using A(1) Some by (auto simp: num_digits_def)
    then have d36: "set A \<subseteq> {..<36}" "set b \<subseteq> {..<36}" using A(3) by auto
    have s: "drop p str = map digit_char A @ 0x2e # map digit_char b @ c # cs" using str Some by (simp add: num_chars_def)
    let ?q = "p + length A"
    have q: "drop ?q str = 0x2e # map digit_char b @ c # cs" by (rule drop_runD [OF s])
    have q': "drop (Suc ?q) str = map digit_char b @ c # cs" by (rule drop_ConsD(2) [OF q])
    have psq: "ps < ?q" using ps A(4) by (cases A) auto
    obtain c' cs' where c': "map digit_char b @ c # cs = c' # cs'" "c' \<noteq> 0x2e" "uint c' \<noteq> sep"
      using after_dot_char [OF d36(2) c(1,2)] by blast
    have len: "length (num_chars A (Some b)) = length A + Suc (length b)" by (simp add: num_chars_def Some)
    show ?thesis
    proof (cases "sig_digits A = []")
      case False
      let ?z = "takeWhile (\<lambda>d. d = 0) A" and ?s = "atod_start (int (lead_zeros A)) (- 1)"
      have z: "atod_zeros str ps r flags sep p 0 (- 1) = Some (Inr (p + lead_zeros A, int (lead_zeros A), - 1))"
        using atod_zeros_sig [OF d36(1) s c(2) disjI1 [OF False], of ps r flags 0 "- 1"] by simp
      have s': "drop p str = map digit_char ?z @ map digit_char (sig_digits A) @ 0x2e # map digit_char b @ c # cs"
        using s by (simp flip: map_append append_assoc)
      have len': "lead_zeros A + length (sig_digits A) = length A" by (metis length_append takeWhile_dropWhile_id)
      have "set (sig_digits A) \<subseteq> {..<unat radix}" using dr(1) by (auto dest: set_dropWhileD)
      from atod_digits_run [OF c(2) this A(3) drop_runD [OF s'], of ps flags ?s]
      have "atod_digits_loop str ps radix flags sep (p + lead_zeros A) ?s =
          atod_digits_loop str ps radix flags sep ?q (atod_feed radix (sig_digits A) ?s)"
        by (simp only: len' add.assoc)
      also have "\<dots> = atod_digits_loop str ps radix flags sep (Suc ?q) ((atod_feed radix (sig_digits A) ?s)\<lparr>ad_dot_pos := int (length A)\<rparr>)"
        using atod_digits_dot [OF q [unfolded c'(1)] c'(2,3) psq c(2,3), of "atod_feed radix (sig_digits A) ?s" radix] len'
        by (simp add: atod_feed_pos atod_start_def flip: of_nat_add)
      also have "\<dots> = Some (Inr (Suc ?q + length b, (atod_feed radix (sig_digits A @ b) ?s)\<lparr>ad_dot_pos := int (length A)\<rparr>))"
        unfolding atod_digits_sig [OF dr(2) A(3) q' c(1,2)] by (simp only: atod_feed_append atod_feed_dot)
      finally have d: "atod_digits_loop str ps radix flags sep (p + lead_zeros A) ?s = \<dots>" .
      obtain x where "x \<in> set A" "x \<noteq> 0" using False by (auto simp: dropWhile_eq_Nil_conv)
      then have ds': "takeWhile (\<lambda>d. d = 0) ds = ?z" "sig_digits ds = sig_digits A @ b"
        by (simp_all add: ds_def num_digits_def Some takeWhile_append1 dropWhile_append1)
      show ?thesis
        by (intro exI [of _ "p + lead_zeros A"] exI [of _ "- 1"]) (simp only: ds' z d len dot_def Some option.case add_Suc add_Suc_right add.assoc simp_thms)
    next
      case True
      then have zA: "\<forall>d \<in> set A. d = 0" by (auto simp: dropWhile_eq_Nil_conv)
      let ?z = "takeWhile (\<lambda>d. d = 0) b" and ?n = "length A + lead_zeros b"
      let ?s = "atod_start (int ?n) (int (length A))"
      have "atod_zeros str ps r flags sep p 0 (- 1) = atod_zeros str ps r flags sep ?q (int (length A)) (- 1)"
        using atod_zeros_run [OF c(2) d36(1) s zA, of ps r flags 0 "- 1"] by simp
      also have "\<dots> = atod_zeros str ps r flags sep (Suc ?q) (int (length A)) (int (length A))"
        by (rule atod_zeros_dot [OF q [unfolded c'(1)] c'(2,3) psq c(2,3)]) simp
      also have "\<dots> = Some (Inr (Suc ?q + lead_zeros b, int ?n, int (length A)))"
        using atod_zeros_sig [OF d36(2) q' c(2) disjI2 [OF stop], of ps r flags "int (length A)" "int (length A)"] by simp
      finally have z: "atod_zeros str ps r flags sep p 0 (- 1) = \<dots>" .
      have s': "drop (Suc ?q) str = map digit_char ?z @ map digit_char (sig_digits b) @ c # cs"
        using q' by (simp flip: map_append append_assoc)
      have len': "lead_zeros b + length (sig_digits b) = length b" by (metis length_append takeWhile_dropWhile_id)
      have "set (sig_digits b) \<subseteq> {..<unat radix}" using dr(2) by (auto dest: set_dropWhileD)
      from atod_digits_sig [OF this A(3) drop_runD [OF s'] c(1,2), of ps flags ?s]
      have d: "atod_digits_loop str ps radix flags sep (Suc ?q + lead_zeros b) ?s = Some (Inr (Suc ?q + length b, atod_feed radix (sig_digits b) ?s))"
        by (simp only: len' add.assoc)
      have ds': "lead_zeros ds = ?n" "sig_digits ds = sig_digits b"
        using zA by (simp_all add: ds_def num_digits_def Some takeWhile_append2 dropWhile_append2)
      have id: "x\<lparr>ad_dot_pos := ad_dot_pos x\<rparr> = x" for x :: atod_digits by simp
      have "ad_dot_pos (atod_feed radix (sig_digits b) ?s) = int (length A)" by (simp add: atod_feed_pos atod_start_def)
      then have f: "(atod_feed radix (sig_digits b) ?s)\<lparr>ad_dot_pos := int (length A)\<rparr> = atod_feed radix (sig_digits b) ?s" by (metis id)
      show ?thesis
        by (intro exI [of _ "Suc ?q + lead_zeros b"] exI [of _ "int (length A)"])
          (simp only: ds' z d, simp only: f dot_def Some option.case simp_thms option.inject sum.inject prod.inject len add_Suc add_Suc_right add.assoc)
    qed
  qed
qed

section \<open>The number read\<close>

lemma limb_tables:
  assumes "2 \<le> R" "R \<le> 36"
  defines "dpl \<equiv> digits_per_limb_table ! (R - 2)" and "b \<equiv> radix_base_table ! (R - 2)" and "mx \<equiv> atod_max_digits_table ! (R - 2)"
  shows "0 < dpl" "R ^ dpl \<le> 2 ^ 32" "(if b = 0 then 2 ^ 32 else unat b) = R ^ dpl" "0 < mx" "mx \<le> 80" "dtoa_max_digits_table ! (R - 2) \<le> mx"
proof -
  let ?P = "\<lambda>R. 0 < digits_per_limb_table ! (R - 2) \<and> R ^ (digits_per_limb_table ! (R - 2)) \<le> 2 ^ 32
      \<and> (if radix_base_table ! (R - 2) = 0 then 2 ^ 32 else unat (radix_base_table ! (R - 2))) = R ^ (digits_per_limb_table ! (R - 2))
      \<and> 0 < atod_max_digits_table ! (R - 2) \<and> atod_max_digits_table ! (R - 2) \<le> 80
      \<and> dtoa_max_digits_table ! (R - 2) \<le> atod_max_digits_table ! (R - 2)"
  have "\<forall>r \<in> {2..<37}. ?P r"
    unfolding atLeastLessThan_upt
    by (simp add: upt_rec dtoa_max_digits_table_def atod_max_digits_table_def digits_per_limb_table_def radix_base_table_def)
  moreover have "R \<in> {2..<37}" using assms(1,2) by simp
  ultimately have "?P R" by blast
  then show "0 < dpl" "R ^ dpl \<le> 2 ^ 32" "(if b = 0 then 2 ^ 32 else unat b) = R ^ dpl" "0 < mx" "mx \<le> 80" "dtoa_max_digits_table ! (R - 2) \<le> mx"
    unfolding dpl_def b_def mx_def by blast+
qed

definition atod_inv :: "nat \<Rightarrow> nat list \<Rightarrow> atod_digits \<Rightarrow> bool" where
  "atod_inv R ds s \<longleftrightarrow>
     (let dpl = digits_per_limb_table ! (R - 2); k = min (length ds) (nat (atod_max_digits_table ! (R - 2)))
      in ad_digit_count s = int k \<and> mpb_ok (ad_tmp0 s) \<and> ad_limb_digit_count s < dpl \<and> unat (ad_cur_limb s) < R ^ ad_limb_digit_count s \<and>
         mp_val (ad_tmp0 s) * R ^ ad_limb_digit_count s + unat (ad_cur_limb s) = digits_val R (take k ds) \<and>
         ((\<forall>d \<in> set (drop k ds). d = 0) \<longrightarrow> ad_extra_digits s = 0))"

lemma atod_inv_start:
  assumes "2 \<le> R" "R \<le> 36"
  shows "atod_inv R [] (atod_start pos dot)"
  using limb_tables [OF assms] by (simp add: atod_inv_def atod_start_def mpb_ok_def Let_def)

lemma limb_digit:
  fixes radix c :: u32
  assumes "unat c < unat radix ^ l" "l < dpl" "unat radix ^ dpl \<le> 2 ^ 32" "d < unat radix"
  shows "unat (c * radix + of_nat d) = unat c * unat radix + d" and "unat c * unat radix + d < unat radix ^ (l + 1)"
proof -
  have "(unat c + 1) * unat radix \<le> unat radix ^ l * unat radix" using assms(1) by (intro mult_le_mono1) simp
  then show lt: "unat c * unat radix + d < unat radix ^ (l + 1)" using assms(4) by (simp add: mult.commute)
  also have "\<dots> \<le> unat radix ^ dpl" using assms(2,4) by (intro power_increasing) simp_all
  also note assms(3)
  finally have f: "unat c * unat radix + d < 2 ^ 32" .
  have "c * radix + of_nat d = of_nat (unat c * unat radix + d)" by simp
  then show "unat (c * radix + of_nat d) = unat c * unat radix + d"
    using f by (simp only: unsigned_of_nat) (simp add: take_bit_nat_eq_self)
qed

lemma atod_inv_step:
  assumes R: "2 \<le> unat radix" "unat radix \<le> 36" and d: "d < unat radix" and i: "atod_inv (unat radix) ds s"
  shows "atod_inv (unat radix) (ds @ [d]) (atod_add_digit radix (of_nat d) (s\<lparr>ad_pos := x\<rparr>))"
proof -
  let ?R = "unat radix"
  define dpl b mx where "dpl = digits_per_limb_table ! (?R - 2)" and "b = radix_base_table ! (?R - 2)" and "mx = atod_max_digits_table ! (?R - 2)"
  note t = limb_tables [OF R, folded dpl_def b_def mx_def]
  note inv = i [unfolded atod_inv_def Let_def, folded dpl_def mx_def]
  show ?thesis
  proof (cases "length ds < nat mx")
    case False
    then have "\<not> ad_digit_count s < mx" using inv t(4) by (simp add: min_def)
    then have "atod_add_digit radix (of_nat d) (s\<lparr>ad_pos := x\<rparr>) = s\<lparr>ad_pos := x, ad_extra_digits := ad_extra_digits s OR of_nat d\<rparr>"
      by (simp add: atod_add_digit_def Let_def flip: mx_def)
    then show ?thesis using inv False unfolding atod_inv_def Let_def dpl_def [symmetric] mx_def [symmetric] by (auto simp: min_def)
  next
    case True
    let ?c = "ad_cur_limb s * radix + of_nat d" and ?l = "ad_limb_digit_count s"
    have lt: "ad_digit_count s < mx" "take (length ds) (ds @ [d]) = ds" using inv True by (simp_all add: min_def)
    have cur: "unat ?c = unat (ad_cur_limb s) * ?R + d" "unat (ad_cur_limb s) * ?R + d < ?R ^ (?l + 1)"
      using limb_digit [OF _ _ t(2) d] inv by blast+
    have v: "mp_val (ad_tmp0 s) * ?R ^ (?l + 1) + unat ?c = digits_val ?R (ds @ [d])"
    proof -
      have "digits_val ?R ds = mp_val (ad_tmp0 s) * ?R ^ ?l + unat (ad_cur_limb s)" using inv True by (simp add: min_def)
      then show ?thesis unfolding cur(1) digits_val_snoc by (simp add: algebra_simps)
    qed
    have k: "min (length (ds @ [d])) (nat mx) = length ds + 1" "min (length ds) (nat mx) = length ds" using True by simp_all
    show ?thesis
    proof (cases "?l + 1 = dpl")
      case l: True
      have "atod_add_digit radix (of_nat d) (s\<lparr>ad_pos := x\<rparr>) = s\<lparr>ad_pos := x, ad_tmp0 := mpb_mul1_base (ad_tmp0 s) b ?c,
          ad_cur_limb := 0, ad_limb_digit_count := 0, ad_digit_count := ad_digit_count s + 1\<rparr>"
        using lt(1) l by (simp add: atod_add_digit_def Let_def flip: mx_def dpl_def b_def)
      moreover have "mp_val (mpb_mul1_base (ad_tmp0 s) b ?c) = digits_val ?R (ds @ [d])" "mpb_ok (mpb_mul1_base (ad_tmp0 s) b ?c)"
        using mpb_mul1_base_val [of "ad_tmp0 s" b ?c] inv v unfolding t(3) l by (simp_all only: simp_thms)
      ultimately show ?thesis
        using inv t(1) unfolding atod_inv_def Let_def dpl_def [symmetric] mx_def [symmetric] k by simp
    next
      case l: False
      have "atod_add_digit radix (of_nat d) (s\<lparr>ad_pos := x\<rparr>) = s\<lparr>ad_pos := x, ad_cur_limb := ?c,
          ad_limb_digit_count := ?l + 1, ad_digit_count := ad_digit_count s + 1\<rparr>"
        using lt(1) l by (simp add: atod_add_digit_def Let_def flip: mx_def dpl_def b_def)
      then show ?thesis
        using inv l cur v unfolding atod_inv_def Let_def dpl_def [symmetric] mx_def [symmetric] k by simp
    qed
  qed
qed

lemma atod_inv_feed:
  assumes R: "2 \<le> unat radix" "unat radix \<le> 36" and "set ds \<subseteq> {..<unat radix}" and "atod_inv (unat radix) ds0 s"
  shows "atod_inv (unat radix) (ds0 @ ds) (atod_feed radix ds s)"
  using assms(3,4)
proof (induction ds arbitrary: ds0 s)
  case (Cons d ds)
  have "atod_inv (unat radix) (ds0 @ [d]) (atod_add_digit radix (of_nat d) (s\<lparr>ad_pos := ad_pos s + 1\<rparr>))"
    using Cons.prems by (intro atod_inv_step [OF R]) simp_all
  from Cons.IH [OF _ this] Cons.prems(1) show ?case by simp
qed simp

text \<open>
  The mantissa and the offset of the exponent: the digits kept, and how many digits stand
  after the dot, less those that were dropped.
\<close>

lemma atod_mantissa_val:
  assumes R: "2 \<le> unat radix" "unat radix \<le> 36" and ds: "set sig \<subseteq> {..<unat radix}"
    and s: "s = (atod_feed radix sig (atod_start z d0))\<lparr>ad_dot_pos := dot\<rparr>"
    and k: "k = min (length sig) (nat (atod_max_digits_table ! (unat radix - 2)))" and zs: "\<forall>d \<in> set (drop k sig). d = 0"
  shows "\<exists>t. atod_mantissa radix rb z s =
      Some (t, sig = [], if sig = [] then 0 else z + int k - (if dot < 0 then z + int (length sig) else dot))
    \<and> mpb_ok t \<and> mp_val t = digits_val (unat radix) (take k sig) \<and> ad_digit_count s = int k"
proof -
  let ?R = "unat radix"
  note tb = limb_tables [OF R]
  have "atod_inv ?R ([] @ sig) (atod_feed radix sig (atod_start z d0))"
    by (rule atod_inv_feed [OF R ds atod_inv_start [OF R]])
  then have "atod_inv ?R sig s" by (simp add: s atod_inv_def)
  then have inv: "ad_digit_count s = int k" "mpb_ok (ad_tmp0 s)" "ad_limb_digit_count s < digits_per_limb_table ! (?R - 2)"
      "mp_val (ad_tmp0 s) * ?R ^ ad_limb_digit_count s + unat (ad_cur_limb s) = digits_val ?R (take k sig)" "ad_extra_digits s = 0"
      "unat (ad_cur_limb s) < ?R ^ ad_limb_digit_count s"
    using zs unfolding atod_inv_def Let_def k [symmetric] by blast+
  have pos: "ad_pos s = z + int (length sig)" "ad_dot_pos s = dot" by (simp_all add: s atod_feed_pos atod_start_def)
  have k0: "k = 0 \<longleftrightarrow> sig = []" using tb(4) by (auto simp: k min_def)
  show ?thesis
  proof (cases "ad_limb_digit_count s = 0")
    case True
    then show ?thesis using inv pos k0 by (auto simp: atod_mantissa_def Let_def)
  next
    case False
    let ?l = "ad_limb_digit_count s"
    have "?R ^ ?l < ?R ^ (digits_per_limb_table ! (?R - 2))" using inv(3) R by (intro power_strict_increasing) simp_all
    with tb(2) have f: "?R ^ ?l < 2 ^ 32" by linarith
    have "?l < 2 ^ ?l" by (rule less_exp)
    also have "\<dots> \<le> ?R ^ ?l" using R by (intro power_mono) simp_all
    also note f
    finally have l: "unat (of_nat ?l :: u32) = ?l" by (simp only: unsigned_of_nat) (simp add: take_bit_nat_eq_self)
    obtain p where p: "pow_ui radix (of_nat ?l) = Some p" "unat (ucast p :: u32) = ?R ^ ?l" using pow_ui_small [of radix "of_nat ?l"] f l by auto
    have "ucast p \<noteq> (0 :: u32)" using p(2) R by (auto simp: unat_eq_0)
    then have "mp_val (mpb_mul1_base (ad_tmp0 s) (ucast p) (ad_cur_limb s)) = digits_val ?R (take k sig)"
        "mpb_ok (mpb_mul1_base (ad_tmp0 s) (ucast p) (ad_cur_limb s))"
      using mpb_mul1_base_val [OF inv(2), of "ucast p" "ad_cur_limb s"] p(2) inv(4) by simp_all
    then show ?thesis using False inv(1,5) pos k0 p(1) by (auto simp: atod_mantissa_def Let_def)
  qed
qed

end
