(* ===== verification/Atod_Correct.thy ===== *)
theory Atod_Correct
  imports Atod_Text
begin

text \<open>
  \<open>js_atod\<close> of \<open>src/dtoa.c\<close> returns the double nearest to the number that the text denotes,
  for texts whose digits beyond the limit of \<open>atod_max_digits_table\<close> are zeros; and it reads
  back what \<open>js_dtoa\<close> prints in the free format.
\<close>

section \<open>The exponent\<close>

lemma digits_val_append: "digits_val b (xs @ ys) = digits_val b xs * b ^ length ys + digits_val b ys"
  by (induction ys rule: rev_induct) (simp_all add: algebra_simps flip: append_assoc)

lemma digits_val_Cons: "digits_val b (x # ys) = x * b ^ length ys + digits_val b ys"
  using digits_val_append [of b "[x]" ys] by (simp add: digits_val_def)

lemma atod_exp_run:
  assumes "sep_ok sep" "set X \<subseteq> {..<10}" "drop p str = map digit_char X @ c # cs" "stop_char 10 c"
    and "e * 10 ^ length X + digits_val 10 X \<le> 214748363"
  shows "atod_exp_loop str sep p (int e) False = Some (p + length X, int (e * 10 ^ length X + digits_val 10 X), False)"
  using assms(2,3,5)
proof (induction X arbitrary: p e)
  case Nil
  then have p: "drop p str = c # cs" by simp
  have "\<not> to_digit c < 10" using assms(4) by (simp add: stop_char_def)
  then show ?case
    by (subst atod_exp_loop.simps) (simp add: atod_sep_other [OF p stop_char_not_sep [OF assms(4,1)]] drop_ConsD(1) [OF p] Let_def)
next
  case (Cons d X)
  then have p: "drop p str = digit_char d # (map digit_char X @ c # cs)" and d: "d < 10" "d < 36" by simp_all
  have e: "(e * 10 + d) * 10 ^ length X + digits_val 10 X = e * 10 ^ length (d # X) + digits_val 10 (d # X)"
    by (simp add: digits_val_Cons algebra_simps)
  have "e * 10 + d \<le> (e * 10 + d) * 10 ^ length X" by simp
  also have "\<dots> \<le> 214748363" using Cons.prems(3) unfolding e [symmetric] by linarith
  finally have "\<not> 214748363 < int e" by simp
  then have "atod_exp_loop str sep p (int e) False = atod_exp_loop str sep (Suc p) (int (e * 10 + d)) False"
    using d by (subst atod_exp_loop.simps)
      (simp add: atod_sep_other [OF p digit_char_not_sep [OF d(2) assms(1)]] drop_ConsD(1) [OF p] Let_def to_digit_char)
  also have "\<dots> = Some (Suc p + length X, int ((e * 10 + d) * 10 ^ length X + digits_val 10 X), False)"
    using Cons.prems by (intro Cons.IH) (simp_all only: e, simp_all add: drop_ConsD(2) [OF p])
  finally show ?case unfolding e by simp
qed

text \<open>An exponent: its letter, its sign and its digits.\<close>

definition exp_chars :: "(u8 \<times> u8 list \<times> nat list) option \<Rightarrow> u8 list" where
  "exp_chars ex = (case ex of None \<Rightarrow> [] | Some (c, sg, X) \<Rightarrow> c # sg @ map digit_char X)"

definition exp_ok :: "u32 \<Rightarrow> nat \<Rightarrow> u32 \<Rightarrow> (u8 \<times> u8 list \<times> nat list) option \<Rightarrow> bool" where
  "exp_ok radix rb flags ex \<longleftrightarrow>
     (case ex of None \<Rightarrow> True
      | Some (c, sg, X) \<Rightarrow>
          atod_is_exp radix rb flags c \<and> (sg = [] \<or> sg = [0x2b] \<or> sg = [0x2d]) \<and> X \<noteq> [] \<and> set X \<subseteq> {..<10} \<and> digits_val 10 X \<le> 214748363)"

definition exp_val :: "(u8 \<times> u8 list \<times> nat list) option \<Rightarrow> int" where
  "exp_val ex = (case ex of None \<Rightarrow> 0 | Some (c, sg, X) \<Rightarrow> (if sg = [0x2d] then - int (digits_val 10 X) else int (digits_val 10 X)))"

definition exp_bin :: "(u8 \<times> u8 list \<times> nat list) option \<Rightarrow> bool" where
  "exp_bin ex = (case ex of None \<Rightarrow> False | Some (c, sg, X) \<Rightarrow> c = 0x70 \<or> c = 0x50)"

lemma zero_stop_char: "R \<le> 36 \<Longrightarrow> stop_char R 0"
  by (simp add: stop_char_def to_digit_def)

lemma atod_is_exp_stop:
  assumes c: "atod_is_exp radix rb flags c" and R: "rb \<noteq> 0 \<longrightarrow> R = 2 ^ rb" "R \<le> 36" "radix = of_nat R"
  shows "stop_char R c"
proof -
  have "R \<le> 16" if "1 \<le> rb" "rb \<le> 4"
  proof -
    have "(2 :: nat) ^ rb \<le> 2 ^ 4" using that by (intro power_increasing) simp_all
    then show ?thesis using R(1) that by simp
  qed
  moreover have "R = 10" if "radix = 10"
  proof -
    have "unat (of_nat R :: u32) = R" using R(2) by (simp only: unsigned_of_nat) (simp add: take_bit_nat_eq_self)
    then show ?thesis using that R(3) by simp
  qed
  ultimately show ?thesis using c R(2) by (auto simp: atod_is_exp_def stop_char_def to_digit_def)
qed

lemma atod_exponent_val:
  assumes ex: "exp_ok radix rb flags ex" and str: "drop p str = exp_chars ex @ 0 # cs" and "ps < p" "sep_ok sep"
  shows "\<exists>neg. atod_exponent str ps radix rb flags sep p = Some (Inr (p + length (exp_chars ex), exp_val ex, exp_bin ex, False, neg))"
proof (cases ex)
  case None
  then have p: "drop p str = 0 # cs" using str by (simp add: exp_chars_def)
  have "\<not> atod_is_exp radix rb flags 0" by (simp add: atod_is_exp_def)
  then show ?thesis using None by (auto simp: atod_exponent_def drop_ConsD(1) [OF p] exp_chars_def exp_val_def exp_bin_def)
next
  case (Some e)
  obtain c sg X where e: "e = (c, sg, X)" by (cases e)
  note E = Some [unfolded e]
  obtain d X' where X: "X = d # X'" using ex E by (cases X) (auto simp: exp_ok_def)
  have c: "atod_is_exp radix rb flags c" "set X \<subseteq> {..<10}" "digits_val 10 X \<le> 214748363" and sg: "sg = [] \<or> sg = [0x2b] \<or> sg = [0x2d]"
    using ex E by (simp_all add: exp_ok_def)
  have d: "d < 10" "d < 36" using c(2) X by simp_all
  have p: "drop p str = c # sg @ digit_char d # map digit_char X' @ 0 # cs" using str E X by (simp add: exp_chars_def)
  note p1 = drop_ConsD(2) [OF p]
  let ?q = "Suc p + length sg"
  have q: "drop ?q str = digit_char d # map digit_char X' @ 0 # cs"
    using drop_runD [of "Suc p" str id sg] p1 by simp
  have v: "d * 10 ^ length X' + digits_val 10 X' = digits_val 10 X" by (simp add: X digits_val_Cons)
  have loop: "atod_exp_loop str sep (Suc ?q) (int d) False = Some (Suc ?q + length X', int (digits_val 10 X), False)"
    using atod_exp_run [OF assms(4) _ drop_ConsD(2) [OF q] zero_stop_char, of d] c X unfolding v by simp
  have nd: "digit_char d \<noteq> 0x2b" "digit_char d \<noteq> 0x2d" using d by (auto dest!: arg_cong [where f = uint] simp: uint_digit_char)
  have g: "arr_get str (Suc p) = Some x" if "sg = [x]" for x using p1 that drop_ConsD(1) [of "Suc p" str x] by simp
  show ?thesis
    using sg
  proof (elim disjE)
    assume "sg = []"
    then show ?thesis
      using c(1) assms(3) loop d nd drop_ConsD(1) [OF q] unfolding atod_exponent_def drop_ConsD(1) [OF p]
      by (auto simp: Let_def to_digit_char E exp_chars_def exp_val_def exp_bin_def X)
  next
    assume "sg = [0x2b]"
    then show ?thesis
      using c(1) assms(3) loop d drop_ConsD(1) [OF q] g unfolding atod_exponent_def drop_ConsD(1) [OF p]
      by (auto simp: Let_def to_digit_char E exp_chars_def exp_val_def exp_bin_def X)
  next
    assume "sg = [0x2d]"
    then show ?thesis
      using c(1) assms(3) loop d drop_ConsD(1) [OF q] g unfolding atod_exponent_def drop_ConsD(1) [OF p]
      by (auto simp: Let_def to_digit_char E exp_chars_def exp_val_def exp_bin_def X)
  qed
qed

section \<open>The value\<close>

text \<open>The double that \<open>n / d\<close> rounds to, to nearest with ties to even.\<close>

definition rounds_to :: "nat \<Rightarrow> nat \<Rightarrow> u64 \<Rightarrow> bool" where
  "rounds_to n d w \<longleftrightarrow> (\<exists>e0. has_exp n d e0 \<and> w = (case d_pair (d_units JS_RNDN n d e0) e0 of (m, e) \<Rightarrow> atod_encode m e))"

lemma rounds_to_ratio:
  assumes "0 < d" "0 < d'" "real n / real d = real n' / real d'" "rounds_to n' d' w"
  shows "rounds_to n d w"
proof -
  have "has_exp n d e0 \<longleftrightarrow> has_exp n' d' e0" for e0 unfolding has_exp_real [OF assms(1)] has_exp_real [OF assms(2)] assms(3) ..
  moreover have "d_units JS_RNDN n d e0 = d_units JS_RNDN n' d' e0" for e0
    unfolding d_units_def using assms(1-3) by (intro round_div_real) (simp_all add: field_simps)
  ultimately show ?thesis using assms(4) by (simp add: rounds_to_def)
qed

lemma rounds_to_big:
  assumes d: "0 < d" and big: "2 powr (of_int h) \<le> real n / real d" "1024 \<le> h"
  shows "rounds_to n d (push_bit 52 0x7ff)"
proof -
  have n0: "0 < n" using big(1) by (cases n) (simp_all add: not_le)
  obtain e0 where e0: "has_exp n d e0" using has_exp_exists [OF n0 d] by blast
  have "2 powr (real_of_int h) < 2 powr (real_of_int e0)" using e0 big(1) unfolding has_exp_real [OF d] by linarith
  then have e: "1024 < e0" using big(2) by simp
  then have p: "d_prec e0 = 53" by (simp add: d_prec_def)
  define k where "k = d_units JS_RNDN n d e0"
  have "k \<le> 2 ^ 53" using d_units_bound [OF e0 d, of JS_RNDN] by (simp add: p k_def)
  moreover have "2 ^ 52 \<le> k"
  proof -
    let ?n = "n * 2 ^ nat (53 - e0)" and ?d = "d * 2 ^ nat (e0 - 53)"
    have "real (2 ^ 52) = 2 powr (of_int e0 - 1) * 2 powr (of_int (53 - e0))" by (simp flip: powr_add)
    also have "\<dots> \<le> real n / real d * 2 powr (of_int (53 - e0))" using e0 unfolding has_exp_real [OF d] by (intro mult_right_mono) simp_all
    also have "\<dots> = real ?n / real ?d" unfolding powr_int_nat by simp
    finally have "2 ^ 52 \<le> round_div JS_RNDN ?n ?d" using d by (intro round_div_ge_real) simp_all
    then show ?thesis by (simp add: k_def d_units_def p)
  qed
  ultimately have enc: "(case d_pair k e0 of (m, e) \<Rightarrow> atod_encode m e) = push_bit 52 0x7ff"
  proof -
    obtain m e' where me: "d_pair k e0 = (m, e')" by fastforce
    have le: "k * 2 ^ nat (53 - d_prec e0) \<le> 2 ^ 53" using \<open>k \<le> 2 ^ 53\<close> by (simp add: p)
    have "1024 < e'" using me e by (auto simp: d_pair_def Let_def split: if_splits)
    moreover have "m \<noteq> 0"
    proof
      assume "m = 0"
      then have "real k * 2 powr (of_int (e0 - d_prec e0)) = 0" using d_pair_value(1) [OF me le] by simp
      with \<open>2 ^ 52 \<le> k\<close> show False by simp
    qed
    ultimately show ?thesis using me by (simp add: atod_encode_def)
  qed
  with e0 show ?thesis unfolding rounds_to_def k_def by auto
qed

lemma rounds_to_small:
  assumes d: "0 < d" and n: "0 < n" and small: "real n / real d < 2 powr (of_int l)" "l \<le> - 1075"
  shows "rounds_to n d 0"
proof -
  obtain e0 where e0: "has_exp n d e0" using has_exp_exists [OF n d] by blast
  let ?m = "min (53 - e0) 1074"
  have "l + ?m \<le> - 1" using small(2) by simp
  have "real n / real d * 2 powr (of_int ?m) < 2 powr (of_int l) * 2 powr (of_int ?m)" using small(1) by (rule mult_strict_right_mono) simp
  also have "\<dots> = 2 powr (of_int (l + ?m))" by (simp only: powr_add of_int_add)
  also have "\<dots> \<le> 2 powr (of_int (- 1))" using \<open>l + ?m \<le> - 1\<close> by (intro powr_mono) simp_all
  also have "\<dots> = 1 / 2" by (simp add: powr_minus_divide)
  finally have lt: "real n / real d * 2 powr (of_int ?m) < 1 / 2" .
  have "\<bar>real n / real d * 2 powr (of_int (min (53 - e0) 1074)) - real 0\<bar> < 1 / 2"
  proof -
    have "0 \<le> real n / real d * 2 powr (of_int ?m)" by simp
    then show ?thesis using lt unfolding of_nat_0 diff_0_right by (simp only: abs_of_nonneg)
  qed
  then have "d_units JS_RNDN n d e0 = 0" by (intro d_pair_nearest [OF d refl] disjI1)
  with e0 show ?thesis unfolding rounds_to_def by (auto simp: d_pair_def atod_encode_def)
qed

lemma exp_tables:
  assumes "2 \<le> R" "R \<le> 36"
  obtains h l where "1024 \<le> h" "l = - 1075" "2 powr (of_int h) \<le> real R powr (of_int (max_exponent ! (R - 2)))"
    "real R powr (of_int (min_exponent ! (R - 2))) \<le> 2 powr (of_int l)" "2 powr (of_int (l - 6)) \<le> real R powr (of_int (min_exponent ! (R - 2)))"
proof -
  define h l :: int where "h = 1024" and "l = - 1075"
  define L where "L = log 2 (real R)"
  have L: "0 < L" using assms by (simp add: L_def)
  have "log 2 (real R) \<le> log 2 64" using assms by (subst log_le_cancel_iff) simp_all
  also have "log 2 64 = (6 :: real)" using log_pow_cancel [of 2 6] by simp
  finally have L6: "L \<le> 6" by (simp add: L_def)
  note t = dtoa_tables_val [OF assms, folded L_def]
  have e: "max_exponent ! (R - 2) = \<lceil>of_int h / L\<rceil>" "min_exponent ! (R - 2) = \<lfloor>of_int l / L\<rfloor>"
    using t by (simp_all add: h_def l_def)
  have p: "real R powr x = 2 powr (L * x)" for x
  proof -
    have "real R = 2 powr L" using assms by (simp add: L_def)
    then show ?thesis by (metis powr_powr)
  qed
  have "of_int h \<le> L * of_int (max_exponent ! (R - 2))"
    using le_of_int_ceiling [of "of_int h / L"] unfolding e pos_divide_le_eq [OF L] mult.commute [of L] .
  moreover have "L * of_int (min_exponent ! (R - 2)) \<le> of_int l"
    using of_int_floor_le [of "of_int l / L"] unfolding e pos_le_divide_eq [OF L] mult.commute [of L] .
  moreover have "of_int (l - 6) \<le> L * of_int (min_exponent ! (R - 2))"
  proof -
    have "of_int l / L < of_int (min_exponent ! (R - 2)) + 1" unfolding e by linarith
    then have "of_int l < L * of_int (min_exponent ! (R - 2)) + L" using L by (simp add: pos_divide_less_eq algebra_simps)
    then show ?thesis using L6 by simp
  qed
  ultimately have "2 powr (of_int h) \<le> real R powr (of_int (max_exponent ! (R - 2)))"
    "real R powr (of_int (min_exponent ! (R - 2))) \<le> 2 powr (of_int l)" "2 powr (of_int (l - 6)) \<le> real R powr (of_int (min_exponent ! (R - 2)))"
    unfolding p by (intro powr_mono; simp)+
  moreover have "1024 \<le> h" "l = - 1075" by (simp_all add: h_def l_def)
  ultimately show ?thesis by (intro that)
qed

text \<open>What the fraction \<open>n / d\<close> has to be: the digits kept, scaled by both exponents.\<close>

lemma c_int_small: "\<bar>i\<bar> \<le> 2 ^ 30 \<Longrightarrow> c_int i = Some i"
  by (simp add: c_int_def abs_le_iff)

lemma has_exp_lower:
  assumes "0 < d" "has_exp n d e0" "2 powr (of_int l) \<le> real n / real d"
  shows "l < e0"
proof -
  have "2 powr (real_of_int l) < 2 powr (real_of_int e0)" using assms(2,3) unfolding has_exp_real [OF assms(1)] by linarith
  then show ?thesis by simp
qed

lemma atod_value_radix:
  assumes R: "2 \<le> unat radix" "unat radix \<le> 36" "unat radix = unat radix1 * 2 ^ rs" "radix1_ok radix1" "R = unat radix"
    and t: "mpb_ok t" "R ^ (k - 1) \<le> mp_val t" "mp_val t < R ^ k" "0 < k"
    and b: "\<bar>x\<bar> \<le> 2 ^ 28" "\<bar>off\<bar> \<le> 2 ^ 28" "int k \<le> 2 ^ 28"
    and n: "n = scaled_num (mp_val t) 0 R (x - off)" "d = scaled_den 0 R (x - off)"
  shows "\<exists>w. atod_value t radix radix1 rs 0 (int k) off x False = Some w \<and> rounds_to n d w"
proof -
  have R0: "0 < R" using R(1,5) by simp
  define F where "F = x - off"
  have d0: "0 < d" using R0 by (simp add: n scaled_den_def)
  have "0 < R ^ (k - 1)" using R0 by simp
  then have t0: "0 < mp_val t" using t(2) by linarith
  have n0: "0 < n" using t0 R0 by (simp add: n scaled_num_def)
  have v: "real n / real d = real (mp_val t) * real R powr (of_int F)" unfolding n scaled_real [OF R0] F_def by simp
  have pw: "real (R ^ j) * real R powr (of_int F) = real R powr (of_int (F + int j))" for j
    using R0 by (simp add: powr_add powr_realpow mult.commute)
  have "real (R ^ (k - 1)) \<le> real (mp_val t)" "real (mp_val t) < real (R ^ k)" using t(2,3) by (simp_all only: of_nat_le_iff of_nat_less_iff)
  then have "real (R ^ (k - 1)) * real R powr (of_int F) \<le> real n / real d" "real n / real d < real (R ^ k) * real R powr (of_int F)"
    unfolding v using R0 by (intro mult_right_mono mult_strict_right_mono; simp)+
  then have lo: "real R powr (of_int (F + int k - 1)) \<le> real n / real d" and hi: "real n / real d < real R powr (of_int (F + int k))"
    unfolding pw using t(4) by (simp_all add: of_nat_diff algebra_simps)
  obtain h l where hl: "1024 \<le> h" "l = - 1075" "2 powr (of_int h) \<le> real R powr (of_int (max_exponent ! (R - 2)))"
    "real R powr (of_int (min_exponent ! (R - 2))) \<le> 2 powr (of_int l)" "2 powr (of_int (l - 6)) \<le> real R powr (of_int (min_exponent ! (R - 2)))"
    using exp_tables R by metis
  have mono: "real R powr (of_int i) \<le> real R powr (of_int j)" if "i \<le> j" for i j using that R0 by (intro powr_mono) simp_all
  have c: "c_int (x - off) = Some F" "c_int (F + int k) = Some (F + int k)" unfolding F_def using b by (intro c_int_small; simp)+
  consider "max_exponent ! (R - 2) + 1 \<le> F + int k" | "\<not> max_exponent ! (R - 2) + 1 \<le> F + int k" "F + int k \<le> min_exponent ! (R - 2)"
    | "\<not> max_exponent ! (R - 2) + 1 \<le> F + int k" "\<not> F + int k \<le> min_exponent ! (R - 2)" by blast
  then show ?thesis
  proof cases
    case 1
    have "2 powr (of_int h) \<le> real n / real d" using hl(3) mono [of "max_exponent ! (R - 2)" "F + int k - 1"] lo 1 by linarith
    then show ?thesis using rounds_to_big [OF d0 _ hl(1)] 1 c by (simp add: atod_value_def R(5))
  next
    case 2
    have "real n / real d < 2 powr (of_int l)" using hl(4) mono [OF 2(2)] hi by linarith
    then show ?thesis using rounds_to_small [OF d0 n0, of l] hl(2) 2 c by (simp add: atod_value_def R(5))
  next
    case 3
    obtain e0 where e0: "has_exp n d e0" using has_exp_exists [OF n0 d0] by blast
    have "2 powr (of_int (l - 6)) \<le> real n / real d" using hl(5) mono [of "min_exponent ! (R - 2)" "F + int k - 1"] lo 3 by linarith
    from has_exp_lower [OF d0 e0 this] have "- 1085 < e0" using hl(2) by simp
    from mul_pow_round_to_d_val [OF disjI2 [OF R(4)] t(1) t0 _ n(1) n(2) e0 this, of rs JS_RNDN] R(3,5)
    have m: "mul_pow_round_to_d t radix1 rs F JS_RNDN = Some (d_pair (d_units JS_RNDN n d e0) e0)" by (simp add: F_def)
    show ?thesis using 3 c m e0 unfolding rounds_to_def
      by (cases "d_pair (d_units JS_RNDN n d e0) e0") (auto simp: atod_value_def R(5))
  qed
qed

lemma atod_value_bin:
  assumes R: "0 < rb" "rb \<le> 5" "R = 2 ^ rb"
    and t: "mpb_ok t" "R ^ (k - 1) \<le> mp_val t" "mp_val t < R ^ k" "0 < k"
    and b: "\<bar>x\<bar> \<le> 2 ^ 26" "\<bar>off\<bar> \<le> 2 ^ 26" "int k \<le> 2 ^ 26"
    and F: "F = (if bin then x else x * int rb) - off * int rb"
    and n: "0 < d" "real n / real d = real (mp_val t) * 2 powr (of_int F)"
  shows "\<exists>w. atod_value t radix 1 rb rb (int k) off x bin = Some w \<and> rounds_to n d w"
proof -
  have "0 < R ^ (k - 1)" using R by simp
  then have t0: "0 < mp_val t" using t(2) by linarith
  have n0: "0 < n" using n t0 by (cases n) (simp_all)
  have pw: "real (R ^ j) * 2 powr (of_int F) = 2 powr (of_int (F + int j * int rb))" for j
    by (simp add: R(3) powr_add flip: powr_realpow power_mult) (simp add: mult.commute)
  have "real (R ^ (k - 1)) \<le> real (mp_val t)" "real (mp_val t) < real (R ^ k)" using t(2,3) by (simp_all only: of_nat_le_iff of_nat_less_iff)
  then have "real (R ^ (k - 1)) * 2 powr (of_int F) \<le> real n / real d" "real n / real d < real (R ^ k) * 2 powr (of_int F)"
    unfolding n(2) by (intro mult_right_mono mult_strict_right_mono; simp)+
  then have lo: "2 powr (of_int (F + int k * int rb - int rb)) \<le> real n / real d" and hi: "real n / real d < 2 powr (of_int (F + int k * int rb))"
    unfolding pw using t(4) by (simp_all add: of_nat_diff algebra_simps)
  have mul: "\<bar>i * int rb\<bar> \<le> 2 ^ 26 * 5" if "\<bar>i\<bar> \<le> 2 ^ 26" for i
    using mult_mono [OF that, of "int rb" 5] R by (simp add: abs_mult)
  define X where "X = (if bin then x else x * int rb)"
  have X: "\<bar>X\<bar> \<le> 2 ^ 26 * 5" using b(1) mul [OF b(1)] by (auto simp: X_def)
  have kb: "\<bar>int k * int rb\<bar> \<le> 2 ^ 26 * 5" using mul [of "int k"] b(3) by simp
  have c1: "(if \<not> bin then c_int (x * int rb) else Some x) = Some X" using c_int_small [of "x * int rb"] mul [OF b(1)] by (simp add: X_def)
  have c2: "c_int (X - off * int rb) = Some F" using c_int_small [of F] X mul [OF b(2)] unfolding F X_def [symmetric] by simp
  define E1 where "E1 = F + int k * int rb"
  have c3: "c_int E1 = Some E1"
  proof (rule c_int_small)
    have "(2 :: int) ^ 26 * 5 + (2 ^ 26 * 5 + 2 ^ 26 * 5) \<le> 2 ^ 30" by simp
    then show "\<bar>E1\<bar> \<le> 2 ^ 30" using X mul [OF b(2)] kb unfolding E1_def F X_def [symmetric] by linarith
  qed
  have val: "atod_value t radix 1 rb rb (int k) off x bin =
      (if 1024 + int rb \<le> E1 then Some (push_bit 52 0x7ff) else if E1 \<le> - 1075 then Some 0
       else do { (m, e) \<leftarrow> round_to_d t (- F) JS_RNDN; Some (atod_encode m e) })"
    unfolding atod_value_def c1 bind.bind_lunit c2 E1_def [symmetric] c3 using R(1) by simp
  consider "1024 + int rb \<le> E1" | "\<not> 1024 + int rb \<le> E1" "E1 \<le> - 1075" | "\<not> 1024 + int rb \<le> E1" "\<not> E1 \<le> - 1075" by blast
  then show ?thesis
  proof cases
    case 1
    then show ?thesis using rounds_to_big [OF n(1) lo [folded E1_def]] unfolding val by simp
  next
    case 2
    then show ?thesis using rounds_to_small [OF n(1) n0 hi [folded E1_def]] unfolding val by simp
  next
    case 3
    obtain e0 where e0: "has_exp n d e0" using has_exp_exists [OF n0 n(1)] by blast
    from has_exp_lower [OF n(1) e0 lo [folded E1_def]] have "- 1085 < e0" using 3 R by simp
    from round_to_d_exact [OF t(1) t0 n(1) _ e0 this, of "- F" JS_RNDN] n(2)
    have m: "round_to_d t (- F) JS_RNDN = Some (d_pair (d_units JS_RNDN n d e0) e0)" by simp
    show ?thesis using 3 m e0 unfolding val rounds_to_def by (cases "d_pair (d_units JS_RNDN n d e0) e0") auto
  qed
qed

section \<open>Whole texts\<close>

lemma digits_val_less: "set ds \<subseteq> {..<R} \<Longrightarrow> digits_val R ds < R ^ length ds"
proof (induction ds)
  case (Cons d ds)
  then have "d * R ^ length ds + digits_val R ds < (d + 1) * R ^ length ds" by simp
  also have "\<dots> \<le> R * R ^ length ds" using Cons.prems by (intro mult_le_mono1) simp
  finally show ?case by (simp add: digits_val_Cons)
qed simp

lemma digits_val_ge: "ds \<noteq> [] \<Longrightarrow> hd ds \<noteq> 0 \<Longrightarrow> R ^ (length ds - 1) \<le> digits_val R ds"
  by (cases ds) (simp_all add: digits_val_Cons trans_le_add1)

lemma digits_val_zeros: "\<forall>d \<in> set ds. d = 0 \<Longrightarrow> digits_val R ds = 0"
  by (induction ds) (simp_all add: digits_val_Cons)

lemma digits_val_sig: "digits_val R (sig_digits ds) = digits_val R ds"
proof -
  have "digits_val R (takeWhile (\<lambda>d. d = 0) ds) = 0" by (rule digits_val_zeros) (auto dest: set_takeWhileD)
  then show ?thesis using digits_val_append [of R "takeWhile (\<lambda>d. d = 0) ds" "sig_digits ds"] by simp
qed

lemma digits_val_take:
  assumes "\<forall>d \<in> set (drop k ds). d = 0"
  shows "digits_val R ds = digits_val R (take k ds) * R ^ (length ds - k)"
  using digits_val_append [of R "take k ds" "drop k ds"] digits_val_zeros [OF assms, of R] by simp

lemma atod_prefix_none:
  assumes R: "2 \<le> unat radix" "unat radix \<le> 36" and str: "drop p str = map digit_char A @ c # cs" "A \<noteq> []" "set A \<subseteq> {..<unat radix}"
    and c: "c \<noteq> 0x78" "c \<noteq> 0x58"
  shows "atod_prefix str p radix flags sep = Some (Inr (p, radix, sep))"
proof -
  obtain d A' where A: "A = d # A'" using str(2) by (cases A) auto
  have d: "d < 36" using str(3) R A by auto
  have p: "drop p str = digit_char d # map digit_char A' @ c # cs" using str(1) A by simp
  have r0: "radix \<noteq> 0" using R by auto
  obtain c1 cs' where c1: "map digit_char A' @ c # cs = c1 # cs'" "radix = 16 \<longrightarrow> c1 \<noteq> 0x78 \<and> c1 \<noteq> 0x58"
  proof (cases A')
    case Nil
    then show ?thesis using that [of c cs] c by simp
  next
    case (Cons d' A2)
    then have "d' < unat radix" using str(3) A by simp
    then have "radix = 16 \<longrightarrow> digit_char d' \<noteq> 0x78 \<and> digit_char d' \<noteq> 0x58"
      by (auto dest!: arg_cong [where f = uint] simp: uint_digit_char split: if_splits)
    then show ?thesis using that [of "digit_char d'"] Cons by simp
  qed
  note p' = p [unfolded c1(1)]
  show ?thesis
  proof (cases "digit_char d = 0x30")
    case True
    have g: "arr_get str (p + 1) = Some c1" using drop_ConsD(1) [OF drop_ConsD(2) [OF p']] by simp
    show ?thesis unfolding atod_prefix_def drop_ConsD(1) [OF p'] bind.bind_lunit True g using r0 c1(2) by auto
  next
    case False
    have "digit_char d \<noteq> 0x49" using d by (auto dest!: arg_cong [where f = uint] simp: uint_digit_char split: if_splits)
    then have "strstart (drop p str) (c_lit ''Infinity'' @ [0]) = Some None" by (simp add: p c_lit_def)
    then show ?thesis unfolding atod_prefix_def drop_ConsD(1) [OF p'] bind.bind_lunit if_not_P [OF False] by simp
  qed
qed

text \<open>The number a text denotes.\<close>

definition text_val :: "nat \<Rightarrow> nat list \<Rightarrow> nat list option \<Rightarrow> (u8 \<times> u8 list \<times> nat list) option \<Rightarrow> real" where
  "text_val R A B ex =
     real (digits_val R (num_digits A B)) * real R powr (- real (length (num_digits A B) - length A))
       * (if exp_bin ex then 2 else real R) powr (of_int (exp_val ex))"

text \<open>The digits beyond the limit are zeros, and the lengths are far from the range of \<open>int\<close>.\<close>

definition text_ok :: "u32 \<Rightarrow> u32 \<Rightarrow> nat list \<Rightarrow> nat list option \<Rightarrow> (u8 \<times> u8 list \<times> nat list) option \<Rightarrow> bool" where
  "text_ok radix flags A B ex \<longleftrightarrow>
     2 \<le> unat radix \<and> unat radix \<le> 36 \<and> flags AND JS_ATOD_INT_ONLY = 0 \<and>
     A \<noteq> [] \<and> set (num_digits A B) \<subseteq> {..<unat radix} \<and> length (num_digits A B) \<le> 2 ^ 25 \<and>
     (\<forall>d \<in> set (drop (nat (atod_max_digits_table ! (unat radix - 2))) (sig_digits (num_digits A B))). d = 0) \<and>
     exp_ok radix (if unat radix \<in> {2, 4, 8, 16, 32} then bit_len (unat radix) - 1 else 0) flags ex \<and> \<bar>exp_val ex\<bar> \<le> 2 ^ 26"

lemma text_okD:
  assumes "text_ok radix flags A B ex"
  shows "2 \<le> unat radix" "unat radix \<le> 36" "flags AND JS_ATOD_INT_ONLY = 0" "A \<noteq> []" "set (num_digits A B) \<subseteq> {..<unat radix}"
    "length (num_digits A B) \<le> 2 ^ 25"
    "\<forall>d \<in> set (drop (nat (atod_max_digits_table ! (unat radix - 2))) (sig_digits (num_digits A B))). d = 0"
    "exp_ok radix (if unat radix \<in> {2, 4, 8, 16, 32} then bit_len (unat radix) - 1 else 0) flags ex" "\<bar>exp_val ex\<bar> \<le> 2 ^ 26"
  using assms unfolding text_ok_def by blast+

lemma pow2_parts:
  assumes "2 \<le> unat radix" "unat radix \<le> 36" "unat radix = unat radix1 * 2 ^ rs" "radix1 = 1 \<or> radix1_ok radix1"
  shows "(if radix1 = 1 then rs else 0) = (if unat radix \<in> {2, 4, 8, 16, 32} then bit_len (unat radix) - 1 else 0)"
    and "radix1 = 1 \<Longrightarrow> 0 < rs \<and> rs \<le> 5"
proof -
  show *: "radix1 = 1 \<Longrightarrow> 0 < rs \<and> rs \<le> 5"
  proof -
    assume 1: "radix1 = 1"
    have "(2 :: nat) ^ rs < 2 ^ 6" using assms(2,3) 1 by simp
    then have "rs < 6" by (rule power_less_imp_less_exp [rotated]) simp
    moreover have "rs \<noteq> 0" using assms(1,3) 1 by (cases rs) auto
    ultimately show ?thesis by simp
  qed
  show "(if radix1 = 1 then rs else 0) = (if unat radix \<in> {2, 4, 8, 16, 32} then bit_len (unat radix) - 1 else 0)"
  proof (cases "radix1 = 1")
    case True
    then have "rs \<in> {1, 2, 3, 4, 5}" using * by auto
    moreover have "unat radix = 2 ^ rs" using assms(3) True by simp
    moreover have "bit_len (2 ^ rs) = rs + 1" using bit_len_unique [of "2 ^ rs" rs] by simp
    ultimately show ?thesis using True by auto
  next
    case False
    then have odd: "odd (unat radix1)" "3 \<le> unat radix1" using assms(4) by (simp_all add: radix1_ok_def)
    have "unat radix \<notin> {2, 4, 8, 16, 32}"
    proof
      assume "unat radix \<in> {2, 4, 8, 16, 32}"
      then obtain j where "unat radix = 2 ^ j" by (auto intro: that [of 1] that [of 2] that [of 3] that [of 4] that [of 5])
      then have "unat radix1 dvd 2 ^ j" using assms(3) by (metis dvd_triv_left)
      moreover have "coprime (unat radix1) (2 ^ j)" using odd by simp
      ultimately have "is_unit (unat radix1)" by (metis coprime_absorb_left)
      then show False using odd by simp
    qed
    with False show ?thesis by simp
  qed
qed

lemma text_mantissa:
  assumes ok: "text_ok radix flags A B ex"
  defines "R \<equiv> unat radix" and "ds \<equiv> num_digits A B"
  defines "k \<equiv> min (length (sig_digits ds)) (nat (atod_max_digits_table ! (R - 2)))"
  assumes nz: "sig_digits ds \<noteq> []"
  shows "\<forall>d \<in> set (drop k (sig_digits ds)). d = 0" and "0 < k" and "int k \<le> 80"
    and "R ^ (k - 1) \<le> digits_val R (take k (sig_digits ds))" and "digits_val R (take k (sig_digits ds)) < R ^ k"
    and "text_val R A B ex = real (digits_val R (take k (sig_digits ds)))
      * real R powr (of_int (int (length A) - int (lead_zeros ds) - int k)) * (if exp_bin ex then 2 else real R) powr (of_int (exp_val ex))"
proof -
  let ?s = "sig_digits ds" and ?mx = "atod_max_digits_table ! (R - 2)"
  note D = text_okD [OF ok, folded R_def ds_def]
  note R = D(1,2)
  note tb = limb_tables [OF R]
  have z: "\<forall>d \<in> set (drop (nat ?mx) ?s). d = 0" by (rule D(7))
  have "k = length ?s \<or> k = nat ?mx" unfolding k_def by linarith
  then show z': "\<forall>d \<in> set (drop k ?s). d = 0" using z by (metis drop_all order_refl empty_iff empty_set)
  show k0: "0 < k" using nz tb(4) unfolding k_def by (simp only: min_less_iff_conj zero_less_nat_eq length_greater_0_conv simp_thms)
  show "int k \<le> 80" using tb(5) unfolding k_def by linarith
  have "set (take k ?s) \<subseteq> {..<R}" using D(5) by (auto dest!: in_set_takeD set_dropWhileD)
  moreover have len: "length (take k ?s) = k" by (simp add: k_def)
  ultimately show "digits_val R (take k ?s) < R ^ k" using digits_val_less [of "take k ?s" R] by simp
  have "hd (take k ?s) \<noteq> 0" using k0 hd_dropWhile [OF nz] by (simp add: hd_take)
  then show "R ^ (k - 1) \<le> digits_val R (take k ?s)" using digits_val_ge [of "take k ?s" R, unfolded len] k0 nz by (simp only: take_eq_Nil simp_thms not_gr_zero [symmetric])
  define b where "b = length ds - length A"
  have lb: "length ds = length A + b" by (simp add: b_def ds_def num_digits_def)
  have lz: "length ds = lead_zeros ds + length ?s" by (metis length_append takeWhile_dropWhile_id)
  have "k \<le> length ?s" by (simp add: k_def)
  then have off: "int (length ?s - k) + (- int b) = int (length A) - int (lead_zeros ds) - int k" using lb lz by linarith
  have "real (digits_val R ds) * real R powr (- real b)
      = real (digits_val R (take k ?s)) * (real R ^ (length ?s - k) * real R powr (- real b))"
    unfolding digits_val_sig [symmetric, of R ds] digits_val_take [OF z', of R] by simp
  also have "real R ^ (length ?s - k) * real R powr (- real b) = real R powr (of_int (int (length A) - int (lead_zeros ds) - int k))"
  proof -
    have "real R ^ j = real R powr (real j)" for j using R by (simp add: powr_realpow)
    then show ?thesis unfolding off [symmetric] by (simp flip: powr_add)
  qed
  finally show "text_val R A B ex = real (digits_val R (take k ?s))
      * real R powr (of_int (int (length A) - int (lead_zeros ds) - int k)) * (if exp_bin ex then 2 else real R) powr (of_int (exp_val ex))"
    unfolding text_val_def ds_def [symmetric] b_def [symmetric] by (simp only:)
qed

lemma atod_text_value:
  assumes ok: "text_ok radix flags A B ex" and R: "R = unat radix" "R = unat radix1 * 2 ^ rs" "radix1 = 1 \<or> radix1_ok radix1"
    and ds: "ds = num_digits A B" "sig_digits ds \<noteq> []" and k: "k = min (length (sig_digits ds)) (nat (atod_max_digits_table ! (R - 2)))"
    and t: "mpb_ok t" "mp_val t = digits_val R (take k (sig_digits ds))" and off: "off = int (lead_zeros ds) + int k - int (length A)"
    and n: "0 < d" "real n / real d = text_val R A B ex"
  shows "\<exists>w. atod_value t radix radix1 rs (if radix1 = 1 then rs else 0) (int k) off (exp_val ex) (exp_bin ex) = Some w \<and> rounds_to n d w"
proof -
  note T = text_mantissa [OF ok, folded R(1) ds(1), OF ds(2), folded k]
  note D = text_okD [OF ok, folded R(1) ds(1)]
  note r = D(1,2,9,6)
  have b: "\<bar>off\<bar> \<le> 2 ^ 26" "int k \<le> 2 ^ 26"
  proof -
    have "length A \<le> length ds" by (simp add: ds(1) num_digits_def)
    moreover have "lead_zeros ds \<le> length ds" by (rule length_takeWhile_le)
    ultimately show "\<bar>off\<bar> \<le> 2 ^ 26" "int k \<le> 2 ^ 26" using r(4) T(3) unfolding off by simp_all
  qed
  have v: "real n / real d = real (mp_val t) * real R powr (of_int (- off)) * (if exp_bin ex then 2 else real R) powr (of_int (exp_val ex))"
    unfolding n(2) T(6) t(2) off by (simp add: algebra_simps)
  note pp = pow2_parts [OF r(1,2) [unfolded R(1)] R(2) [unfolded R(1)] R(3)]
  have rb: "(if unat radix \<in> {2, 4, 8, 16, 32} then bit_len (unat radix) - 1 else 0) = (if radix1 = 1 then rs else 0)" by (rule pp(1) [symmetric])
  show ?thesis
  proof (cases "radix1 = 1")
    case True
    let ?F = "(if exp_bin ex then exp_val ex else exp_val ex * int rs) - off * int rs"
    have Rr: "R = 2 ^ rs" using R(2) True by simp
    have pw: "real R powr (of_int i) = 2 powr (of_int (i * int rs))" for i
      unfolding Rr by (simp add: powr_powr mult.commute flip: powr_realpow)
    have "(if exp_bin ex then 2 else real R) powr (of_int (exp_val ex)) = 2 powr (of_int (if exp_bin ex then exp_val ex else exp_val ex * int rs))"
      using pw by simp
    then have "real n / real d = real (mp_val t) * 2 powr (of_int ?F)"
      unfolding v pw by (simp add: powr_diff powr_minus_divide)
    from atod_value_bin [OF _ _ Rr t(1) T(4) [folded t(2)] T(5) [folded t(2)] T(2) r(3) b refl n(1) this]
    show ?thesis using pp(2) True by auto
  next
    case False
    have bin: "\<not> exp_bin ex"
    proof
      assume "exp_bin ex"
      moreover have "exp_ok radix 0 flags ex" using D(8) False rb [folded R(1)] by (simp only: if_False simp_thms)
      ultimately show False
        by (auto simp: exp_bin_def exp_ok_def atod_is_exp_def split: option.splits)
    qed
    have "real n / real d = real (scaled_num (mp_val t) 0 R (exp_val ex - off)) / real (scaled_den 0 R (exp_val ex - off))"
    proof -
      have "0 < R" using r by simp
      then show ?thesis unfolding v scaled_real [OF \<open>0 < R\<close>] using bin by (simp add: powr_diff powr_minus_divide)
    qed
    moreover have "0 < scaled_den 0 R (exp_val ex - off)" using r by (simp add: scaled_den_def)
    moreover have b': "\<bar>exp_val ex\<bar> \<le> 2 ^ 28" "\<bar>off\<bar> \<le> 2 ^ 28" "int k \<le> 2 ^ 28" using r(3) b by simp_all
    moreover obtain w where w: "atod_value t radix radix1 rs 0 (int k) off (exp_val ex) False = Some w"
      "rounds_to (scaled_num (mp_val t) 0 R (exp_val ex - off)) (scaled_den 0 R (exp_val ex - off)) w"
      using atod_value_radix [OF r(1,2) [unfolded R(1)] R(2) [unfolded R(1)] _ R(1) t(1) T(4) [folded t(2)] T(5) [folded t(2)] T(2) b' refl refl] R(3) False by auto
    ultimately have "rounds_to n d w" using rounds_to_ratio n(1) by metis
    with w(1) False bin show ?thesis by auto
  qed
qed

lemma atod_parse_text:
  assumes ok: "text_ok radix flags A B ex" and str: "drop ps str = num_chars A B @ exp_chars ex @ [0]"
    and n: "0 < d" "real n / real d = text_val (unat radix) A B ex"
  shows "\<exists>w. atod_parse str ps radix flags = Some (Inr (ps + length (num_chars A B @ exp_chars ex), w))
    \<and> (if digits_val (unat radix) (num_digits A B) = 0 then w = 0 else rounds_to n d w)"
proof -
  note D = text_okD [OF ok]
  let ?R = "unat radix" and ?ds = "num_digits A B"
  define sep :: int where "sep = (if flags AND JS_ATOD_ACCEPT_UNDERSCORES \<noteq> 0 then 0x5f else 256)"
  have sep: "sep_ok sep" by (simp add: sep_def sep_ok_def)
  have r0: "radix \<noteq> 0" using D(1) by auto
  obtain rs where rs: "ctz32 radix = Some rs" "?R = unat (drop_bit rs radix) * 2 ^ rs" "drop_bit rs radix = 1 \<or> radix1_ok (drop_bit rs radix)"
    using radix_split [OF D(1,2)] by blast
  define radix1 where "radix1 = drop_bit rs radix"
  define rb where "rb = (if radix1 = 1 then rs else 0)"
  note pp = pow2_parts [OF D(1,2) rs(2,3), folded radix1_def]
  have eok: "exp_ok radix rb flags ex" using D(8) unfolding rb_def pp(1) .
  have rbR: "rb \<noteq> 0 \<longrightarrow> ?R = 2 ^ rb" using rs(2) by (simp add: rb_def radix1_def [symmetric])
  obtain c cs where c: "exp_chars ex @ [0] = c # cs" "stop_char ?R c" "c \<noteq> 0x78" "c \<noteq> 0x58"
  proof (cases ex)
    case None
    then show ?thesis using that [of 0 "[]"] zero_stop_char [OF D(2)] by (simp add: exp_chars_def)
  next
    case (Some x)
    obtain c sg X where x: "x = (c, sg, X)" by (cases x)
    have "atod_is_exp radix rb flags c" using eok by (simp add: Some x exp_ok_def)
    then show ?thesis using that [of c] atod_is_exp_stop [OF _ rbR D(2)] Some x by (auto simp: exp_chars_def atod_is_exp_def)
  qed
  have pre: "atod_prefix str ps radix flags sep = Some (Inr (ps, radix, sep))"
  proof (cases B)
    case None
    then show ?thesis using atod_prefix_none [OF D(1,2), of ps str A c cs] str c D(4,5) by (simp add: num_chars_def num_digits_def)
  next
    case (Some b)
    then show ?thesis using atod_prefix_none [OF D(1,2), of ps str A "0x2e"] str D(4,5) by (simp add: num_chars_def num_digits_def)
  qed
  have str': "drop ps str = num_chars A B @ c # cs" using str c(1) by simp
  from atod_scan [OF D(5,1,2,4) str' order_refl c(2) sep D(3), of "uint radix"]
  obtain p1 d0 where scan: "atod_zeros str ps (uint radix) flags sep ps 0 (- 1) = Some (Inr (p1, int (lead_zeros ?ds), d0))"
      "atod_digits_loop str ps radix flags sep p1 (atod_start (int (lead_zeros ?ds)) d0) =
        Some (Inr (ps + length (num_chars A B), (atod_feed radix (sig_digits ?ds) (atod_start (int (lead_zeros ?ds)) d0))
          \<lparr>ad_dot_pos := case B of None \<Rightarrow> - 1 | Some b \<Rightarrow> int (length A)\<rparr>))"
    by blast
  define z sig k where "z = int (lead_zeros ?ds)" and "sig = sig_digits ?ds" and "k = min (length sig) (nat (atod_max_digits_table ! (?R - 2)))"
  define st where "st = (atod_feed radix sig (atod_start z d0))\<lparr>ad_dot_pos := case B of None \<Rightarrow> - 1 | Some b \<Rightarrow> int (length A)\<rparr>"
  note scan = scan [folded z_def sig_def, folded st_def]
  have zs: "\<forall>d \<in> set (drop k sig). d = 0"
  proof -
    have "k = length sig \<or> k = nat (atod_max_digits_table ! (?R - 2))" unfolding k_def by linarith
    then show ?thesis using D(7) unfolding sig_def by (metis drop_all order_refl empty_iff empty_set)
  qed
  have sigR: "set sig \<subseteq> {..<?R}" using D(5) unfolding sig_def by (auto dest!: set_dropWhileD)
  have lz: "length ?ds = lead_zeros ?ds + length sig" unfolding sig_def by (metis length_append takeWhile_dropWhile_id)
  define off where "off = (if sig = [] then 0 else z + int k - int (length A))"
  define dot where "dot = (case B of None \<Rightarrow> - 1 | Some b \<Rightarrow> int (length A))"
  have dot: "(if dot < 0 then z + int (length sig) else dot) = int (length A)"
    using lz by (cases B) (simp_all add: dot_def z_def num_digits_def)
  obtain t where t: "atod_mantissa radix rb z st = Some (t, sig = [], off)" "mpb_ok t" "mp_val t = digits_val ?R (take k sig)" "ad_digit_count st = int k"
    using atod_mantissa_val [OF D(1,2) sigR st_def [folded dot_def] k_def zs, of rb] unfolding dot off_def [symmetric] by blast
  let ?p = "ps + length (num_chars A B)"
  have "drop ?p str = exp_chars ex @ 0 # []" using drop_runD [of ps str id "num_chars A B"] str by simp
  moreover have "ps < ?p" using D(4) by (cases A) (simp_all add: num_chars_def)
  ultimately obtain neg where ex: "atod_exponent str ps radix rb flags sep ?p = Some (Inr (?p + length (exp_chars ex), exp_val ex, exp_bin ex, False, neg))"
    using atod_exponent_val [OF eok] sep by blast
  have parse: "atod_parse str ps radix flags =
      (if sig = [] then Some (Inr (?p + length (exp_chars ex), 0))
       else do { a \<leftarrow> atod_value t radix radix1 rs rb (int k) off (exp_val ex) (exp_bin ex); Some (Inr (?p + length (exp_chars ex), a)) })"
  proof -
    have ne: "?p + length (exp_chars ex) \<noteq> ps" using \<open>ps < ?p\<close> by simp
    show ?thesis
      unfolding atod_parse_def sep_def [symmetric] pre atod_bind_def option.case sum.case prod.case if_not_P [OF r0] Let_def rs(1) bind.bind_lunit
        radix1_def [symmetric] rb_def [symmetric] scan t(1,4) ex simp_thms if_False if_not_P [OF ne] ..
  qed
  have dv: "digits_val ?R ?ds = 0 \<longleftrightarrow> sig = []"
  proof
    assume "digits_val ?R ?ds = 0"
    then have "digits_val ?R sig = 0" unfolding sig_def digits_val_sig .
    then show "sig = []" using digits_val_ge [of sig ?R] hd_dropWhile [of "\<lambda>d. d = 0" ?ds] D(1) by (fastforce simp: sig_def)
  next
    assume "sig = []"
    then have "digits_val ?R sig = 0" by simp
    then show "digits_val ?R ?ds = 0" unfolding sig_def digits_val_sig .
  qed
  show ?thesis
  proof (cases "sig = []")
    case True
    then show ?thesis unfolding parse dv by (simp add: add.assoc)
  next
    case False
    have "off = int (lead_zeros ?ds) + int k - int (length A)" using False by (simp add: off_def z_def)
    from atod_text_value [OF ok refl rs(2,3) refl _ _ t(2) _ this n, folded sig_def radix1_def, folded rb_def] False t(3) k_def
    obtain w where "atod_value t radix radix1 rs rb (int k) off (exp_val ex) (exp_bin ex) = Some w" "rounds_to n d w" by blast
    then show ?thesis unfolding parse dv using False by (simp add: add.assoc)
  qed
qed

lemma js_atod_text:
  assumes ok: "text_ok radix flags A B ex" and sg: "sg = [] \<or> sg = [0x2b] \<or> sg = [0x2d]"
    and n: "0 < d" "real n / real d = text_val (unat radix) A B ex"
  shows "\<exists>w. js_atod (sg @ num_chars A B @ exp_chars ex @ [0]) radix flags =
      Some (w OR (if sg = [0x2d] then push_bit 63 1 else 0), length (sg @ num_chars A B @ exp_chars ex))
    \<and> (if digits_val (unat radix) (num_digits A B) = 0 then w = 0 else rounds_to n d w)"
proof -
  let ?str = "sg @ num_chars A B @ exp_chars ex @ [0]"
  have "drop (length sg) ?str = num_chars A B @ exp_chars ex @ [0]" by simp
  from atod_parse_text [OF ok this n] obtain w where
    w: "atod_parse ?str (length sg) radix flags = Some (Inr (length sg + length (num_chars A B @ exp_chars ex), w))"
      "if digits_val (unat radix) (num_digits A B) = 0 then w = 0 else rounds_to n d w" by blast
  obtain d' A' where A: "A = d' # A'" "d' < 36" using text_okD(2,4,5) [OF ok] by (cases A) (auto simp: num_digits_def)
  then have "digit_char d' \<noteq> 0x2b" "digit_char d' \<noteq> 0x2d"
    by (auto dest!: arg_cong [where f = uint] simp: uint_digit_char split: if_splits)
  then have s: "atod_sign ?str = Some (sg = [0x2d], length sg)"
    using sg A by (auto simp: atod_sign_def arr_get_def num_chars_def)
  show ?thesis using w by (intro exI [of _ w]) (simp add: js_atod_def s Let_def)
qed

section \<open>The limit of the exponent\<close>


end
