(* ===== verification/Dtoa_Roundtrip.thy ===== *)
theory Dtoa_Roundtrip
  imports Atod_Correct
begin

text \<open>
  \<open>js_atod\<close> reads back what \<open>js_dtoa\<close> of \<open>src/dtoa.c\<close> prints in the free format, bit for bit, in
  every radix; and the number \<open>js_atod\<close> returns is the nearest double.
\<close>

section \<open>Printed texts are texts of numbers\<close>

lemma fixed_digits_dval: "0 < b \<Longrightarrow> digits_val b (fixed_digits b n v) = v mod b ^ n"
proof (induction n arbitrary: v)
  case (Suc n)
  then show ?case by (simp add: mod_mult2_eq mult.commute)
qed simp

lemma fixed_digits_sig:
  assumes "2 \<le> b" "b ^ (n - 1) \<le> v" "v < b ^ n" "0 < n"
  shows "sig_digits (fixed_digits b n v @ zs) = fixed_digits b n v @ zs" and "lead_zeros (fixed_digits b n v @ zs) = 0"
proof -
  obtain m where n: "n = 1 + m" using assms(4) by (cases n) auto
  have "fixed_digits b n v = fixed_digits b 1 (v div b ^ m) @ fixed_digits b m v" unfolding n by (rule fixed_digits_append)
  moreover have "v div b ^ m mod b = v div b ^ m" using assms(3) n by (simp add: less_mult_imp_div_less)
  moreover have "0 < v div b ^ m" using assms(1,2) n by (simp add: div_greater_zero_iff)
  ultimately show "sig_digits (fixed_digits b n v @ zs) = fixed_digits b n v @ zs" "lead_zeros (fixed_digits b n v @ zs) = 0"
    by simp_all
qed

lemma sig_digits_zeros: "sig_digits (replicate i 0 @ ds) = sig_digits ds"
  by (induction i) simp_all

lemma num_chars_dotted:
  "j \<le> length ds \<Longrightarrow> dotted j (map digit_char ds) = num_chars (take j ds) (if j = length ds then None else Some (drop j ds))"
  by (simp add: dotted_def num_chars_def take_map drop_map)

lemma num_digits_split: "num_digits (take j ds) (if j = length ds then None else Some (drop j ds)) = ds"
  by (simp add: num_digits_def)

text \<open>Texts of a number with \<open>P\<close> digits and exponent \<open>E\<close>.\<close>

definition shows_number :: "u32 \<Rightarrow> u32 \<Rightarrow> nat \<Rightarrow> int \<Rightarrow> u8 list \<Rightarrow> bool" where
  "shows_number radix flags v F txt \<longleftrightarrow>
     (\<exists>A B ex. txt = num_chars A B @ exp_chars ex \<and> text_ok radix flags A B ex \<and> digits_val (unat radix) (num_digits A B) \<noteq> 0 \<and>
        text_val (unat radix) A B ex = real v * real (unat radix) powr (of_int F))"

text \<open>How \<open>js_dtoa\<close> lays out digits: zeros before and after them, with a dot and an exponent.\<close>

definition number_form :: "u32 \<Rightarrow> u32 \<Rightarrow> nat list \<Rightarrow> int \<Rightarrow> u8 list \<Rightarrow> bool" where
  "number_form radix flags ds F txt \<longleftrightarrow>
     (\<exists>A B ex i j. txt = num_chars A B @ exp_chars ex \<and> A \<noteq> [] \<and> num_digits A B = replicate i 0 @ ds @ replicate j 0 \<and> i \<le> 5000 \<and> j \<le> 5000 \<and>
        exp_ok radix (if unat radix \<in> {2, 4, 8, 16, 32} then bit_len (unat radix) - 1 else 0) flags ex \<and> \<bar>exp_val ex\<bar> \<le> 2 ^ 26 \<and>
        real (unat radix) powr (of_int (int j - int (length (num_digits A B) - length A)))
          * (if exp_bin ex then 2 else real (unat radix)) powr (of_int (exp_val ex)) = real (unat radix) powr (of_int F))"

lemma number_formI:
  assumes "A \<noteq> []" "num_digits A B = replicate i 0 @ ds @ replicate j 0" "i \<le> 5000" "j \<le> 5000"
    and "exp_ok radix (if unat radix \<in> {2, 4, 8, 16, 32} then bit_len (unat radix) - 1 else 0) flags ex" "\<bar>exp_val ex\<bar> \<le> 2 ^ 26"
    and "real (unat radix) powr (of_int (int j - int (length (num_digits A B) - length A)))
      * (if exp_bin ex then 2 else real (unat radix)) powr (of_int (exp_val ex)) = real (unat radix) powr (of_int F)"
  shows "number_form radix flags ds F (num_chars A B @ exp_chars ex)"
  using assms unfolding number_form_def by blast

lemma number_form_val:
  assumes R0: "0 < R" and A: "num_digits A B = replicate i 0 @ ds @ replicate j 0"
    and F: "real R powr (of_int (int j - int (length (num_digits A B) - length A))) * (if exp_bin ex then 2 else real R) powr (of_int (exp_val ex))
      = real R powr (of_int F)"
  shows "digits_val R (num_digits A B) = digits_val R ds * R ^ j" and "text_val R A B ex = real (digits_val R ds) * real R powr (of_int F)"
proof -
  show dv: "digits_val R (num_digits A B) = digits_val R ds * R ^ j"
    unfolding A digits_val_append by (simp add: digits_val_zeros)
  let ?b = "length (num_digits A B) - length A"
  have "real R ^ j * real R powr (- real ?b) = real R powr (of_int (int j - int ?b))"
    using R0 by (simp add: powr_diff powr_minus_divide powr_realpow)
  then show "text_val R A B ex = real (digits_val R ds) * real R powr (of_int F)" unfolding text_val_def dv F [symmetric] by simp
qed

lemma number_form_shows:
  assumes R: "2 \<le> unat radix" "unat radix \<le> 36" "R = unat radix" and fl: "flags AND JS_ATOD_INT_ONLY = 0"
    and P: "1 \<le> P" "P \<le> dtoa_max_digits_table ! (R - 2)" and v: "R ^ nat (P - 1) \<le> v" "v < R ^ nat P"
    and nf: "number_form radix flags (fixed_digits R (nat P) v) F txt"
  shows "shows_number radix flags v F txt"
proof -
  let ?ds = "fixed_digits R (nat P) v"
  obtain A B ex i j where tx: "txt = num_chars A B @ exp_chars ex"
    and A: "A \<noteq> []" "num_digits A B = replicate i 0 @ ?ds @ replicate j 0" "i \<le> 5000" "j \<le> 5000"
    and ex: "exp_ok radix (if R \<in> {2, 4, 8, 16, 32} then bit_len R - 1 else 0) flags ex" "\<bar>exp_val ex\<bar> \<le> 2 ^ 26"
    and F: "real R powr (of_int (int j - int (length (num_digits A B) - length A))) * (if exp_bin ex then 2 else real R) powr (of_int (exp_val ex))
      = real R powr (of_int F)"
    using nf unfolding number_form_def R(3) [symmetric] by blast
  note tb = limb_tables [OF R(1,2), folded R(3)]
  have R0: "0 < R" using R by simp
  have n: "nat P - 1 = nat (P - 1)" "0 < nat P" using P by simp_all
  have sg: "sig_digits (num_digits A B) = ?ds @ replicate j 0"
    unfolding A(2) using fixed_digits_sig(1) [of R "nat P" v "replicate j 0"] R v n by (simp add: sig_digits_zeros)
  have pm: "P \<le> 54" using P(2) max_digits_precise(4) [OF R(1,2)] by (simp add: R(3))
  have "nat P \<le> nat (atod_max_digits_table ! (R - 2))" using P(2) tb(6) by simp
  then have zs: "\<forall>d \<in> set (drop (nat (atod_max_digits_table ! (R - 2))) (sig_digits (num_digits A B))). d = 0"
    unfolding sg by (auto dest: in_set_dropD)
  have dg: "set (num_digits A B) \<subseteq> {..<R}" unfolding A(2) using fixed_digits_less [OF R0] R0 by auto
  have dv: "digits_val R ?ds = v" using v(2) fixed_digits_dval [OF R0] by simp
  have "0 < v" using v(1) R0 by (metis gr0I le_zero_eq power_eq_0_iff not_gr_zero)
  have len': "length (num_digits A B) \<le> 2 ^ 25" using A(3,4) pm by (simp add: A(2))
  have "text_ok radix flags A B ex"
    unfolding text_ok_def R(3) [symmetric] using R(1,2) [folded R(3)] fl A(1) dg len' zs ex by blast
  then show ?thesis
    unfolding shows_number_def R(3) [symmetric] tx using number_form_val [OF R0 A(2) F] dv \<open>0 < v\<close> R0
    by (intro exI [of _ A] exI [of _ B] exI [of _ ex]) simp
qed

lemma exp_form_ok:
  assumes R: "2 \<le> unat radix" "unat radix \<le> 36" "R = unat radix" "R = unat radix1 * 2 ^ rs" "radix1 = 1 \<or> radix1_ok radix1"
    and fl: "flags AND JS_ATOD_INT_ONLY = 0" and E: "\<bar>E\<bar> \<le> 5000"
  defines "c \<equiv> (if radix = 10 then 0x65 else if radix1 = 1 \<and> rs \<le> 4 then 0x70 else 0x40)"
    and "x \<equiv> (if radix = 10 then E else if radix1 = 1 \<and> rs \<le> 4 then E * int rs else E)"
  defines "ex \<equiv> Some (c, [if x < 0 then 0x2d else 0x2b], radix_digits 10 (nat \<bar>x\<bar>))"
  shows "exp_ok radix (if R \<in> {2, 4, 8, 16, 32} then bit_len R - 1 else 0) flags ex" and "exp_val ex = x" and "\<bar>x\<bar> \<le> 20000"
    and "(if exp_bin ex then 2 else real R) powr (of_int (exp_val ex)) = real R powr (of_int E)"
proof -
  note pp = pow2_parts [OF R(1,2) R(4) [unfolded R(3)] R(5)]
  show x: "\<bar>x\<bar> \<le> 20000"
  proof -
    have "\<bar>E * int rs\<bar> \<le> 5000 * 4" if "rs \<le> 4" unfolding abs_mult using E that by (intro mult_mono) simp_all
    then show ?thesis using E by (auto simp: x_def)
  qed
  have dv: "digits_val 10 (radix_digits 10 (nat \<bar>x\<bar>)) = nat \<bar>x\<bar>" by (rule radix_digits_val) simp
  show v: "exp_val ex = x" by (simp add: exp_val_def ex_def dv)
  have "set (radix_digits 10 (nat \<bar>x\<bar>)) \<subseteq> {..<10}" using radix_digits_less [of 10] by auto
  moreover have "atod_is_exp radix (if radix1 = 1 then rs else 0) flags c"
    using fl pp(2) by (auto simp: atod_is_exp_def c_def)
  ultimately show "exp_ok radix (if R \<in> {2, 4, 8, 16, 32} then bit_len R - 1 else 0) flags ex"
    unfolding R(3) pp(1) [symmetric] using x by (auto simp: exp_ok_def ex_def dv)
  show "(if exp_bin ex then 2 else real R) powr (of_int (exp_val ex)) = real R powr (of_int E)"
  proof (cases "radix \<noteq> 10 \<and> radix1 = 1 \<and> rs \<le> 4")
    case True
    then have "exp_bin ex" "x = E * int rs" "R = 2 ^ rs" using R(4) by (simp_all add: exp_bin_def ex_def c_def x_def)
    then show ?thesis unfolding v by (simp add: powr_powr mult.commute flip: powr_realpow)
  next
    case False
    then have "\<not> exp_bin ex" "x = E" by (auto simp: exp_bin_def ex_def c_def x_def)
    then show ?thesis unfolding v by simp
  qed
qed

lemma u32toa_abs: "\<bar>x\<bar> \<le> 20000 \<Longrightarrow> u32toa (of_int \<bar>x\<bar>) = Some (map digit_char (radix_digits 10 (nat \<bar>x\<bar>)))"
proof -
  assume "\<bar>x\<bar> \<le> 20000"
  then have "nat \<bar>x\<bar> < 2 ^ 32" by simp
  then have "unat (of_nat (nat \<bar>x\<bar>) :: u32) = nat \<bar>x\<bar>" by (simp only: unsigned_of_nat) (simp add: take_bit_nat_eq_self)
  then show ?thesis using u32toa_digits [of "of_nat (nat \<bar>x\<bar>)"] by simp
qed

lemma dtoa_output_form:
  assumes R: "2 \<le> unat radix" "unat radix \<le> 36" "R = unat radix" "R = unat radix1 * 2 ^ rs" "radix1 = 1 \<or> radix1_ok radix1"
    and fl: "aflags AND JS_ATOD_INT_ONLY = 0" and E: "\<bar>E\<bar> \<le> 4000"
    and P: "1 \<le> P" and v: "mpb_ok t" "mp_val t = v"
  shows "\<exists>q. dtoa_output t radix radix1 rs nd flags P E = Some q \<and> number_form radix aflags (fixed_digits R (nat P) v) (E - P) q"
proof -
  let ?ds = "fixed_digits R (nat P) v"
  note out = output_digits_val [OF R(1,2) v(1), of "nat P", folded R(3), unfolded v(2)]
  note nf = number_formI [where radix = radix, folded R(3)]
  have noexp: "exp_ok radix rb aflags None" "\<bar>exp_val None\<bar> \<le> 2 ^ 26" for rb by (simp_all add: exp_ok_def exp_val_def)
  have R0: "0 < R" using R by simp
  have dne: "?ds \<noteq> []" using P by (cases "nat P") auto
  define isexp where "isexp \<longleftrightarrow> flags AND JS_DTOA_EXP_MASK = JS_DTOA_EXP_ENABLED \<or>
     (flags AND JS_DTOA_EXP_MASK = JS_DTOA_EXP_AUTO \<and>
      (E \<le> - 6 \<or> (if flags AND JS_DTOA_FORMAT_MASK = JS_DTOA_FORMAT_FIXED then nd else dtoa_max_digits_table ! (R - 2) + 4) < E))"
  show ?thesis
  proof (cases isexp)
    case True
    let ?A = "take 1 ?ds" and ?B = "if P = 1 then None else Some (drop 1 ?ds)"
    have l1: "1 = length ?ds \<longleftrightarrow> P = 1" "1 \<le> length ?ds" using P by auto
    have E1: "\<bar>E - 1\<bar> \<le> 5000" using E by simp
    note xf = exp_form_ok [OF R fl E1]
    define c x :: _ where "c = (if radix = 10 then 0x65 else if radix1 = 1 \<and> rs \<le> 4 then 0x70 else (0x40 :: u8))"
      and "x = (if radix = 10 then E - 1 else if radix1 = 1 \<and> rs \<le> 4 then (E - 1) * int rs else E - 1)"
    define ex where "ex = Some (c, [if x < 0 then 0x2d else 0x2b :: u8], radix_digits 10 (nat \<bar>x\<bar>))"
    note xf = xf [folded c_def x_def, folded ex_def]
    have "dtoa_output t radix radix1 rs nd flags P E = Some (num_chars ?A ?B @ exp_chars ex)"
    proof -
      have p1: "(if radix = 10 then (E - 1, 0x65) else if radix1 = 1 \<and> rs \<le> 4 then ((E - 1) * int rs, 0x70) else (E - 1, 0x40)) = (x, c)"
        by (simp add: x_def c_def)
      have p2: "(if x < 0 then (- x, 0x2d) else (x, 0x2b)) = (\<bar>x\<bar>, if x < 0 then 0x2d else 0x2b)" by simp
      have q: "output_digits t radix (nat P) 1 = Some (num_chars ?A ?B)"
        unfolding out num_chars_dotted [OF l1(2)] l1(1) ..
      show ?thesis
        unfolding dtoa_output_def Let_def if_P [OF True [unfolded isexp_def R(3)]] q bind.bind_lunit p1 prod.case p2 u32toa_abs [OF xf(3)]
        by (simp add: exp_chars_def ex_def)
    qed
    moreover have "number_form radix aflags ?ds (E - P) (num_chars ?A ?B @ exp_chars ex)"
    proof (rule nf [where i = 0 and j = 0])
      show "exp_ok radix (if R \<in> {2, 4, 8, 16, 32} then bit_len R - 1 else 0) aflags ex" by (rule xf(1))
      show "\<bar>exp_val ex\<bar> \<le> 2 ^ 26" using xf(2,3) by simp
      show "?A \<noteq> []" using l1(2) by (cases ?ds) auto
      show nd: "num_digits ?A ?B = replicate 0 0 @ ?ds @ replicate 0 0" using num_digits_split [of 1 ?ds] unfolding l1(1) by simp
      have "real R powr (of_int (int 0 - int (length (num_digits ?A ?B) - length ?A))) * real R powr (of_int (E - 1)) = real R powr (of_int (E - P))"
        unfolding nd using P R0 by (simp flip: powr_add)
      then show "real R powr (of_int (int 0 - int (length (num_digits ?A ?B) - length ?A))) * (if exp_bin ex then 2 else real R) powr (of_int (exp_val ex))
        = real R powr (of_int (E - P))" unfolding xf(4) .
    qed simp_all
    ultimately show ?thesis by blast
  next
    case False
    note no = False [unfolded isexp_def R(3)]
    show ?thesis
    proof (cases "E \<le> 0")
      case True
      let ?A = "[0] :: nat list" and ?B = "Some (replicate (nat (- E)) 0 @ ?ds)"
      have "dtoa_output t radix radix1 rs nd flags P E = Some (num_chars ?A ?B @ exp_chars None)"
        unfolding dtoa_output_def Let_def if_not_P [OF no] if_P [OF True] out
        by (simp add: dotted_def num_chars_def exp_chars_def digit_char_def)
      moreover have "number_form radix aflags ?ds (E - P) (num_chars ?A ?B @ exp_chars None)"
        using noexp True P E R0 by (intro nf [where i = "Suc (nat (- E))" and j = 0]) (simp_all add: num_digits_def exp_val_def)
      ultimately show ?thesis by blast
    next
      case pos: False
      show ?thesis
      proof (cases "E < P")
        case True
        let ?A = "take (nat E) ?ds" and ?B = "Some (drop (nat E) ?ds)"
        have ne: "nat E \<noteq> nat P" using True pos by simp
        have "dtoa_output t radix radix1 rs nd flags P E = Some (num_chars ?A ?B @ exp_chars None)"
          unfolding dtoa_output_def Let_def if_not_P [OF no] if_not_P [OF pos] out
          using True pos ne by (simp add: num_chars_dotted exp_chars_def)
        moreover have "number_form radix aflags ?ds (E - P) (num_chars ?A ?B @ exp_chars None)"
          using noexp True pos P R0 dne by (intro nf [where i = 0 and j = 0]) (auto simp: num_digits_def exp_val_def)
        ultimately show ?thesis by blast
      next
        case False
        let ?A = "?ds @ replicate (nat (E - P)) 0" and ?B = "None"
        have "dtoa_output t radix radix1 rs nd flags P E = Some (num_chars ?A ?B @ exp_chars None)"
          unfolding dtoa_output_def Let_def if_not_P [OF no] if_not_P [OF pos] out
          using False pos by (simp add: dotted_def num_chars_def exp_chars_def digit_char_def)
        moreover have "number_form radix aflags ?ds (E - P) (num_chars ?A ?B @ exp_chars None)"
          using noexp False pos P E R0 dne by (intro nf [where i = 0 and j = "nat (E - P)"]) (auto simp: num_digits_def exp_val_def)
        ultimately show ?thesis by blast
      qed
    qed
  qed
qed

section \<open>The bit pattern\<close>

lemma high_bit_split: "(n :: nat) < 2 * k \<Longrightarrow> n = n mod k + (if k \<le> n then k else 0)"
  by (cases "k \<le> n") (simp_all add: le_mod_geq)

lemma encode_decode:
  assumes d: "finite_double d" "\<not> zero_double d" "dtoa_decode d = Some (m, e)"
  shows "atod_encode m e OR (if 2 ^ 63 \<le> unat d then push_bit 63 1 else 0) = d"
proof -
  define E f where "E = unat d div 2 ^ 52 mod 2 ^ 11" and "f = unat d mod 2 ^ 52"
  have m: "2 ^ 52 \<le> unat m" "unat m < 2 ^ 53" "- 1073 \<le> e" "e \<le> 1024"
    and c: "if E = 0 then e < - 1021 \<and> unat m = f * 2 ^ nat (- 1021 - e) else e = int E - 1022 \<and> unat m = f + 2 ^ 52"
    using dtoa_decode_val [OF d(1,2)] d(3) by (simp_all add: E_def f_def)
  have m0: "m \<noteq> 0" using m(1) by auto
  have f: "f < 2 ^ 52" "E < 2 ^ 11" by (simp_all add: f_def E_def)
  have md: "unat d mod 2 ^ 63 = E * 2 ^ 52 + f"
    using mod_mult2_eq [of "unat d" "2 ^ 52" "2 ^ 11"] by (simp add: E_def f_def)
  have enc: "unat (atod_encode m e) = unat d mod 2 ^ 63"
  proof (cases "E = 0")
    case True
    then have "atod_encode m e = drop_bit (nat (- e - 1021)) m" using c m(3,4) m0 by (simp add: atod_encode_def)
    moreover have "nat (- e - 1021) = nat (- 1021 - e)" by simp
    ultimately have "unat (atod_encode m e) = unat m div 2 ^ nat (- 1021 - e)" by (simp only: unat_drop_bit)
    then show ?thesis using c True md by simp
  next
    case False
    then have e: "e = int E - 1022" "unat m = f + 2 ^ 52" using c by simp_all
    let ?h = "push_bit 52 (of_int (e + 1022)) :: u64"
    have l: "unat (m AND (push_bit 52 1 - 1)) = f" using double_fields(2) [of m] e(2) f(1) by simp
    have h: "unat ?h = E * 2 ^ 52"
    proof -
      have "unat (of_nat E :: u64) = E" using f(2) by (intro unat_of_nat_u64) simp
      then show ?thesis using unat_push_bit_small [of "of_nat E :: u64" 52] f(2) by (simp add: e(1))
    qed
    have "atod_encode m e = (m AND (push_bit 52 1 - 1)) OR ?h"
      using e(1) False m(4) m0 by (simp add: atod_encode_def or.commute)
    then have "unat (atod_encode m e) = f + E * 2 ^ 52" using unat_or_high [of "m AND (push_bit 52 1 - 1)" 52 ?h E] l h f(1) by simp
    then show ?thesis using md by simp
  qed
  have "unat d < 2 ^ 64" using unsigned_less [of d] by simp
  then have dd: "unat d = unat d mod 2 ^ 63 + (if 2 ^ 63 \<le> unat d then 2 ^ 63 else 0)" by (intro high_bit_split) simp
  have "unat (atod_encode m e) < 2 ^ 63" using enc by simp
  then have "unat (atod_encode m e OR push_bit 63 1) = unat (atod_encode m e) + 2 ^ 63"
    using unat_or_high [of "atod_encode m e" 63 "push_bit 63 1" 1] by simp
  then have "unat (atod_encode m e OR (if 2 ^ 63 \<le> unat d then push_bit 63 1 else 0)) = unat d mod 2 ^ 63 + (if 2 ^ 63 \<le> unat d then 2 ^ 63 else 0)"
    by (cases "2 ^ 63 \<le> unat d") (simp_all only: if_True if_False enc or.right_neutral add_0_right)
  then show ?thesis unfolding word_unat_eq_iff using dd by (rule trans [OF _ sym])
qed

section \<open>Round trip\<close>

lemma rounds_to_unique: "0 < d \<Longrightarrow> rounds_to n d w \<Longrightarrow> rounds_to n d w' \<Longrightarrow> w = w'"
  unfolding rounds_to_def using has_exp_unique by metis

lemma shows_number_atod:
  assumes "shows_number radix af v F txt" and sg: "sg = [] \<or> sg = [0x2d]" and R: "2 \<le> unat radix"
    and w: "rounds_to (scaled_num v 0 (unat radix) F) (scaled_den 0 (unat radix) F) w"
  shows "js_atod (sg @ txt @ [0]) radix af = Some (w OR (if sg = [0x2d] then push_bit 63 1 else 0), length (sg @ txt))"
proof -
  let ?n = "scaled_num v 0 (unat radix) F" and ?d = "scaled_den 0 (unat radix) F"
  have R0: "0 < unat radix" using R by simp
  then have d: "0 < ?d" by (simp add: scaled_den_def)
  obtain A B ex where t: "txt = num_chars A B @ exp_chars ex" "text_ok radix af A B ex" "digits_val (unat radix) (num_digits A B) \<noteq> 0"
    "text_val (unat radix) A B ex = real v * real (unat radix) powr (of_int F)" using assms(1) by (auto simp: shows_number_def)
  have "real ?n / real ?d = text_val (unat radix) A B ex" unfolding scaled_real [OF R0] t(4) by simp
  from js_atod_text [OF t(2) _ d this, of sg] sg obtain w' where
    w': "js_atod (sg @ num_chars A B @ exp_chars ex @ [0]) radix af =
      Some (w' OR (if sg = [0x2d] then push_bit 63 1 else 0), length (sg @ num_chars A B @ exp_chars ex))" "rounds_to ?n ?d w'"
    using t(3) by auto
  then show ?thesis using rounds_to_unique [OF d w'(2) w] t(1) by simp
qed

text \<open>The digits of the fast path for integers.\<close>

lemma radix_digits_fixed:
  assumes "2 \<le> b"
  shows "radix_digits b n = fixed_digits b (length (radix_digits b n)) n \<and> n < b ^ length (radix_digits b n)
    \<and> (0 < n \<longrightarrow> b ^ (length (radix_digits b n) - 1) \<le> n)"
proof (induction n rule: less_induct)
  case (less n)
  show ?case
  proof (cases "n < b")
    case True
    then have "radix_digits b n = [n]" by (subst radix_digits.simps) simp
    with True show ?thesis by simp
  next
    case False
    then have r: "radix_digits b n = radix_digits b (n div b) @ [n mod b]" using assms by (subst radix_digits.simps) simp
    have "n div b < n" using False assms by (intro div_less_dividend) simp_all
    note IH = less.IH [OF this]
    have pos: "0 < n div b" using False assms by (simp add: div_greater_zero_iff)
    let ?l = "length (radix_digits b (n div b))"
    have "n < b * b ^ ?l" using IH assms by (metis div_less_iff_less_mult mult.commute less_le_trans zero_less_numeral)
    moreover have "b ^ ?l \<le> n"
    proof -
      have "0 < ?l" by simp
      then have "b ^ ?l = b ^ (?l - 1) * b" by (metis Suc_diff_1 power_Suc2)
      also have "\<dots> \<le> n div b * b" using IH pos by (intro mult_le_mono1) simp
      also have "\<dots> \<le> n" by simp
      finally show ?thesis .
    qed
    ultimately show ?thesis using r IH by simp
  qed
qed

lemma rounds_back_exact:
  assumes m: "2 ^ 52 \<le> unat m" "unat m < 2 ^ 53" "2 ^ nat (- 1021 - e) dvd unat m" and d: "0 < d" "real n / real d = real (unat m) * 2 powr (of_int (e - 53))"
  shows "rounds_to n d (atod_encode m e)"
proof -
  have "\<exists>e0. has_exp n d e0 \<and> e - 1 \<le> e0 \<and> d_pair (d_units JS_RNDN n d e0) e0 = (m, e)"
    by (rule round_back [OF d(1) m refl]) (simp_all add: d(2))
  then show ?thesis unfolding rounds_to_def by force
qed

lemma fast_int_text:
  assumes R: "2 \<le> unat radix" "unat radix \<le> 36" and af: "af AND JS_ATOD_INT_ONLY = 0"
    and m: "2 ^ 52 \<le> unat m" "unat m < 2 ^ 53" "2 ^ nat (- 1021 - e) dvd unat m" and fi: "dtoa_is_fast_int m e flags"
  shows "\<exists>v q. u64toa_radix (drop_bit (nat (53 - e)) m) radix = Some q \<and> shows_number radix af v 0 q
    \<and> rounds_to (scaled_num v 0 (unat radix) 0) (scaled_den 0 (unat radix) 0) (atod_encode m e)"
proof -
  let ?R = "unat radix"
  define k v where "k = nat (53 - e)" and "v = unat (drop_bit k m)"
  have e: "1 \<le> e" "e \<le> 53" and z: "m AND (push_bit k 1 - 1) = 0" using fi by (simp_all add: dtoa_is_fast_int_def k_def)
  have mv: "unat m = v * 2 ^ k"
  proof -
    have "unat (m AND (push_bit k 1 - 1)) = unat m mod 2 ^ k"
      using unat_and_mask [of m k] by (simp add: mask_eq_exp_minus_1 push_bit_eq_mult)
    then have "unat m mod 2 ^ k = 0" using z by simp
    then show ?thesis unfolding v_def unat_drop_bit using div_mult_mod_eq [of "unat m" "2 ^ k"] by simp
  qed
  have v0: "0 < v" using mv m(1) by (cases v) auto
  have "v * 1 \<le> v * 2 ^ k" by (rule mult_le_mono2) simp
  then have v53: "v < 2 ^ 53" using mv m(2) by linarith
  define P where "P = int (length (radix_digits ?R v))"
  note fx = radix_digits_fixed [OF R(1), of v]
  have P1: "1 \<le> P" by (simp add: P_def Suc_le_eq)
  have P2: "P \<le> dtoa_max_digits_table ! (?R - 2)"
  proof (rule ccontr)
    assume "\<not> P \<le> dtoa_max_digits_table ! (?R - 2)"
    then have "?R ^ nat (dtoa_max_digits_table ! (?R - 2) - 1) \<le> ?R ^ nat (P - 1)" using R by (intro power_increasing) simp_all
    also have "\<dots> \<le> v" using fx v0 by (simp add: P_def nat_diff_distrib')
    finally show False using max_digits_precise(2) [OF R] v53 by linarith
  qed
  have vb: "?R ^ nat (P - 1) \<le> v" "v < ?R ^ nat P" using fx v0 by (simp_all add: P_def nat_diff_distrib')
  have rd: "radix_digits ?R v = fixed_digits ?R (nat P) v" using fx by (simp add: P_def)
  have "shows_number radix af v 0 (num_chars (radix_digits ?R v) None @ exp_chars None)"
    using R by (intro number_form_shows [OF R refl af P1 P2 vb] number_formI [where i = 0 and j = 0])
      (simp_all add: num_digits_def rd [symmetric] exp_ok_def exp_val_def)
  moreover have "u64toa_radix (drop_bit k m) radix = Some (num_chars (radix_digits ?R v) None @ exp_chars None)"
    using u64toa_radix_digits [OF R, of "drop_bit k m"] by (simp add: num_chars_def exp_chars_def v_def)
  moreover have "rounds_to (scaled_num v 0 ?R 0) (scaled_den 0 ?R 0) (atod_encode m e)"
  proof (rule rounds_back_exact [OF m])
    have "2 ^ k * 2 powr (of_int (e - 53)) = (1 :: real)"
      unfolding powr_int_of_nat [symmetric] powr_add [symmetric] using e by (simp add: k_def)
    then show "real (scaled_num v 0 ?R 0) / real (scaled_den 0 ?R 0) = real (unat m) * 2 powr (of_int (e - 53))"
      unfolding mv by (simp add: scaled_num_def scaled_den_def mult.assoc)
  qed (simp add: scaled_den_def)
  ultimately show ?thesis unfolding k_def by blast
qed

lemma estimate_range:
  assumes "2 \<le> R" "- 1073 \<le> e" "e \<le> 1024"
  shows "\<bar>1 + \<lfloor>of_int (e - 1) / log 2 (real R)\<rfloor>\<bar> \<le> 1100"
proof -
  have L: "1 \<le> log 2 (real R)" using assms(1) by simp
  have "\<bar>of_int (e - 1) / log 2 (real R)\<bar> \<le> \<bar>of_int (e - 1)\<bar>" using L by (simp add: abs_divide divide_le_eq mult_left_le_one_le mult_le_cancel_left1)
  also have "\<dots> \<le> 1074" using assms(2,3) by simp
  finally show ?thesis by linarith
qed

lemma free_text:
  assumes d: "finite_double d" "\<not> zero_double d" and R: "2 \<le> unat radix" "unat radix \<le> 36" and af: "af AND JS_ATOD_INT_ONLY = 0"
    and flags: "flags AND JS_DTOA_FORMAT_MASK = JS_DTOA_FORMAT_FREE" and dec: "dtoa_decode d = Some (m, e)"
  shows "\<exists>v F q. js_dtoa d radix nd flags = Some (sign_text d @ q) \<and> shows_number radix af v F q
    \<and> rounds_to (scaled_num v 0 (unat radix) F) (scaled_den 0 (unat radix) F) (atod_encode m e)"
proof -
  let ?R = "unat radix"
  have m: "2 ^ 52 \<le> unat m" "unat m < 2 ^ 53" "2 ^ nat (- 1021 - e) dvd unat m" and e: "- 1073 \<le> e" "e \<le> 1024"
    using dtoa_decode_val [OF d] dec by auto
  obtain rs where rs: "ctz32 radix = Some rs" "?R = unat (drop_bit rs radix) * 2 ^ rs" "drop_bit rs radix = 1 \<or> radix1_ok (drop_bit rs radix)"
    using radix_split [OF R] by blast
  note js = js_dtoa_nonzero [OF d dec R e rs(1) refl, of nd flags, unfolded Let_def if_P [OF flags]]
  show ?thesis
  proof (cases "dtoa_is_fast_int m e flags")
    case True
    then show ?thesis using fast_int_text [OF R af m True] unfolding js by auto
  next
    case False
    define radix1 E0 where "radix1 = drop_bit rs radix" and "E0 = 1 + \<lfloor>of_int (e - 1) / log 2 (real ?R)\<rfloor>"
    have i: "dtoa_in m e radix radix1 rs E0" using R rs m by (simp add: dtoa_in_def radix1_def E0_def)
    from dtoa_free_val [OF i e(1) m(3)] obtain P E mant where
      fr: "dtoa_free m e radix radix1 rs E0 = Some (P, E, mpb_set_u64 mant)" "free_found m e radix radix1 rs E0 (P, E, mant)" by blast
    then have P: "1 \<le> P" "P \<le> dtoa_max_digits_table ! (?R - 2)" and EE: "E = E0 \<or> E = E0 + 1"
      and v: "?R ^ nat (P - 1) \<le> unat mant" "unat mant < ?R ^ nat P"
      and mp: "mul_pow_round_to_d (mpb_set_u64 mant) radix1 rs (E - P) JS_RNDN = Some (m, e)" by (simp_all add: free_found_def)
    have "\<bar>E\<bar> \<le> 4000" using EE estimate_range [OF R(1) e] unfolding E0_def [symmetric] by auto
    from dtoa_output_form [OF R refl rs(2,3) [folded radix1_def] af this P(1) mpb_set_u64_ok mpb_set_u64_val, where nd = nd and flags = flags]
    obtain q where q: "dtoa_output (mpb_set_u64 mant) radix radix1 rs nd flags P E = Some q" "shows_number radix af (unat mant) (E - P) q"
      using number_form_shows [OF R refl af P v] by blast
    have "js_dtoa d radix nd flags = Some (sign_text d @ q)"
      unfolding js if_not_P [OF False] E0_def [symmetric] radix1_def [symmetric] fr(1) using q(1) by simp
    moreover have "rounds_to (scaled_num (unat mant) 0 ?R (E - P)) (scaled_den 0 ?R (E - P)) (atod_encode m e)"
    proof -
      have R0: "0 < ?R" using R by simp
      have R1: "real 1 \<le> real ?R" using R by (simp only: of_nat_le_iff)
      have m0: "0 < unat mant" using v(1) R0 by (metis gr0I le_zero_eq power_eq_0_iff not_gr_zero)
      have "real ?R powr (of_int (E0 - 1)) \<le> real ?R powr (of_int (E - 1))" using EE R1 by (intro powr_mono) auto
      also have "\<dots> = real (?R ^ nat (P - 1)) * real ?R powr (of_int (E - P))"
      proof -
        have "real ?R ^ nat (P - 1) = real ?R powr (of_int (P - 1))" unfolding powr_base_int [OF R0] using P(1) by simp
        then show ?thesis by (simp flip: powr_add)
      qed
      also have "\<dots> \<le> real (unat mant) * real ?R powr (of_int (E - P))"
        using v(1) by (intro mult_right_mono) (simp_all only: of_nat_le_iff powr_ge_zero)
      finally show ?thesis using trimmed_round [OF i e(1) m0 _ refl] mp unfolding rounds_to_def by fastforce
    qed
    ultimately show ?thesis using q(2) by blast
  qed
qed

text \<open>
  C1: what \<open>js_dtoa\<close> prints in the free format is read back by \<open>js_atod\<close>, to the last bit: for every
  finite non-zero double, every radix and every choice of exponent notation, \<open>js_dtoa\<close> returns a text
  (its search for the digits ends), and \<open>js_atod\<close> on that text consumes all of it and returns the
  same 64 bits.
\<close>

theorem js_dtoa_atod_roundtrip:
  assumes "finite_double d" "\<not> zero_double d" and "2 \<le> unat radix" "unat radix \<le> 36"
    and "flags AND JS_DTOA_FORMAT_MASK = JS_DTOA_FORMAT_FREE" and "af AND JS_ATOD_INT_ONLY = 0"
  shows "\<exists>txt. js_dtoa d radix nd flags = Some txt \<and> js_atod (txt @ [0]) radix af = Some (d, length txt)"
proof -
  obtain m e where dec: "dtoa_decode d = Some (m, e)" using dtoa_decode_val [OF assms(1,2)] by blast
  from free_text [OF assms(1-4,6,5) dec, of nd] obtain v F q where
    q: "js_dtoa d radix nd flags = Some (sign_text d @ q)" "shows_number radix af v F q"
      "rounds_to (scaled_num v 0 (unat radix) F) (scaled_den 0 (unat radix) F) (atod_encode m e)" by blast
  have "sign_text d = [] \<or> sign_text d = [0x2d]" by (simp add: sign_text_def)
  from shows_number_atod [OF q(2) this assms(3) q(3)] q(1) encode_decode [OF assms(1,2) dec] show ?thesis
    by (auto simp: sign_text_def split: if_splits)
qed

lemma js_dtoa_atod_roundtrip_witness:
  "\<exists>txt. js_dtoa 0x3fb999999999999a 10 0 0 = Some txt \<and> js_atod (txt @ [0]) 10 0 = Some (0x3fb999999999999a, length txt)"
  by (rule js_dtoa_atod_roundtrip) (simp_all add: finite_double_def zero_double_def)

section \<open>The fixed format\<close>



end
