(* ===== verification/Atod_Nearest.thy ===== *)
theory Atod_Nearest
  imports Dtoa_Roundtrip
begin

text \<open>
  The result of \<open>js_atod\<close> of \<open>src/dtoa.c\<close> against the set of all doubles: below the overflow
  threshold no finite double is nearer to the number that the text denotes.
\<close>

section \<open>The bit pattern of a rounded number\<close>

text \<open>Mantissas and exponents that \<open>atod_encode\<close> represents exactly.\<close>

definition enc_ok :: "u64 \<Rightarrow> int \<Rightarrow> bool" where
  "enc_ok m e \<longleftrightarrow> unat m < 2 ^ 53 \<and> (m = 0 \<or> 2 ^ 52 \<le> unat m \<and> - 1073 \<le> e \<and> 2 ^ nat (- 1021 - e) dvd unat m)"

lemma encode_value:
  assumes "enc_ok m e" "e \<le> 1024"
  shows "finite_double (atod_encode m e)" and "double_abs (atod_encode m e) = real (unat m) * 2 powr (of_int (e - 53))"
proof -
  have "finite_double (atod_encode m e) \<and> double_abs (atod_encode m e) = real (unat m) * 2 powr (of_int (e - 53))"
  proof (cases "m = 0")
    case True
    then show ?thesis by (simp add: atod_encode_def finite_double_def double_abs_def double_mag_def)
  next
    case False
    then have m: "unat m < 2 ^ 53" "2 ^ 52 \<le> unat m" "- 1073 \<le> e" "2 ^ nat (- 1021 - e) dvd unat m" using assms(1) by (auto simp: enc_ok_def)
    show ?thesis
    proof (cases "e < - 1021")
      case True
      define j where "j = nat (- 1021 - e)"
      obtain k where k: "unat m = k * 2 ^ j" using m(4) unfolding j_def by (metis dvd_def mult.commute)
      have j: "1 \<le> j" "nat (- e - 1021) = j" using True by (simp_all add: j_def)
      have w: "unat (atod_encode m e) = k" using False True assms(2) m(3) j k by (simp add: atod_encode_def unat_drop_bit)
      have "k * 2 ^ 1 \<le> k * 2 ^ j" using j(1) by (intro mult_le_mono2 power_increasing) simp_all
      from order.strict_trans1 [OF this m(1) [unfolded k]] have "k < 2 ^ 52" by simp
      moreover have "2 ^ j * 2 powr (of_int (e - 53)) = (2 :: real) powr (of_int (- 1074))"
        unfolding powr_int_of_nat [symmetric] powr_add [symmetric] using True by (simp add: j_def)
      ultimately show ?thesis unfolding finite_double_def double_abs_def double_mag_def w k by (simp add: mult.assoc)
    next
      case e: False
      define E f where "E = nat (e + 1022)" and "f = unat m - 2 ^ 52"
      have f: "f < 2 ^ 52" "unat m = f + 2 ^ 52" using m(1,2) by (simp_all add: f_def)
      have E: "0 < E" "E < 2047" "e = int E - 1022" using e assms(2) by (auto simp: E_def)
      let ?h = "push_bit 52 (of_int (e + 1022)) :: u64"
      have l: "unat (m AND (push_bit 52 1 - 1)) = f" using double_fields(2) [of m] f by simp
      have h: "unat ?h = E * 2 ^ 52"
      proof -
        have "unat (of_nat E :: u64) = E" using E(2) by (intro unat_of_nat_u64) simp
        then show ?thesis using unat_push_bit_small [of "of_nat E :: u64" 52] E by simp
      qed
      have "atod_encode m e = (m AND (push_bit 52 1 - 1)) OR ?h"
        using False e assms(2) by (simp add: atod_encode_def or.commute)
      then have w: "unat (atod_encode m e) = f + E * 2 ^ 52" using unat_or_high [of "m AND (push_bit 52 1 - 1)" 52 ?h E] l h f(1) by simp
      have "(f + E * 2 ^ 52) div 2 ^ 52 = E" "(f + E * 2 ^ 52) mod 2 ^ 52 = f" using f(1) by simp_all
      then show ?thesis unfolding finite_double_def double_abs_def double_mag_def w using E f(2) by (simp add: Let_def add.commute)
    qed
  qed
  then show "finite_double (atod_encode m e)" "double_abs (atod_encode m e) = real (unat m) * 2 powr (of_int (e - 53))" by blast+
qed

text \<open>The result of the rounding is such a pair.\<close>

lemma d_units_lower:
  assumes e: "has_exp n d e0" and d: "0 < d" and p: "1 \<le> d_prec e0"
  shows "2 ^ nat (d_prec e0 - 1) \<le> d_units JS_RNDN n d e0"
proof -
  let ?n = "n * 2 ^ nat (d_prec e0 - e0)" and ?d = "d * 2 ^ nat (e0 - d_prec e0)"
  have "2 powr (of_int e0 - 1) * 2 powr (of_int (d_prec e0 - e0)) \<le> real n / real d * 2 powr (of_int (d_prec e0 - e0))"
    using e unfolding has_exp_real [OF d] by (intro mult_right_mono) simp_all
  moreover have "2 powr (of_int e0 - 1) * 2 powr (of_int (d_prec e0 - e0)) = real (2 ^ nat (d_prec e0 - 1))"
  proof -
    have "real (2 ^ nat (d_prec e0 - 1)) = 2 powr (of_int (int (nat (d_prec e0 - 1))))" unfolding powr_int_of_nat by simp
    then show ?thesis unfolding powr_add [symmetric] using p by simp
  qed
  moreover have "real n / real d * 2 powr (of_int (d_prec e0 - e0)) = real ?n / real ?d" unfolding powr_int_nat by simp
  ultimately show ?thesis unfolding d_units_def using d by (intro round_div_ge_real) simp_all
qed

lemma d_units_tiny:
  assumes e: "has_exp n d e0" and d: "0 < d" and p: "d_prec e0 < 0"
  shows "d_units JS_RNDN n d e0 = 0"
proof (rule d_pair_nearest [OF d refl], rule disjI1)
  let ?m = "min (53 - e0) 1074"
  have "real n / real d * 2 powr (of_int ?m) < 2 powr (of_int e0) * 2 powr (of_int ?m)"
    using e unfolding has_exp_real [OF d] by (intro mult_strict_right_mono) simp_all
  also have "\<dots> = 2 powr (of_int (d_prec e0))" unfolding powr_add [symmetric] of_int_add [symmetric] d_prec_diff [symmetric] by simp
  also have "\<dots> \<le> 2 powr (of_int (- 1))" using p by (intro powr_mono) simp_all
  also have "\<dots> = 1 / 2" by (simp add: powr_minus_divide)
  finally have lt: "real n / real d * 2 powr (of_int ?m) < 1 / 2" .
  have "0 \<le> real n / real d * 2 powr (of_int ?m)" by simp
  then show "\<bar>real n / real d * 2 powr (of_int ?m) - real 0\<bar> < 1 / 2" using lt unfolding of_nat_0 diff_0_right by (simp only: abs_of_nonneg)
qed

lemma d_pair_enc_ok:
  assumes e: "has_exp n d e0" and d: "0 < d" and me: "d_pair (d_units JS_RNDN n d e0) e0 = (m, e)"
  shows "enc_ok m e"
proof -
  define k j where "k = d_units JS_RNDN n d e0" and "j = nat (53 - d_prec e0)"
  have b: "k * 2 ^ j \<le> 2 ^ 53" using d_units_bound [OF e d] by (simp add: k_def j_def)
  have pair: "(m, e) = (if 2 ^ 53 \<le> k * 2 ^ j then (of_nat (k * 2 ^ j div 2), e0 + 1) else (of_nat (k * 2 ^ j), e0))"
    using me unfolding d_pair_def Let_def k_def [symmetric] j_def [symmetric] by (rule sym)
  have jj: "j = nat (- 1021 - e0)" "d_prec e0 \<le> 53" by (simp_all add: j_def d_prec_def)
  consider "d_prec e0 < 0" | "d_prec e0 = 0" | "1 \<le> d_prec e0" by linarith
  then show ?thesis
  proof cases
    case 1
    then have "k = 0" using d_units_tiny [OF e d] by (simp add: k_def)
    then show ?thesis using pair by (simp add: enc_ok_def)
  next
    case 2
    then have j: "j = 53" "e0 = - 1074" by (auto simp: j_def d_prec_def split: if_splits)
    have "k = 0 \<or> k = 1" using b unfolding j by auto
    then show ?thesis
    proof
      assume "k = 0"
      then show ?thesis using pair by (simp add: enc_ok_def)
    next
      assume "k = 1"
      then have "m = of_nat (2 ^ 52)" "e = - 1073" using pair j by simp_all
      moreover have "unat (of_nat (2 ^ 52) :: u64) = 2 ^ 52" by (intro unat_of_nat_u64) simp
      ultimately show ?thesis by (simp add: enc_ok_def)
    qed
  next
    case 3
    have "2 ^ nat (d_prec e0 - 1) * 2 ^ j \<le> k * 2 ^ j" using d_units_lower [OF e d 3] by (simp add: k_def)
    moreover have "nat (d_prec e0 - 1) + j = 52" using 3 jj(2) by (simp add: j_def)
    ultimately have lo: "2 ^ 52 \<le> k * 2 ^ j" by (simp only: power_add [symmetric])
    have e0: "- 1074 < e0" using 3 by (auto simp: d_prec_def split: if_splits)
    show ?thesis
    proof (cases "2 ^ 53 \<le> k * 2 ^ j")
      case True
      then have eq: "k * 2 ^ j = 2 ^ 53" using b by simp
      have u: "unat (of_nat (2 ^ 52) :: u64) = 2 ^ 52" by (intro unat_of_nat_u64) simp
      have "k * 2 ^ j div 2 = 2 ^ 52" unfolding eq by simp
      then have m: "m = of_nat (2 ^ 52)" "e = e0 + 1" using pair True by simp_all
      have "nat (- 1021 - (e0 + 1)) \<le> 52" using e0 by simp
      then have "(2 :: nat) ^ nat (- 1021 - (e0 + 1)) dvd 2 ^ 52" by (rule le_imp_power_dvd)
      then show ?thesis unfolding enc_ok_def m u using e0 by simp
    next
      case False
      have u: "unat (of_nat (k * 2 ^ j) :: u64) = k * 2 ^ j" using False by (intro unat_of_nat_u64) simp
      have m: "m = of_nat (k * 2 ^ j)" "e = e0" using pair False by simp_all
      show ?thesis unfolding enc_ok_def m u using lo False e0 jj(1) by simp
    qed
  qed
qed

section \<open>The grid of the doubles\<close>

lemma double_grid:
  "\<exists>M E. double_abs w = real M * 2 powr (of_int E) \<and> M < 2 ^ 53 \<and> - 1074 \<le> E"
proof -
  define E f where "E = unat w div 2 ^ 52 mod 2 ^ 11" and "f = unat w mod 2 ^ 52"
  have f: "f < 2 ^ 52" by (simp add: f_def)
  show ?thesis
  proof (cases "E = 0")
    case True
    then have "double_abs w = real f * 2 powr (of_int (- 1074))" unfolding double_abs_def double_mag_def Let_def E_def [symmetric] f_def [symmetric] by simp
    moreover have "f < 2 ^ 53" using f by simp
    ultimately show ?thesis by blast
  next
    case False
    then have "double_abs w = real (2 ^ 52 + f) * 2 powr (of_int (int E - 1075))"
      unfolding double_abs_def double_mag_def Let_def E_def [symmetric] f_def [symmetric] by simp
    moreover have "2 ^ 52 + f < 2 ^ 53" "- 1074 \<le> int E - 1075" using f False by simp_all
    ultimately show ?thesis by blast
  qed
qed

lemma nearest_int: "\<bar>real k - x\<bar> \<le> 1 / 2 \<Longrightarrow> \<bar>real k - x\<bar> \<le> \<bar>real_of_int j - x\<bar>"
proof -
  assume h: "\<bar>real k - x\<bar> \<le> 1 / 2"
  show ?thesis
  proof (cases "j = int k")
    case False
    then have "real_of_int j \<le> real k - 1 \<or> real k + 1 \<le> real_of_int j" by linarith
    with h show ?thesis by linarith
  qed simp
qed

lemma d_units_nearest:
  assumes e: "has_exp n d e0" and d: "0 < d" and u: "u = 2 powr (of_int (e0 - d_prec e0))"
  shows "\<bar>real (d_units JS_RNDN n d e0) * u - real n / real d\<bar> \<le> \<bar>real_of_int j * u - real n / real d\<bar>"
proof -
  let ?k = "real (d_units JS_RNDN n d e0)" and ?v = "real n / real d"
  have u0: "0 < u" by (simp add: u)
  have v: "?v = ?v / u * u" using u0 by simp
  have "\<bar>?k - ?v / u\<bar> * u = \<bar>?k * u - ?v\<bar>" using abs_scale [OF u0, of ?k "?v / u"] v by simp
  also have "\<dots> \<le> 1 / 2 * u" using d_units_error [OF d, of JS_RNDN n e0] by (simp add: u)
  finally have "\<bar>?k - ?v / u\<bar> \<le> 1 / 2" using u0 by (simp only: mult_le_cancel_right_pos)
  from nearest_int [OF this, of j] have "\<bar>?k - ?v / u\<bar> * u \<le> \<bar>real_of_int j - ?v / u\<bar> * u" using u0 by simp
  then show ?thesis using abs_scale [OF u0, of ?k "?v / u"] abs_scale [OF u0, of "real_of_int j" "?v / u"] v by simp
qed

lemma d_units_best:
  assumes e: "has_exp n d e0" and d: "0 < d" and u: "u = 2 powr (of_int (e0 - d_prec e0))"
  shows "\<bar>real (d_units JS_RNDN n d e0) * u - real n / real d\<bar> \<le> \<bar>double_abs w - real n / real d\<bar>"
proof -
  obtain M E where w: "double_abs w = real M * 2 powr (of_int E)" "M < 2 ^ 53" "- 1074 \<le> E" using double_grid by blast
  show ?thesis
  proof (cases "e0 - d_prec e0 \<le> E")
    case True
    have "(2 :: real) powr (of_int E) = 2 powr (of_int (int (nat (E - (e0 - d_prec e0))))) * u"
      unfolding u powr_add [symmetric] using True by simp
    then have "double_abs w = real_of_int (int (M * 2 ^ nat (E - (e0 - d_prec e0)))) * u"
      unfolding w(1) powr_int_of_nat by simp
    then show ?thesis using d_units_nearest [OF e d u] by metis
  next
    case False
    then have p: "d_prec e0 = 53" using w(3) by (auto simp: d_prec_def split: if_splits)
    have pw: "(2 :: real) ^ 53 * 2 powr (of_int (e0 - 54)) = 2 powr (of_int e0 - 1)" "(2 :: real) ^ 52 * u = 2 powr (of_int e0 - 1)"
      unfolding u p powr_int_of_nat [symmetric] powr_add [symmetric] by simp_all
    have "real M * 2 powr (of_int E) \<le> 2 ^ 53 * 2 powr (of_int (e0 - 54))"
    proof (intro mult_mono)
      have "real M \<le> real (2 ^ 53)" using w(2) by (simp only: of_nat_le_iff)
      then show "real M \<le> 2 ^ 53" by simp
      show "2 powr (of_int E) \<le> (2 :: real) powr (of_int (e0 - 54))" using False p by (intro powr_mono) simp_all
    qed simp_all
    then have "double_abs w \<le> 2 powr (of_int e0 - 1)" unfolding w(1) pw(1) .
    moreover have "2 powr (of_int e0 - 1) \<le> real n / real d" using e unfolding has_exp_real [OF d] by simp
    ultimately have "\<bar>real_of_int (2 ^ 52) * u - real n / real d\<bar> \<le> \<bar>double_abs w - real n / real d\<bar>" using pw(2) by simp
    then show ?thesis using d_units_nearest [OF e d u, of "2 ^ 52"] by linarith
  qed
qed

lemma rounds_to_nearest:
  assumes r: "rounds_to n d w" and d: "0 < d" and lim: "real n / real d < (2 ^ 53 - 1 / 2) * 2 powr (of_int (E - 53))" "E \<le> 1024"
  shows "finite_double w" and "\<bar>double_abs w - real n / real d\<bar> \<le> \<bar>double_abs w' - real n / real d\<bar>"
proof -
  obtain e0 where e0: "has_exp n d e0" and w: "w = (case d_pair (d_units JS_RNDN n d e0) e0 of (m, e) \<Rightarrow> atod_encode m e)"
    using r unfolding rounds_to_def by blast
  obtain m e where me: "d_pair (d_units JS_RNDN n d e0) e0 = (m, e)" "w = atod_encode m e"
    using w by (cases "d_pair (d_units JS_RNDN n d e0) e0") auto
  define k where "k = d_units JS_RNDN n d e0"
  have "e \<le> 1024"
  proof (rule ccontr)
    assume "\<not> e \<le> 1024"
    have pE: "(2 ^ 53 - 1 / 2) * 2 powr (of_int (E - 53)) < (2 :: real) powr (of_int E)" using pow2_units [of 0 E] by simp
    have "2 powr (of_int e0 - 1) < (2 :: real) powr (of_int E)" using e0 lim(1) pE unfolding has_exp_real [OF d] by linarith
    then have "e0 \<le> E" by simp
    moreover have ee: "e = e0 \<or> e = e0 + 1 \<and> 2 ^ 53 \<le> k * 2 ^ nat (53 - d_prec e0)"
      using me(1) by (auto simp: d_pair_def Let_def k_def split: if_splits)
    ultimately have E: "e0 = E" "E = 1024" "2 ^ 53 \<le> k" using \<open>\<not> e \<le> 1024\<close> lim(2) by (auto simp: d_prec_def)
    then have p: "d_prec E = 53" and k: "k = d_units JS_RNDN n d E" by (simp_all add: d_prec_def k_def)
    have z: "JS_RNDN \<noteq> JS_RNDZ" by simp
    have "real k * 2 powr (of_int (E - 53)) - real n / real d \<le> 2 powr (of_int (E - 53)) / 2"
      using d_units_error [OF d z, of n E] unfolding p k by linarith
    then have "real k * 2 powr (of_int (E - 53)) < 2 ^ 53 * 2 powr (of_int (E - 53))" using lim(1) unfolding left_diff_distrib by linarith
    then have "real k < 2 ^ 53" by (simp only: mult_less_cancel_right_pos powr_gt_zero)
    then have "real k < real (2 ^ 53)" by simp
    then have "k < 2 ^ 53" by (simp only: of_nat_less_iff)
    with E(3) show False by simp
  qed
  note v = encode_value [OF d_pair_enc_ok [OF e0 d me(1)] this]
  show "finite_double w" unfolding me(2) by (rule v(1))
  have "double_abs w = real k * 2 powr (of_int (e0 - d_prec e0))"
    unfolding me(2) v(2) k_def using d_pair_value(1) [OF me(1)] d_units_bound [OF e0 d] by blast
  then show "\<bar>double_abs w - real n / real d\<bar> \<le> \<bar>double_abs w' - real n / real d\<bar>"
    using d_units_best [OF e0 d refl] by (simp add: k_def)
qed

section \<open>Correct rounding\<close>

lemma text_fraction: "0 < R \<Longrightarrow> \<exists>n d. 0 < d \<and> real n / real d = text_val R A B ex"
proof -
  assume R: "0 < R"
  let ?b = "int (length (num_digits A B) - length A)" and ?B = "if exp_bin ex then 2 else R" and ?D = "digits_val R (num_digits A B)"
  let ?n = "?D * ?B ^ nat (exp_val ex)" and ?d = "R ^ nat ?b * ?B ^ nat (- exp_val ex)"
  have "real R powr (- real (length (num_digits A B) - length A)) = 1 / real R ^ nat ?b"
    using R by (simp add: powr_minus_divide powr_realpow)
  moreover have "(if exp_bin ex then 2 else real R) powr (of_int (exp_val ex)) = real ?B ^ nat (exp_val ex) / real ?B ^ nat (- exp_val ex)"
    using powr_base_int [of ?B "exp_val ex"] R by (cases "exp_bin ex") simp_all
  ultimately have "real ?n / real ?d = text_val R A B ex" by (simp add: text_val_def)
  moreover have "0 < ?d" using R by simp
  ultimately show ?thesis by blast
qed



end
