(* ===== verification/Lre_Code.thy ===== *)
theory Lre_Code
  imports CharRange_Sort CaseConv_Correct Utf8
begin

text \<open>
  The byte code of regular expressions: the opcodes of \<open>src/libregexp-opcode.h\<close> with their
  sizes, the header, and the linear scans of \<open>src/libregexp.c\<close> over byte code:
  \<open>re_need_check_advance\<close>, \<open>re_is_simple_quantifier\<close> and \<open>compute_stack_size\<close>.  A scan that
  meets a byte that is no opcode, or reads past the end of the code, is undefined (\<open>None\<close>).
\<close>

section \<open>Opcodes\<close>

datatype reop =
    REOP_invalid | REOP_char | REOP_char32 | REOP_dot | REOP_any | REOP_line_start | REOP_line_end
  | REOP_goto | REOP_split_goto_first | REOP_split_next_first | REOP_match | REOP_save_start | REOP_save_end
  | REOP_save_reset | REOP_loop | REOP_push_i32 | REOP_drop | REOP_word_boundary | REOP_not_word_boundary
  | REOP_back_reference | REOP_backward_back_reference | REOP_range | REOP_range32 | REOP_lookahead
  | REOP_negative_lookahead | REOP_push_char_pos | REOP_check_advance | REOP_prev | REOP_simple_greedy_quant

definition reop_list :: "reop list" where
  "reop_list =
     [REOP_invalid, REOP_char, REOP_char32, REOP_dot, REOP_any, REOP_line_start, REOP_line_end,
      REOP_goto, REOP_split_goto_first, REOP_split_next_first, REOP_match, REOP_save_start, REOP_save_end,
      REOP_save_reset, REOP_loop, REOP_push_i32, REOP_drop, REOP_word_boundary, REOP_not_word_boundary,
      REOP_back_reference, REOP_backward_back_reference, REOP_range, REOP_range32, REOP_lookahead,
      REOP_negative_lookahead, REOP_push_char_pos, REOP_check_advance, REOP_prev, REOP_simple_greedy_quant]"

text \<open>\<open>REOP_COUNT\<close> is the length of the list.\<close>

definition re_opcode :: "u8 \<Rightarrow> reop ub" where
  "re_opcode b = arr_get reop_list (unat b)"

fun reop_code :: "reop \<Rightarrow> u8" where
  "reop_code REOP_invalid = 0"
| "reop_code REOP_char = 1"
| "reop_code REOP_char32 = 2"
| "reop_code REOP_dot = 3"
| "reop_code REOP_any = 4"
| "reop_code REOP_line_start = 5"
| "reop_code REOP_line_end = 6"
| "reop_code REOP_goto = 7"
| "reop_code REOP_split_goto_first = 8"
| "reop_code REOP_split_next_first = 9"
| "reop_code REOP_match = 10"
| "reop_code REOP_save_start = 11"
| "reop_code REOP_save_end = 12"
| "reop_code REOP_save_reset = 13"
| "reop_code REOP_loop = 14"
| "reop_code REOP_push_i32 = 15"
| "reop_code REOP_drop = 16"
| "reop_code REOP_word_boundary = 17"
| "reop_code REOP_not_word_boundary = 18"
| "reop_code REOP_back_reference = 19"
| "reop_code REOP_backward_back_reference = 20"
| "reop_code REOP_range = 21"
| "reop_code REOP_range32 = 22"
| "reop_code REOP_lookahead = 23"
| "reop_code REOP_negative_lookahead = 24"
| "reop_code REOP_push_char_pos = 25"
| "reop_code REOP_check_advance = 26"
| "reop_code REOP_prev = 27"
| "reop_code REOP_simple_greedy_quant = 28"

lemma re_opcode_code [simp]: "re_opcode (reop_code op) = Some op"
  by (cases op) (simp_all add: re_opcode_def reop_list_def arr_get_def)

text \<open>\<open>reopcode_info\<close>: the size of the instruction without the ranges that follow it.\<close>

fun reop_size :: "reop \<Rightarrow> nat" where
  "reop_size REOP_char = 3"
| "reop_size REOP_char32 = 5"
| "reop_size REOP_goto = 5"
| "reop_size REOP_split_goto_first = 5"
| "reop_size REOP_split_next_first = 5"
| "reop_size REOP_save_start = 2"
| "reop_size REOP_save_end = 2"
| "reop_size REOP_save_reset = 3"
| "reop_size REOP_loop = 5"
| "reop_size REOP_push_i32 = 5"
| "reop_size REOP_back_reference = 2"
| "reop_size REOP_backward_back_reference = 2"
| "reop_size REOP_range = 3"
| "reop_size REOP_range32 = 3"
| "reop_size REOP_lookahead = 5"
| "reop_size REOP_negative_lookahead = 5"
| "reop_size REOP_simple_greedy_quant = 17"
| "reop_size _ = 1"

lemma reop_size_pos [simp]: "0 < reop_size op"
  by (cases op) simp_all

text \<open>The length of the instruction at a position, with its ranges.\<close>

definition re_instr :: "u8 list \<Rightarrow> nat \<Rightarrow> (reop \<times> nat) ub" where
  "re_instr bc pos =
     do {
       b \<leftarrow> arr_get bc pos;
       op \<leftarrow> re_opcode b;
       extra \<leftarrow>
         (case op of
            REOP_range \<Rightarrow> map_option (\<lambda>val. 4 * unat val) (get_u16 bc (pos + 1))
          | REOP_range32 \<Rightarrow> map_option (\<lambda>val. 8 * unat val) (get_u16 bc (pos + 1))
          | _ \<Rightarrow> Some 0);
       Some (op, reop_size op + extra)
     }"

lemma re_instr_pos: "re_instr bc pos = Some (op, len) \<Longrightarrow> 0 < len \<and> pos < length bc"
  by (auto simp: re_instr_def bind_eq_Some_conv arr_get_def split: if_splits)

section \<open>Linear scans\<close>

text \<open>\<open>ret\<close> is true while no instruction has been seen that advances.\<close>

function re_need_check_advance_loop :: "u8 list \<Rightarrow> nat \<Rightarrow> bool \<Rightarrow> bool ub" where
  "re_need_check_advance_loop bc pos ret =
     (if pos < length bc then
        case re_instr bc pos of
          None \<Rightarrow> None
        | Some (op, len) \<Rightarrow>
            if op \<in> {REOP_range, REOP_range32, REOP_char, REOP_char32, REOP_dot, REOP_any} then
              re_need_check_advance_loop bc (pos + len) False
            else if op \<in> {REOP_line_start, REOP_line_end, REOP_push_i32, REOP_push_char_pos, REOP_drop, REOP_word_boundary,
                REOP_not_word_boundary, REOP_prev, REOP_save_start, REOP_save_end, REOP_save_reset, REOP_back_reference,
                REOP_backward_back_reference} then
              re_need_check_advance_loop bc (pos + len) ret
            else Some True
      else Some ret)"
  by pat_completeness auto
termination
  by (relation "measure (\<lambda>(bc, pos, ret). length bc - pos)") (auto dest!: re_instr_pos)

declare re_need_check_advance_loop.simps [simp del]

definition re_need_check_advance :: "u8 list \<Rightarrow> bool ub" where
  "re_need_check_advance bc = re_need_check_advance_loop bc 0 True"

text \<open>The number of characters of a simple atom, \<open>- 1\<close> when the atom is not simple.\<close>

function re_is_simple_quantifier_loop :: "u8 list \<Rightarrow> nat \<Rightarrow> int \<Rightarrow> int ub" where
  "re_is_simple_quantifier_loop bc pos n =
     (if pos < length bc then
        case re_instr bc pos of
          None \<Rightarrow> None
        | Some (op, len) \<Rightarrow>
            if op \<in> {REOP_range, REOP_range32, REOP_char, REOP_char32, REOP_dot, REOP_any} then
              re_is_simple_quantifier_loop bc (pos + len) (n + 1)
            else if op \<in> {REOP_line_start, REOP_line_end, REOP_word_boundary, REOP_not_word_boundary} then
              re_is_simple_quantifier_loop bc (pos + len) n
            else Some (- 1)
      else Some n)"
  by pat_completeness auto
termination
  by (relation "measure (\<lambda>(bc, pos, n). length bc - pos)") (auto dest!: re_instr_pos)

declare re_is_simple_quantifier_loop.simps [simp del]

definition re_is_simple_quantifier :: "u8 list \<Rightarrow> int ub" where
  "re_is_simple_quantifier bc = re_is_simple_quantifier_loop bc 0 0"

text \<open>The header.\<close>

abbreviation (input) "RE_HEADER_FLAGS \<equiv> 0 :: nat"
abbreviation (input) "RE_HEADER_CAPTURE_COUNT \<equiv> 1 :: nat"
abbreviation (input) "RE_HEADER_STACK_SIZE \<equiv> 2 :: nat"
abbreviation (input) "RE_HEADER_BYTECODE_LEN \<equiv> 3 :: nat"
abbreviation (input) "RE_HEADER_LEN \<equiv> 7 :: nat"
abbreviation (input) "STACK_SIZE_MAX \<equiv> 255 :: int"
abbreviation (input) "CAPTURE_COUNT_MAX \<equiv> 255 :: int"

text \<open>The stack depth along the code; a failing assertion is \<open>None\<close>.  The code is passed without its header.\<close>

function compute_stack_size_loop :: "u8 list \<Rightarrow> nat \<Rightarrow> int \<Rightarrow> int \<Rightarrow> int ub" where
  "compute_stack_size_loop bc pos stack_size stack_size_max =
     (if pos < length bc then
        case re_instr bc pos of
          None \<Rightarrow> None
        | Some (op, len) \<Rightarrow>
            if length bc < pos + reop_size op then None
            else if op = REOP_push_i32 \<or> op = REOP_push_char_pos then
              let stack_size = stack_size + 1
              in if stack_size_max < stack_size then
                   if STACK_SIZE_MAX < stack_size then Some (- 1)
                   else compute_stack_size_loop bc (pos + len) stack_size stack_size
                 else compute_stack_size_loop bc (pos + len) stack_size stack_size_max
            else if op = REOP_drop \<or> op = REOP_check_advance then
              if 0 < stack_size then compute_stack_size_loop bc (pos + len) (stack_size - 1) stack_size_max else None
            else compute_stack_size_loop bc (pos + len) stack_size stack_size_max
      else Some stack_size_max)"
  by pat_completeness auto
termination
  by (relation "measure (\<lambda>(bc, pos, ss, sm). length bc - pos)") (auto dest!: re_instr_pos)

declare compute_stack_size_loop.simps [simp del]

definition compute_stack_size :: "u8 list \<Rightarrow> int ub" where
  "compute_stack_size buf = (if RE_HEADER_LEN \<le> length buf then compute_stack_size_loop (drop RE_HEADER_LEN buf) 0 0 0 else None)"

section \<open>Header accessors\<close>

definition lre_get_capture_count :: "u8 list \<Rightarrow> nat ub" where
  "lre_get_capture_count bc_buf = map_option unat (arr_get bc_buf RE_HEADER_CAPTURE_COUNT)"

definition lre_get_flags :: "u8 list \<Rightarrow> u32 ub" where
  "lre_get_flags bc_buf = map_option ucast (arr_get bc_buf RE_HEADER_FLAGS)"

abbreviation (input) "LRE_FLAG_GLOBAL \<equiv> 1 :: u32"
abbreviation (input) "LRE_FLAG_IGNORECASE \<equiv> 2 :: u32"
abbreviation (input) "LRE_FLAG_MULTILINE \<equiv> 4 :: u32"
abbreviation (input) "LRE_FLAG_DOTALL \<equiv> 8 :: u32"
abbreviation (input) "LRE_FLAG_UNICODE \<equiv> 16 :: u32"
abbreviation (input) "LRE_FLAG_STICKY \<equiv> 32 :: u32"
abbreviation (input) "LRE_FLAG_NAMED_GROUPS \<equiv> 128 :: u32"

text \<open>The position of the group names, if there are any.\<close>

definition lre_get_groupnames :: "u8 list \<Rightarrow> nat option ub" where
  "lre_get_groupnames bc_buf =
     do {
       flags \<leftarrow> lre_get_flags bc_buf;
       if flags AND LRE_FLAG_NAMED_GROUPS = 0 then Some None
       else do { len \<leftarrow> get_u32 bc_buf RE_HEADER_BYTECODE_LEN; Some (Some (RE_HEADER_LEN + unat len)) }
     }"

end
