(* ===== verification/Lre_Exec.thy ===== *)
theory Lre_Exec
  imports Lre_Code
begin

text \<open>
  The matcher of \<open>src/libregexp.c\<close>: \<open>lre_exec_backtrack\<close> with its explicit stack of
  backtracking states, and \<open>lre_exec\<close>.

  The input buffer is a list of code units (bytes for \<open>cbuf_type\<close> 0, 16-bit units otherwise) and a
  character pointer is an index of it; the byte code is the list \<open>bc_buf\<close> and \<open>pc\<close> an index.
  The locals \<open>pc\<close>, \<open>cptr\<close> and \<open>stack_len\<close> and everything that \<open>REExecContext\<close>, \<open>capture\<close> and \<open>stack\<close> point to
  are the fields of one state record.  Every read and write outside of an array, every
  pointer that leaves its array, a failing assertion and \<open>abort ()\<close> are the value \<open>None\<close>.
  The two functions the matcher calls in its host are parameters: \<open>lre_check_timeout\<close>
  by the number of the call, and whether \<open>lre_realloc\<close> succeeds for a size.
\<close>

section \<open>Data\<close>

datatype REExecStateEnum =
  RE_EXEC_STATE_SPLIT | RE_EXEC_STATE_LOOKAHEAD | RE_EXEC_STATE_NEGATIVE_LOOKAHEAD | RE_EXEC_STATE_GREEDY_QUANT

text \<open>\<open>buf\<close> holds the captures and then the stack.\<close>

record REExecState =
  rs_type :: REExecStateEnum
  rs_stack_len :: nat
  rs_count :: nat
  rs_cptr :: nat
  rs_pc :: nat
  rs_capture :: "nat option list"
  rs_stack :: "u64 list"

text \<open>
  The constant part of \<open>REExecContext\<close>, with the byte code and the two host functions;
  \<open>cbuf_addr\<close> is the address of the input buffer.
\<close>

record re_ctx =
  bc_buf :: "u8 list"
  cbuf :: "u16 list"
  cbuf_type :: nat
  cbuf_addr :: u64
  capture_count :: nat
  stack_size_max :: nat
  multi_line :: bool
  ignore_case :: bool
  is_unicode :: bool
  state_size :: nat
  lre_check_timeout :: "nat \<Rightarrow> bool"
  lre_realloc_ok :: "nat \<Rightarrow> bool"

text \<open>
  The changing part.  The array of states is the list of its used entries, the last one
  first, and the number of bytes allocated; \<open>polls\<close> counts the calls of \<open>lre_check_timeout\<close>.
\<close>

record re_st =
  capture :: "nat option list"
  stack :: "u64 list"
  stack_len :: int
  pc :: nat
  cptr :: nat
  state_stack :: "REExecState list"
  state_stack_size :: nat
  state_stack_bytes :: nat
  interrupt_counter :: int
  polls :: nat

abbreviation (input) "INTERRUPT_COUNTER_INIT \<equiv> 10000 :: int"
abbreviation (input) "LRE_RET_MEMORY_ERROR \<equiv> - 1 :: int"
abbreviation (input) "LRE_RET_TIMEOUT \<equiv> - 2 :: int"

text \<open>How the execution of one opcode ends: the next opcode, a jump to a label, or a return.\<close>

datatype re_kind = K_next | K_match | K_no_match | K_ret int

type_synonym re_out = "(re_kind \<times> re_st) ub"

section \<open>Characters\<close>

definition is_line_terminator :: "u32 \<Rightarrow> bool" where
  "is_line_terminator c \<longleftrightarrow> c = 0x0a \<or> c = 0x0d \<or> c = 0x2028 \<or> c = 0x2029"

definition is_word_char :: "u32 \<Rightarrow> bool" where
  "is_word_char c \<longleftrightarrow> (0x30 \<le> c \<and> c \<le> 0x39) \<or> (0x61 \<le> c \<and> c \<le> 0x7a) \<or> (0x41 \<le> c \<and> c \<le> 0x5a) \<or> c = 0x5f"

text \<open>The character at \<open>p\<close> before \<open>pend\<close> and the pointer behind it.\<close>

definition GET_CHAR :: "re_ctx \<Rightarrow> nat \<Rightarrow> nat \<Rightarrow> (u32 \<times> nat) ub" where
  "GET_CHAR s p pend =
     do {
       u \<leftarrow> arr_get (cbuf s) p;
       let c = (ucast u :: u32);
       if cbuf_type s = 2 \<and> is_hi_surrogate c \<and> p + 1 < pend then
         do {
           u2 \<leftarrow> arr_get (cbuf s) (p + 1);
           if is_lo_surrogate (ucast u2) then Some (from_surrogate c (ucast u2), p + 2) else Some (c, p + 1)
         }
       else Some (c, p + 1)
     }"

definition PEEK_CHAR :: "re_ctx \<Rightarrow> nat \<Rightarrow> nat \<Rightarrow> u32 ub" where
  "PEEK_CHAR s p pend = map_option fst (GET_CHAR s p pend)"

definition GET_PREV_CHAR :: "re_ctx \<Rightarrow> nat \<Rightarrow> nat \<Rightarrow> (u32 \<times> nat) ub" where
  "GET_PREV_CHAR s p pstart =
     (if p = 0 then None
      else do {
        u \<leftarrow> arr_get (cbuf s) (p - 1);
        let c = (ucast u :: u32);
        if cbuf_type s = 2 \<and> is_lo_surrogate c \<and> pstart < p - 1 then
          do {
            u2 \<leftarrow> arr_get (cbuf s) (p - 2);
            if is_hi_surrogate (ucast u2) then Some (from_surrogate (ucast u2) c, p - 2) else Some (c, p - 1)
          }
        else Some (c, p - 1)
      })"

definition PEEK_PREV_CHAR :: "re_ctx \<Rightarrow> nat \<Rightarrow> nat \<Rightarrow> u32 ub" where
  "PEEK_PREV_CHAR s p pstart = map_option fst (GET_PREV_CHAR s p pstart)"

text \<open>For 8-bit buffers \<open>PREV_CHAR\<close> reads nothing, but it must not leave the buffer either.\<close>

definition PREV_CHAR :: "re_ctx \<Rightarrow> nat \<Rightarrow> nat \<Rightarrow> nat ub" where
  "PREV_CHAR s p pstart = map_option snd (GET_PREV_CHAR s p pstart)"

text \<open>\<open>if (s->ignore_case) c = lre_canonicalize (c, s->is_unicode)\<close>\<close>

definition re_canon :: "re_ctx \<Rightarrow> u32 \<Rightarrow> u32 ub" where
  "re_canon s c = (if ignore_case s then map_option word_of_int (lre_canonicalize (uint c) (is_unicode s)) else Some c)"

section \<open>States and timeouts\<close>

text \<open>The two parts of \<open>push_state\<close>: the reallocation of the array and the new entry.\<close>

definition grow_states :: "re_ctx \<Rightarrow> re_st \<Rightarrow> int \<times> re_st" where
  "grow_states s st =
     (if state_stack_size st < length (state_stack st) + 1 then
        let new_size = size_wrap (state_stack_size st * 3) div 2;
            new_size = (if new_size < 8 then 8 else new_size);
            new_bytes = size_wrap (new_size * state_size s)
        in if lre_realloc_ok s new_bytes
           then (0, st\<lparr>state_stack_size := new_size, state_stack_bytes := new_bytes\<rparr>)
           else (- 1, st)
      else (0, st))"

definition store_state :: "re_ctx \<Rightarrow> nat \<Rightarrow> REExecStateEnum \<Rightarrow> nat \<Rightarrow> re_st \<Rightarrow> re_st ub" where
  "store_state s pc1 type n st =
     (if (length (state_stack st) + 1) * state_size s \<le> state_stack_bytes st
         \<and> 0 \<le> stack_len st \<and> nat (stack_len st) \<le> stack_size_max s
      then do {
        buf \<leftarrow> arr_slice (capture st) 0 (2 * capture_count s);
        stack_buf \<leftarrow> arr_slice (stack st) 0 (nat (stack_len st));
        Some (st\<lparr>state_stack :=
          \<lparr>rs_type = type, rs_stack_len = nat (stack_len st) mod 256, rs_count = n, rs_cptr = cptr st, rs_pc = pc1,
           rs_capture = buf, rs_stack = stack_buf\<rparr> # state_stack st\<rparr>)
      }
      else None)"

definition push_state :: "re_ctx \<Rightarrow> nat \<Rightarrow> REExecStateEnum \<Rightarrow> nat \<Rightarrow> re_st \<Rightarrow> (int \<times> re_st) ub" where
  "push_state s pc1 type n st =
     (let (r, st) = grow_states s st
      in if r < 0 then Some (- 1, st) else map_option (Pair 0) (store_state s pc1 type n st))"

definition lre_poll_timeout :: "re_ctx \<Rightarrow> re_st \<Rightarrow> int \<times> re_st" where
  "lre_poll_timeout s st =
     (if interrupt_counter st - 1 \<le> 0 then
        let st' = st\<lparr>interrupt_counter := INTERRUPT_COUNTER_INIT, polls := polls st + 1\<rparr>
        in if lre_check_timeout s (polls st) then (LRE_RET_TIMEOUT, st') else (0, st')
      else (0, st\<lparr>interrupt_counter := interrupt_counter st - 1\<rparr>))"

section \<open>Backtracking: the label \<open>recurse\<close>\<close>

text \<open>\<open>stack\<close> and \<open>stack_len\<close> from the state.\<close>

definition restore_stack :: "REExecState \<Rightarrow> re_st \<Rightarrow> re_st ub" where
  "restore_stack rs st =
     do {
       buf \<leftarrow> arr_slice (rs_stack rs) 0 (rs_stack_len rs);
       stk \<leftarrow> arr_write (stack st) 0 buf;
       Some (st\<lparr>stack := stk, stack_len := int (rs_stack_len rs)\<rparr>)
     }"

definition restore_capture :: "re_ctx \<Rightarrow> REExecState \<Rightarrow> re_st \<Rightarrow> re_st ub" where
  "restore_capture s rs st =
     do {
       buf \<leftarrow> arr_slice (rs_capture rs) 0 (2 * capture_count s);
       cap \<leftarrow> arr_write (capture st) 0 buf;
       Some (st\<lparr>capture := cap\<rparr>)
     }"

definition pop_state1 :: "REExecState \<Rightarrow> REExecState list \<Rightarrow> re_st \<Rightarrow> re_out" where
  "pop_state1 rs rest st =
     map_option (\<lambda>st. (K_next, st\<lparr>pc := rs_pc rs, cptr := rs_cptr rs, state_stack := rest\<rparr>)) (restore_stack rs st)"

definition pop_state :: "re_ctx \<Rightarrow> REExecState \<Rightarrow> REExecState list \<Rightarrow> re_st \<Rightarrow> re_out" where
  "pop_state s rs rest st = Option.bind (restore_capture s rs st) (pop_state1 rs rest)"

primrec prev_chars :: "re_ctx \<Rightarrow> nat \<Rightarrow> nat \<Rightarrow> nat ub" where
  "prev_chars s 0 p = Some p"
| "prev_chars s (Suc n) p = Option.bind (PREV_CHAR s p 0) (prev_chars s n)"

text \<open>\<open>pc + (int) val\<close>, a pointer into the byte code.\<close>

definition re_jump :: "re_ctx \<Rightarrow> nat \<Rightarrow> u32 \<Rightarrow> nat ub" where
  "re_jump s p val =
     (let t = int p + sint val in if 0 \<le> t \<and> nat t \<le> length (bc_buf s) then Some (nat t) else None)"

definition greedy_back :: "re_ctx \<Rightarrow> REExecState \<Rightarrow> REExecState list \<Rightarrow> re_st \<Rightarrow> re_out" where
  "greedy_back s rs rest st =
     do {
       st \<leftarrow> restore_capture s rs st;
       st \<leftarrow> restore_stack rs st;
       char_count \<leftarrow> get_u32 (bc_buf s) (rs_pc rs + 12);
       p \<leftarrow> prev_chars s (unat char_count) (rs_cptr rs);
       next_pos \<leftarrow> get_u32 (bc_buf s) (rs_pc rs);
       pc1 \<leftarrow> re_jump s (rs_pc rs + 16) next_pos;
       let rs = rs\<lparr>rs_cptr := p, rs_count := rs_count rs - 1\<rparr>;
       Some (K_next, st\<lparr>pc := pc1, cptr := p, state_stack := (if rs_count rs = 0 then rest else rs # rest)\<rparr>)
     }"

text \<open>The loop over the states; \<open>frames\<close> is \<open>state_stack\<close>.\<close>

fun recurse :: "re_ctx \<Rightarrow> bool \<Rightarrow> REExecState list \<Rightarrow> re_st \<Rightarrow> re_out" where
  "recurse s ret frames st =
     (let (t, st) = lre_poll_timeout s st
      in if t \<noteq> 0 then Some (K_ret LRE_RET_TIMEOUT, st)
         else
           case frames of
             [] \<Rightarrow> Some (K_ret (if ret then 1 else 0), st\<lparr>state_stack := []\<rparr>)
           | rs # rest \<Rightarrow>
             (case rs_type rs of
                RE_EXEC_STATE_SPLIT \<Rightarrow> if \<not> ret then pop_state s rs rest st else recurse s ret rest st
              | RE_EXEC_STATE_GREEDY_QUANT \<Rightarrow> if \<not> ret then greedy_back s rs rest st else recurse s ret rest st
              | RE_EXEC_STATE_LOOKAHEAD \<Rightarrow> if ret then pop_state1 rs rest st else recurse s False rest st
              | RE_EXEC_STATE_NEGATIVE_LOOKAHEAD \<Rightarrow> if \<not> ret then pop_state s rs rest st else recurse s False rest st))"

declare recurse.simps [simp del]

section \<open>Opcodes\<close>

text \<open>In every handler \<open>pc\<close> points behind the opcode.\<close>

definition test_char :: "re_ctx \<Rightarrow> u32 \<Rightarrow> re_st \<Rightarrow> re_out" where
  "test_char s val st =
     (if length (cbuf s) \<le> cptr st then Some (K_no_match, st)
      else do {
        (c, p) \<leftarrow> GET_CHAR s (cptr st) (length (cbuf s));
        c \<leftarrow> re_canon s c;
        Some (if val \<noteq> c then K_no_match else K_next, st\<lparr>cptr := p\<rparr>)
      })"

definition op_char32 :: "re_ctx \<Rightarrow> re_st \<Rightarrow> re_out" where
  "op_char32 s st = do { val \<leftarrow> get_u32 (bc_buf s) (pc st); test_char s val (st\<lparr>pc := pc st + 4\<rparr>) }"

definition op_char :: "re_ctx \<Rightarrow> re_st \<Rightarrow> re_out" where
  "op_char s st = do { val \<leftarrow> get_u16 (bc_buf s) (pc st); test_char s val (st\<lparr>pc := pc st + 2\<rparr>) }"

text \<open>\<open>push_state\<close> followed by \<open>if (ret < 0) return LRE_RET_MEMORY_ERROR\<close>\<close>

definition push_or_fail :: "re_ctx \<Rightarrow> nat \<Rightarrow> REExecStateEnum \<Rightarrow> nat \<Rightarrow> re_st \<Rightarrow> re_out" where
  "push_or_fail s pc1 type n st =
     map_option (\<lambda>(r, st). (if r < 0 then K_ret LRE_RET_MEMORY_ERROR else K_next, st)) (push_state s pc1 type n st)"

definition op_split :: "re_ctx \<Rightarrow> bool \<Rightarrow> re_st \<Rightarrow> re_out" where
  "op_split s next_first st =
     do {
       val \<leftarrow> get_u32 (bc_buf s) (pc st);
       let p = pc st + 4;
       t \<leftarrow> re_jump s p val;
       if next_first then push_or_fail s t RE_EXEC_STATE_SPLIT 0 (st\<lparr>pc := p\<rparr>)
       else push_or_fail s p RE_EXEC_STATE_SPLIT 0 (st\<lparr>pc := t\<rparr>)
     }"

definition op_lookahead :: "re_ctx \<Rightarrow> REExecStateEnum \<Rightarrow> re_st \<Rightarrow> re_out" where
  "op_lookahead s type st =
     do {
       val \<leftarrow> get_u32 (bc_buf s) (pc st);
       let p = pc st + 4;
       t \<leftarrow> re_jump s p val;
       push_or_fail s t type 0 (st\<lparr>pc := p\<rparr>)
     }"

text \<open>\<open>if (lre_poll_timeout (s)) return LRE_RET_TIMEOUT\<close>\<close>

definition poll :: "re_ctx \<Rightarrow> re_st \<Rightarrow> re_kind \<times> re_st" where
  "poll s st = (let (t, st) = lre_poll_timeout s st in (if t \<noteq> 0 then K_ret LRE_RET_TIMEOUT else K_next, st))"

definition op_goto :: "re_ctx \<Rightarrow> re_st \<Rightarrow> re_out" where
  "op_goto s st =
     do {
       val \<leftarrow> get_u32 (bc_buf s) (pc st);
       t \<leftarrow> re_jump s (pc st + 4) val;
       Some (poll s (st\<lparr>pc := t\<rparr>))
     }"

definition op_line_start :: "re_ctx \<Rightarrow> re_st \<Rightarrow> re_out" where
  "op_line_start s st =
     (if cptr st = 0 then Some (K_next, st)
      else if \<not> multi_line s then Some (K_no_match, st)
      else do {
        c \<leftarrow> PEEK_PREV_CHAR s (cptr st) 0;
        Some (if is_line_terminator c then K_next else K_no_match, st)
      })"

definition op_line_end :: "re_ctx \<Rightarrow> re_st \<Rightarrow> re_out" where
  "op_line_end s st =
     (if cptr st = length (cbuf s) then Some (K_next, st)
      else if \<not> multi_line s then Some (K_no_match, st)
      else do {
        c \<leftarrow> PEEK_CHAR s (cptr st) (length (cbuf s));
        Some (if is_line_terminator c then K_next else K_no_match, st)
      })"

definition op_dot :: "re_ctx \<Rightarrow> re_st \<Rightarrow> re_out" where
  "op_dot s st =
     (if cptr st = length (cbuf s) then Some (K_no_match, st)
      else do {
        (c, p) \<leftarrow> GET_CHAR s (cptr st) (length (cbuf s));
        Some (if is_line_terminator c then K_no_match else K_next, st\<lparr>cptr := p\<rparr>)
      })"

definition op_any :: "re_ctx \<Rightarrow> re_st \<Rightarrow> re_out" where
  "op_any s st =
     (if cptr st = length (cbuf s) then Some (K_no_match, st)
      else do {
        (c, p) \<leftarrow> GET_CHAR s (cptr st) (length (cbuf s));
        Some (K_next, st\<lparr>cptr := p\<rparr>)
      })"

text \<open>\<open>off\<close> is \<open>opcode - REOP_save_start\<close>.\<close>

definition op_save :: "re_ctx \<Rightarrow> nat \<Rightarrow> re_st \<Rightarrow> re_out" where
  "op_save s off st =
     do {
       val \<leftarrow> arr_get (bc_buf s) (pc st);
       if unat val < capture_count s then
         do {
           cap \<leftarrow> arr_set (capture st) (2 * unat val + off) (Some (cptr st));
           Some (K_next, st\<lparr>pc := pc st + 1, capture := cap\<rparr>)
         }
       else None
     }"

function reset_captures :: "nat option list \<Rightarrow> nat \<Rightarrow> nat \<Rightarrow> nat option list ub" where
  "reset_captures cap val val2 =
     (if val \<le> val2 then
        do {
          cap \<leftarrow> arr_set cap (2 * val) None;
          cap \<leftarrow> arr_set cap (2 * val + 1) None;
          reset_captures cap (val + 1) val2
        }
      else Some cap)"
  by pat_completeness auto
termination
  by (relation "measure (\<lambda>(cap, val, val2). Suc val2 - val)") auto

declare reset_captures.simps [simp del]

definition op_save_reset :: "re_ctx \<Rightarrow> re_st \<Rightarrow> re_out" where
  "op_save_reset s st =
     do {
       val \<leftarrow> arr_get (bc_buf s) (pc st);
       val2 \<leftarrow> arr_get (bc_buf s) (pc st + 1);
       if unat val2 < capture_count s then
         do {
           cap \<leftarrow> reset_captures (capture st) (unat val) (unat val2);
           Some (K_next, st\<lparr>pc := pc st + 2, capture := cap\<rparr>)
         }
       else None
     }"

text \<open>Accesses of the stack by an \<open>int\<close> index.\<close>

definition stack_get :: "re_st \<Rightarrow> int \<Rightarrow> u64 ub" where
  "stack_get st i = (if 0 \<le> i then arr_get (stack st) (nat i) else None)"

definition stack_set :: "re_st \<Rightarrow> int \<Rightarrow> u64 \<Rightarrow> re_st ub" where
  "stack_set st i v = (if 0 \<le> i then map_option (\<lambda>stk. st\<lparr>stack := stk\<rparr>) (arr_set (stack st) (nat i) v) else None)"

definition op_push_i32 :: "re_ctx \<Rightarrow> re_st \<Rightarrow> re_out" where
  "op_push_i32 s st =
     do {
       val \<leftarrow> get_u32 (bc_buf s) (pc st);
       st' \<leftarrow> stack_set st (stack_len st) (ucast val);
       Some (K_next, st'\<lparr>pc := pc st + 4, stack_len := stack_len st + 1\<rparr>)
     }"

definition op_drop :: "re_st \<Rightarrow> re_out" where
  "op_drop st = Some (K_next, st\<lparr>stack_len := stack_len st - 1\<rparr>)"

definition op_loop :: "re_ctx \<Rightarrow> re_st \<Rightarrow> re_out" where
  "op_loop s st =
     do {
       val \<leftarrow> get_u32 (bc_buf s) (pc st);
       let p = pc st + 4;
       v \<leftarrow> stack_get st (stack_len st - 1);
       st' \<leftarrow> stack_set st (stack_len st - 1) (v - 1);
       if v - 1 \<noteq> 0 then
         do {
           t \<leftarrow> re_jump s p val;
           Some (poll s (st'\<lparr>pc := t\<rparr>))
         }
       else Some (K_next, st'\<lparr>pc := p\<rparr>)
     }"

text \<open>The address of a position of the input.\<close>

definition char_addr :: "re_ctx \<Rightarrow> nat \<Rightarrow> u64" where
  "char_addr s p = cbuf_addr s + of_nat (if cbuf_type s = 0 then p else 2 * p)"

definition op_push_char_pos :: "re_ctx \<Rightarrow> re_st \<Rightarrow> re_out" where
  "op_push_char_pos s st =
     do {
       st' \<leftarrow> stack_set st (stack_len st) (char_addr s (cptr st));
       Some (K_next, st'\<lparr>stack_len := stack_len st + 1\<rparr>)
     }"

definition op_check_advance :: "re_ctx \<Rightarrow> re_st \<Rightarrow> re_out" where
  "op_check_advance s st =
     do {
       v \<leftarrow> stack_get st (stack_len st - 1);
       Some (if v = char_addr s (cptr st) then K_no_match else K_next, st\<lparr>stack_len := stack_len st - 1\<rparr>)
     }"

text \<open>\<open>v1 ^ v2 ^ (REOP_not_word_boundary - opcode)\<close>: \<open>is_not\<close> holds for \<open>REOP_not_word_boundary\<close>.\<close>

definition op_word_boundary :: "re_ctx \<Rightarrow> bool \<Rightarrow> re_st \<Rightarrow> re_out" where
  "op_word_boundary s is_not st =
     do {
       v1 \<leftarrow> (if cptr st = 0 then Some False else map_option is_word_char (PEEK_PREV_CHAR s (cptr st) 0));
       v2 \<leftarrow> (if length (cbuf s) \<le> cptr st then Some False
             else map_option is_word_char (PEEK_CHAR s (cptr st) (length (cbuf s))));
       Some (if (v1 \<noteq> v2) \<noteq> (\<not> is_not) then K_no_match else K_next, st)
     }"

text \<open>The comparison of a back reference, forwards and backwards; \<open>Some None\<close> is \<open>goto no_match\<close>.\<close>

lemma GET_CHAR_advances: "GET_CHAR s p pend = Some (c, p') \<Longrightarrow> p < p' \<and> p < length (cbuf s)"
  by (auto simp: GET_CHAR_def bind_eq_Some_conv arr_get_def Let_def split: if_splits)

lemma GET_PREV_CHAR_recedes: "GET_PREV_CHAR s p pstart = Some (c, p') \<Longrightarrow> p' < p"
  by (auto simp: GET_PREV_CHAR_def bind_eq_Some_conv arr_get_def Let_def split: if_splits)

definition canon_eq :: "re_ctx \<Rightarrow> u32 \<Rightarrow> u32 \<Rightarrow> bool ub" where
  "canon_eq s c1 c2 = do { c1 \<leftarrow> re_canon s c1; c2 \<leftarrow> re_canon s c2; Some (c1 = c2) }"

function back_ref_loop :: "re_ctx \<Rightarrow> nat \<Rightarrow> nat \<Rightarrow> nat \<Rightarrow> nat option ub" where
  "back_ref_loop s cptr1 cptr1_end p =
     (if cptr1 < cptr1_end then
        if length (cbuf s) \<le> p then Some None
        else
          case GET_CHAR s cptr1 cptr1_end of
            None \<Rightarrow> None
          | Some (c1, cptr1') \<Rightarrow>
            (case GET_CHAR s p (length (cbuf s)) of
               None \<Rightarrow> None
             | Some (c2, p') \<Rightarrow>
               (case canon_eq s c1 c2 of
                  None \<Rightarrow> None
                | Some e \<Rightarrow> if e then back_ref_loop s cptr1' cptr1_end p' else Some None))
      else Some (Some p))"
  by pat_completeness auto
termination
  by (relation "measure (\<lambda>(s, q, q_end, p). q_end - q)") (auto dest!: GET_CHAR_advances)

declare back_ref_loop.simps [simp del]

function backward_back_ref_loop :: "re_ctx \<Rightarrow> nat \<Rightarrow> nat \<Rightarrow> nat \<Rightarrow> nat option ub" where
  "backward_back_ref_loop s cptr1_start cptr1 p =
     (if cptr1_start < cptr1 then
        if p = 0 then Some None
        else
          case GET_PREV_CHAR s cptr1 cptr1_start of
            None \<Rightarrow> None
          | Some (c1, cptr1') \<Rightarrow>
            (case GET_PREV_CHAR s p 0 of
               None \<Rightarrow> None
             | Some (c2, p') \<Rightarrow>
               (case canon_eq s c1 c2 of
                  None \<Rightarrow> None
                | Some e \<Rightarrow> if e then backward_back_ref_loop s cptr1_start cptr1' p' else Some None))
      else Some (Some p))"
  by pat_completeness auto
termination
  by (relation "measure (\<lambda>(s, q0, q, p). q)") (auto dest!: GET_PREV_CHAR_recedes)

declare backward_back_ref_loop.simps [simp del]

definition op_back_reference :: "re_ctx \<Rightarrow> bool \<Rightarrow> re_st \<Rightarrow> re_out" where
  "op_back_reference s backward st =
     do {
       val \<leftarrow> arr_get (bc_buf s) (pc st);
       let st = st\<lparr>pc := pc st + 1\<rparr>;
       if capture_count s \<le> unat val then Some (K_no_match, st)
       else do {
         cptr1_start \<leftarrow> arr_get (capture st) (2 * unat val);
         cptr1_end \<leftarrow> arr_get (capture st) (2 * unat val + 1);
         case (cptr1_start, cptr1_end) of
           (Some q1, Some q2) \<Rightarrow>
             do {
               r \<leftarrow> (if backward then backward_back_ref_loop s q1 q2 (cptr st) else back_ref_loop s q1 q2 (cptr st));
               Some (case r of None \<Rightarrow> (K_no_match, st) | Some p \<Rightarrow> (K_next, st\<lparr>cptr := p\<rparr>))
             }
         | _ \<Rightarrow> Some (K_next, st)
       }
     }"

text \<open>
  The binary search of \<open>REOP_range\<close> and \<open>REOP_range32\<close> over the intervals that start at \<open>base\<close>; \<open>w\<close> is the
  number of bytes of a bound and \<open>get\<close> reads one.  The indices are \<open>uint32_t\<close>, so that
  \<open>idx - 1\<close> wraps around at zero.
\<close>

partial_function (option) range_search :: "(nat \<Rightarrow> u32 ub) \<Rightarrow> nat \<Rightarrow> nat \<Rightarrow> u32 \<Rightarrow> u32 \<Rightarrow> u32 \<Rightarrow> bool ub" where
  "range_search get base w c idx_min idx_max =
     (if idx_min \<le> idx_max then
        do {
          let idx = (idx_min + idx_max) div 2;
          low \<leftarrow> get (base + unat idx * (2 * w));
          high \<leftarrow> get (base + unat idx * (2 * w) + w);
          if c < low then range_search get base w c idx_min (idx - 1)
          else if high < c then range_search get base w c (idx + 1) idx_max
          else Some True
        }
      else Some False)"

definition range_lookup :: "(nat \<Rightarrow> u32 ub) \<Rightarrow> nat \<Rightarrow> nat \<Rightarrow> bool \<Rightarrow> u32 \<Rightarrow> u32 \<Rightarrow> bool ub" where
  "range_lookup get base w open_end n c =
     do {
       low \<leftarrow> get base;
       if c < low then Some False
       else do {
         let idx_max = n - 1;
         high \<leftarrow> get (base + unat idx_max * (2 * w) + w);
         if open_end \<and> 0xffff \<le> c \<and> high = 0xffff then Some True
         else if high < c then Some False
         else range_search get base w c 0 idx_max
       }
     }"

definition op_range_gen :: "re_ctx \<Rightarrow> (nat \<Rightarrow> u32 ub) \<Rightarrow> nat \<Rightarrow> bool \<Rightarrow> re_st \<Rightarrow> re_out" where
  "op_range_gen s get w open_end st =
     do {
       n \<leftarrow> get_u16 (bc_buf s) (pc st);
       let base = pc st + 2;
       if length (cbuf s) \<le> cptr st then Some (K_no_match, st)
       else do {
         (c, p) \<leftarrow> GET_CHAR s (cptr st) (length (cbuf s));
         c \<leftarrow> re_canon s c;
         found \<leftarrow> range_lookup get base w open_end n c;
         Some (if found then K_next else K_no_match, st\<lparr>pc := base + 2 * w * unat n, cptr := p\<rparr>)
       }
     }"

definition op_range :: "re_ctx \<Rightarrow> re_st \<Rightarrow> re_out" where
  "op_range s = op_range_gen s (get_u16 (bc_buf s)) 2 True"

definition op_range32 :: "re_ctx \<Rightarrow> re_st \<Rightarrow> re_out" where
  "op_range32 s = op_range_gen s (get_u32 (bc_buf s)) 4 False"

definition op_prev :: "re_ctx \<Rightarrow> re_st \<Rightarrow> re_out" where
  "op_prev s st =
     (if cptr st = 0 then Some (K_no_match, st)
      else map_option (\<lambda>p. (K_next, st\<lparr>cptr := p\<rparr>)) (PREV_CHAR s (cptr st) 0))"

text \<open>
  The switch; \<open>st\<close> has its \<open>pc\<close> behind the opcode.  \<open>REOP_simple_greedy_quant\<close>, which calls
  the matcher, is in \<open>lre_exec_backtrack\<close>, and \<open>REOP_match\<close> is the jump to the states.
\<close>

fun re_switch :: "re_ctx \<Rightarrow> reop \<Rightarrow> re_st \<Rightarrow> re_out" where
  "re_switch s REOP_match st = Some (K_match, st)"
| "re_switch s REOP_char32 st = op_char32 s st"
| "re_switch s REOP_char st = op_char s st"
| "re_switch s REOP_split_goto_first st = op_split s False st"
| "re_switch s REOP_split_next_first st = op_split s True st"
| "re_switch s REOP_lookahead st = op_lookahead s RE_EXEC_STATE_LOOKAHEAD st"
| "re_switch s REOP_negative_lookahead st = op_lookahead s RE_EXEC_STATE_NEGATIVE_LOOKAHEAD st"
| "re_switch s REOP_goto st = op_goto s st"
| "re_switch s REOP_line_start st = op_line_start s st"
| "re_switch s REOP_line_end st = op_line_end s st"
| "re_switch s REOP_dot st = op_dot s st"
| "re_switch s REOP_any st = op_any s st"
| "re_switch s REOP_save_start st = op_save s 0 st"
| "re_switch s REOP_save_end st = op_save s 1 st"
| "re_switch s REOP_save_reset st = op_save_reset s st"
| "re_switch s REOP_push_i32 st = op_push_i32 s st"
| "re_switch s REOP_drop st = op_drop st"
| "re_switch s REOP_loop st = op_loop s st"
| "re_switch s REOP_push_char_pos st = op_push_char_pos s st"
| "re_switch s REOP_check_advance st = op_check_advance s st"
| "re_switch s REOP_word_boundary st = op_word_boundary s False st"
| "re_switch s REOP_not_word_boundary st = op_word_boundary s True st"
| "re_switch s REOP_back_reference st = op_back_reference s False st"
| "re_switch s REOP_backward_back_reference st = op_back_reference s True st"
| "re_switch s REOP_range st = op_range s st"
| "re_switch s REOP_range32 st = op_range32 s st"
| "re_switch s REOP_prev st = op_prev s st"
| "re_switch s REOP_simple_greedy_quant st = None"
| "re_switch s REOP_invalid st = None"

section \<open>The matcher\<close>

text \<open>
  The matcher runs with fuel, one unit per opcode and per round of the loop of a
  greedy quantifier.  It returns an integer or, when called for a quantifier, the pointer
  behind the match.
\<close>

datatype re_ret = Ret_int int | Ret_ptr nat

datatype 'a re_run = Undefined | Out_of_fuel | Done 'a

fun run_of_ub :: "'a ub \<Rightarrow> ('a \<Rightarrow> 'b re_run) \<Rightarrow> 'b re_run" where
  "run_of_ub None f = Undefined"
| "run_of_ub (Some x) f = f x"

text \<open>\<open>greedy_args\<close> are \<open>(pc1, pc, quant_min, quant_max)\<close>; \<open>greedy_end\<close> is the part behind the loop.\<close>

definition greedy_args :: "re_ctx \<Rightarrow> nat \<Rightarrow> (nat \<times> nat \<times> u32 \<times> u32) ub" where
  "greedy_args s p =
     do {
       next_pos \<leftarrow> get_u32 (bc_buf s) p;
       quant_min \<leftarrow> get_u32 (bc_buf s) (p + 4);
       quant_max \<leftarrow> get_u32 (bc_buf s) (p + 8);
       p' \<leftarrow> re_jump s (p + 16) next_pos;
       Some (p + 16, p', quant_min, quant_max)
     }"

definition greedy_end :: "re_ctx \<Rightarrow> nat \<Rightarrow> u32 \<Rightarrow> nat \<Rightarrow> re_st \<Rightarrow> re_out" where
  "greedy_end s pc1 quant_min q st =
     (if q < unat quant_min then Some (K_no_match, st)
      else if unat quant_min < q then push_or_fail s (pc1 - 16) RE_EXEC_STATE_GREEDY_QUANT (q - unat quant_min) st
      else Some (K_next, st))"

fun lre_exec_backtrack :: "nat \<Rightarrow> re_ctx \<Rightarrow> bool \<Rightarrow> re_st \<Rightarrow> (re_ret \<times> re_st) re_run"
  and re_dispatch :: "nat \<Rightarrow> re_ctx \<Rightarrow> bool \<Rightarrow> re_kind \<times> re_st \<Rightarrow> (re_ret \<times> re_st) re_run"
  and greedy_loop :: "nat \<Rightarrow> re_ctx \<Rightarrow> nat \<Rightarrow> u32 \<Rightarrow> nat \<Rightarrow> re_st \<Rightarrow> (re_kind \<times> nat \<times> re_st) re_run" where
  "lre_exec_backtrack 0 s no_recurse st = Out_of_fuel"
| "lre_exec_backtrack (Suc fuel) s no_recurse st =
     run_of_ub (Option.bind (arr_get (bc_buf s) (pc st)) re_opcode) (\<lambda>op.
     let st = st\<lparr>pc := pc st + 1\<rparr>
     in if op = REOP_simple_greedy_quant then
          run_of_ub (greedy_args s (pc st)) (\<lambda>(pc1, pc2, quant_min, quant_max).
          case greedy_loop fuel s pc1 quant_max 0 st of
            Undefined \<Rightarrow> Undefined
          | Out_of_fuel \<Rightarrow> Out_of_fuel
          | Done (K_next, q, st') \<Rightarrow>
              run_of_ub (greedy_end s pc1 quant_min q (st'\<lparr>pc := pc2\<rparr>)) (re_dispatch fuel s no_recurse)
          | Done (k, q, st') \<Rightarrow> re_dispatch fuel s no_recurse (k, st'))
        else run_of_ub (re_switch s op st) (re_dispatch fuel s no_recurse))"
| "re_dispatch 0 s no_recurse out = Out_of_fuel"
| "re_dispatch (Suc fuel) s no_recurse (k, st) =
     (case k of
        K_next \<Rightarrow> lre_exec_backtrack fuel s no_recurse st
      | K_ret r \<Rightarrow> Done (Ret_int r, st)
      | K_match \<Rightarrow>
          if no_recurse then Done (Ret_ptr (cptr st), st)
          else run_of_ub (recurse s True (state_stack st) st) (re_dispatch fuel s no_recurse)
      | K_no_match \<Rightarrow>
          if no_recurse then Done (Ret_int 0, st)
          else run_of_ub (recurse s False (state_stack st) st) (re_dispatch fuel s no_recurse))"
| "greedy_loop 0 s pc1 quant_max q st = Out_of_fuel"
| "greedy_loop (Suc fuel) s pc1 quant_max q st =
     (case poll s st of
        (K_next, st) \<Rightarrow>
          (case lre_exec_backtrack fuel s True (st\<lparr>pc := pc1\<rparr>) of
             Undefined \<Rightarrow> Undefined
           | Out_of_fuel \<Rightarrow> Out_of_fuel
           | Done (Ret_int r, st') \<Rightarrow>
               let st' = st'\<lparr>pc := pc st, cptr := cptr st, stack_len := stack_len st\<rparr>
               in if r = LRE_RET_MEMORY_ERROR \<or> r = LRE_RET_TIMEOUT then Done (K_ret r, q, st')
                  else if r = 0 then Done (K_next, q, st')
                  else Undefined
           | Done (Ret_ptr p, st') \<Rightarrow>
               let st' = st'\<lparr>pc := pc st, cptr := p, stack_len := stack_len st\<rparr>
               in if unat quant_max \<le> q + 1 \<and> quant_max \<noteq> 0x7fffffff then Done (K_next, q + 1, st')
                  else greedy_loop fuel s pc1 quant_max (q + 1) st')
      | (k, st) \<Rightarrow> Done (k, q, st))"

text \<open>
  \<open>lre_exec\<close> without its allocations: the initial state for the caller's array
  \<open>cap0\<close> of captures and the contents \<open>fill\<close> of the memory from \<open>alloca\<close>.  The result is the
  value returned and the captures.
\<close>

definition re_state_size :: "nat \<Rightarrow> nat \<Rightarrow> nat" where
  "re_state_size cc sm = 32 + cc * 8 * 2 + sm * 8"

definition lre_exec_ctx :: "(nat \<Rightarrow> bool) \<Rightarrow> (nat \<Rightarrow> bool) \<Rightarrow> u64 \<Rightarrow> u8 list \<Rightarrow> u16 list \<Rightarrow> nat \<Rightarrow> re_ctx ub" where
  "lre_exec_ctx timeout realloc_ok addr bc cb cb_type =
     do {
       re_flags \<leftarrow> lre_get_flags bc;
       cc \<leftarrow> lre_get_capture_count bc;
       ss \<leftarrow> arr_get bc RE_HEADER_STACK_SIZE;
       let uni = re_flags AND LRE_FLAG_UNICODE \<noteq> 0;
       Some \<lparr>bc_buf = bc, cbuf = cb, cbuf_type = (if cb_type = 1 \<and> uni then 2 else cb_type), cbuf_addr = addr,
         capture_count = cc, stack_size_max = unat ss,
         multi_line = re_flags AND LRE_FLAG_MULTILINE \<noteq> 0, ignore_case = re_flags AND LRE_FLAG_IGNORECASE \<noteq> 0,
         is_unicode = uni, state_size = re_state_size cc (unat ss),
         lre_check_timeout = timeout, lre_realloc_ok = realloc_ok\<rparr>
     }"

definition lre_exec_start :: "re_ctx \<Rightarrow> nat option list \<Rightarrow> (nat \<Rightarrow> u64) \<Rightarrow> nat \<Rightarrow> re_st ub" where
  "lre_exec_start s cap0 fill cindex =
     do {
       cap \<leftarrow> arr_write cap0 0 (replicate (2 * capture_count s) None);
       Some \<lparr>capture = cap, stack = map fill [0..<stack_size_max s], stack_len = 0, pc = RE_HEADER_LEN, cptr = cindex,
         state_stack = [], state_stack_size = 0, state_stack_bytes = 0,
         interrupt_counter = INTERRUPT_COUNTER_INIT, polls = 0\<rparr>
     }"

definition lre_exec ::
    "nat \<Rightarrow> (nat \<Rightarrow> bool) \<Rightarrow> (nat \<Rightarrow> bool) \<Rightarrow> u64 \<Rightarrow> (nat \<Rightarrow> u64) \<Rightarrow> nat option list \<Rightarrow> u8 list \<Rightarrow> u16 list \<Rightarrow> nat \<Rightarrow> nat
     \<Rightarrow> (re_ret \<times> nat option list) re_run" where
  "lre_exec fuel timeout realloc_ok addr fill cap0 bc cb cindex cb_type =
     run_of_ub (lre_exec_ctx timeout realloc_ok addr bc cb cb_type) (\<lambda>s.
     run_of_ub (lre_exec_start s cap0 fill cindex) (\<lambda>st.
     case lre_exec_backtrack fuel s False st of
       Undefined \<Rightarrow> Undefined
     | Out_of_fuel \<Rightarrow> Out_of_fuel
     | Done (r, st') \<Rightarrow> Done (r, capture st')))"

end
