(* ===== verification/Lre_Type.thy ===== *)
theory Lre_Type
  imports Lre_Exec
begin

text \<open>
  A type discipline for the byte code of regular expressions and its soundness for the
  matcher of \<open>Lre_Exec\<close>.  A table gives every reachable instruction the depth of the
  stack in front of it; \<open>bc_typed\<close> checks each instruction against the table.  The matcher keeps
  the invariant \<open>st_ok\<close> on typed code, and no opcode is undefined in a state that satisfies it.
\<close>

section \<open>Counting characters\<close>

text \<open>
  A position is the start of a character unless it is inside of a surrogate pair; \<open>rank\<close> is the number
  of characters that end at or before a position.  Reading a character forward raises the
  rank by one and reading one backward lowers it by at most one, also when the matcher starts inside of a pair.
\<close>

definition char_start :: "re_ctx \<Rightarrow> nat \<Rightarrow> bool" where
  "char_start s p \<longleftrightarrow> \<not> (cbuf_type s = 2 \<and> 0 < p \<and> p < length (cbuf s) \<and> is_hi_surrogate (ucast (cbuf s ! (p - 1)))
     \<and> is_lo_surrogate (ucast (cbuf s ! p)))"

primrec rank :: "re_ctx \<Rightarrow> nat \<Rightarrow> nat" where
  "rank s 0 = 0"
| "rank s (Suc p) = rank s p + (if char_start s (Suc p) then 1 else 0)"

lemma rank_le: "rank s p \<le> p"
  by (induction p) auto

lemma hi_not_lo: "is_hi_surrogate c \<Longrightarrow> \<not> is_lo_surrogate c"
  by (simp add: is_hi_surrogate_iff is_lo_surrogate_iff)

lemma GET_CHAR_ok:
  assumes "p < pend" "pend \<le> length (cbuf s)"
  shows "\<exists>c p'. GET_CHAR s p pend = Some (c, p') \<and> p < p' \<and> p' \<le> pend"
  using assms by (auto simp: GET_CHAR_def arr_get_def Let_def)

lemma GET_CHAR_rank:
  assumes "GET_CHAR s p (length (cbuf s)) = Some (c, p')"
  shows "rank s p' = rank s p + 1"
proof (cases "p' = p + 2")
  case True
  then have b: "\<not> char_start s (Suc p)" "is_lo_surrogate (ucast (cbuf s ! Suc p))"
    using assms by (auto simp: GET_CHAR_def arr_get_def Let_def char_start_def split: if_splits)
  then have "char_start s (Suc (Suc p))" by (auto simp: char_start_def dest: hi_not_lo)
  with True b show ?thesis by simp
next
  case False
  then have "p' = Suc p" "char_start s (Suc p)"
    using assms by (auto simp: GET_CHAR_def arr_get_def Let_def char_start_def split: if_splits)
  then show ?thesis by simp
qed

lemma GET_PREV_CHAR_ok:
  assumes "0 < p" "pstart < p" "p \<le> length (cbuf s)"
  shows "\<exists>c p'. GET_PREV_CHAR s p pstart = Some (c, p') \<and> pstart \<le> p' \<and> p' < p"
  using assms by (auto simp: GET_PREV_CHAR_def arr_get_def Let_def)

lemma GET_PREV_CHAR_rank:
  assumes "GET_PREV_CHAR s p 0 = Some (c, p')"
  shows "rank s p \<le> rank s p' + 1"
proof (cases "p' + 2 = p")
  case True
  then have "\<not> char_start s (Suc p')"
    using assms by (auto simp: GET_PREV_CHAR_def arr_get_def Let_def char_start_def split: if_splits)
  moreover have "p = Suc (Suc p')" using True by simp
  ultimately show ?thesis by simp
next
  case False
  then have "p = Suc p'"
    using assms by (auto simp: GET_PREV_CHAR_def arr_get_def Let_def split: if_splits)
  then show ?thesis by simp
qed

lemma prev_chars_ok:
  assumes "n \<le> rank s p" "p \<le> length (cbuf s)"
  shows "\<exists>p'. prev_chars s n p = Some p' \<and> p' \<le> p \<and> rank s p \<le> rank s p' + n"
  using assms
proof (induction n arbitrary: p)
  case (Suc n)
  then have "0 < p" using rank_le [of s p] by simp
  then obtain c p1 where p1: "GET_PREV_CHAR s p 0 = Some (c, p1)" "p1 < p"
    using GET_PREV_CHAR_ok [of p 0 s] Suc.prems by auto
  have r: "rank s p \<le> rank s p1 + 1" using p1(1) by (rule GET_PREV_CHAR_rank)
  with Suc.IH [of p1] Suc.prems p1 show ?case by (fastforce simp: PREV_CHAR_def)
qed simp

section \<open>Typed byte code\<close>

lemma get_u16_less: "get_u16 tab i = Some n \<Longrightarrow> unat n < 2 ^ 16"
proof -
  assume "get_u16 tab i = Some n"
  then obtain bs where "n = word_of_nat (le_to_nat bs)" "length bs = 2"
    by (auto simp: get_u16_def arr_slice_def split: if_splits)
  then show ?thesis using le_to_nat_less [of bs] by (simp add: unsigned_of_nat take_bit_nat_eq_self)
qed

lemma get_u16_some: "i + 2 \<le> length tab \<Longrightarrow> \<exists>n. get_u16 tab i = Some n"
  by (simp add: get_u16_def arr_slice_def)

lemma get_u32_some: "i + 4 \<le> length tab \<Longrightarrow> \<exists>n. get_u32 tab i = Some n"
  by (simp add: get_u32_def arr_slice_def)

type_synonym depths = "nat \<Rightarrow> nat option"

text \<open>
  The body of a greedy quantifier: instructions that neither jump nor change the
  stack or the captures, up to \<open>REOP_match\<close>, and the number of characters it reads.
\<close>

function body_chars :: "u8 list \<Rightarrow> nat \<Rightarrow> nat option" where
  "body_chars bc p =
     (case re_instr bc p of
        None \<Rightarrow> None
      | Some (op, len) \<Rightarrow>
          if op = REOP_match then Some 0
          else if op \<in> {REOP_range, REOP_range32, REOP_char, REOP_char32, REOP_dot, REOP_any}
          then map_option Suc (body_chars bc (p + len))
          else if op \<in> {REOP_line_start, REOP_line_end, REOP_word_boundary, REOP_not_word_boundary}
          then body_chars bc (p + len)
          else None)"
  by pat_completeness auto
termination
  by (relation "measure (\<lambda>(bc, p). length bc - p)") (auto dest!: re_instr_pos)

declare body_chars.simps [simp del]

definition jump_ok :: "re_ctx \<Rightarrow> depths \<Rightarrow> nat \<Rightarrow> nat \<Rightarrow> bool" where
  "jump_ok s D p d \<longleftrightarrow>
     (case Option.bind (get_u32 (bc_buf s) (p + 1)) (re_jump s (p + 5)) of None \<Rightarrow> False | Some t \<Rightarrow> D t = Some d)"

text \<open>The instruction of a greedy quantifier: its body reads \<open>char_count\<close> characters, and it continues behind it.\<close>

definition greedy_ok :: "re_ctx \<Rightarrow> depths \<Rightarrow> nat \<Rightarrow> nat \<Rightarrow> bool" where
  "greedy_ok s D p d \<longleftrightarrow>
     D (p + 17) = Some d \<and>
     (case Option.bind (get_u32 (bc_buf s) (p + 1)) (re_jump s (p + 17)) of None \<Rightarrow> False | Some t \<Rightarrow> p < t \<and> D t = Some d) \<and>
     body_chars (bc_buf s) (p + 17) = map_option unat (get_u32 (bc_buf s) (p + 13))"

definition capture_arg :: "re_ctx \<Rightarrow> nat \<Rightarrow> bool" where
  "capture_arg s p \<longleftrightarrow> (case arr_get (bc_buf s) p of None \<Rightarrow> False | Some v \<Rightarrow> unat v < capture_count s)"

fun op_ok :: "re_ctx \<Rightarrow> depths \<Rightarrow> nat \<Rightarrow> nat \<Rightarrow> nat \<Rightarrow> reop \<Rightarrow> bool" where
  "op_ok s D p d len REOP_invalid \<longleftrightarrow> False"
| "op_ok s D p d len REOP_match \<longleftrightarrow> True"
| "op_ok s D p d len REOP_goto \<longleftrightarrow> jump_ok s D p d"
| "op_ok s D p d len REOP_split_goto_first \<longleftrightarrow> jump_ok s D p d \<and> D (p + len) = Some d"
| "op_ok s D p d len REOP_split_next_first \<longleftrightarrow> jump_ok s D p d \<and> D (p + len) = Some d"
| "op_ok s D p d len REOP_lookahead \<longleftrightarrow> jump_ok s D p d \<and> D (p + len) = Some d"
| "op_ok s D p d len REOP_negative_lookahead \<longleftrightarrow> jump_ok s D p d \<and> D (p + len) = Some d"
| "op_ok s D p d len REOP_save_start \<longleftrightarrow> capture_arg s (p + 1) \<and> D (p + len) = Some d"
| "op_ok s D p d len REOP_save_end \<longleftrightarrow> capture_arg s (p + 1) \<and> D (p + len) = Some d"
| "op_ok s D p d len REOP_save_reset \<longleftrightarrow> capture_arg s (p + 2) \<and> D (p + len) = Some d"
| "op_ok s D p d len REOP_loop \<longleftrightarrow> 0 < d \<and> jump_ok s D p d \<and> D (p + len) = Some d"
| "op_ok s D p d len REOP_push_i32 \<longleftrightarrow> D (p + len) = Some (d + 1)"
| "op_ok s D p d len REOP_push_char_pos \<longleftrightarrow> D (p + len) = Some (d + 1)"
| "op_ok s D p d len REOP_drop \<longleftrightarrow> 0 < d \<and> D (p + len) = Some (d - 1)"
| "op_ok s D p d len REOP_check_advance \<longleftrightarrow> 0 < d \<and> D (p + len) = Some (d - 1)"
| "op_ok s D p d len REOP_range \<longleftrightarrow> reop_size REOP_range < len \<and> D (p + len) = Some d"
| "op_ok s D p d len REOP_range32 \<longleftrightarrow> reop_size REOP_range32 < len \<and> D (p + len) = Some d"
| "op_ok s D p d len REOP_simple_greedy_quant \<longleftrightarrow> greedy_ok s D p d"
| "op_ok s D p d len op \<longleftrightarrow> D (p + len) = Some d"

definition instr_ok :: "re_ctx \<Rightarrow> depths \<Rightarrow> nat \<Rightarrow> nat \<Rightarrow> bool" where
  "instr_ok s D p d \<longleftrightarrow>
     (case re_instr (bc_buf s) p of
        None \<Rightarrow> False
      | Some (op, len) \<Rightarrow> p + len \<le> length (bc_buf s) \<and> op_ok s D p d len op)"

text \<open>The check of a table, as a list of positions and depths.\<close>

definition bc_typed :: "re_ctx \<Rightarrow> (nat \<times> nat) list \<Rightarrow> bool" where
  "bc_typed s ds \<longleftrightarrow> map_of ds RE_HEADER_LEN = Some 0 \<and> list_all (\<lambda>(p, d). d \<le> stack_size_max s \<and> instr_ok s (map_of ds) p d) ds"

section \<open>The invariant of the matcher\<close>

definition caps_ok :: "re_ctx \<Rightarrow> nat option list \<Rightarrow> bool" where
  "caps_ok s cap \<longleftrightarrow> (\<forall>p. Some p \<in> set cap \<longrightarrow> p \<le> length (cbuf s))"

definition frame_ok :: "re_ctx \<Rightarrow> depths \<Rightarrow> REExecState \<Rightarrow> bool" where
  "frame_ok s D rs \<longleftrightarrow>
     length (rs_capture rs) = 2 * capture_count s \<and> caps_ok s (rs_capture rs) \<and>
     length (rs_stack rs) = rs_stack_len rs \<and> rs_cptr rs \<le> length (cbuf s) \<and>
     (if rs_type rs = RE_EXEC_STATE_GREEDY_QUANT then
        \<exists>p len n. rs_pc rs = p + 1 \<and> D p = Some (rs_stack_len rs) \<and> re_instr (bc_buf s) p = Some (REOP_simple_greedy_quant, len) \<and>
          get_u32 (bc_buf s) (p + 13) = Some n \<and> 0 < rs_count rs \<and> rs_count rs * unat n \<le> rank s (rs_cptr rs)
      else D (rs_pc rs) = Some (rs_stack_len rs))"

text \<open>What holds at every point, without the position in the code and in the input.\<close>

definition base_ok :: "re_ctx \<Rightarrow> depths \<Rightarrow> re_st \<Rightarrow> bool" where
  "base_ok s D st \<longleftrightarrow>
     2 * capture_count s \<le> length (capture st) \<and> caps_ok s (capture st) \<and>
     length (stack st) = stack_size_max s \<and>
     list_all (frame_ok s D) (state_stack st) \<and>
     length (state_stack st) \<le> state_stack_size st \<and>
     state_stack_bytes st = state_stack_size st * state_size s \<and> state_stack_bytes st < 2 ^ 63"

definition st_ok :: "re_ctx \<Rightarrow> depths \<Rightarrow> re_st \<Rightarrow> bool" where
  "st_ok s D st \<longleftrightarrow> base_ok s D st \<and> cptr st \<le> length (cbuf s) \<and> 0 \<le> stack_len st \<and> D (pc st) = Some (nat (stack_len st))"

text \<open>
  The context: its sizes fit their bytes, the table types the code, and \<open>lre_realloc\<close> refuses
  blocks of \<open>2 ^ 63\<close> bytes and more, as \<open>realloc\<close> does.
\<close>

definition ctx_ok :: "re_ctx \<Rightarrow> depths \<Rightarrow> bool" where
  "ctx_ok s D \<longleftrightarrow>
     stack_size_max s < 256 \<and> capture_count s < 256 \<and> state_size s = re_state_size (capture_count s) (stack_size_max s) \<and>
     (\<forall>n. lre_realloc_ok s n \<longrightarrow> n < 2 ^ 63) \<and> (\<forall>p d. D p = Some d \<longrightarrow> d \<le> stack_size_max s \<and> instr_ok s D p d)"

text \<open>What an opcode leaves: a good state to go on with, or good shared data to return with or to backtrack from.\<close>

definition out_ok :: "re_ctx \<Rightarrow> depths \<Rightarrow> re_kind \<times> re_st \<Rightarrow> bool" where
  "out_ok s D out \<longleftrightarrow>
     (case out of
        (K_next, st) \<Rightarrow> st_ok s D st
      | (K_ret r, st) \<Rightarrow> base_ok s D st \<and> r \<in> {0, 1, LRE_RET_MEMORY_ERROR, LRE_RET_TIMEOUT}
      | (_, st) \<Rightarrow> base_ok s D st)"

section \<open>The opcodes keep the invariant\<close>

named_theorems re_upd \<open>updates of fields that the invariants do not read\<close>

lemma base_ok_upd [re_upd, simp]:
  "base_ok s D (st\<lparr>pc := p\<rparr>) = base_ok s D st"
  "base_ok s D (st\<lparr>cptr := q\<rparr>) = base_ok s D st"
  "base_ok s D (st\<lparr>stack_len := l\<rparr>) = base_ok s D st"
  "base_ok s D (st\<lparr>interrupt_counter := i\<rparr>) = base_ok s D st"
  "base_ok s D (st\<lparr>polls := k\<rparr>) = base_ok s D st"
  by (simp_all add: base_ok_def)

lemma st_ok_base: "st_ok s D st \<Longrightarrow> base_ok s D st"
  by (simp add: st_ok_def)

lemma poll_ok: "st_ok s D st \<Longrightarrow> out_ok s D (poll s st)"
  by (auto simp: poll_def lre_poll_timeout_def out_ok_def st_ok_def Let_def)

lemma re_canon_ok: "\<exists>c'. re_canon s c = Some c'"
  using lre_canonicalize_total [of "uint c" "is_unicode s"] by (auto simp: re_canon_def)

text \<open>\<open>at_op s D st d\<close>: the state in which a handler is entered, with the depth in front of its opcode.\<close>

definition at_op :: "re_ctx \<Rightarrow> depths \<Rightarrow> re_st \<Rightarrow> nat \<Rightarrow> bool" where
  "at_op s D st d \<longleftrightarrow> base_ok s D st \<and> cptr st \<le> length (cbuf s) \<and> stack_len st = int d \<and> d \<le> stack_size_max s"

lemma test_char_ok:
  assumes "at_op s D st d" "D (pc st) = Some d"
  shows "\<exists>out. test_char s val st = Some out \<and> out_ok s D out"
proof (cases "cptr st < length (cbuf s)")
  case True
  then obtain c p where g: "GET_CHAR s (cptr st) (length (cbuf s)) = Some (c, p)" "p \<le> length (cbuf s)"
    using GET_CHAR_ok [of "cptr st" "length (cbuf s)" s] by auto
  obtain c' where "re_canon s c = Some c'" using re_canon_ok by blast
  with True g assms show ?thesis by (auto simp: test_char_def out_ok_def at_op_def st_ok_def)
qed (use assms in \<open>simp add: test_char_def out_ok_def at_op_def\<close>)

lemma GET_CHAR_end:
  assumes "cptr st \<noteq> length (cbuf s)" "at_op s D st d"
  shows "\<exists>c p. GET_CHAR s (cptr st) (length (cbuf s)) = Some (c, p) \<and> p \<le> length (cbuf s)"
  using GET_CHAR_ok [of "cptr st" "length (cbuf s)" s] assms by (auto simp: at_op_def)

lemma op_dot_ok:
  assumes "at_op s D st d" "D (pc st) = Some d"
  shows "\<exists>out. op_dot s st = Some out \<and> out_ok s D out"
  using assms GET_CHAR_end [of st s D d] by (auto simp: op_dot_def out_ok_def at_op_def st_ok_def)

lemma op_any_ok:
  assumes "at_op s D st d" "D (pc st) = Some d"
  shows "\<exists>out. op_any s st = Some out \<and> out_ok s D out"
  using assms GET_CHAR_end [of st s D d] by (auto simp: op_any_def out_ok_def at_op_def st_ok_def)

lemma PEEK_PREV_CHAR_end:
  assumes "cptr st \<noteq> 0" "at_op s D st d"
  shows "\<exists>c. PEEK_PREV_CHAR s (cptr st) 0 = Some c"
  using GET_PREV_CHAR_ok [of "cptr st" 0 s] assms by (auto simp: at_op_def PEEK_PREV_CHAR_def)

lemma PEEK_CHAR_end:
  assumes "cptr st \<noteq> length (cbuf s)" "at_op s D st d"
  shows "\<exists>c. PEEK_CHAR s (cptr st) (length (cbuf s)) = Some c"
  using GET_CHAR_end [OF assms] by (auto simp: PEEK_CHAR_def)

lemma op_line_start_ok:
  assumes "at_op s D st d" "D (pc st) = Some d"
  shows "\<exists>out. op_line_start s st = Some out \<and> out_ok s D out"
  using assms PEEK_PREV_CHAR_end [of st s D d] by (auto simp: op_line_start_def out_ok_def at_op_def st_ok_def)

lemma op_line_end_ok:
  assumes "at_op s D st d" "D (pc st) = Some d"
  shows "\<exists>out. op_line_end s st = Some out \<and> out_ok s D out"
  using assms PEEK_CHAR_end [of st s D d] by (auto simp: op_line_end_def out_ok_def at_op_def st_ok_def)

lemma op_word_boundary_ok:
  assumes "at_op s D st d" "D (pc st) = Some d"
  shows "\<exists>out. op_word_boundary s b st = Some out \<and> out_ok s D out"
proof -
  have "\<exists>v1. (if cptr st = 0 then Some False else map_option is_word_char (PEEK_PREV_CHAR s (cptr st) 0)) = Some v1"
    using PEEK_PREV_CHAR_end [OF _ assms(1)] by auto
  moreover have "\<exists>v2. (if length (cbuf s) \<le> cptr st then Some False
      else map_option is_word_char (PEEK_CHAR s (cptr st) (length (cbuf s)))) = Some v2"
    using PEEK_CHAR_end [OF _ assms(1)] by auto
  ultimately have "op_word_boundary s b st = Some (K_no_match, st) \<or> op_word_boundary s b st = Some (K_next, st)"
    unfolding op_word_boundary_def by (elim exE) (simp only: Option.bind.bind_lunit, simp)
  then show ?thesis using assms by (auto simp: out_ok_def st_ok_def at_op_def)
qed

lemma op_prev_ok:
  assumes "at_op s D st d" "D (pc st) = Some d"
  shows "\<exists>out. op_prev s st = Some out \<and> out_ok s D out"
  using assms GET_PREV_CHAR_ok [of "cptr st" 0 s]
  by (auto simp: op_prev_def PREV_CHAR_def out_ok_def at_op_def st_ok_def)

lemma caps_ok_update: "caps_ok s cap \<Longrightarrow> (\<And>p. v = Some p \<Longrightarrow> p \<le> length (cbuf s)) \<Longrightarrow> caps_ok s (cap[i := v])"
  by (auto simp: caps_ok_def dest!: set_update_subset_insert [THEN subsetD])

lemma base_ok_capture:
  "base_ok s D st \<Longrightarrow> caps_ok s cap \<Longrightarrow> length cap = length (capture st) \<Longrightarrow> base_ok s D (st\<lparr>capture := cap\<rparr>)"
  by (simp add: base_ok_def)

lemma op_save_ok:
  assumes "at_op s D st d" "D (pc st + 1) = Some d" "capture_arg s (pc st)" "off \<le> 1"
  shows "\<exists>out. op_save s off st = Some out \<and> out_ok s D out"
proof -
  obtain v where v: "arr_get (bc_buf s) (pc st) = Some v" "unat v < capture_count s"
    using assms(3) by (auto simp: capture_arg_def split: option.splits)
  let ?cap = "(capture st)[2 * unat v + off := Some (cptr st)]"
  have "2 * unat v + off < length (capture st)" "caps_ok s ?cap"
    using assms v(2) by (auto simp: at_op_def base_ok_def intro!: caps_ok_update)
  then show ?thesis using assms v
    by (auto simp: op_save_def arr_set_def out_ok_def st_ok_def at_op_def intro: base_ok_capture)
qed

lemma reset_captures_ok:
  assumes "2 * val2 + 1 < length cap" "caps_ok s cap"
  shows "\<exists>cap'. reset_captures cap val val2 = Some cap' \<and> length cap' = length cap \<and> caps_ok s cap'"
  using assms
proof (induction cap val val2 rule: reset_captures.induct)
  case (1 cap val val2)
  show ?case
  proof (cases "val \<le> val2")
    case True
    then have "2 * val < length cap" "2 * val + 1 < length cap" using 1 by auto
    moreover have "\<exists>cap'. reset_captures (cap[2 * val := None, 2 * val + 1 := None]) (val + 1) val2 = Some cap' \<and>
        length cap' = length cap \<and> caps_ok s cap'"
      using 1(1) [OF True, of "cap[2 * val := None]"] 1(2,3) calculation
        caps_ok_update [OF caps_ok_update [OF 1(3)], of None None "2 * val" "2 * val + 1"]
      by (simp add: arr_set_def)
    ultimately show ?thesis using True by (subst reset_captures.simps) (simp add: arr_set_def)
  qed (use 1 in \<open>simp add: reset_captures.simps\<close>)
qed

lemma op_save_reset_ok:
  assumes "at_op s D st d" "D (pc st + 2) = Some d" "capture_arg s (pc st + 1)"
  shows "\<exists>out. op_save_reset s st = Some out \<and> out_ok s D out"
proof -
  obtain v2 where v2: "arr_get (bc_buf s) (pc st + 1) = Some v2" "unat v2 < capture_count s"
    using assms(3) by (auto simp: capture_arg_def split: option.splits)
  then have "pc st < length (bc_buf s)" by (auto simp: arr_get_def split: if_splits)
  then obtain v where v: "arr_get (bc_buf s) (pc st) = Some v" by (simp add: arr_get_def)
  have "2 * unat v2 + 1 < length (capture st)" "caps_ok s (capture st)"
    using assms(1) v2(2) by (auto simp: at_op_def base_ok_def)
  then obtain cap where "reset_captures (capture st) (unat v) (unat v2) = Some cap" "length cap = length (capture st)" "caps_ok s cap"
    using reset_captures_ok by blast
  then show ?thesis using assms v v2
    by (auto simp: op_save_reset_def out_ok_def st_ok_def at_op_def intro: base_ok_capture)
qed

lemma stack_set_ok:
  assumes "base_ok s D st" "0 \<le> i" "i < int (stack_size_max s)"
  shows "\<exists>stk. stack_set st i v = Some (st\<lparr>stack := stk\<rparr>) \<and> base_ok s D (st\<lparr>stack := stk\<rparr>)"
  using assms by (intro exI [of _ "(stack st)[nat i := v]"]) (simp add: stack_set_def arr_set_def base_ok_def nat_less_iff)

lemma stack_get_ok:
  "base_ok s D st \<Longrightarrow> 0 \<le> i \<Longrightarrow> i < int (stack_size_max s) \<Longrightarrow> \<exists>v. stack_get st i = Some v"
  by (simp add: stack_get_def arr_get_def base_ok_def nat_less_iff)

lemma op_push_i32_ok:
  assumes "at_op s D st d" "D (pc st + 4) = Some (d + 1)" "d < stack_size_max s" "pc st + 4 \<le> length (bc_buf s)"
  shows "\<exists>out. op_push_i32 s st = Some out \<and> out_ok s D out"
proof -
  have "\<exists>val. get_u32 (bc_buf s) (pc st) = Some val" using assms(4) by (simp add: get_u32_def arr_slice_def)
  then obtain val where v: "get_u32 (bc_buf s) (pc st) = Some val" ..
  obtain stk where "stack_set st (stack_len st) (ucast val) = Some (st\<lparr>stack := stk\<rparr>)" "base_ok s D (st\<lparr>stack := stk\<rparr>)"
    using stack_set_ok [of s D st "stack_len st"] assms by (auto simp: at_op_def)
  with v assms show ?thesis by (auto simp: op_push_i32_def out_ok_def st_ok_def at_op_def nat_add_distrib)
qed

lemma op_push_char_pos_ok:
  assumes "at_op s D st d" "D (pc st) = Some (d + 1)" "d < stack_size_max s"
  shows "\<exists>out. op_push_char_pos s st = Some out \<and> out_ok s D out"
proof -
  obtain stk where "stack_set st (stack_len st) (char_addr s (cptr st)) = Some (st\<lparr>stack := stk\<rparr>)" "base_ok s D (st\<lparr>stack := stk\<rparr>)"
    using stack_set_ok [of s D st "stack_len st"] assms by (auto simp: at_op_def)
  with assms show ?thesis by (auto simp: op_push_char_pos_def out_ok_def st_ok_def at_op_def nat_add_distrib)
qed

lemma op_drop_ok:
  assumes "at_op s D st d" "D (pc st) = Some (d - 1)" "0 < d"
  shows "\<exists>out. op_drop st = Some out \<and> out_ok s D out"
  using assms by (auto simp: op_drop_def out_ok_def st_ok_def at_op_def nat_diff_distrib)

lemma op_check_advance_ok:
  assumes "at_op s D st d" "D (pc st) = Some (d - 1)" "0 < d"
  shows "\<exists>out. op_check_advance s st = Some out \<and> out_ok s D out"
proof -
  obtain v where "stack_get st (stack_len st - 1) = Some v"
    using stack_get_ok [of s D st "stack_len st - 1"] assms by (auto simp: at_op_def)
  with assms show ?thesis by (auto simp: op_check_advance_def out_ok_def st_ok_def at_op_def nat_diff_distrib)
qed

text \<open>\<open>p\<close> is the position of the opcode in front of \<open>pc\<close>.\<close>

lemma jump_okE:
  assumes "jump_ok s D p d" "q = p + 1"
  obtains val t where "get_u32 (bc_buf s) q = Some val" "re_jump s (q + 4) val = Some t" "D t = Some d"
  using assms by (auto simp: jump_ok_def bind_eq_Some_conv add.commute split: option.splits)

lemma op_goto_ok:
  assumes "at_op s D st d" "pc st = p + 1" "jump_ok s D p d"
  shows "\<exists>out. op_goto s st = Some out \<and> out_ok s D out"
proof -
  obtain val t where v: "get_u32 (bc_buf s) (pc st) = Some val" "re_jump s (pc st + 4) val = Some t" "D t = Some d"
    using jump_okE [OF assms(3,2)] by blast
  have "st_ok s D (st\<lparr>pc := t\<rparr>)" using assms(1) v(3) by (simp add: at_op_def st_ok_def)
  with v show ?thesis by (simp add: op_goto_def poll_ok)
qed

lemma op_loop_ok:
  assumes "at_op s D st d" "pc st = p + 1" "jump_ok s D p d" "0 < d" "D (p + 5) = Some d"
  shows "\<exists>out. op_loop s st = Some out \<and> out_ok s D out"
proof -
  obtain val t where v: "get_u32 (bc_buf s) (pc st) = Some val" "re_jump s (pc st + 4) val = Some t" "D t = Some d"
    using jump_okE [OF assms(3,2)] by blast
  obtain x where x: "stack_get st (stack_len st - 1) = Some x"
    using stack_get_ok [of s D st "stack_len st - 1"] assms by (auto simp: at_op_def)
  obtain stk where k: "stack_set st (stack_len st - 1) (x - 1) = Some (st\<lparr>stack := stk\<rparr>)" "base_ok s D (st\<lparr>stack := stk\<rparr>)"
    using stack_set_ok [of s D st "stack_len st - 1"] assms by (auto simp: at_op_def)
  have "st_ok s D (st\<lparr>stack := stk, pc := q\<rparr>)" if "D q = Some d" for q
    using assms(1) k(2) that by (simp add: at_op_def st_ok_def)
  then have "out_ok s D (poll s (st\<lparr>stack := stk, pc := t\<rparr>))" "out_ok s D (K_next, st\<lparr>stack := stk, pc := p + 5\<rparr>)"
    using v(3) assms(5) by (simp_all add: poll_ok) (simp add: out_ok_def)
  moreover have "pc st + 4 = p + 5" using assms(2) by simp
  ultimately show ?thesis using v x k(1) by (cases "x - 1 = 0") (simp_all add: op_loop_def add.commute)
qed

lemma re_state_size_ge: "32 \<le> re_state_size cc sm"
  by (simp add: re_state_size_def)

lemma ctx_ok_state_size: "ctx_ok s D \<Longrightarrow> 32 \<le> state_size s \<and> state_size s < 2 ^ 13"
  by (auto simp: ctx_ok_def re_state_size_def)

lemma new_size_ok:
  fixes n m :: nat
  assumes "n * m < 2 ^ 63" "32 \<le> m" "m < 2 ^ 13"
  defines "k \<equiv> (if size_wrap (n * 3) div 2 < 8 then 8 else size_wrap (n * 3) div 2)"
  shows "size_wrap (k * m) = k * m" "n < k"
proof -
  have "n * 32 \<le> n * m" using assms by simp
  then have "n * 32 < 2 ^ 63" using assms(1) by linarith
  then have "n < 2 ^ 58" by simp
  then have w: "size_wrap (n * 3) = n * 3" by simp
  have "k * m \<le> max (8 * m) (n * 3 div 2 * m)" by (auto simp: k_def w)
  moreover have "n * 3 div 2 * m * 2 \<le> n * 3 * m" by (metis div_times_less_eq_dividend mult.commute mult.left_commute mult_le_mono1)
  then have "n * 3 div 2 * m * 2 < 3 * 2 ^ 63" using assms(1) by linarith
  then have "n * 3 div 2 * m < 2 ^ 64" by (simp add: mult.commute)
  ultimately have "k * m < 2 ^ 64" using assms(3) by simp
  then show "size_wrap (k * m) = k * m" by simp
  show "n < k" unfolding k_def w by presburger
qed

lemma grow_states_ok:
  assumes "ctx_ok s D" "base_ok s D st"
  obtains r st' where "grow_states s st = (r, st')" "r = 0 \<or> r = - 1" "base_ok s D st'"
    "r = 0 \<longrightarrow> length (state_stack st') < state_stack_size st'"
    "\<exists>k b. st' = st\<lparr>state_stack_size := k, state_stack_bytes := b\<rparr>"
proof (cases "state_stack_size st < length (state_stack st) + 1")
  case True
  define k where "k = (if size_wrap (state_stack_size st * 3) div 2 < 8 then 8 else size_wrap (state_stack_size st * 3) div 2)"
  have k: "size_wrap (k * state_size s) = k * state_size s" "state_stack_size st < k"
    using new_size_ok [of "state_stack_size st" "state_size s"] assms ctx_ok_state_size [OF assms(1)]
    by (simp_all add: k_def base_ok_def)
  show ?thesis
  proof (cases "lre_realloc_ok s (k * state_size s)")
    case realloc: True
    then have "k * state_size s < 2 ^ 63" using assms(1) by (simp add: ctx_ok_def)
    with realloc show ?thesis using True k assms(2)
      by (intro that [of 0 "st\<lparr>state_stack_size := k, state_stack_bytes := k * state_size s\<rparr>"])
        (auto simp: grow_states_def k_def [symmetric] base_ok_def Let_def)
  next
    case False
    with True k assms(2) show ?thesis
      by (intro that [of "- 1" st]) (auto simp: grow_states_def k_def [symmetric] Let_def, metis re_st.surjective re_st.update_convs(7,8))
  qed
next
  case False
  with assms(2) show ?thesis
    by (intro that [of 0 st]) (auto simp: grow_states_def, metis re_st.surjective re_st.update_convs(7,8))
qed

lemma store_state_ok:
  assumes "ctx_ok s D" "base_ok s D st" "length (state_stack st) < state_stack_size st" "stack_len st = int d" "d \<le> stack_size_max s"
    and frame: "\<And>buf stk. length buf = 2 * capture_count s \<Longrightarrow> caps_ok s buf \<Longrightarrow> length stk = d \<Longrightarrow>
      frame_ok s D \<lparr>rs_type = type, rs_stack_len = d, rs_count = n, rs_cptr = cptr st, rs_pc = pc1, rs_capture = buf, rs_stack = stk\<rparr>"
  shows "\<exists>rs. store_state s pc1 type n st = Some (st\<lparr>state_stack := rs # state_stack st\<rparr>) \<and> base_ok s D (st\<lparr>state_stack := rs # state_stack st\<rparr>)"
proof -
  let ?rs = "\<lparr>rs_type = type, rs_stack_len = d, rs_count = n, rs_cptr = cptr st, rs_pc = pc1,
      rs_capture = take (2 * capture_count s) (capture st), rs_stack = take d (stack st)\<rparr>"
  have "(length (state_stack st) + 1) * state_size s \<le> state_stack_bytes st"
    using assms(2,3) mult_le_mono1 [of "length (state_stack st) + 1" "state_stack_size st" "state_size s"] by (simp add: base_ok_def)
  moreover have "caps_ok s (take (2 * capture_count s) (capture st))" using assms(2) by (auto simp: base_ok_def caps_ok_def dest: in_set_takeD)
  then have "frame_ok s D ?rs" by (intro frame) (use assms(2,5) in \<open>auto simp: base_ok_def\<close>)
  moreover have "d mod 256 = d" using assms(1,5) by (simp add: ctx_ok_def)
  ultimately show ?thesis using assms(2-5) by (intro exI [of _ ?rs]) (simp add: store_state_def arr_slice_def base_ok_def)
qed

text \<open>\<open>pushes st st'\<close>: the state with one more entry, and the same position.\<close>

definition pushes :: "re_st \<Rightarrow> re_st \<Rightarrow> bool" where
  "pushes st st' \<longleftrightarrow> (\<exists>rs k b. st' = st\<lparr>state_stack_size := k, state_stack_bytes := b, state_stack := rs # state_stack st\<rparr>)"

lemma push_or_fail_ok:
  assumes "ctx_ok s D" "at_op s D st d" "D (pc st) = Some d"
    and frame: "\<And>buf stk. length buf = 2 * capture_count s \<Longrightarrow> caps_ok s buf \<Longrightarrow> length stk = d \<Longrightarrow>
      frame_ok s D \<lparr>rs_type = type, rs_stack_len = d, rs_count = n, rs_cptr = cptr st, rs_pc = pc1, rs_capture = buf, rs_stack = stk\<rparr>"
  shows "\<exists>k st'. push_or_fail s pc1 type n st = Some (k, st') \<and> out_ok s D (k, st') \<and> (k = K_next \<and> pushes st st' \<or> k = K_ret LRE_RET_MEMORY_ERROR)"
proof -
  have b: "base_ok s D st" "stack_len st = int d" "d \<le> stack_size_max s" "cptr st \<le> length (cbuf s)" using assms(2) by (simp_all add: at_op_def)
  obtain r st1 where g: "grow_states s st = (r, st1)" "r = 0 \<or> r = - 1" "base_ok s D st1"
    "r = 0 \<longrightarrow> length (state_stack st1) < state_stack_size st1" "\<exists>k b. st1 = st\<lparr>state_stack_size := k, state_stack_bytes := b\<rparr>"
    using assms(1) b(1) by (rule grow_states_ok)
  show ?thesis
  proof (cases "r = 0")
    case True
    obtain rs where "store_state s pc1 type n st1 = Some (st1\<lparr>state_stack := rs # state_stack st1\<rparr>)"
        "base_ok s D (st1\<lparr>state_stack := rs # state_stack st1\<rparr>)"
      using store_state_ok [OF assms(1) g(3), of d type n pc1] True g(4,5) b frame by auto
    moreover have "pushes st (st1\<lparr>state_stack := rs # state_stack st1\<rparr>)" 
      using g(5) unfolding pushes_def by fastforce
    ultimately show ?thesis using True g b assms(3)
      by (auto simp: push_or_fail_def push_state_def out_ok_def st_ok_def)
  next
    case False
    with g show ?thesis by (auto simp: push_or_fail_def push_state_def out_ok_def)
  qed
qed

lemma op_split_ok:
  assumes "ctx_ok s D" "at_op s D st d" "pc st = p + 1" "jump_ok s D p d" "D (p + 5) = Some d"
  shows "\<exists>out. op_split s b st = Some out \<and> out_ok s D out"
proof -
  obtain val t where v: "get_u32 (bc_buf s) (pc st) = Some val" "re_jump s (pc st + 4) val = Some t" "D t = Some d"
    using jump_okE [OF assms(4,3)] by blast
  have f: "\<exists>out. push_or_fail s q RE_EXEC_STATE_SPLIT 0 (st\<lparr>pc := q'\<rparr>) = Some out \<and> out_ok s D out" if "D q = Some d" "D q' = Some d" for q q'
    using push_or_fail_ok [OF assms(1), of "st\<lparr>pc := q'\<rparr>" d RE_EXEC_STATE_SPLIT 0 q] assms(2) that
    by (fastforce simp: at_op_def frame_ok_def)
  have "pc st + 4 = p + 5" using assms(3) by simp
  then show ?thesis using f [OF v(3) assms(5)] f [OF assms(5) v(3)] v(1,2) by (simp add: op_split_def Let_def add.commute)
qed

lemma op_lookahead_ok:
  assumes "ctx_ok s D" "at_op s D st d" "pc st = p + 1" "jump_ok s D p d" "D (p + 5) = Some d" "ty \<noteq> RE_EXEC_STATE_GREEDY_QUANT"
  shows "\<exists>out. op_lookahead s ty st = Some out \<and> out_ok s D out"
proof -
  obtain val t where v: "get_u32 (bc_buf s) (pc st) = Some val" "re_jump s (pc st + 4) val = Some t" "D t = Some d"
    using jump_okE [OF assms(4,3)] by blast
  have "\<exists>out. push_or_fail s t ty 0 (st\<lparr>pc := p + 5\<rparr>) = Some out \<and> out_ok s D out"
    using push_or_fail_ok [OF assms(1), of "st\<lparr>pc := p + 5\<rparr>" d ty 0 t] assms(2,5,6) v(3)
    by (fastforce simp: at_op_def frame_ok_def)
  moreover have "pc st + 4 = p + 5" using assms(3) by simp
  ultimately show ?thesis using v(1,2) by (simp add: op_lookahead_def Let_def add.commute)
qed

lemma canon_eq_ok: "\<exists>b. canon_eq s c1 c2 = Some b"
  using re_canon_ok [of s c1] re_canon_ok [of s c2] by (auto simp: canon_eq_def)

lemma back_ref_loop_ok:
  assumes "q_end \<le> length (cbuf s)" "p \<le> length (cbuf s)"
  shows "\<exists>r. back_ref_loop s q q_end p = Some r \<and> (\<forall>p'. r = Some p' \<longrightarrow> p' \<le> length (cbuf s))"
  using assms
proof (induction s q q_end p rule: back_ref_loop.induct)
  case (1 s q q_end p)
  show ?case
  proof (cases "q < q_end \<and> p < length (cbuf s)")
    case True
    obtain c1 q' where g1: "GET_CHAR s q q_end = Some (c1, q')" "q' \<le> q_end"
      using GET_CHAR_ok [of q q_end s] True 1(2) by auto
    obtain c2 p' where g2: "GET_CHAR s p (length (cbuf s)) = Some (c2, p')" "p' \<le> length (cbuf s)"
      using GET_CHAR_ok [of p "length (cbuf s)" s] True by auto
    obtain b where b: "canon_eq s c1 c2 = Some b" using canon_eq_ok by blast
    show ?thesis
    proof (cases b)
      case True
      then show ?thesis using 1(1) [of "(c1, q')" c1 q' "(c2, p')" c2 p' b] \<open>q < q_end \<and> _\<close> 1(2) g1 g2 b
        by (subst back_ref_loop.simps) simp
    qed (use True g1 g2 b in \<open>simp add: back_ref_loop.simps\<close>)
  qed (use 1(2-) in \<open>auto simp: back_ref_loop.simps\<close>)
qed

lemma backward_back_ref_loop_ok:
  assumes "q \<le> length (cbuf s)" "p \<le> length (cbuf s)"
  shows "\<exists>r. backward_back_ref_loop s q_start q p = Some r \<and> (\<forall>p'. r = Some p' \<longrightarrow> p' \<le> length (cbuf s))"
  using assms
proof (induction s q_start q p rule: backward_back_ref_loop.induct)
  case (1 s q_start q p)
  show ?case
  proof (cases "q_start < q \<and> 0 < p")
    case True
    obtain c1 q' where g1: "GET_PREV_CHAR s q q_start = Some (c1, q')" "q' < q"
      using GET_PREV_CHAR_ok [of q q_start s] True 1(2) by auto
    obtain c2 p' where g2: "GET_PREV_CHAR s p 0 = Some (c2, p')" "p' < p"
      using GET_PREV_CHAR_ok [of p 0 s] True 1(3) by auto
    obtain b where b: "canon_eq s c1 c2 = Some b" using canon_eq_ok by blast
    show ?thesis
    proof (cases b)
      case True
      then show ?thesis using 1(1) [of "(c1, q')" c1 q' "(c2, p')" c2 p' b] \<open>q_start < q \<and> _\<close> 1(2,3) g1 g2 b
        by (subst backward_back_ref_loop.simps) simp
    qed (use True g1 g2 b in \<open>simp add: backward_back_ref_loop.simps\<close>)
  qed (use 1(2-) in \<open>auto simp: backward_back_ref_loop.simps\<close>)
qed

lemma op_back_reference_ok:
  assumes "at_op s D st d" "D (pc st + 1) = Some d" "pc st < length (bc_buf s)"
  shows "\<exists>out. op_back_reference s b st = Some out \<and> out_ok s D out"
proof -
  obtain v where v: "arr_get (bc_buf s) (pc st) = Some v" using assms(3) by (simp add: arr_get_def)
  have base: "base_ok s D st" "cptr st \<le> length (cbuf s)" "stack_len st = int d" using assms(1) by (simp_all add: at_op_def)
  show ?thesis
  proof (cases "unat v < capture_count s")
    case True
    then have l: "2 * unat v + 1 < length (capture st)" using base by (simp add: base_ok_def)
    then have c: "arr_get (capture st) (2 * unat v) = Some (capture st ! (2 * unat v))"
      "arr_get (capture st) (2 * unat v + 1) = Some (capture st ! (2 * unat v + 1))" by (simp_all add: arr_get_def)
    show ?thesis
    proof (cases "\<exists>q1 q2. capture st ! (2 * unat v) = Some q1 \<and> capture st ! (2 * unat v + 1) = Some q2")
      case True
      then obtain q1 q2 where q: "capture st ! (2 * unat v) = Some q1" "capture st ! (2 * unat v + 1) = Some q2" by blast
      have "q2 \<le> length (cbuf s)" using base(1) l q(2) nth_mem [OF l] by (simp add: base_ok_def caps_ok_def)
      then obtain r where "(if b then backward_back_ref_loop s q1 q2 (cptr st) else back_ref_loop s q1 q2 (cptr st)) = Some r"
          "\<forall>p'. r = Some p' \<longrightarrow> p' \<le> length (cbuf s)"
        using back_ref_loop_ok [of q2 s "cptr st" q1] backward_back_ref_loop_ok [of q2 s "cptr st" q1] base(2) by (cases b) auto
      with \<open>unat v < _\<close> v c q base assms(2) show ?thesis
        by (cases r) (auto simp: op_back_reference_def out_ok_def st_ok_def Let_def)
    next
      case False
      then have "op_back_reference s b st = Some (K_next, st\<lparr>pc := pc st + 1\<rparr>)"
        using \<open>unat v < _\<close> v c by (auto simp: op_back_reference_def Let_def split: option.splits)
      with base assms(2) show ?thesis by (simp add: out_ok_def st_ok_def)
    qed
  qed (use v base in \<open>simp add: op_back_reference_def out_ok_def\<close>)
qed

text \<open>
  The binary search stays inside of the intervals: when the index is zero, the character is not below
  the low bound, so the index does not wrap around.
\<close>

lemma range_search_ok:
  assumes get: "\<And>i. i < n \<Longrightarrow> \<exists>l h. get (base + i * (2 * w)) = Some l \<and> get (base + i * (2 * w) + w) = Some h"
    and first: "get base = Some l0" "l0 \<le> c" and n: "n < 2 ^ 16"
    and "unat idx_max < n"
  shows "\<exists>b. range_search get base w c idx_min idx_max = Some b"
  using assms(5)
proof (induction "Suc (unat idx_max) - unat idx_min" arbitrary: idx_min idx_max rule: less_induct)
  case less
  show ?case
  proof (cases "idx_min \<le> idx_max")
    case True
    define idx where "idx = (idx_min + idx_max) div 2"
    have le: "unat idx_min \<le> unat idx_max" using True by (simp add: word_le_nat_alt)
    have "unat (idx_min + idx_max) = unat idx_min + unat idx_max"
      using less.prems le n by (intro unat_add_lem [THEN iffD1]) simp
    then have idx: "unat idx = (unat idx_min + unat idx_max) div 2" by (simp add: idx_def unat_div)
    then have b: "unat idx_min \<le> unat idx" "unat idx \<le> unat idx_max" using le by auto
    obtain l h where lh: "get (base + unat idx * (2 * w)) = Some l" "get (base + unat idx * (2 * w) + w) = Some h"
      using get [of "unat idx"] b(2) less.prems by auto
    have step: "range_search get base w c idx_min idx_max =
        (if c < l then range_search get base w c idx_min (idx - 1)
         else if h < c then range_search get base w c (idx + 1) idx_max else Some True)"
      by (subst range_search.simps) (simp add: True idx_def [symmetric] lh)
    show ?thesis
    proof (cases "c < l")
      case c: True
      then have "unat idx \<noteq> 0" using lh(1) first by (metis add_0_right mult_0 not_less option.inject)
      then have "unat (idx - 1) = unat idx - 1" by (simp add: unat_minus_one unat_gt_0)
      then show ?thesis using less.hyps [of "idx - 1" idx_min] less.prems b step c \<open>unat idx \<noteq> 0\<close> by simp
    next
      case c: False
      have "unat (idx + 1) = unat idx + 1" using b less.prems n by (intro unat_add_lem [THEN iffD1, THEN trans]) simp_all
      then show ?thesis using less.hyps [of idx_max "idx + 1"] less.prems b step c by (cases "h < c") auto
    qed
  qed (use range_search.simps [of get base w c idx_min idx_max] in auto)
qed

lemma range_lookup_ok:
  assumes get: "\<And>i. i < unat n \<Longrightarrow> \<exists>l h. get (base + i * (2 * w)) = Some l \<and> get (base + i * (2 * w) + w) = Some h"
    and "0 < unat n" "unat n < 2 ^ 16"
  shows "\<exists>b. range_lookup get base w oe n c = Some b"
proof -
  obtain l0 where l0: "get base = Some l0" using get [of 0] assms(2) by auto
  have "unat (n - 1) = unat n - 1" using assms(2) by (simp add: unat_minus_one unat_gt_0)
  then have n: "unat (n - 1) < unat n" using assms(2) by simp
  then obtain h where h: "get (base + unat (n - 1) * (2 * w) + w) = Some h" using get by blast
  show ?thesis using range_search_ok [OF get l0, where idx_max = "n - 1" and idx_min = 0] n h l0 assms(3)
    by (auto simp: range_lookup_def Let_def not_less)
qed

lemma op_range_gen_ok:
  assumes "at_op s D st d" "get_u16 (bc_buf s) (pc st) = Some n" "0 < unat n" "D (pc st + 2 + 2 * w * unat n) = Some d"
    and get: "\<And>i. i < unat n \<Longrightarrow> \<exists>l h. get (pc st + 2 + i * (2 * w)) = Some l \<and> get (pc st + 2 + i * (2 * w) + w) = Some h"
  shows "\<exists>out. op_range_gen s get w oe st = Some out \<and> out_ok s D out"
proof (cases "cptr st < length (cbuf s)")
  case True
  have n: "unat n < 2 ^ 16" using assms(2) by (rule get_u16_less)
  obtain c p where g: "GET_CHAR s (cptr st) (length (cbuf s)) = Some (c, p)" "p \<le> length (cbuf s)"
    using GET_CHAR_ok [of "cptr st" "length (cbuf s)" s] True by auto
  obtain c' where "re_canon s c = Some c'" using re_canon_ok by blast
  moreover obtain b where "range_lookup get (pc st + 2) w oe n c' = Some b" using range_lookup_ok [OF get assms(3) n] by blast
  ultimately show ?thesis using True g assms(1,2,4) by (auto simp: op_range_gen_def out_ok_def at_op_def st_ok_def Let_def)
qed (use assms in \<open>simp add: op_range_gen_def out_ok_def at_op_def Let_def\<close>)

lemma re_instr_range:
  assumes "re_instr bc p = Some (REOP_range, len)" "reop_size REOP_range < len"
  obtains n where "get_u16 bc (p + 1) = Some n" "len = 3 + 4 * unat n" "0 < unat n"
  using assms by (auto simp: re_instr_def bind_eq_Some_conv)

lemma re_instr_range32:
  assumes "re_instr bc p = Some (REOP_range32, len)" "reop_size REOP_range32 < len"
  obtains n where "get_u16 bc (p + 1) = Some n" "len = 3 + 8 * unat n" "0 < unat n"
  using assms by (auto simp: re_instr_def bind_eq_Some_conv)

lemma op_range_ok:
  assumes "at_op s D st d" "pc st = p + 1" "re_instr (bc_buf s) p = Some (REOP_range, len)" "p + len \<le> length (bc_buf s)"
    "reop_size REOP_range < len" "D (p + len) = Some d"
  shows "\<exists>out. op_range s st = Some out \<and> out_ok s D out"
proof -
  obtain n where n: "get_u16 (bc_buf s) (p + 1) = Some n" "len = 3 + 4 * unat n" "0 < unat n"
    using assms(3,5) by (rule re_instr_range)
  have "\<exists>l h. get_u16 (bc_buf s) (pc st + 2 + i * (2 * 2)) = Some l \<and> get_u16 (bc_buf s) (pc st + 2 + i * (2 * 2) + 2) = Some h"
    if "i < unat n" for i
  proof -
    have "4 * i + 4 \<le> 4 * unat n" using that by simp
    then have "pc st + 2 + i * (2 * 2) + 2 + 2 \<le> length (bc_buf s)" using assms(2,4) n(2) by linarith
    then show ?thesis using get_u16_some [of "pc st + 2 + i * (2 * 2)"] get_u16_some [of "pc st + 2 + i * (2 * 2) + 2"] by simp
  qed
  moreover have "pc st + 2 + 2 * 2 * unat n = p + len" using assms(2) n(2) by simp
  ultimately show ?thesis unfolding op_range_def
    by (intro op_range_gen_ok [OF assms(1), of n 2]) (use assms(2,6) n(1,3) in \<open>simp_all only:\<close>)
qed

lemma op_range32_ok:
  assumes "at_op s D st d" "pc st = p + 1" "re_instr (bc_buf s) p = Some (REOP_range32, len)" "p + len \<le> length (bc_buf s)"
    "reop_size REOP_range32 < len" "D (p + len) = Some d"
  shows "\<exists>out. op_range32 s st = Some out \<and> out_ok s D out"
proof -
  obtain n where n: "get_u16 (bc_buf s) (p + 1) = Some n" "len = 3 + 8 * unat n" "0 < unat n"
    using assms(3,5) by (rule re_instr_range32)
  have "\<exists>l h. get_u32 (bc_buf s) (pc st + 2 + i * (2 * 4)) = Some l \<and> get_u32 (bc_buf s) (pc st + 2 + i * (2 * 4) + 4) = Some h"
    if "i < unat n" for i
  proof -
    have "8 * i + 8 \<le> 8 * unat n" using that by simp
    then have "pc st + 2 + i * (2 * 4) + 4 + 4 \<le> length (bc_buf s)" using assms(2,4) n(2) by linarith
    then show ?thesis using get_u32_some [of "pc st + 2 + i * (2 * 4)"] get_u32_some [of "pc st + 2 + i * (2 * 4) + 4"] by simp
  qed
  moreover have "pc st + 2 + 2 * 4 * unat n = p + len" using assms(2) n(2) by simp
  ultimately show ?thesis unfolding op_range32_def
    by (intro op_range_gen_ok [OF assms(1), of n 4]) (use assms(2,6) n(1,3) in \<open>simp_all only:\<close>)
qed

section \<open>The switch\<close>

lemma re_instr_op: "re_instr bc p = Some (op, len) \<Longrightarrow> Option.bind (arr_get bc p) re_opcode = Some op \<and> reop_size op \<le> len"
  by (auto simp: re_instr_def bind_eq_Some_conv)

lemma re_instr_fixed:
  "re_instr bc p = Some (op, len) \<Longrightarrow> op \<noteq> REOP_range \<Longrightarrow> op \<noteq> REOP_range32 \<Longrightarrow> len = reop_size op"
  by (cases op) (auto simp: re_instr_def bind_eq_Some_conv)

text \<open>The opcodes of the body of a greedy quantifier.\<close>

definition char_ops :: "reop set" where
  "char_ops = {REOP_range, REOP_range32, REOP_char, REOP_char32, REOP_dot, REOP_any}"

definition test_ops :: "reop set" where
  "test_ops = {REOP_line_start, REOP_line_end, REOP_word_boundary, REOP_not_word_boundary}"

lemma body_chars_cases:
  assumes "body_chars bc p = Some n"
  obtains len where "re_instr bc p = Some (REOP_match, len)" "n = 0"
  | op len m where "re_instr bc p = Some (op, len)" "op \<in> char_ops" "n = Suc m" "body_chars bc (p + len) = Some m"
  | op where "re_instr bc p = Some (op, 1)" "op \<in> test_ops" "body_chars bc (p + 1) = Some n"
  using assms
  by (subst (asm) body_chars.simps)
    (auto simp: char_ops_def test_ops_def split: option.splits prod.splits if_splits dest: re_instr_fixed)

definition out_safe :: "re_ctx \<Rightarrow> depths \<Rightarrow> re_out \<Rightarrow> bool" where
  "out_safe s D r \<longleftrightarrow> (\<exists>out. r = Some out \<and> out_ok s D out)"

lemmas jump_safe = op_split_ok op_lookahead_ok op_goto_ok op_loop_ok op_range_ok op_range32_ok

lemmas op_safe = op_dot_ok op_any_ok op_line_start_ok op_line_end_ok op_word_boundary_ok op_prev_ok op_save_ok op_save_reset_ok
  op_push_char_pos_ok op_push_i32_ok op_drop_ok op_check_advance_ok op_back_reference_ok

lemma re_switch_ok:
  assumes "ctx_ok s D" "st_ok s D st" "re_instr (bc_buf s) (pc st) = Some (op, len)" "op \<noteq> REOP_simple_greedy_quant"
  shows "out_safe s D (re_switch s op (st\<lparr>pc := pc st + 1\<rparr>))"
proof -
  define d where "d = nat (stack_len st)"
  have D: "D (pc st) = Some d" "stack_len st = int d" using assms(2) by (simp_all add: st_ok_def d_def)
  have i: "instr_ok s D (pc st) d" "d \<le> stack_size_max s" using assms(1) D(1) by (simp_all add: ctx_ok_def)
  then have ok: "op_ok s D (pc st) d len op" "pc st + len \<le> length (bc_buf s)" and at: "at_op s D (st\<lparr>pc := pc st + 1\<rparr>) d"
    using assms(2,3) D(2) by (simp_all add: instr_ok_def at_op_def st_ok_def)
  let ?st = "st\<lparr>pc := pc st + 1\<rparr>"
  have room: "d < stack_size_max s" if "D q = Some (d + 1)" for q
    using assms(1) that by (force simp: ctx_ok_def)
  have at': "at_op s D (?st\<lparr>pc := q\<rparr>) d" for q using at by (simp add: at_op_def)
  show ?thesis
  proof (cases op)
    case REOP_char
    then have "len = 3" using re_instr_fixed [OF assms(3)] by simp
    then show ?thesis using REOP_char ok get_u16_some [of "pc st + 1" "bc_buf s"] test_char_ok [OF at', folded out_safe_def]
      by (auto simp: op_char_def numeral_eq_Suc)
  next
    case REOP_char32
    then have "len = 5" using re_instr_fixed [OF assms(3)] by simp
    then show ?thesis using REOP_char32 ok get_u32_some [of "pc st + 1" "bc_buf s"] test_char_ok [OF at', folded out_safe_def]
      by (auto simp: op_char32_def numeral_eq_Suc)
  next
    case REOP_match
    then show ?thesis using at by (simp add: out_safe_def out_ok_def at_op_def)
  next
    case REOP_push_i32
    then have "len = 5" using re_instr_fixed [OF assms(3)] by simp
    then show ?thesis using REOP_push_i32 ok room op_push_i32_ok [OF at, folded out_safe_def] by (simp add: numeral_eq_Suc)
  next
    case REOP_push_char_pos
    then have "len = 1" using re_instr_fixed [OF assms(3)] by simp
    then show ?thesis using REOP_push_char_pos ok room op_push_char_pos_ok [OF at, folded out_safe_def] by simp
  qed (use ok re_instr_fixed [OF assms(3)] assms(1,3,4) at in
      \<open>auto simp: numeral_eq_Suc intro: jump_safe [folded out_safe_def, where p = "pc st"] op_safe [folded out_safe_def]\<close>)
qed

end
