(* ===== verification/Lre_Safe.thy ===== *)
theory Lre_Safe
  imports Lre_Type
begin

text \<open>
  Type safety of the matcher: on typed code \<open>lre_exec_backtrack\<close> is never undefined, whatever the
  fuel, the input, the host's allocator and its timeouts, and what it returns is a documented value
  with captures inside of the input.
\<close>

section \<open>Backtracking keeps the invariant\<close>

lemma typed_depth: "ctx_ok s D \<Longrightarrow> D p = Some d \<Longrightarrow> d \<le> stack_size_max s"
  by (simp add: ctx_ok_def)

lemma typed_instr:
  assumes "ctx_ok s D" "D p = Some d" "re_instr (bc_buf s) p = Some (op, len)"
  shows "op_ok s D p d len op" "p + len \<le> length (bc_buf s)"
proof -
  have "instr_ok s D p d" using assms(1,2) by (simp add: ctx_ok_def)
  then show "op_ok s D p d len op" "p + len \<le> length (bc_buf s)" using assms(3) by (simp_all add: instr_ok_def)
qed

lemma frame_depth: "ctx_ok s D \<Longrightarrow> frame_ok s D rs \<Longrightarrow> rs_stack_len rs \<le> stack_size_max s"
  by (auto simp: frame_ok_def dest: typed_depth split: if_splits)

lemma restore_stack_ok:
  assumes "ctx_ok s D" "frame_ok s D rs" "length (stack st) = stack_size_max s"
  obtains stk where "restore_stack rs st = Some (st\<lparr>stack := stk, stack_len := int (rs_stack_len rs)\<rparr>)" "length stk = stack_size_max s"
  using assms frame_depth [OF assms(1,2)] by (simp add: restore_stack_def arr_slice_def arr_write_def frame_ok_def)

lemma restore_capture_ok:
  assumes "frame_ok s D rs" "2 * capture_count s \<le> length (capture st)" "caps_ok s (capture st)"
  obtains cap where "restore_capture s rs st = Some (st\<lparr>capture := cap\<rparr>)" "length cap = length (capture st)" "caps_ok s cap"
proof
  let ?cap = "rs_capture rs @ drop (2 * capture_count s) (capture st)"
  show "restore_capture s rs st = Some (st\<lparr>capture := ?cap\<rparr>)" "length ?cap = length (capture st)" "caps_ok s ?cap"
    using assms by (auto simp: restore_capture_def arr_slice_def arr_write_def frame_ok_def caps_ok_def dest: in_set_dropD)
qed

text \<open>What a round of the loop knows: \<open>rs\<close> is the entry on top.\<close>

lemma base_ok_top:
  assumes "base_ok s D (st\<lparr>state_stack := rs # rest\<rparr>)"
  shows "frame_ok s D rs" "2 * capture_count s \<le> length (capture st)" "caps_ok s (capture st)" "length (stack st) = stack_size_max s"
  using assms by (simp_all add: base_ok_def)

lemma base_ok_restored:
  assumes "base_ok s D (st\<lparr>state_stack := rs # rest\<rparr>)" "caps_ok s cap" "length cap = length (capture st)" "length stk = stack_size_max s"
    "fs = rest \<or> fs = rs' # rest \<and> frame_ok s D rs'"
  shows "base_ok s D (st\<lparr>capture := cap, stack := stk, state_stack := fs\<rparr>)"
  using assms by (auto simp: base_ok_def)

lemma pop_state1_ok:
  assumes "ctx_ok s D" "base_ok s D (st\<lparr>state_stack := rs # rest\<rparr>)" "rs_type rs \<noteq> RE_EXEC_STATE_GREEDY_QUANT"
  shows "out_safe s D (pop_state1 rs rest st)"
proof -
  note top = base_ok_top [OF assms(2)]
  obtain stk where r: "restore_stack rs st = Some (st\<lparr>stack := stk, stack_len := int (rs_stack_len rs)\<rparr>)" "length stk = stack_size_max s"
    using restore_stack_ok [OF assms(1) top(1,4)] .
  have "base_ok s D (st\<lparr>stack := stk, state_stack := rest\<rparr>)"
    using assms(2) r(2) by (simp add: base_ok_def)
  with r top(1) assms(3) show ?thesis
    by (auto simp: pop_state1_def out_safe_def out_ok_def st_ok_def frame_ok_def base_ok_def)
qed

lemma pop_state_ok:
  assumes "ctx_ok s D" "base_ok s D (st\<lparr>state_stack := rs # rest\<rparr>)" "rs_type rs \<noteq> RE_EXEC_STATE_GREEDY_QUANT"
  shows "out_safe s D (pop_state s rs rest st)"
proof -
  note top = base_ok_top [OF assms(2)]
  obtain cap where c: "restore_capture s rs st = Some (st\<lparr>capture := cap\<rparr>)" "length cap = length (capture st)" "caps_ok s cap"
    using restore_capture_ok [OF top(1,2,3)] .
  have "base_ok s D (st\<lparr>capture := cap, state_stack := rs # rest\<rparr>)" using assms(2) c by (simp add: base_ok_def)
  then show ?thesis using pop_state1_ok [OF assms(1) _ assms(3), where st = "st\<lparr>capture := cap\<rparr>"] c(1)
    by (simp add: pop_state_def)
qed

lemma greedy_frame:
  assumes "ctx_ok s D" "frame_ok s D rs" "rs_type rs = RE_EXEC_STATE_GREEDY_QUANT"
  obtains n v t where "get_u32 (bc_buf s) (rs_pc rs + 12) = Some n" "get_u32 (bc_buf s) (rs_pc rs) = Some v"
    "re_jump s (rs_pc rs + 16) v = Some t" "D t = Some (rs_stack_len rs)" "0 < rs_count rs" "rs_count rs * unat n \<le> rank s (rs_cptr rs)"
proof -
  obtain p len n where p: "rs_pc rs = p + 1" "D p = Some (rs_stack_len rs)" "re_instr (bc_buf s) p = Some (REOP_simple_greedy_quant, len)"
      "get_u32 (bc_buf s) (p + 13) = Some n" "0 < rs_count rs" "rs_count rs * unat n \<le> rank s (rs_cptr rs)"
    using assms(2,3) by (auto simp: frame_ok_def)
  have "greedy_ok s D p (rs_stack_len rs)" using typed_instr(1) [OF assms(1) p(2,3)] by simp
  then obtain v t where "get_u32 (bc_buf s) (p + 1) = Some v" "re_jump s (p + 17) v = Some t" "D t = Some (rs_stack_len rs)"
    by (auto simp: greedy_ok_def bind_eq_Some_conv split: option.splits)
  with p that show ?thesis by (simp add: add.commute)
qed

lemma greedy_back_ok:
  assumes "ctx_ok s D" "base_ok s D (st\<lparr>state_stack := rs # rest\<rparr>)" "rs_type rs = RE_EXEC_STATE_GREEDY_QUANT"
  shows "out_safe s D (greedy_back s rs rest st)"
proof -
  note top = base_ok_top [OF assms(2)]
  obtain cap where c: "restore_capture s rs st = Some (st\<lparr>capture := cap\<rparr>)" "length cap = length (capture st)" "caps_ok s cap"
    using restore_capture_ok [OF top(1,2,3)] .
  obtain stk where k: "restore_stack rs (st\<lparr>capture := cap\<rparr>) = Some (st\<lparr>capture := cap, stack := stk, stack_len := int (rs_stack_len rs)\<rparr>)"
      "length stk = stack_size_max s"
    using restore_stack_ok [OF assms(1) top(1), of "st\<lparr>capture := cap\<rparr>"] top(4) by auto
  obtain n v t where g: "get_u32 (bc_buf s) (rs_pc rs + 12) = Some n" "get_u32 (bc_buf s) (rs_pc rs) = Some v"
      "re_jump s (rs_pc rs + 16) v = Some t" "D t = Some (rs_stack_len rs)" "0 < rs_count rs" "rs_count rs * unat n \<le> rank s (rs_cptr rs)"
    using greedy_frame [OF assms(1) top(1) assms(3)] .
  have q: "rs_cptr rs \<le> length (cbuf s)" using top(1) by (simp add: frame_ok_def)
  have mult: "rs_count rs * unat n = (rs_count rs - 1) * unat n + unat n"
    using g(5) by (cases "rs_count rs") simp_all
  then obtain p where p: "prev_chars s (unat n) (rs_cptr rs) = Some p" "p \<le> rs_cptr rs" "rank s (rs_cptr rs) \<le> rank s p + unat n"
    using prev_chars_ok [of "unat n" s "rs_cptr rs"] g(6) q by auto
  let ?rs = "rs\<lparr>rs_cptr := p, rs_count := rs_count rs - 1\<rparr>"
  have f: "frame_ok s D ?rs" if "rs_count rs - 1 \<noteq> 0"
    using top(1) assms(3) that p mult g(1,6) q by (auto simp: frame_ok_def add.commute)
  have "base_ok s D (st\<lparr>capture := cap, stack := stk, state_stack := (if rs_count ?rs = 0 then rest else ?rs # rest)\<rparr>)"
    by (rule base_ok_restored [OF assms(2) c(3,2) k(2)]) (use f in auto)
  with g c k p q show ?thesis
    by (auto simp: greedy_back_def out_safe_def out_ok_def st_ok_def base_ok_def Let_def)
qed

lemma lre_poll_timeout_ok:
  assumes "base_ok s D (st\<lparr>state_stack := fs\<rparr>)" "lre_poll_timeout s st = (t, st')"
  shows "base_ok s D (st'\<lparr>state_stack := fs\<rparr>)" "base_ok s D st \<longrightarrow> base_ok s D st'"
  using assms by (auto simp: lre_poll_timeout_def Let_def base_ok_def split: if_splits)

lemma recurse_ok:
  assumes "ctx_ok s D" "base_ok s D st" "base_ok s D (st\<lparr>state_stack := fs\<rparr>)"
  shows "out_safe s D (recurse s ret fs st)"
  using assms(2,3)
proof (induction fs arbitrary: st ret)
  case Nil
  then show ?case
    by (auto simp: recurse.simps out_safe_def out_ok_def Let_def split: prod.splits dest: lre_poll_timeout_ok)
next
  case (Cons rs rest)
  obtain t st' where p: "lre_poll_timeout s st = (t, st')" by fastforce
  note b = lre_poll_timeout_ok [OF Cons.prems(2) p]
  have rec: "out_safe s D (recurse s r rest st')" for r
    using Cons.IH [of st' r] b Cons.prems(1) by (auto simp: base_ok_def)
  show ?case
  proof (cases "t = 0")
    case True
    then show ?thesis using p rec pop_state_ok [OF assms(1) b(1)] pop_state1_ok [OF assms(1) b(1)] greedy_back_ok [OF assms(1) b(1)]
      by (subst recurse.simps) (auto split: REExecStateEnum.splits)
  next
    case False
    then show ?thesis using p b Cons.prems(1) by (subst recurse.simps) (simp add: out_safe_def out_ok_def)
  qed
qed

text \<open>The loop over the states ends with a state to go on with or with a return.\<close>

lemma recurse_kind: "recurse s ret fs st = Some (k, st') \<Longrightarrow> k = K_next \<or> (\<exists>r. k = K_ret r)"
proof (induction fs arbitrary: st ret)
  case Nil
  then show ?case by (auto simp: recurse.simps split: prod.splits if_splits)
next
  case (Cons rs rest)
  then show ?case
    by (subst (asm) (2) recurse.simps)
      (auto simp: pop_state_def pop_state1_def greedy_back_def bind_eq_Some_conv Let_def
        split: prod.splits if_splits REExecStateEnum.splits)
qed

section \<open>The body of a greedy quantifier\<close>

text \<open>The opcodes of such a body move in the code and in the input and change nothing else.\<close>

definition moves :: "re_st \<Rightarrow> re_st \<Rightarrow> bool" where
  "moves st st' \<longleftrightarrow>
     capture st' = capture st \<and> stack st' = stack st \<and> stack_len st' = stack_len st \<and> state_stack st' = state_stack st \<and>
     state_stack_size st' = state_stack_size st \<and> state_stack_bytes st' = state_stack_bytes st \<and>
     interrupt_counter st' = interrupt_counter st \<and> polls st' = polls st"

lemma moves_base: "moves st st' \<Longrightarrow> base_ok s D st' = base_ok s D st"
  by (simp add: moves_def base_ok_def)

lemma moves_trans: "moves st st' \<Longrightarrow> moves st' st'' \<Longrightarrow> moves st st''"
  by (simp add: moves_def)

lemma test_char_moves:
  assumes "test_char s val st = Some (k, st')"
  shows "moves st st' \<and> pc st' = pc st \<and> (k = K_no_match \<or> k = K_next \<and> rank s (cptr st') = rank s (cptr st) + 1)"
  using assms by (auto simp: test_char_def bind_eq_Some_conv moves_def split: if_splits prod.splits dest: GET_CHAR_rank)

lemma op_range_gen_moves:
  assumes "op_range_gen s get w oe st = Some (k, st')"
  shows "moves st st' \<and>
    (k = K_no_match \<or> k = K_next \<and> (\<forall>n. get_u16 (bc_buf s) (pc st) = Some n \<longrightarrow> pc st' = pc st + 2 + 2 * w * unat n) \<and>
      rank s (cptr st') = rank s (cptr st) + 1)"
  using assms by (auto simp: op_range_gen_def bind_eq_Some_conv moves_def Let_def split: if_splits prod.splits dest: GET_CHAR_rank)

lemma char_op_moves:
  assumes "re_switch s op (st\<lparr>pc := pc st + 1\<rparr>) = Some (k, st')" "op \<in> char_ops" "re_instr (bc_buf s) (pc st) = Some (op, len)"
  shows "moves st st' \<and> (k = K_no_match \<or> k = K_next \<and> pc st' = pc st + len \<and> rank s (cptr st') = rank s (cptr st) + 1)"
proof -
  have m: "moves (st\<lparr>pc := p\<rparr>) st' = moves st st'" for p by (simp add: moves_def)
  consider "op = REOP_range" | "op = REOP_range32" | "op \<in> {REOP_char, REOP_char32, REOP_dot, REOP_any}"
    using assms(2) by (auto simp: char_ops_def)
  then show ?thesis
  proof cases
    case 1
    then show ?thesis using assms(1,3) op_range_gen_moves [of s _ 2 True "st\<lparr>pc := pc st + 1\<rparr>" k st']
      by (auto simp: op_range_def re_instr_def bind_eq_Some_conv m)
  next
    case 2
    then show ?thesis using assms(1,3) op_range_gen_moves [of s _ 4 False "st\<lparr>pc := pc st + 1\<rparr>" k st']
      by (auto simp: op_range32_def re_instr_def bind_eq_Some_conv m)
  next
    case 3
    then have "len = reop_size op" using re_instr_fixed [OF assms(3)] by auto
    with 3 assms(1) show ?thesis
      by (auto simp: op_char_def op_char32_def op_dot_def op_any_def bind_eq_Some_conv moves_def split: if_splits prod.splits
          dest!: test_char_moves GET_CHAR_rank)
  qed
qed

lemma test_op_moves:
  assumes "re_switch s op (st\<lparr>pc := pc st + 1\<rparr>) = Some (k, st')" "op \<in> test_ops"
  shows "st' = st\<lparr>pc := pc st + 1\<rparr> \<and> (k = K_no_match \<or> k = K_next)"
  using assms by (auto simp: test_ops_def op_line_start_def op_line_end_def op_word_boundary_def bind_eq_Some_conv split: if_splits)

text \<open>Two units of fuel run one opcode.\<close>

lemma backtrack_step:
  assumes "re_instr (bc_buf s) (pc st) = Some (op, len)" "op \<noteq> REOP_simple_greedy_quant"
    "re_switch s op (st\<lparr>pc := pc st + 1\<rparr>) = Some out"
  shows "lre_exec_backtrack (Suc fuel) s nr st = re_dispatch fuel s nr out"
  using re_instr_op [OF assms(1)] assms(2,3) by (simp add: Let_def)

definition body_result :: "re_ctx \<Rightarrow> nat \<Rightarrow> re_st \<Rightarrow> (re_ret \<times> re_st) re_run \<Rightarrow> bool" where
  "body_result s n st r \<longleftrightarrow>
     (\<exists>st'. moves st st' \<and>
       (r = Done (Ret_int 0, st') \<or> (\<exists>p. r = Done (Ret_ptr p, st') \<and> p \<le> length (cbuf s) \<and> rank s p = rank s (cptr st) + n)))"

lemma body_result_moves:
  "body_result s m st1 r \<Longrightarrow> moves st st1 \<Longrightarrow> rank s (cptr st1) + m = rank s (cptr st) + n \<Longrightarrow> body_result s n st r"
  unfolding body_result_def by (metis moves_trans)

lemma body_step:
  assumes "ctx_ok s D" "st_ok s D st" "body_chars (bc_buf s) (pc st) = Some n"
  obtains k st1 where "\<forall>f nr. lre_exec_backtrack (Suc f) s nr st = re_dispatch f s nr (k, st1)" "moves st st1" "pc st < length (bc_buf s)"
    "k = K_match \<and> n = 0 \<and> cptr st1 = cptr st \<or> k = K_no_match \<or>
     k = K_next \<and> st_ok s D st1 \<and> pc st < pc st1 \<and>
       (\<exists>m. body_chars (bc_buf s) (pc st1) = Some m \<and> rank s (cptr st1) + m = rank s (cptr st) + n)"
  using assms(3)
proof (cases rule: body_chars_cases)
  case (1 len)
  show ?thesis
    by (rule that [of K_match "st\<lparr>pc := pc st + 1\<rparr>"])
      (use 1 re_instr_pos [OF 1(1)] in \<open>simp_all add: backtrack_step moves_def del: lre_exec_backtrack.simps\<close>)
next
  case (2 op len m)
  then have op: "op \<noteq> REOP_simple_greedy_quant" by (auto simp: char_ops_def)
  then obtain k st1 where k: "re_switch s op (st\<lparr>pc := pc st + 1\<rparr>) = Some (k, st1)" "out_ok s D (k, st1)"
    using re_switch_ok [OF assms(1,2) 2(1)] by (auto simp: out_safe_def)
  then show ?thesis using char_op_moves [OF k(1) 2(2,1)] backtrack_step [OF 2(1) op k(1)] re_instr_pos [OF 2(1)] 2(3,4)
    by (intro that [of k st1]) (auto simp: out_ok_def)
next
  case (3 op)
  then have op: "op \<noteq> REOP_simple_greedy_quant" by (auto simp: test_ops_def)
  then obtain k st1 where k: "re_switch s op (st\<lparr>pc := pc st + 1\<rparr>) = Some (k, st1)" "out_ok s D (k, st1)"
    using re_switch_ok [OF assms(1,2) 3(1)] by (auto simp: out_safe_def)
  then show ?thesis using test_op_moves [OF k(1) 3(2)] backtrack_step [OF 3(1) op k(1)] re_instr_pos [OF 3(1)] 3(3)
    by (intro that [of k st1]) (auto simp: out_ok_def moves_def)
qed

lemma body_run:
  assumes "ctx_ok s D" "st_ok s D st" "body_chars (bc_buf s) (pc st) = Some n"
  shows "lre_exec_backtrack fuel s True st = Out_of_fuel \<and> fuel < 2 * (length (bc_buf s) - pc st) + 2 \<or>
    body_result s n st (lre_exec_backtrack fuel s True st)"
  using assms(2,3)
proof (induction fuel arbitrary: st n rule: less_induct)
  case (less fuel)
  obtain k st1 where k: "\<forall>f nr. lre_exec_backtrack (Suc f) s nr st = re_dispatch f s nr (k, st1)" "moves st st1" "pc st < length (bc_buf s)"
    "k = K_match \<and> n = 0 \<and> cptr st1 = cptr st \<or> k = K_no_match \<or>
     k = K_next \<and> st_ok s D st1 \<and> pc st < pc st1 \<and>
       (\<exists>m. body_chars (bc_buf s) (pc st1) = Some m \<and> rank s (cptr st1) + m = rank s (cptr st) + n)"
    using body_step [OF assms(1) less.prems] .
  consider "fuel = 0" | "fuel = 1" | f where "fuel = Suc (Suc f)" by (metis One_nat_def not0_implies_Suc)
  then show ?case
  proof cases
    case 2
    then show ?thesis using k(1) by simp
  next
    case (3 f)
    have step: "lre_exec_backtrack fuel s True st = re_dispatch (Suc f) s True (k, st1)" using k(1) 3 by simp
    from k(4) consider (match) "k = K_match" "n = 0" "cptr st1 = cptr st" | (no_match) "k = K_no_match"
      | (nxt) m where "k = K_next" "st_ok s D st1" "pc st < pc st1" "body_chars (bc_buf s) (pc st1) = Some m"
          "rank s (cptr st1) + m = rank s (cptr st) + n" by blast
    then show ?thesis
    proof cases
      case nxt
      have "2 * (length (bc_buf s) - pc st1) + 2 \<le> 2 * (length (bc_buf s) - pc st)" using k(3) nxt(3) by simp
      then show ?thesis using less.IH [OF _ nxt(2,4), of f] step nxt(1) 3 body_result_moves [OF _ k(2) nxt(5)] by auto
    qed (use step k(2) less.prems(1) in \<open>auto simp: body_result_def st_ok_def\<close>)
  qed simp
qed

section \<open>More fuel does not change a result\<close>

lemma run_of_ub_mono:
  "run_of_ub r f \<noteq> Out_of_fuel \<Longrightarrow> (\<And>x. f x \<noteq> Out_of_fuel \<Longrightarrow> g x = f x) \<Longrightarrow> run_of_ub r g = run_of_ub r f"
  by (cases r) auto

lemma fuel_Suc:
  "lre_exec_backtrack fuel s nr st \<noteq> Out_of_fuel \<Longrightarrow> lre_exec_backtrack (Suc fuel) s nr st = lre_exec_backtrack fuel s nr st"
  "re_dispatch fuel s nr out \<noteq> Out_of_fuel \<Longrightarrow> re_dispatch (Suc fuel) s nr out = re_dispatch fuel s nr out"
  "greedy_loop fuel s pc1 qmax q st \<noteq> Out_of_fuel \<Longrightarrow> greedy_loop (Suc fuel) s pc1 qmax q st = greedy_loop fuel s pc1 qmax q st"
proof (induction fuel arbitrary: nr st out pc1 qmax q)
  case (Suc fuel)
  {
    case 1
    let ?body = "\<lambda>f op. let st = st\<lparr>pc := pc st + 1\<rparr>
       in if op = REOP_simple_greedy_quant then
          run_of_ub (greedy_args s (pc st)) (\<lambda>(pc1, pc2, quant_min, quant_max).
          case greedy_loop f s pc1 quant_max 0 st of
            Undefined \<Rightarrow> Undefined
          | Out_of_fuel \<Rightarrow> Out_of_fuel
          | Done (K_next, q, st') \<Rightarrow>
              run_of_ub (greedy_end s pc1 quant_min q (st'\<lparr>pc := pc2\<rparr>)) (re_dispatch f s nr)
          | Done (k, q, st') \<Rightarrow> re_dispatch f s nr (k, st'))
        else run_of_ub (re_switch s op st) (re_dispatch f s nr)"
    have body: "?body (Suc fuel) op = ?body fuel op" if "?body fuel op \<noteq> Out_of_fuel" for op
    proof (cases "op = REOP_simple_greedy_quant")
      case True
      let ?st = "st\<lparr>pc := pc st + 1\<rparr>"
      let ?loop = "\<lambda>f (pc1, pc2, quant_min, quant_max).
          case greedy_loop f s pc1 quant_max 0 ?st of
            Undefined \<Rightarrow> Undefined
          | Out_of_fuel \<Rightarrow> Out_of_fuel
          | Done (K_next, q, st') \<Rightarrow> run_of_ub (greedy_end s pc1 quant_min q (st'\<lparr>pc := pc2\<rparr>)) (re_dispatch f s nr)
          | Done (k, q, st') \<Rightarrow> re_dispatch f s nr (k, st')"
      have "?loop (Suc fuel) x = ?loop fuel x" if "?loop fuel x \<noteq> Out_of_fuel" for x
      proof -
        obtain pc1 pc2 qmin qmax where x: "x = (pc1, pc2, qmin, qmax)" using prod_cases4 by blast
        show ?thesis using that Suc.IH(3) [of pc1 qmax 0 ?st] Suc.IH(2)
          by (auto simp: x simp del: greedy_loop.simps re_dispatch.simps
              intro!: run_of_ub_mono split: re_run.splits re_kind.splits prod.splits)
      qed
      then show ?thesis using that True by (auto simp: Let_def intro!: run_of_ub_mono)
    next
      case False
      then show ?thesis using that Suc.IH(2) by (auto simp: Let_def intro!: run_of_ub_mono simp del: re_dispatch.simps)
    qed
    show ?case using 1 unfolding lre_exec_backtrack.simps by (rule run_of_ub_mono) (rule body)
  next
    case 2
    obtain k st1 where [simp]: "out = (k, st1)" by fastforce
    show ?case using 2 Suc.IH(1,2) by (cases k) (auto intro!: run_of_ub_mono simp del: lre_exec_backtrack.simps)
  next
    case 3
    obtain k st1 where p: "poll s st = (k, st1)" by fastforce
    note round = greedy_loop.simps(2) [of fuel s pc1 qmax q st] greedy_loop.simps(2) [of "Suc fuel" s pc1 qmax q st]
    show ?case using 3 Suc.IH(1) [of True "st1\<lparr>pc := pc1\<rparr>"] Suc.IH(3)
      by (cases k) (auto simp: round p Let_def simp del: lre_exec_backtrack.simps greedy_loop.simps
          split: re_run.splits re_ret.splits prod.splits if_splits)
  }
qed simp_all

lemma fuel_mono:
  assumes "fuel \<le> fuel'"
  shows "lre_exec_backtrack fuel s nr st \<noteq> Out_of_fuel \<Longrightarrow> lre_exec_backtrack fuel' s nr st = lre_exec_backtrack fuel s nr st"
    "re_dispatch fuel s nr out \<noteq> Out_of_fuel \<Longrightarrow> re_dispatch fuel' s nr out = re_dispatch fuel s nr out"
    "greedy_loop fuel s pc1 qmax q st \<noteq> Out_of_fuel \<Longrightarrow> greedy_loop fuel' s pc1 qmax q st = greedy_loop fuel s pc1 qmax q st"
proof -
  obtain k where k: "fuel' = fuel + k" using assms le_Suc_ex by blast
  show "lre_exec_backtrack fuel s nr st \<noteq> Out_of_fuel \<Longrightarrow> lre_exec_backtrack fuel' s nr st = lre_exec_backtrack fuel s nr st"
    unfolding k by (induction k) (simp, metis add_Suc_right fuel_Suc(1))
  show "re_dispatch fuel s nr out \<noteq> Out_of_fuel \<Longrightarrow> re_dispatch fuel' s nr out = re_dispatch fuel s nr out"
    unfolding k by (induction k) (simp, metis add_Suc_right fuel_Suc(2))
  show "greedy_loop fuel s pc1 qmax q st \<noteq> Out_of_fuel \<Longrightarrow> greedy_loop fuel' s pc1 qmax q st = greedy_loop fuel s pc1 qmax q st"
    unfolding k by (induction k) (simp, metis add_Suc_right fuel_Suc(3))
qed

lemma fuel_deterministic:
  assumes "lre_exec_backtrack fuel s nr st \<noteq> Out_of_fuel" "lre_exec_backtrack fuel' s nr st \<noteq> Out_of_fuel"
  shows "lre_exec_backtrack fuel s nr st = lre_exec_backtrack fuel' s nr st"
  using fuel_mono(1) assms by (metis nat_le_linear)

definition same_timer :: "re_st \<Rightarrow> re_st \<Rightarrow> bool" where
  "same_timer st st' \<longleftrightarrow> interrupt_counter st' = interrupt_counter st \<and> polls st' = polls st"

section \<open>The loop of a greedy quantifier\<close>

text \<open>The loop starts at \<open>st\<close> with \<open>q\<close> bodies matched so far, of \<open>n\<close> characters each.\<close>

definition greedy_inv :: "re_ctx \<Rightarrow> depths \<Rightarrow> nat \<Rightarrow> nat \<Rightarrow> nat \<Rightarrow> re_st \<Rightarrow> bool" where
  "greedy_inv s D d n q st \<longleftrightarrow>
     base_ok s D st \<and> cptr st \<le> length (cbuf s) \<and> stack_len st = int d \<and> q * n \<le> rank s (cptr st)"

definition greedy_result :: "re_ctx \<Rightarrow> depths \<Rightarrow> nat \<Rightarrow> nat \<Rightarrow> re_kind \<times> nat \<times> re_st \<Rightarrow> bool" where
  "greedy_result s D d n r \<longleftrightarrow>
     (case r of (k, q, st) \<Rightarrow> k = K_next \<and> greedy_inv s D d n q st \<or> k = K_ret LRE_RET_TIMEOUT \<and> base_ok s D st)"

lemma poll_cases:
  obtains st' where "poll s st = (K_next, st')" "st' = st\<lparr>interrupt_counter := interrupt_counter st', polls := polls st'\<rparr>"
  | st' where "poll s st = (K_ret LRE_RET_TIMEOUT, st')" "st' = st\<lparr>interrupt_counter := interrupt_counter st', polls := polls st'\<rparr>"
  by (cases "fst (lre_poll_timeout s st) = 0"; cases "interrupt_counter st - 1 \<le> 0")
    (auto simp: poll_def lre_poll_timeout_def Let_def split: if_splits)

text \<open>
  One round: the state to go on with, or the result.  Neither depends on the fuel, as long as
  it suffices for the body.
\<close>

lemma greedy_round:
  fixes qmax :: u32
  assumes "ctx_ok s D" "D pc1 = Some d" "body_chars (bc_buf s) pc1 = Some n" "greedy_inv s D d n q st"
  defines "enough \<equiv> \<lambda>fuel. greedy_loop (Suc fuel) s pc1 qmax q st \<noteq> Out_of_fuel \<or> 2 * length (bc_buf s) + 2 \<le> fuel"
    and "polled \<equiv> \<lambda>st'. fst (poll s st) = K_next \<and> same_timer (snd (poll s st)) st'"
  shows "(\<exists>k q' st'. (\<forall>fuel. enough fuel \<longrightarrow> greedy_loop (Suc fuel) s pc1 qmax q st = Done (k, q', st')) \<and>
       greedy_result s D d n (k, q', st') \<and> (k = K_next \<longrightarrow> polled st')) \<or>
    (\<exists>st'. (\<forall>fuel. enough fuel \<longrightarrow> greedy_loop (Suc fuel) s pc1 qmax q st = greedy_loop fuel s pc1 qmax (q + 1) st') \<and>
       greedy_inv s D d n (q + 1) st' \<and> polled st')"
proof (cases rule: poll_cases [of s st])
  case (1 st1)
  have b: "base_ok s D st1" "cptr st1 = cptr st" "stack_len st1 = int d"
    using assms(4) by (subst 1(2), simp add: greedy_inv_def)+
  have ok: "st_ok s D (st1\<lparr>pc := pc1\<rparr>)" using b assms(2,4) by (simp add: st_ok_def greedy_inv_def)
  let ?r = "\<lambda>fuel. lre_exec_backtrack fuel s True (st1\<lparr>pc := pc1\<rparr>)"
  define f where "f = 2 * length (bc_buf s) + 2"
  have body: "?r fuel = Out_of_fuel \<and> fuel < f \<or> body_result s n (st1\<lparr>pc := pc1\<rparr>) (?r fuel)" for fuel
    using body_run [OF assms(1) ok, of n fuel] assms(3) by (auto simp: f_def)
  have same: "?r fuel = ?r f" if "enough fuel" for fuel
  proof (rule fuel_deterministic)
    show "?r fuel \<noteq> Out_of_fuel" using that body [of fuel] 1(1) by (auto simp: enough_def f_def body_result_def)
    show "?r f \<noteq> Out_of_fuel" using body [of f] by (auto simp: body_result_def)
  qed
  from body [of f] consider
      st2 where "moves (st1\<lparr>pc := pc1\<rparr>) st2" "?r f = Done (Ret_int 0, st2)"
    | st2 p where "moves (st1\<lparr>pc := pc1\<rparr>) st2" "?r f = Done (Ret_ptr p, st2)" "p \<le> length (cbuf s)" "rank s p = rank s (cptr st) + n"
    using b(2) by (auto simp: body_result_def)
  then show ?thesis
  proof cases
    case (1 st2)
    let ?st = "st2\<lparr>pc := pc st1, cptr := cptr st1, stack_len := stack_len st1\<rparr>"
    have "base_ok s D st2" using moves_base [OF 1(1), of s D] b(1) by simp
    then have "greedy_inv s D d n q ?st" using b assms(4) by (simp add: greedy_inv_def)
    moreover have "polled ?st" using 1(1) \<open>poll s st = _\<close> by (simp add: moves_def polled_def same_timer_def)
    moreover have "greedy_loop (Suc fuel) s pc1 qmax q st = Done (K_next, q, ?st)" if "enough fuel" for fuel
      using same [OF that] 1(2) \<open>poll s st = _\<close> by (simp add: Let_def)
    ultimately show ?thesis
      by (intro disjI1 exI [of _ K_next] exI [of _ q] exI [of _ ?st]) (simp add: greedy_result_def)
  next
    case (2 st2 p)
    let ?st = "st2\<lparr>pc := pc st1, cptr := p, stack_len := stack_len st1\<rparr>"
    have "base_ok s D st2" using moves_base [OF 2(1), of s D] b(1) by simp
    then have inv: "greedy_inv s D d n (q + 1) ?st" using b assms(4) 2(3,4) by (simp add: greedy_inv_def)
    have pl: "polled ?st" using 2(1) 1(1) by (simp add: moves_def polled_def same_timer_def)
    have eq: "greedy_loop (Suc fuel) s pc1 qmax q st =
        (if unat qmax \<le> q + 1 \<and> qmax \<noteq> 0x7fffffff then Done (K_next, q + 1, ?st) else greedy_loop fuel s pc1 qmax (q + 1) ?st)"
      if "enough fuel" for fuel
      using same [OF that] 2(2) 1(1) by (simp add: Let_def)
    show ?thesis
    proof (cases "unat qmax \<le> q + 1 \<and> qmax \<noteq> 0x7fffffff")
      case True
      then show ?thesis using eq inv pl
        by (intro disjI1 exI [of _ K_next] exI [of _ "q + 1"] exI [of _ ?st]) (simp add: greedy_result_def)
    next
      case False
      then have "greedy_loop (Suc fuel) s pc1 qmax q st = greedy_loop fuel s pc1 qmax (q + 1) ?st" if "enough fuel" for fuel
        using eq [OF that] by (simp only: if_False)
      then show ?thesis using inv pl by blast
    qed
  qed
next
  case (2 st1)
  have "base_ok s D st1" using assms(4) by (subst 2(2)) (simp add: greedy_inv_def)
  then show ?thesis using 2(1)
    by (intro disjI1 exI [of _ "K_ret LRE_RET_TIMEOUT"] exI [of _ q] exI [of _ st1]) (simp add: greedy_result_def)
qed

lemma greedy_loop_safe:
  assumes "ctx_ok s D" "D pc1 = Some d" "body_chars (bc_buf s) pc1 = Some n" "greedy_inv s D d n q st"
  shows "greedy_loop fuel s pc1 qmax q st = Out_of_fuel \<or> (\<exists>r. greedy_loop fuel s pc1 qmax q st = Done r \<and> greedy_result s D d n r)"
  using assms(4)
proof (induction fuel arbitrary: q st)
  case (Suc fuel)
  from greedy_round [OF assms(1-3) Suc.prems, where qmax = qmax] Suc.IH show ?case by metis
qed simp

text \<open>The instruction of a typed quantifier, and what follows its loop.\<close>

lemma greedy_args_ok:
  assumes "ctx_ok s D" "D p = Some d" "re_instr (bc_buf s) p = Some (REOP_simple_greedy_quant, len)"
  obtains pc2 qmin qmax n where "greedy_args s (p + 1) = Some (p + 17, pc2, qmin, qmax)" "D (p + 17) = Some d" "D pc2 = Some d" "p < pc2"
    "get_u32 (bc_buf s) (p + 13) = Some n" "body_chars (bc_buf s) (p + 17) = Some (unat n)"
proof -
  have "len = 17" using re_instr_fixed [OF assms(3)] by simp
  then have l: "p + 17 \<le> length (bc_buf s)" and g: "greedy_ok s D p d" using typed_instr [OF assms] by simp_all
  obtain v t where v: "get_u32 (bc_buf s) (p + 1) = Some v" "re_jump s (p + 17) v = Some t" "p < t" "D t = Some d"
    using g by (auto simp: greedy_ok_def bind_eq_Some_conv split: option.splits)
  obtain qmin where "get_u32 (bc_buf s) (p + 5) = Some qmin" using get_u32_some [of "p + 5" "bc_buf s"] l by auto
  moreover obtain qmax where "get_u32 (bc_buf s) (p + 9) = Some qmax" using get_u32_some [of "p + 9" "bc_buf s"] l by auto
  moreover obtain n where "get_u32 (bc_buf s) (p + 13) = Some n" using get_u32_some [of "p + 13" "bc_buf s"] l by auto
  ultimately show ?thesis using v g
    by (intro that [of t qmin qmax n]) (simp_all add: greedy_args_def greedy_ok_def add.commute)
qed

lemma greedy_end_ok:
  assumes "ctx_ok s D" "D p = Some d" "re_instr (bc_buf s) p = Some (REOP_simple_greedy_quant, len)" "get_u32 (bc_buf s) (p + 13) = Some n"
    "D pc2 = Some d" "greedy_inv s D d (unat n) q st"
  shows "\<exists>k st'. greedy_end s (p + 17) qmin q (st\<lparr>pc := pc2\<rparr>) = Some (k, st') \<and> out_ok s D (k, st') \<and>
    (k = K_no_match \<or> k = K_ret LRE_RET_MEMORY_ERROR \<or> k = K_next \<and> (pushes (st\<lparr>pc := pc2\<rparr>) st' \<or> st' = st\<lparr>pc := pc2\<rparr>))"
proof (cases "unat qmin < q")
  case True
  have at: "at_op s D (st\<lparr>pc := pc2\<rparr>) d" using assms(6) typed_depth [OF assms(1,2)] by (simp add: at_op_def greedy_inv_def)
  have "(q - unat qmin) * unat n \<le> rank s (cptr st)"
    using assms(6) mult_le_mono1 [of "q - unat qmin" q "unat n", OF diff_le_self] unfolding greedy_inv_def by linarith
  then have "frame_ok s D \<lparr>rs_type = RE_EXEC_STATE_GREEDY_QUANT, rs_stack_len = d, rs_count = q - unat qmin,
      rs_cptr = cptr (st\<lparr>pc := pc2\<rparr>), rs_pc = p + 1, rs_capture = buf, rs_stack = stk\<rparr>"
    if "length buf = 2 * capture_count s" "caps_ok s buf" "length stk = d" for buf stk
    using that assms(2,3,4,6) True by (auto simp: frame_ok_def greedy_inv_def)
  then obtain k st' where "push_or_fail s (p + 1) RE_EXEC_STATE_GREEDY_QUANT (q - unat qmin) (st\<lparr>pc := pc2\<rparr>) = Some (k, st')"
      "out_ok s D (k, st')" "k = K_next \<and> pushes (st\<lparr>pc := pc2\<rparr>) st' \<or> k = K_ret LRE_RET_MEMORY_ERROR"
    using push_or_fail_ok [OF assms(1) at, of RE_EXEC_STATE_GREEDY_QUANT "q - unat qmin" "p + 1"] assms(5) by auto
  then show ?thesis using True by (intro exI [of _ k] exI [of _ st']) (simp add: greedy_end_def, blast)
next
  case False
  then show ?thesis using assms(5,6) by (auto simp: greedy_end_def out_ok_def st_ok_def greedy_inv_def)
qed

section \<open>Type safety\<close>

definition run_safe :: "re_ctx \<Rightarrow> depths \<Rightarrow> (re_ret \<times> re_st) re_run \<Rightarrow> bool" where
  "run_safe s D r \<longleftrightarrow>
     r = Out_of_fuel \<or>
     (\<exists>v st. r = Done (Ret_int v, st) \<and> v \<in> {0, 1, LRE_RET_MEMORY_ERROR, LRE_RET_TIMEOUT} \<and> base_ok s D st)"

lemma run_safe_ub: "out_safe s D r \<Longrightarrow> (\<And>out. out_ok s D out \<Longrightarrow> run_safe s D (f out)) \<Longrightarrow> run_safe s D (run_of_ub r f)"
  by (auto simp: out_safe_def)

lemma backtrack_safe:
  assumes "ctx_ok s D"
  shows "st_ok s D st \<Longrightarrow> run_safe s D (lre_exec_backtrack fuel s False st)"
    and "out_ok s D out \<Longrightarrow> run_safe s D (re_dispatch fuel s False out)"
proof (induction fuel arbitrary: st out)
  case (Suc fuel)
  {
    case 1
    define d where "d = nat (stack_len st)"
    have d: "D (pc st) = Some d" using 1 by (simp add: st_ok_def d_def)
    have "instr_ok s D (pc st) d" using assms d by (simp add: ctx_ok_def)
    then obtain op len where op: "re_instr (bc_buf s) (pc st) = Some (op, len)" by (auto simp: instr_ok_def split: option.splits)
    show ?case
    proof (cases "op = REOP_simple_greedy_quant")
      case True
      obtain pc2 qmin qmax n where g: "greedy_args s (pc st + 1) = Some (pc st + 17, pc2, qmin, qmax)" "D (pc st + 17) = Some d"
          "D pc2 = Some d" "pc st < pc2" "get_u32 (bc_buf s) (pc st + 13) = Some n" "body_chars (bc_buf s) (pc st + 17) = Some (unat n)"
        using greedy_args_ok [OF assms d] op True by blast
      let ?st = "st\<lparr>pc := pc st + 1\<rparr>"
      have inv: "greedy_inv s D d (unat n) 0 ?st" using 1 by (simp add: greedy_inv_def st_ok_def d_def)
      let ?r = "greedy_loop fuel s (pc st + 17) qmax 0 ?st"
      have run: "lre_exec_backtrack (Suc fuel) s False st =
          (case ?r of Undefined \<Rightarrow> Undefined | Out_of_fuel \<Rightarrow> Out_of_fuel
           | Done (K_next, q, st') \<Rightarrow> run_of_ub (greedy_end s (pc st + 17) qmin q (st'\<lparr>pc := pc2\<rparr>)) (re_dispatch fuel s False)
           | Done (k, q, st') \<Rightarrow> re_dispatch fuel s False (k, st'))"
        using re_instr_op [OF op] True g(1) by (simp add: Let_def)
      from greedy_loop_safe [OF assms g(2,6) inv, of fuel qmax] consider "?r = Out_of_fuel"
        | q st1 where "?r = Done (K_next, q, st1)" "greedy_inv s D d (unat n) q st1"
        | q st1 where "?r = Done (K_ret LRE_RET_TIMEOUT, q, st1)" "base_ok s D st1"
        by (auto simp: greedy_result_def)
      then show ?thesis
      proof cases
        case (2 q st1)
        have "out_safe s D (greedy_end s (pc st + 17) qmin q (st1\<lparr>pc := pc2\<rparr>))"
          using greedy_end_ok [OF assms d _ g(5,3) 2(2), of len qmin] op True by (auto simp: out_safe_def)
        then show ?thesis using run 2(1) Suc.IH(2) by (simp add: run_safe_ub del: lre_exec_backtrack.simps)
      next
        case (3 q st1)
        then show ?thesis using run Suc.IH(2) [of "(K_ret LRE_RET_TIMEOUT, st1)"] by (simp add: out_ok_def)
      qed (simp add: run run_safe_def del: lre_exec_backtrack.simps)
    next
      case False
      then have "out_safe s D (re_switch s op (st\<lparr>pc := pc st + 1\<rparr>))" using re_switch_ok [OF assms 1 op] by blast
      then show ?thesis using Suc.IH(2) re_instr_op [OF op] False by (simp add: Let_def run_safe_ub)
    qed
  next
    case 2
    obtain k st1 where [simp]: "out = (k, st1)" by fastforce
    have rec: "run_safe s D (run_of_ub (recurse s r (state_stack st1) st1) (re_dispatch fuel s False))" if "base_ok s D st1" for r
      using recurse_ok [OF assms that, of "state_stack st1" r] that Suc.IH(2) by (simp add: run_safe_ub)
    show ?case using 2 Suc.IH(1) [of st1] rec by (cases k) (auto simp: out_ok_def run_safe_def [of _ _ "Done _"])
  }
qed (simp_all add: run_safe_def)

section \<open>The whole matcher\<close>

lemma lre_exec_ctx_ok:
  assumes "lre_exec_ctx timeout realloc_ok addr bc cb cb_type = Some s" "bc_typed s ds" "\<And>n. realloc_ok n \<Longrightarrow> n < 2 ^ 63"
  shows "ctx_ok s (map_of ds)" "map_of ds RE_HEADER_LEN = Some 0" "cbuf s = cb" "bc_buf s = bc" "lre_check_timeout s = timeout"
proof -
  have "d \<le> stack_size_max s \<and> instr_ok s (map_of ds) p d" if "map_of ds p = Some d" for p d
    using assms(2) map_of_SomeD [OF that] by (auto simp: bc_typed_def list_all_iff)
  then show "ctx_ok s (map_of ds)" using assms(1,3)
    by (auto simp: ctx_ok_def lre_exec_ctx_def lre_get_capture_count_def bind_eq_Some_conv Let_def)
  show "map_of ds RE_HEADER_LEN = Some 0" using assms(2) by (simp add: bc_typed_def)
  show "cbuf s = cb" "bc_buf s = bc" "lre_check_timeout s = timeout" using assms(1) by (auto simp: lre_exec_ctx_def bind_eq_Some_conv Let_def)
qed

lemma lre_exec_start_ok:
  assumes "ctx_ok s D" "D RE_HEADER_LEN = Some 0" "length cap0 = 2 * capture_count s" "cindex \<le> length (cbuf s)"
  obtains st where "lre_exec_start s cap0 fill cindex = Some st" "st_ok s D st" "polls st = 0" "interrupt_counter st = INTERRUPT_COUNTER_INIT"
proof -
  obtain st where st: "lre_exec_start s cap0 fill cindex = Some st" using assms(3) by (simp add: lre_exec_start_def arr_write_def)
  then have "st_ok s D st" using assms by (auto simp: lre_exec_start_def arr_write_def st_ok_def base_ok_def caps_ok_def)
  with st that show ?thesis by (auto simp: lre_exec_start_def bind_eq_Some_conv)
qed

text \<open>The byte code of \<open>/a*b/\<close>, with the depths of its instructions; used to instantiate the theorems.\<close>

definition example_code :: "u8 list" where
  "example_code =
     [0, 1, 0, 40, 0, 0, 0,
      8, 6, 0, 0, 0,
      4,
      7, 0xf5, 0xff, 0xff, 0xff,
      11, 0,
      28, 4, 0, 0, 0, 0, 0, 0, 0, 0xff, 0xff, 0xff, 0x7f, 1, 0, 0, 0,
      1, 0x61, 0, 10,
      1, 0x62, 0,
      12, 0,
      10]"

definition example_depths :: "(nat \<times> nat) list" where
  "example_depths = map (\<lambda>p. (p, 0)) [7, 12, 13, 18, 20, 37, 40, 41, 44, 46]"

definition example_ctx :: "(nat \<Rightarrow> bool) \<Rightarrow> u16 list \<Rightarrow> re_ctx" where
  "example_ctx timeout cb =
     \<lparr>bc_buf = example_code, cbuf = cb, cbuf_type = 0, cbuf_addr = 0x1000, capture_count = 1, stack_size_max = 0,
      multi_line = False, ignore_case = False, is_unicode = False, state_size = 48,
      lre_check_timeout = timeout, lre_realloc_ok = (\<lambda>n. n < 1000000)\<rparr>"

lemma example_ctx: "lre_exec_ctx timeout (\<lambda>n. n < 1000000) 0x1000 example_code cb 0 = Some (example_ctx timeout cb)"
  by (simp add: lre_exec_ctx_def example_ctx_def example_code_def lre_get_flags_def lre_get_capture_count_def arr_get_def
      re_state_size_def)

lemma example_bytes:
  "length example_code = 47"
  "arr_get example_code 7 = Some 8" "arr_get example_code 12 = Some 4" "arr_get example_code 13 = Some 7"
  "arr_get example_code 18 = Some 11" "arr_get example_code 19 = Some 0" "arr_get example_code 20 = Some 28"
  "arr_get example_code 37 = Some 1" "arr_get example_code 40 = Some 10" "arr_get example_code 41 = Some 1"
  "arr_get example_code 44 = Some 12" "arr_get example_code 45 = Some 0" "arr_get example_code 46 = Some 10"
  "get_u32 example_code 8 = Some 6" "get_u32 example_code 14 = Some 0xfffffff5"
  "get_u32 example_code 21 = Some 4" "get_u32 example_code 33 = Some 1"
  by (simp_all add: arr_get_def example_code_def get_u32_def arr_slice_def)

lemma example_ops:
  "re_opcode 8 = Some REOP_split_goto_first" "re_opcode 4 = Some REOP_any" "re_opcode 7 = Some REOP_goto"
  "re_opcode 11 = Some REOP_save_start" "re_opcode 28 = Some REOP_simple_greedy_quant" "re_opcode 1 = Some REOP_char"
  "re_opcode 10 = Some REOP_match" "re_opcode 12 = Some REOP_save_end"
  by (simp_all add: re_opcode_def reop_list_def arr_get_def)

lemma example_body: "body_chars example_code 37 = Some 1"
  by (simp add: body_chars.simps [of _ 37] body_chars.simps [of _ 40] re_instr_def example_bytes example_ops)

lemma example_typed: "bc_typed (example_ctx timeout cb) example_depths"
  unfolding bc_typed_def example_depths_def
  by (simp add: instr_ok_def re_instr_def example_bytes example_ops example_body example_ctx_def
      jump_ok_def greedy_ok_def capture_arg_def re_jump_def)

text \<open>
  C3: Type safety of the regular expression matcher.  Let \<open>lre_exec\<close> run byte code whose
  instructions agree with a table of stack depths (\<open>bc_typed\<close>), from any position of any input, with an
  array for the captures of the size that \<open>lre_get_capture_count\<close> announces, and with an
  allocator that may fail at any call but never returns a block of \<open>2 ^ 63\<close> bytes or more.
  Then no execution, however long, has undefined behaviour: every access of the byte code, the input, the captures, the
  stack and the array of backtracking states is inside of its bounds, no assertion fails
  and no invalid opcode is met.  If it returns, it returns one of the four documented values,
  and every capture is a position of the input.
\<close>

theorem lre_exec_type_safe:
  assumes "lre_exec_ctx timeout realloc_ok addr bc cb cb_type = Some s" "bc_typed s ds"
    "\<And>n. realloc_ok n \<Longrightarrow> n < 2 ^ 63" "length cap0 = 2 * capture_count s" "cindex \<le> length cb"
  shows "lre_exec fuel timeout realloc_ok addr fill cap0 bc cb cindex cb_type = Out_of_fuel \<or>
    (\<exists>r cap. lre_exec fuel timeout realloc_ok addr fill cap0 bc cb cindex cb_type = Done (Ret_int r, cap) \<and>
      r \<in> {1, 0, LRE_RET_MEMORY_ERROR, LRE_RET_TIMEOUT} \<and> (\<forall>p. Some p \<in> set cap \<longrightarrow> p \<le> length cb))"
proof -
  note ctx = lre_exec_ctx_ok [OF assms(1-3)]
  obtain st where st: "lre_exec_start s cap0 fill cindex = Some st" "st_ok s (map_of ds) st"
    using lre_exec_start_ok [OF ctx(1,2) assms(4)] assms(5) ctx(3) by metis
  show ?thesis using backtrack_safe(1) [OF ctx(1) st(2), of fuel] ctx(3) st(1) assms(1)
    by (auto simp: lre_exec_def run_safe_def base_ok_def caps_ok_def)
qed

theorem lre_exec_type_safe_witness:
  "lre_exec 20 (\<lambda>n. False) (\<lambda>n. n < 1000000) 0x1000 (\<lambda>n. 0) [None, None] example_code [0x61, 0x62] 0 0 = Out_of_fuel \<or>
    (\<exists>r cap. lre_exec 20 (\<lambda>n. False) (\<lambda>n. n < 1000000) 0x1000 (\<lambda>n. 0) [None, None] example_code [0x61, 0x62] 0 0 =
      Done (Ret_int r, cap) \<and> r \<in> {1, 0, LRE_RET_MEMORY_ERROR, LRE_RET_TIMEOUT} \<and>
      (\<forall>p. Some p \<in> set cap \<longrightarrow> p \<le> length ([0x61, 0x62] :: u16 list)))"
  by (rule lre_exec_type_safe [OF example_ctx example_typed]) (simp_all add: example_ctx_def)

end
