(* ===== verification/Lre_Live.thy ===== *)
theory Lre_Live
  imports Lre_Safe
begin

text \<open>
  The matcher can always be interrupted: when the host reports a timeout at some call of
  \<open>lre_check_timeout\<close>, typed code ends.  Every cycle of the matcher asks for the timeout or adds a
  backtracking state, and the memory for the states is bounded.
\<close>

section \<open>Executions that end\<close>

definition ends :: "re_ctx \<Rightarrow> re_st \<Rightarrow> bool" where
  "ends s st \<longleftrightarrow> (\<exists>fuel. lre_exec_backtrack fuel s False st \<noteq> Out_of_fuel)"

definition ends_out :: "re_ctx \<Rightarrow> re_kind \<times> re_st \<Rightarrow> bool" where
  "ends_out s out \<longleftrightarrow> (\<exists>fuel. re_dispatch fuel s False out \<noteq> Out_of_fuel)"

lemma ends_out_ret: "ends_out s (K_ret r, st)"
  unfolding ends_out_def by (rule exI [of _ 1]) simp

lemma ends_out_next:
  assumes "ends s st"
  shows "ends_out s (K_next, st)"
proof -
  obtain f where "lre_exec_backtrack f s False st \<noteq> Out_of_fuel" using assms by (auto simp: ends_def)
  then have "re_dispatch (Suc f) s False (K_next, st) \<noteq> Out_of_fuel" by simp
  then show ?thesis unfolding ends_out_def by blast
qed

lemma ends_out_recurse:
  assumes "k = K_match \<and> ret \<or> k = K_no_match \<and> \<not> ret" "recurse s ret (state_stack st) st = Some out" "ends_out s out"
  shows "ends_out s (k, st)"
proof -
  obtain f where "re_dispatch f s False out \<noteq> Out_of_fuel" using assms(3) by (auto simp: ends_out_def)
  then have "re_dispatch (Suc f) s False (k, st) \<noteq> Out_of_fuel" using assms(1,2) by auto
  then show ?thesis unfolding ends_out_def by blast
qed

lemma ends_step:
  assumes "re_instr (bc_buf s) (pc st) = Some (op, len)" "op \<noteq> REOP_simple_greedy_quant"
    "re_switch s op (st\<lparr>pc := pc st + 1\<rparr>) = Some out" "ends_out s out"
  shows "ends s st"
  using assms(4) backtrack_step [OF assms(1-3)] unfolding ends_def ends_out_def by metis

lemma ends_greedy:
  assumes "re_instr (bc_buf s) (pc st) = Some (REOP_simple_greedy_quant, len)" "greedy_args s (pc st + 1) = Some (pc1, pc2, qmin, qmax)"
    "greedy_loop f s pc1 qmax 0 (st\<lparr>pc := pc st + 1\<rparr>) = Done (k, q, st')"
    "if k = K_next then greedy_end s pc1 qmin q (st'\<lparr>pc := pc2\<rparr>) = Some out else out = (k, st')" "ends_out s out"
  shows "ends s st"
proof -
  obtain f' where f': "re_dispatch f' s False out \<noteq> Out_of_fuel" using assms(5) by (auto simp: ends_out_def)
  define m where "m = max f f'"
  have "greedy_loop m s pc1 qmax 0 (st\<lparr>pc := pc st + 1\<rparr>) = Done (k, q, st')" "re_dispatch m s False out \<noteq> Out_of_fuel"
    using fuel_mono(3) [of f m s pc1 qmax 0 "st\<lparr>pc := pc st + 1\<rparr>"] fuel_mono(2) [of f' m s False out] f' assms(3) by (auto simp: m_def)
  then have "lre_exec_backtrack (Suc m) s False st \<noteq> Out_of_fuel"
    using re_instr_op [OF assms(1)] assms(2,4) by (cases k) (auto simp: Let_def)
  then show ?thesis unfolding ends_def by blast
qed

section \<open>Progress of one opcode\<close>

lemma grow_states_keeps:
  "grow_states s st = (r, st') \<Longrightarrow> same_timer st st' \<and> state_stack st' = state_stack st \<and> pc st' = pc st"
  by (auto simp: grow_states_def same_timer_def Let_def split: if_splits)

lemma push_or_fail_keeps:
  "push_or_fail s pc1 type n st = Some (k, st') \<Longrightarrow>
   same_timer st st' \<and> (k = K_next \<longrightarrow> length (state_stack st') = Suc (length (state_stack st)))"
  by (auto simp: push_or_fail_def push_state_def store_state_def bind_eq_Some_conv same_timer_def Let_def
      split: prod.splits if_splits dest!: grow_states_keeps)

lemma stack_set_keeps: "stack_set st i v = Some st' \<Longrightarrow> same_timer st st' \<and> state_stack st' = state_stack st \<and> pc st' = pc st"
  by (auto simp: stack_set_def same_timer_def split: if_splits)

text \<open>An opcode asks for the timeout, leaves a new state, or moves forward in the code.\<close>

definition advances :: "re_st \<Rightarrow> re_kind \<times> re_st \<Rightarrow> bool" where
  "advances st out \<longleftrightarrow>
     (case out of (k, st') \<Rightarrow>
        same_timer st st' \<and>
        (k \<noteq> K_next \<or> length (state_stack st') = Suc (length (state_stack st)) \<or>
         length (state_stack st') = length (state_stack st) \<and> pc st < pc st'))"

lemma advancesI:
  "same_timer st st' \<Longrightarrow> k \<noteq> K_next \<or> state_stack st' = state_stack st \<and> pc st < pc st' \<Longrightarrow> advances st (k, st')"
  by (auto simp: advances_def)

lemma push_advances: "push_or_fail s pc1 type n st' = Some out \<Longrightarrow> same_timer st st' \<Longrightarrow> state_stack st' = state_stack st \<Longrightarrow> advances st out"
  by (cases out) (auto simp: advances_def same_timer_def dest!: push_or_fail_keeps)

lemma moves_advances: "moves st st' \<Longrightarrow> k \<noteq> K_next \<or> pc st < pc st' \<Longrightarrow> advances st (k, st')"
  by (auto simp: advances_def same_timer_def moves_def)

lemma back_reference_advances:
  assumes "op_back_reference s b (st\<lparr>pc := pc st + 1\<rparr>) = Some (k, st')"
  shows "advances st (k, st')"
proof -
  obtain v where v: "arr_get (bc_buf s) (pc st + 1) = Some v" using assms by (auto simp: op_back_reference_def bind_eq_Some_conv)
  have "moves st st' \<and> (k \<noteq> K_next \<or> pc st < pc st')"
  proof (cases "capture_count s \<le> unat v")
    case False
    then obtain c1 c2 where "arr_get (capture st) (2 * unat v) = Some c1" "arr_get (capture st) (2 * unat v + 1) = Some c2"
      using assms v by (auto simp: op_back_reference_def bind_eq_Some_conv Let_def)
    with False v assms show ?thesis
      by (cases c1; cases c2) (auto simp: op_back_reference_def Let_def moves_def bind_eq_Some_conv split: if_split_asm option.split_asm)
  qed (use assms v in \<open>auto simp: op_back_reference_def Let_def moves_def\<close>)
  then show ?thesis by (auto intro: moves_advances)
qed

lemma goto_progress:
  assumes "op_goto s st1 = Some out" "same_timer st st1"
  shows "\<exists>st0. same_timer st st0 \<and> out = poll s st0"
proof -
  obtain t where "out = poll s (st1\<lparr>pc := t\<rparr>)" using assms(1) by (auto simp: op_goto_def bind_eq_Some_conv)
  then show ?thesis using assms(2) by (intro exI [of _ "st1\<lparr>pc := t\<rparr>"]) (simp add: same_timer_def)
qed

lemma loop_progress:
  assumes "op_loop s (st\<lparr>pc := pc st + 1\<rparr>) = Some out"
  shows "(\<exists>st0. same_timer st st0 \<and> out = poll s st0) \<or> advances st out"
proof -
  obtain st1 i v t where st1: "stack_set (st\<lparr>pc := pc st + 1\<rparr>) i v = Some st1"
      "out = poll s (st1\<lparr>pc := t\<rparr>) \<or> out = (K_next, st1\<lparr>pc := pc st + 5\<rparr>)"
    using assms by (auto simp: op_loop_def bind_eq_Some_conv Let_def add.commute split: if_splits)
  have k: "same_timer st st1" "state_stack st1 = state_stack st" using stack_set_keeps [OF st1(1)] by (simp_all add: same_timer_def)
  from st1(2) show ?thesis
  proof
    assume "out = poll s (st1\<lparr>pc := t\<rparr>)"
    then show ?thesis using k by (intro disjI1 exI [of _ "st1\<lparr>pc := t\<rparr>"]) (simp add: same_timer_def)
  qed (use k in \<open>simp add: advances_def same_timer_def\<close>)
qed

lemma split_advances:
  "op_split s b (st\<lparr>pc := pc st + 1\<rparr>) = Some out \<Longrightarrow> advances st out"
  "op_lookahead s ty (st\<lparr>pc := pc st + 1\<rparr>) = Some out \<Longrightarrow> advances st out"
  by (auto simp: op_split_def op_lookahead_def bind_eq_Some_conv Let_def same_timer_def split: if_splits elim!: push_advances)

lemma stack_op_advances:
  "op_save s off (st\<lparr>pc := pc st + 1\<rparr>) = Some out \<Longrightarrow> advances st out"
  "op_save_reset s (st\<lparr>pc := pc st + 1\<rparr>) = Some out \<Longrightarrow> advances st out"
  "op_push_i32 s (st\<lparr>pc := pc st + 1\<rparr>) = Some out \<Longrightarrow> advances st out"
  "op_push_char_pos s (st\<lparr>pc := pc st + 1\<rparr>) = Some out \<Longrightarrow> advances st out"
  "op_drop (st\<lparr>pc := pc st + 1\<rparr>) = Some out \<Longrightarrow> advances st out"
  "op_check_advance s (st\<lparr>pc := pc st + 1\<rparr>) = Some out \<Longrightarrow> advances st out"
  "op_prev s (st\<lparr>pc := pc st + 1\<rparr>) = Some out \<Longrightarrow> advances st out"
  by (auto simp: op_save_def op_save_reset_def op_push_i32_def op_push_char_pos_def op_drop_def op_check_advance_def op_prev_def
      bind_eq_Some_conv same_timer_def split: if_splits dest!: stack_set_keeps intro!: advancesI)

lemma switch_progress:
  assumes "re_switch s op (st\<lparr>pc := pc st + 1\<rparr>) = Some out" "re_instr (bc_buf s) (pc st) = Some (op, len)"
  shows "(\<exists>st0. same_timer st st0 \<and> out = poll s st0) \<or> advances st out"
proof -
  obtain k st' where out: "out = (k, st')" by fastforce
  consider (chr) "op \<in> char_ops" | (tst) "op \<in> test_ops" | (goto) "op = REOP_goto" | (loop) "op = REOP_loop" | (match) "op = REOP_match"
    | (other) "op \<notin> char_ops" "op \<notin> test_ops" "op \<noteq> REOP_goto" "op \<noteq> REOP_loop" "op \<noteq> REOP_match" by blast
  then show ?thesis
  proof cases
    case chr
    then show ?thesis using char_op_moves [OF assms(1) [unfolded out] chr assms(2)] re_instr_pos [OF assms(2)] by (auto simp: out intro!: moves_advances)
  next
    case tst
    then show ?thesis using test_op_moves [OF assms(1) [unfolded out] tst] by (auto simp: out advances_def same_timer_def)
  next
    case goto
    then show ?thesis using goto_progress [of s "st\<lparr>pc := pc st + 1\<rparr>" out st] assms(1) by (simp add: same_timer_def)
  next
    case loop
    then show ?thesis using loop_progress assms(1) by simp
  next
    case match
    then show ?thesis using assms(1) by (auto simp: advances_def same_timer_def)
  next
    case other
    then show ?thesis using assms(1) unfolding out
      by (cases op) (auto simp: char_ops_def test_ops_def intro: back_reference_advances split_advances stack_op_advances)
  qed
qed

lemma states_bounded:
  assumes "ctx_ok s D" "base_ok s D st"
  shows "length (state_stack st) < 2 ^ 63"
proof -
  have "state_stack_size st * 1 \<le> state_stack_size st * state_size s" using ctx_ok_state_size [OF assms(1)] by (intro mult_le_mono2) simp
  then show ?thesis using assms(2) unfolding base_ok_def by linarith
qed

section \<open>The timeout bounds the number of polls\<close>

text \<open>The host reports a timeout at call number \<open>K\<close>; \<open>time_left\<close> is an upper bound of the polls until then.\<close>

definition timer_ok :: "nat \<Rightarrow> re_st \<Rightarrow> bool" where
  "timer_ok K st \<longleftrightarrow> 1 \<le> interrupt_counter st \<and> polls st \<le> K"

definition time_left :: "nat \<Rightarrow> re_st \<Rightarrow> nat" where
  "time_left K st = (K - polls st) * 10000 + nat (interrupt_counter st)"

lemma same_timer_time: "same_timer st st' \<Longrightarrow> timer_ok K st' = timer_ok K st \<and> time_left K st' = time_left K st"
  by (simp add: same_timer_def timer_ok_def time_left_def)

lemma poll_timeout_time:
  assumes "lre_check_timeout s K" "timer_ok K st" "lre_poll_timeout s st = (t, st')" "t = 0"
  shows "timer_ok K st' \<and> time_left K st' < time_left K st"
proof (cases "interrupt_counter st - 1 \<le> 0")
  case True
  then have "polls st \<noteq> K" using assms by (auto simp: lre_poll_timeout_def Let_def split: if_splits)
  then have "polls st < K" using assms(2) by (simp add: timer_ok_def)
  moreover have "polls st' = polls st + 1" "interrupt_counter st' = 10000"
    using True assms by (auto simp: lre_poll_timeout_def Let_def split: if_splits)
  moreover have "1 \<le> interrupt_counter st" using assms(2) by (simp add: timer_ok_def)
  ultimately show ?thesis by (simp add: timer_ok_def time_left_def)
next
  case False
  then show ?thesis using assms by (auto simp: lre_poll_timeout_def timer_ok_def time_left_def)
qed

lemma poll_time:
  assumes "lre_check_timeout s K" "timer_ok K st" "poll s st = (K_next, st')"
  shows "timer_ok K st' \<and> time_left K st' < time_left K st"
  using assms(3) poll_timeout_time [OF assms(1,2)] by (auto simp: poll_def split: prod.splits if_splits)

lemma restore_same_timer:
  "restore_stack rs st = Some st' \<Longrightarrow> same_timer st st'"
  "restore_capture s rs st = Some st' \<Longrightarrow> same_timer st st'"
  by (auto simp: restore_stack_def restore_capture_def bind_eq_Some_conv same_timer_def)

lemma pop_same_timer:
  "pop_state1 rs rest st = Some (k, st') \<Longrightarrow> same_timer st st'"
  "pop_state s rs rest st = Some (k, st') \<Longrightarrow> same_timer st st'"
  "greedy_back s rs rest st = Some (k, st') \<Longrightarrow> same_timer st st'"
  by (auto simp: pop_state1_def pop_state_def greedy_back_def bind_eq_Some_conv Let_def dest!: restore_same_timer)
    (auto simp: same_timer_def)

lemma recurse_time:
  assumes "lre_check_timeout s K"
  shows "timer_ok K st \<Longrightarrow> recurse s ret fs st = Some (K_next, st') \<Longrightarrow> timer_ok K st' \<and> time_left K st' < time_left K st"
proof (induction fs arbitrary: st ret)
  case Nil
  then show ?case by (auto simp: recurse.simps split: prod.splits if_splits)
next
  case (Cons rs rest)
  obtain t st1 where p: "lre_poll_timeout s st = (t, st1)" by fastforce
  have t: "t = 0" using Cons.prems(2) p by (subst (asm) recurse.simps) (auto split: if_splits)
  note time = poll_timeout_time [OF assms Cons.prems(1) p t]
  have "same_timer st1 st' \<or> (\<exists>r. recurse s r rest st1 = Some (K_next, st'))"
    using Cons.prems(2) p t by (subst (asm) recurse.simps) (auto split: if_splits REExecStateEnum.splits dest!: pop_same_timer)
  then show ?case
  proof
    assume "same_timer st1 st'"
    then show ?thesis using time same_timer_time by metis
  next
    assume "\<exists>r. recurse s r rest st1 = Some (K_next, st')"
    then show ?thesis using Cons.IH time by (metis less_trans)
  qed
qed

lemma greedy_loop_ends:
  assumes "ctx_ok s D" "D pc1 = Some d" "body_chars (bc_buf s) pc1 = Some n" "lre_check_timeout s K"
    "greedy_inv s D d n q st" "timer_ok K st"
  shows "\<exists>f k q' st'. greedy_loop f s pc1 qmax q st = Done (k, q', st') \<and> greedy_result s D d n (k, q', st') \<and>
    (k = K_next \<longrightarrow> timer_ok K st' \<and> time_left K st' < time_left K st)"
  using assms(5,6)
proof (induction "time_left K st" arbitrary: q st rule: less_induct)
  case less
  define f where "f = 2 * length (bc_buf s) + 2"
  have later: "timer_ok K st' \<and> time_left K st' < time_left K st"
    if "fst (poll s st) = K_next \<and> same_timer (snd (poll s st)) st'" for st'
    using poll_time [OF assms(4) less.prems(2), of "snd (poll s st)"] that same_timer_time [of "snd (poll s st)" st' K]
    by (metis prod.collapse)
  from greedy_round [OF assms(1-3) less.prems(1), where qmax = qmax] show ?case
  proof (elim disjE exE conjE)
    fix k q' st'
    assume "\<forall>fuel. greedy_loop (Suc fuel) s pc1 qmax q st \<noteq> Out_of_fuel \<or> 2 * length (bc_buf s) + 2 \<le> fuel \<longrightarrow>
        greedy_loop (Suc fuel) s pc1 qmax q st = Done (k, q', st')"
      "greedy_result s D d n (k, q', st')" "k = K_next \<longrightarrow> fst (poll s st) = K_next \<and> same_timer (snd (poll s st)) st'"
    then show ?thesis using later unfolding f_def by (metis order_refl)
  next
    fix st'
    assume nxt: "\<forall>fuel. greedy_loop (Suc fuel) s pc1 qmax q st \<noteq> Out_of_fuel \<or> 2 * length (bc_buf s) + 2 \<le> fuel \<longrightarrow>
        greedy_loop (Suc fuel) s pc1 qmax q st = greedy_loop fuel s pc1 qmax (q + 1) st'"
      and inv: "greedy_inv s D d n (q + 1) st'" and pl: "fst (poll s st) = K_next" "same_timer (snd (poll s st)) st'"
    have time: "timer_ok K st'" "time_left K st' < time_left K st" using later pl by blast+
    from less.hyps [OF time(2) inv time(1)] obtain g k q' st2 where g: "greedy_loop g s pc1 qmax (q + 1) st' = Done (k, q', st2)"
        "greedy_result s D d n (k, q', st2)" "k = K_next \<longrightarrow> timer_ok K st2 \<and> time_left K st2 < time_left K st'" by blast
    have "greedy_loop (max f g) s pc1 qmax (q + 1) st' = Done (k, q', st2)" using fuel_mono(3) [of g "max f g"] g(1) by simp
    then have "greedy_loop (Suc (max f g)) s pc1 qmax q st = Done (k, q', st2)" using nxt by (simp add: f_def del: greedy_loop.simps)
    then show ?thesis using g(2,3) time(2) by (metis less_trans)
  qed
qed

section \<open>Typed code ends when the host asks for it\<close>

lemma backtrack_ends:
  assumes "ctx_ok s D" "lre_check_timeout s K"
  shows "st_ok s D st \<Longrightarrow> timer_ok K st \<Longrightarrow> ends s st"
proof (induction st rule: wf_induct_rule [OF wf_measures [of "[time_left K, \<lambda>st. 2 ^ 63 - length (state_stack st), \<lambda>st. length (bc_buf s) - pc st]"]])
  case (1 st)
  have next_time: "ends_out s (K_next, st')" if "st_ok s D st'" "timer_ok K st'" "time_left K st' < time_left K st" for st'
    using 1(1) [of st'] that by (intro ends_out_next) simp
  have rec: "ends_out s (k, st')" if "out_ok s D (k, st')" "timer_ok K st'" "time_left K st' \<le> time_left K st" "k = K_match \<or> k = K_no_match" for k st'
  proof -
    have b: "base_ok s D st'" using that(1,4) by (auto simp: out_ok_def)
    obtain k2 st2 where r: "recurse s (k = K_match) (state_stack st') st' = Some (k2, st2)" "out_ok s D (k2, st2)"
      using recurse_ok [OF assms(1) b, of "state_stack st'" "k = K_match"] b by (auto simp: out_safe_def)
    have "ends_out s (k2, st2)"
    proof (cases "k2 = K_next")
      case True
      then have "timer_ok K st2" "time_left K st2 < time_left K st'" using recurse_time [OF assms(2) that(2)] r(1) by blast+
      then show ?thesis using True r(2) that(3) by (auto simp: out_ok_def intro!: next_time)
    next
      case False
      then show ?thesis using recurse_kind [OF r(1)] ends_out_ret by blast
    qed
    then show ?thesis using ends_out_recurse [of k "k = K_match" s st'] r(1) that(4) by auto
  qed
  define d where "d = nat (stack_len st)"
  have d: "D (pc st) = Some d" using 1(2) by (simp add: st_ok_def d_def)
  have "instr_ok s D (pc st) d" using assms(1) d by (simp add: ctx_ok_def)
  then obtain op len where op: "re_instr (bc_buf s) (pc st) = Some (op, len)" by (auto simp: instr_ok_def split: option.splits)
  show ?case
  proof (cases "op = REOP_simple_greedy_quant")
    case True
    obtain pc2 qmin qmax n where g: "greedy_args s (pc st + 1) = Some (pc st + 17, pc2, qmin, qmax)" "D (pc st + 17) = Some d"
        "D pc2 = Some d" "pc st < pc2" "get_u32 (bc_buf s) (pc st + 13) = Some n" "body_chars (bc_buf s) (pc st + 17) = Some (unat n)"
      using greedy_args_ok [OF assms(1) d] op True by blast
    let ?st = "st\<lparr>pc := pc st + 1\<rparr>"
    have inv: "greedy_inv s D d (unat n) 0 ?st" "timer_ok K ?st" "time_left K ?st = time_left K st"
      using 1(2,3) by (simp_all add: greedy_inv_def st_ok_def d_def timer_ok_def time_left_def)
    obtain f k q st1 where f: "greedy_loop f s (pc st + 17) qmax 0 ?st = Done (k, q, st1)" "greedy_result s D d (unat n) (k, q, st1)"
        "k = K_next \<longrightarrow> timer_ok K st1 \<and> time_left K st1 < time_left K st"
      using greedy_loop_ends [OF assms(1) g(2,6) assms(2) inv(1,2)] inv(3) by metis
    show ?thesis
    proof (cases "k = K_next")
      case next1: True
      then have inv1: "greedy_inv s D d (unat n) q st1" using f(2) by (simp add: greedy_result_def)
      obtain k2 st2 where e: "greedy_end s (pc st + 17) qmin q (st1\<lparr>pc := pc2\<rparr>) = Some (k2, st2)" "out_ok s D (k2, st2)"
          "k2 = K_no_match \<or> k2 = K_ret LRE_RET_MEMORY_ERROR \<or> k2 = K_next \<and> (pushes (st1\<lparr>pc := pc2\<rparr>) st2 \<or> st2 = st1\<lparr>pc := pc2\<rparr>)"
        using greedy_end_ok [OF assms(1) d _ g(5,3) inv1, of len qmin] op True by blast
      have "same_timer st1 st2" using e(1)
        by (auto simp: greedy_end_def same_timer_def split: if_splits dest!: push_or_fail_keeps)
      then have t: "timer_ok K st2" "time_left K st2 < time_left K st" using f(3) next1 same_timer_time [of st1 st2 K] by simp_all
      have "ends_out s (k2, st2)" using e(2,3) t rec [of k2 st2] next_time [of st2] ends_out_ret by (auto simp: out_ok_def)
      then show ?thesis using ends_greedy [OF _ g(1) f(1), of len "(k2, st2)"] op True e(1) next1 by simp
    next
      case False
      then show ?thesis using ends_greedy [OF _ g(1) f(1), of len "(k, st1)"] op True f(2) ends_out_ret by (auto simp: greedy_result_def)
    qed
  next
    case False
    obtain k st1 where sw: "re_switch s op (st\<lparr>pc := pc st + 1\<rparr>) = Some (k, st1)" "out_ok s D (k, st1)"
      using re_switch_ok [OF assms(1) 1(2) op False] by (auto simp: out_safe_def)
    have "ends_out s (k, st1)"
      using switch_progress [OF sw(1) op]
    proof (elim disjE exE conjE)
      fix st0
      assume p: "same_timer st st0" "(k, st1) = poll s st0"
      have t0: "timer_ok K st0" "time_left K st0 = time_left K st" using same_timer_time [OF p(1)] 1(3) by simp_all
      from p(2) have "k = K_next \<or> (\<exists>r. k = K_ret r)" by (auto simp: poll_def split: prod.splits if_splits)
      then show ?thesis using poll_time [OF assms(2) t0(1)] p(2) t0(2) sw(2) next_time [of st1] ends_out_ret by (auto simp: out_ok_def)
    next
      assume a: "advances st (k, st1)"
      then have t: "timer_ok K st1" "time_left K st1 = time_left K st" using same_timer_time [of st st1 K] 1(3) by (auto simp: advances_def)
      show ?thesis
      proof (cases k)
        case K_next
        have "st_ok s D st1" using sw(2) K_next by (simp add: out_ok_def)
        moreover have "length (state_stack st1) < 2 ^ 63" using states_bounded [OF assms(1)] \<open>st_ok s D st1\<close> st_ok_base by blast
        then have "(st1, st) \<in> measures [time_left K, \<lambda>st. 2 ^ 63 - length (state_stack st), \<lambda>st. length (bc_buf s) - pc st]"
          using a K_next t(2) re_instr_pos [OF op] by (auto simp: advances_def)
        ultimately show ?thesis using 1(1) t(1) K_next ends_out_next by blast
      qed (use rec [OF sw(2) t(1)] t(2) ends_out_ret in auto)
    qed
    then show ?thesis by (rule ends_step [OF op False sw(1)])
  qed
qed

text \<open>
  C4: The matcher can be interrupted.  Under the conditions of type safety, let the host
  report a timeout at some call of \<open>lre_check_timeout\<close> (call number \<open>K\<close>, however late).  Then
  \<open>lre_exec\<close> returns: there is an amount of fuel from which on it yields one and the same result, which is a documented value with captures
  inside of the input.  Every cycle in the byte code runs through an opcode that polls the
  timeout or pushes a backtracking state, so that a pathological pattern cannot block the host.
\<close>

theorem lre_exec_interruptible:
  assumes "lre_exec_ctx timeout realloc_ok addr bc cb cb_type = Some s" "bc_typed s ds"
    "\<And>n. realloc_ok n \<Longrightarrow> n < 2 ^ 63" "length cap0 = 2 * capture_count s" "cindex \<le> length cb"
    "timeout K"
  shows "\<exists>fuel r cap. r \<in> {1, 0, LRE_RET_MEMORY_ERROR, LRE_RET_TIMEOUT} \<and> (\<forall>p. Some p \<in> set cap \<longrightarrow> p \<le> length cb) \<and>
    (\<forall>fuel' \<ge> fuel. lre_exec fuel' timeout realloc_ok addr fill cap0 bc cb cindex cb_type = Done (Ret_int r, cap))"
proof -
  note ctx = lre_exec_ctx_ok [OF assms(1-3)]
  obtain st where st: "lre_exec_start s cap0 fill cindex = Some st" "st_ok s (map_of ds) st" "polls st = 0" "interrupt_counter st = 10000"
    using lre_exec_start_ok [OF ctx(1,2) assms(4)] assms(5) ctx(3) by metis
  have "ends s st" using backtrack_ends [OF ctx(1), of K st] st assms(6) ctx(5) by (simp add: timer_ok_def)
  then obtain fuel where fuel: "lre_exec_backtrack fuel s False st \<noteq> Out_of_fuel" by (auto simp: ends_def)
  then obtain r st' where r: "lre_exec_backtrack fuel s False st = Done (Ret_int r, st')"
      "r \<in> {1, 0, LRE_RET_MEMORY_ERROR, LRE_RET_TIMEOUT}" "base_ok s (map_of ds) st'"
    using backtrack_safe(1) [OF ctx(1) st(2), of fuel] by (auto simp: run_safe_def)
  have "lre_exec fuel' timeout realloc_ok addr fill cap0 bc cb cindex cb_type = Done (Ret_int r, capture st')" if "fuel \<le> fuel'" for fuel'
    using fuel_mono(1) [OF that fuel] r(1) st(1) assms(1) by (simp add: lre_exec_def)
  moreover have "\<forall>p. Some p \<in> set (capture st') \<longrightarrow> p \<le> length cb" using r(3) ctx(3) by (simp add: base_ok_def caps_ok_def)
  ultimately show ?thesis using r(2) by blast
qed

theorem lre_exec_interruptible_witness:
  "\<exists>fuel r cap. r \<in> {1, 0, LRE_RET_MEMORY_ERROR, LRE_RET_TIMEOUT} \<and>
    (\<forall>p. Some p \<in> set cap \<longrightarrow> p \<le> length ([0x61, 0x62] :: u16 list)) \<and>
    (\<forall>fuel' \<ge> fuel. lre_exec fuel' (\<lambda>n. 1000 \<le> n) (\<lambda>n. n < 1000000) 0x1000 (\<lambda>n. 0) [None, None] example_code [0x61, 0x62] 0 0 =
      Done (Ret_int r, cap))"
  by (rule lre_exec_interruptible [OF example_ctx example_typed, where K = 1000]) (simp_all add: example_ctx_def)

end
