(* ===== verification/Lre_Frag.thy ===== *)
theory Lre_Frag
  imports Lre_Type
begin

text \<open>
  Typed pieces of byte code.  A fragment is position independent: its jumps are relative and
  stay inside of it or lead to its end, it starts and ends at the same depth of the
  stack, and the depths of its instructions are those of a linear scan.  The lemmas show that every form of
  code that the regular expression compiler puts together from fragments is a fragment again.
\<close>

section \<open>Reading a piece inside of larger code\<close>

definition frag_ctx :: "nat \<Rightarrow> u8 list \<Rightarrow> re_ctx" where
  "frag_ctx cc bs =
     \<lparr>bc_buf = bs, cbuf = [], cbuf_type = 0, cbuf_addr = 0, capture_count = cc, stack_size_max = 0,
      multi_line = False, ignore_case = False, is_unicode = False, state_size = 0,
      lre_check_timeout = (\<lambda>n. False), lre_realloc_ok = (\<lambda>n. False)\<rparr>"

lemma frag_ctx_simps [simp]: "bc_buf (frag_ctx cc bs) = bs" "capture_count (frag_ctx cc bs) = cc"
  by (simp_all add: frag_ctx_def)

lemma arr_get_embed: "arr_get bs i = Some v \<Longrightarrow> arr_get (pre @ bs @ post) (length pre + i) = Some v"
  by (auto simp: arr_get_def nth_append split: if_splits)

lemma arr_slice_embed: "arr_slice bs i n = Some v \<Longrightarrow> arr_slice (pre @ bs @ post) (length pre + i) n = Some v"
  by (auto simp: arr_slice_def split: if_splits)

lemma get_u32_embed: "get_u32 bs i = Some v \<Longrightarrow> get_u32 (pre @ bs @ post) (length pre + i) = Some v"
  by (auto simp: get_u32_def dest: arr_slice_embed)

lemma get_u16_embed: "get_u16 bs i = Some v \<Longrightarrow> get_u16 (pre @ bs @ post) (length pre + i) = Some v"
  by (auto simp: get_u16_def dest: arr_slice_embed)

lemma re_instr_embed:
  assumes "re_instr bs p = Some (op, len)"
  shows "re_instr (pre @ bs @ post) (length pre + p) = Some (op, len)"
proof -
  obtain b where b: "arr_get bs p = Some b" "re_opcode b = Some op" using assms by (auto simp: re_instr_def bind_eq_Some_conv)
  have get: "get_u16 (pre @ bs @ post) (Suc (length pre + p)) = get_u16 bs (Suc p)" if "op = REOP_range \<or> op = REOP_range32"
    using assms b that get_u16_embed [of bs "p + 1" _ pre post] by (auto simp: re_instr_def bind_eq_Some_conv)
  show ?thesis using assms b arr_get_embed [OF b(1), of pre post] get by (cases op) (simp_all add: re_instr_def)
qed

lemma body_chars_embed: "body_chars bs p = Some n \<Longrightarrow> body_chars (pre @ bs @ post) (length pre + p) = Some n"
proof (induction "length bs - p" arbitrary: p n rule: less_induct)
  case less
  from less.prems show ?case
  proof (cases rule: body_chars_cases)
    case (1 len)
    then show ?thesis using re_instr_embed [OF 1(1), of pre post] by (simp add: body_chars.simps [of "pre @ _"])
  next
    case (2 op len m)
    have "body_chars (pre @ bs @ post) (length pre + (p + len)) = Some m"
      by (rule less.hyps [OF _ 2(4)]) (use re_instr_pos [OF 2(1)] in linarith)
    then show ?thesis using re_instr_embed [OF 2(1), of pre post] 2(2,3)
      by (auto simp: body_chars.simps [of "pre @ _"] char_ops_def add.assoc)
  next
    case (3 op)
    have "body_chars (pre @ bs @ post) (length pre + (p + 1)) = Some n"
      by (rule less.hyps [OF _ 3(3)]) (use re_instr_pos [OF 3(1)] in linarith)
    then show ?thesis using re_instr_embed [OF 3(1), of pre post] 3(2)
      by (auto simp: body_chars.simps [of "pre @ _" "length pre + p"] test_ops_def)
  qed
qed

lemma re_jump_embed:
  "re_jump (frag_ctx cc bs) p v = Some t \<Longrightarrow> bc_buf s = pre @ bs @ post \<Longrightarrow> re_jump s (length pre + p) v = Some (length pre + t)"
  by (auto simp: re_jump_def Let_def nat_add_distrib split: if_splits)

text \<open>An instruction of a piece is good in the larger code, at a depth that is larger by \<open>k\<close>.\<close>

lemma instr_ok_embed:
  assumes "instr_ok (frag_ctx cc bs) D p d" "bc_buf s = pre @ bs @ post" "cc \<le> capture_count s"
    and D: "\<And>q e. D q = Some e \<Longrightarrow> D' (length pre + q) = Some (e + k)"
  shows "instr_ok s D' (length pre + p) (d + k)"
proof -
  obtain op len where i: "re_instr bs p = Some (op, len)" "p + len \<le> length bs" "op_ok (frag_ctx cc bs) D p d len op"
    using assms(1) by (auto simp: instr_ok_def split: option.splits)
  have jump: "jump_ok s D' (length pre + p) (d + k)" if j: "jump_ok (frag_ctx cc bs) D p d"
  proof -
    obtain v t where "get_u32 bs (p + 1) = Some v" "re_jump (frag_ctx cc bs) (p + 5) v = Some t" "D t = Some d"
      using j by (auto simp: jump_ok_def bind_eq_Some_conv split: option.splits)
    then show ?thesis using D get_u32_embed [of bs "p + 1" v pre post] re_jump_embed [of cc bs "p + 5" v t s pre post] assms(2)
      by (auto simp: jump_ok_def add.assoc)
  qed
  have cap: "capture_arg s (length pre + q)" if "capture_arg (frag_ctx cc bs) q" for q
    using that arr_get_embed [of bs q _ pre post] assms(2,3) by (auto simp: capture_arg_def split: option.splits)
  have greedy: "greedy_ok s D' (length pre + p) (d + k)" if g: "greedy_ok (frag_ctx cc bs) D p d" and op: "op = REOP_simple_greedy_quant"
  proof -
    obtain v t where v: "get_u32 bs (p + 1) = Some v" "re_jump (frag_ctx cc bs) (p + 17) v = Some t" "p < t" "D t = Some d"
      using g by (auto simp: greedy_ok_def bind_eq_Some_conv split: option.splits)
    obtain n where n: "get_u32 bs (p + 13) = Some n"
      using i(2) get_u32_some [of "p + 13" bs] re_instr_fixed [OF i(1)] op by auto
    show ?thesis using g v n D get_u32_embed [OF v(1), of pre post] get_u32_embed [OF n, of pre post] re_jump_embed [OF v(2) assms(2)]
        body_chars_embed [of bs "p + 17" "unat n" pre post] assms(2)
      by (auto simp: greedy_ok_def add.assoc)
  qed
  have drop: "D' (length pre + (p + len)) = Some (d + k - 1)" if "D (p + len) = Some (d - 1)" "0 < d"
    using D [OF that(1)] that(2) by simp
  have "op_ok s D' (length pre + p) (d + k) len op"
    using i(3) by (cases op) (auto simp: add.assoc intro: D jump greedy D [of "p + len" "d + 1", simplified] drop [simplified] dest: cap)
  then show ?thesis using re_instr_embed [OF i(1), of pre post] i(2) assms(2) by (simp add: instr_ok_def)
qed

section \<open>Linear segments\<close>

fun next_depth :: "reop \<Rightarrow> nat \<Rightarrow> nat option" where
  "next_depth REOP_push_i32 d = Some (d + 1)"
| "next_depth REOP_push_char_pos d = Some (d + 1)"
| "next_depth REOP_drop d = (if 0 < d then Some (d - 1) else None)"
| "next_depth REOP_check_advance d = (if 0 < d then Some (d - 1) else None)"
| "next_depth op d = Some d"

lemma next_depth_add: "next_depth op d = Some e \<Longrightarrow> next_depth op (d + k) = Some (e + k)"
  by (cases op) (auto split: if_splits)

text \<open>The instructions from \<open>p\<close> to \<open>q\<close>, with the depth in front of each, starting with \<open>d\<close> and ending with \<open>e\<close>.\<close>

inductive seg :: "u8 list \<Rightarrow> nat \<Rightarrow> nat \<Rightarrow> nat \<Rightarrow> (nat \<times> nat) list \<Rightarrow> nat \<Rightarrow> bool" for bc where
  seg_nil: "seg bc p p d [] d"
| seg_step: "re_instr bc p = Some (op, len) \<Longrightarrow> next_depth op d = Some d' \<Longrightarrow> seg bc (p + len) q d' ds e \<Longrightarrow> seg bc p q d ((p, d) # ds) e"

lemma seg_one: "re_instr bc p = Some (op, len) \<Longrightarrow> next_depth op d = Some e \<Longrightarrow> seg bc p (p + len) d [(p, d)] e"
  by (rule seg_step) (auto intro: seg_nil)

lemma seg_trans: "seg bc p q d ds e \<Longrightarrow> seg bc q r e ds' f \<Longrightarrow> seg bc p r d (ds @ ds') f"
  by (induction rule: seg.induct) (auto intro: seg_step)

definition shift :: "nat \<Rightarrow> nat \<Rightarrow> (nat \<times> nat) list \<Rightarrow> (nat \<times> nat) list" where
  "shift n k ds = map (\<lambda>(p, d). (n + p, d + k)) ds"

lemma set_shift: "(p, d) \<in> set (shift n k ds) \<longleftrightarrow> (\<exists>q e. p = n + q \<and> d = e + k \<and> (q, e) \<in> set ds)"
  by (force simp: shift_def)

lemma seg_embed:
  "seg bs p q d ds e \<Longrightarrow> seg (pre @ bs @ post) (length pre + p) (length pre + q) (d + k) (shift (length pre) k ds) (e + k)"
proof (induction rule: seg.induct)
  case (seg_step p op len d d' q ds e)
  then show ?case using re_instr_embed [OF seg_step(1), of pre post] next_depth_add [OF seg_step(2), of k]
    by (auto simp: shift_def add.assoc intro: seg.seg_step)
qed (simp add: shift_def seg_nil)

lemma seg_range: "seg bc p q d ds e \<Longrightarrow> p \<le> q \<and> (\<forall>x \<in> set ds. p \<le> fst x \<and> fst x < q) \<and> distinct (map fst ds)"
proof (induction rule: seg.induct)
  case (seg_step p op len d d' q ds e)
  have "0 < len" using re_instr_pos [OF seg_step(1)] by simp
  then show ?case using seg_step(4) by force
qed simp

lemma seg_lookup:
  assumes "seg bc p q d ds e"
  shows "map_of (ds @ [(q, x)]) r = Some y \<longleftrightarrow> (r, y) \<in> set ds \<or> r = q \<and> y = x"
proof -
  have "distinct (map fst (ds @ [(q, x)]))" using seg_range [OF assms] by fastforce
  then have "map_of (ds @ [(q, x)]) r = Some y \<longleftrightarrow> (r, y) \<in> set (ds @ [(q, x)])" by (rule map_of_eq_Some_iff)
  then show ?thesis by auto
qed

section \<open>Fragments\<close>

definition frag :: "nat \<Rightarrow> u8 list \<Rightarrow> (nat \<times> nat) list \<Rightarrow> bool" where
  "frag cc bs ds \<longleftrightarrow>
     seg bs 0 (length bs) 0 ds 0 \<and>
     (\<forall>(p, d) \<in> set ds. instr_ok (frag_ctx cc bs) (map_of (ds @ [(length bs, 0)])) p d)"

definition is_frag :: "nat \<Rightarrow> u8 list \<Rightarrow> bool" where
  "is_frag cc bs \<longleftrightarrow> (\<exists>ds. frag cc bs ds)"

lemma frag_lookup:
  "frag cc bs ds \<Longrightarrow> map_of (ds @ [(length bs, 0)]) r = Some y \<longleftrightarrow> (r, y) \<in> set ds \<or> r = length bs \<and> y = 0"
  by (rule seg_lookup [where p = 0 and d = 0]) (auto simp: frag_def)

lemma fragI:
  assumes "seg bs 0 (length bs) 0 ds 0"
    and "\<And>D p d. (\<And>q e. (q, e) \<in> set ds \<Longrightarrow> D q = Some e) \<Longrightarrow> D (length bs) = Some 0 \<Longrightarrow> (p, d) \<in> set ds \<Longrightarrow> instr_ok (frag_ctx cc bs) D p d"
  shows "is_frag cc bs"
proof -
  have "instr_ok (frag_ctx cc bs) (map_of (ds @ [(length bs, 0)])) p d" if "(p, d) \<in> set ds" for p d
    by (rule assms(2) [OF _ _ that]) (use seg_lookup [OF assms(1)] in blast)+
  then show ?thesis using assms(1) by (auto simp: is_frag_def frag_def)
qed

text \<open>A fragment inside of larger code whose table contains the shifted table of the fragment.\<close>

lemma frag_place:
  assumes "frag cc F ds" "bc_buf s = pre @ F @ post" "cc \<le> capture_count s"
    "\<And>q e. (q, e) \<in> set ds \<Longrightarrow> D (length pre + q) = Some (e + k)" "D (length pre + length F) = Some k" "(p, d) \<in> set ds"
  shows "instr_ok s D (length pre + p) (d + k)"
proof (rule instr_ok_embed [OF _ assms(2,3)])
  show "instr_ok (frag_ctx cc F) (map_of (ds @ [(length F, 0)])) p d" using assms(1,6) by (auto simp: frag_def)
  show "D (length pre + q) = Some (e + k)" if "map_of (ds @ [(length F, 0)]) q = Some e" for q e
    using that [unfolded frag_lookup [OF assms(1)]] assms(4,5) by auto
qed

lemma frag_entry:
  assumes "frag cc F ds" "\<And>q e. (q, e) \<in> set ds \<Longrightarrow> D (n + q) = Some (e + k)" "D (n + length F) = Some k"
  shows "D n = Some k"
proof -
  have "seg F 0 (length F) 0 ds 0" using assms(1) by (simp add: frag_def)
  then show ?thesis
  proof (cases rule: seg.cases)
    case seg_nil
    then show ?thesis using assms(3) by simp
  next
    case (seg_step op len d' ds')
    then show ?thesis using assms(2) [of 0 0] by simp
  qed
qed

lemma frag_seg: "frag cc F ds \<Longrightarrow> seg (pre @ F @ post) (length pre) (length pre + length F) k (shift (length pre) k ds) k"
  using seg_embed [of F 0 "length F" 0 ds 0 pre post k] by (simp add: frag_def)

lemma frag_mono: "frag cc F ds \<Longrightarrow> cc \<le> cc' \<Longrightarrow> frag cc' F ds"
  using instr_ok_embed [of cc F "map_of (ds @ [(length F, 0)])" _ _ "frag_ctx cc' F" "[]" "[]" _ 0] by (fastforce simp: frag_def)

lemma is_frag_mono: "is_frag cc F \<Longrightarrow> cc \<le> cc' \<Longrightarrow> is_frag cc' F"
  by (auto simp: is_frag_def intro: frag_mono)

lemma is_frag_Nil: "is_frag cc []"
  by (rule fragI [of _ "[]"]) (simp_all add: seg_nil)

lemma is_frag_append:
  assumes "is_frag cc F" "is_frag cc G"
  shows "is_frag cc (F @ G)"
proof -
  obtain ds es where f: "frag cc F ds" "frag cc G es" using assms by (auto simp: is_frag_def)
  let ?ts = "ds @ shift (length F) 0 es"
  have "seg (F @ G) 0 (length F) 0 (shift 0 0 ds) 0" using frag_seg [OF f(1), of "[]" G 0] by simp
  then have s1: "seg (F @ G) 0 (length F) 0 ds 0" by (simp add: shift_def)
  have s2: "seg (F @ G) (length F) (length F + length G) 0 (shift (length F) 0 es) 0" using frag_seg [OF f(2), of F "[]" 0] by simp
  show ?thesis
  proof (rule fragI [of _ ?ts])
    show "seg (F @ G) 0 (length (F @ G)) 0 ?ts 0" using seg_trans [OF s1 s2] by simp
    fix D p d
    assume D: "\<And>q e. (q, e) \<in> set ?ts \<Longrightarrow> D q = Some e" "D (length (F @ G)) = Some 0" and p: "(p, d) \<in> set ?ts"
    have g: "D (length F) = Some 0"
      by (rule frag_entry [OF f(2)]) (use D in \<open>auto simp: set_shift\<close>)
    from p consider "(p, d) \<in> set ds" | q e where "(q, e) \<in> set es" "p = length F + q" "d = e" by (auto simp: set_shift)
    then show "instr_ok (frag_ctx cc (F @ G)) D p d"
    proof cases
      case 1
      then show ?thesis using frag_place [OF f(1), of "frag_ctx cc (F @ G)" "[]" G D 0 p d] D g by simp
    next
      case (2 q e)
      then show ?thesis using frag_place [OF f(2), of "frag_ctx cc (F @ G)" F "[]" D 0 q e] D by (auto simp: set_shift)
    qed
  qed
qed

section \<open>Code assembled from instructions and fragments\<close>

datatype piece = I reop "u8 list" | Fr "u8 list" "(nat \<times> nat) list"

fun pbytes :: "piece \<Rightarrow> u8 list" where
  "pbytes (I op a) = reop_code op # a"
| "pbytes (Fr b ds) = b"

fun pcode :: "piece list \<Rightarrow> u8 list" where
  "pcode [] = []"
| "pcode (x # xs) = pbytes x @ pcode xs"

fun pdepth :: "nat \<Rightarrow> piece \<Rightarrow> nat" where
  "pdepth d (I op a) = the (next_depth op d)"
| "pdepth d (Fr b ds) = d"

fun ptab :: "nat \<Rightarrow> nat \<Rightarrow> piece list \<Rightarrow> (nat \<times> nat) list" where
  "ptab n d [] = []"
| "ptab n d (x # xs) =
     (case x of I op a \<Rightarrow> [(n, d)] | Fr b ds \<Rightarrow> shift n d ds) @ ptab (n + length (pbytes x)) (pdepth d x) xs"

fun pend :: "nat \<Rightarrow> piece list \<Rightarrow> nat" where
  "pend d [] = d"
| "pend d (x # xs) = pend (pdepth d x) xs"

text \<open>The pieces have the right sizes, and no instruction pops from below the start of the code.\<close>

fun pwell :: "nat \<Rightarrow> nat \<Rightarrow> piece list \<Rightarrow> bool" where
  "pwell cc d [] \<longleftrightarrow> True"
| "pwell cc d (x # xs) \<longleftrightarrow>
     (case x of
        I op a \<Rightarrow> op \<noteq> REOP_range \<and> op \<noteq> REOP_range32 \<and> op \<noteq> REOP_invalid \<and> length a + 1 = reop_size op \<and> next_depth op d \<noteq> None
      | Fr b ds \<Rightarrow> frag cc b ds) \<and> pwell cc (pdepth d x) xs"

text \<open>What an instruction needs beyond the depth behind it.\<close>

definition op_extra :: "re_ctx \<Rightarrow> depths \<Rightarrow> nat \<Rightarrow> nat \<Rightarrow> reop \<Rightarrow> bool" where
  "op_extra s D p d op \<longleftrightarrow>
     (op \<in> {REOP_goto, REOP_split_goto_first, REOP_split_next_first, REOP_lookahead, REOP_negative_lookahead, REOP_loop} \<longrightarrow> jump_ok s D p d) \<and>
     (op \<in> {REOP_save_start, REOP_save_end} \<longrightarrow> capture_arg s (p + 1)) \<and>
     (op = REOP_save_reset \<longrightarrow> capture_arg s (p + 2)) \<and>
     (op = REOP_loop \<longrightarrow> 0 < d) \<and>
     (op = REOP_simple_greedy_quant \<longrightarrow> greedy_ok s D p d)"

fun ptyped :: "re_ctx \<Rightarrow> depths \<Rightarrow> nat \<Rightarrow> nat \<Rightarrow> piece list \<Rightarrow> bool" where
  "ptyped s D n d [] \<longleftrightarrow> True"
| "ptyped s D n d (x # xs) \<longleftrightarrow>
     (case x of I op a \<Rightarrow> op_extra s D n d op | Fr b ds \<Rightarrow> True) \<and> ptyped s D (n + length (pbytes x)) (pdepth d x) xs"

lemma re_instr_head:
  assumes "op \<noteq> REOP_range" "op \<noteq> REOP_range32"
  shows "re_instr (pre @ (reop_code op # a) @ post) (length pre) = Some (op, reop_size op)"
proof -
  have "re_instr (reop_code op # a) 0 = Some (op, reop_size op)"
    using assms re_opcode_code [of op] by (cases op) (simp_all add: re_instr_def arr_get_def)
  from re_instr_embed [OF this, of pre post] show ?thesis by simp
qed

lemma pieces_seg: "pwell cc d ps \<Longrightarrow> seg (pre @ pcode ps @ post) (length pre) (length pre + length (pcode ps)) d (ptab (length pre) d ps) (pend d ps)"
proof (induction ps arbitrary: pre d)
  case (Cons x ps)
  have rest: "seg (pre @ pcode (x # ps) @ post) (length pre + length (pbytes x)) (length pre + length (pcode (x # ps))) (pdepth d x)
      (ptab (length pre + length (pbytes x)) (pdepth d x) ps) (pend (pdepth d x) ps)"
    using Cons.IH [of "pdepth d x" "pre @ pbytes x"] Cons.prems by (simp add: add.assoc)
  have "seg (pre @ pcode (x # ps) @ post) (length pre) (length pre + length (pbytes x)) d
      (case x of I op a \<Rightarrow> [(length pre, d)] | Fr b ds \<Rightarrow> shift (length pre) d ds) (pdepth d x)"
  proof (cases x)
    case (I op a)
    then show ?thesis using Cons.prems re_instr_head [of op pre a "pcode ps @ post"] seg_one [of "pre @ pcode (x # ps) @ post" "length pre" op "reop_size op" d]
      by auto
  next
    case (Fr b ds)
    then show ?thesis using Cons.prems frag_seg [of cc b ds pre "pcode ps @ post" d] by simp
  qed
  from seg_trans [OF this rest] show ?case by simp
qed (simp add: seg_nil)

text \<open>The table has the right depth in front of every piece.\<close>

lemma pieces_entry:
  assumes "pwell cc d ps" "\<And>q e. (q, e) \<in> set (ptab n d ps) \<Longrightarrow> D q = Some e" "D (n + length (pcode ps)) = Some (pend d ps)"
  shows "D n = Some d"
  using assms
proof (induction ps arbitrary: n d)
  case (Cons x ps)
  have rest: "D (n + length (pbytes x)) = Some (pdepth d x)"
    using Cons.IH [of "pdepth d x" "n + length (pbytes x)"] Cons.prems by (simp add: add.assoc)
  show ?case
  proof (cases x)
    case (I op a)
    then show ?thesis using Cons.prems(2) by simp
  next
    case (Fr b ds)
    then show ?thesis using Cons.prems(1,2) rest by (intro frag_entry [of cc b ds D n d]) (auto simp: set_shift)
  qed
qed simp

lemma op_okI:
  assumes "op_extra s D p d op" "D (p + reop_size op) = Some e" "next_depth op d = Some e" "op \<notin> {REOP_invalid, REOP_range, REOP_range32}"
  shows "op_ok s D p d (reop_size op) op"
  using assms by (cases op) (auto simp: op_extra_def split: if_splits)

lemma pieces_typed:
  assumes "pwell cc d ps" "bc_buf s = pre @ pcode ps @ post" "capture_count s = cc"
    "\<And>q e. (q, e) \<in> set (ptab (length pre) d ps) \<Longrightarrow> D q = Some e" "D (length pre + length (pcode ps)) = Some (pend d ps)"
    "ptyped s D (length pre) d ps" "(p, e) \<in> set (ptab (length pre) d ps)"
  shows "instr_ok s D p e"
  using assms
proof (induction ps arbitrary: pre d)
  case (Cons x ps)
  have tab: "D q = Some e" if "(q, e) \<in> set (ptab (length (pre @ pbytes x)) (pdepth d x) ps)" for q e
    using Cons.prems(4) that by simp
  have en: "D (length (pre @ pbytes x) + length (pcode ps)) = Some (pend (pdepth d x) ps)" using Cons.prems(5) by (simp add: add.assoc)
  have well: "pwell cc (pdepth d x) ps" using Cons.prems(1) by simp
  have nxt: "D (length (pre @ pbytes x)) = Some (pdepth d x)" 
    using pieces_entry [of cc "pdepth d x" ps "length (pre @ pbytes x)" D] well tab en by blast
  show ?case
  proof (cases "(p, e) \<in> set (ptab (length (pre @ pbytes x)) (pdepth d x) ps)")
    case True
    then show ?thesis using Cons.IH [of "pdepth d x" "pre @ pbytes x"] well Cons.prems(2,3,6) tab en by simp
  next
    case False
    show ?thesis
    proof (cases x)
      case (I op a)
      then have pe: "p = length pre" "e = d" using Cons.prems(7) False by auto
      have w: "op \<noteq> REOP_range" "op \<noteq> REOP_range32" "op \<noteq> REOP_invalid" "length a + 1 = reop_size op" "next_depth op d \<noteq> None"
        using Cons.prems(1) I by auto
      have "re_instr (bc_buf s) p = Some (op, reop_size op)" using re_instr_head [OF w(1,2), of pre a "pcode ps @ post"] Cons.prems(2) I pe by simp
      moreover have "op_ok s D p d (reop_size op) op"
        by (rule op_okI [of _ _ _ _ _ "pdepth d x"]) (use Cons.prems(6) I pe w nxt in auto)
      ultimately show ?thesis using Cons.prems(2) I pe w(4) by (simp add: instr_ok_def)
    next
      case (Fr b ds)
      then obtain q f where qf: "(q, f) \<in> set ds" "p = length pre + q" "e = f + d" using Cons.prems(7) False by (auto simp: set_shift)
      show ?thesis unfolding qf(2,3)
        by (rule frag_place [of cc b ds s pre "pcode ps @ post" D d q f]) (use Cons.prems Fr nxt qf(1) in \<open>auto simp: set_shift\<close>)
    qed
  qed
qed simp

lemma pieces_frag:
  assumes "pwell cc 0 ps" "pend 0 ps = 0"
    "\<And>D. (\<And>q e. (q, e) \<in> set (ptab 0 0 ps) \<Longrightarrow> D q = Some e) \<Longrightarrow> D (length (pcode ps)) = Some 0 \<Longrightarrow>
      ptyped (frag_ctx cc (pcode ps)) D 0 0 ps"
  shows "is_frag cc (pcode ps)"
proof (rule fragI)
  show "seg (pcode ps) 0 (length (pcode ps)) 0 (ptab 0 0 ps) 0" using pieces_seg [OF assms(1), of "[]" "[]"] assms(2) by simp
  show "instr_ok (frag_ctx cc (pcode ps)) D p d"
    if "\<And>q e. (q, e) \<in> set (ptab 0 0 ps) \<Longrightarrow> D q = Some e" "D (length (pcode ps)) = Some 0" "(p, d) \<in> set (ptab 0 0 ps)" for D p d
    using pieces_typed [OF assms(1), of "frag_ctx cc (pcode ps)" "[]" "[]" D p d] that assms(2) assms(3) [of D] by simp
qed

section \<open>The forms of code of the compiler\<close>

text \<open>The operand of a jump over \<open>k\<close> bytes.\<close>

definition le32 :: "int \<Rightarrow> u8 list" where
  "le32 k = nat_to_le 4 (unat (word_of_int k :: u32))"

lemma length_le32 [simp]: "length (le32 k) = 4"
  by (simp add: le32_def)

lemma get_u32_le32: "get_u32 (pre @ (c # le32 k) @ post) (length pre + 1) = Some (word_of_int k)"
proof -
  have "get_u32 (c # le32 k) 1 = Some (word_of_int k)"
    by (simp add: get_u32_def arr_slice_def le32_def)
  from get_u32_embed [OF this, of pre post] show ?thesis by simp
qed

lemma jump_to:
  assumes "bc_buf s = pre @ (c # le32 k) @ post" "int t = int (length pre) + 5 + k" "t \<le> length (bc_buf s)" "length (bc_buf s) < 2 ^ 31"
    "D t = Some d"
  shows "jump_ok s D (length pre) d"
proof -
  have "length pre + 5 \<le> length (bc_buf s)" using assms(1) by simp
  moreover have "length (bc_buf s) < 2147483648" using assms(4) by simp
  ultimately have k: "int (length pre) + 5 \<le> 2147483648" "int t < 2147483648" "0 \<le> int t" using assms(3) by linarith+
  have lo: "- (2 ^ 31) \<le> k" using k assms(2) by simp
  have "k < 2 ^ 31" using k assms(2) by simp
  with lo have "sint (word_of_int k :: u32) = k" by (simp add: signed_of_int signed_take_bit_int_eq_self)
  then have "re_jump s (length pre + 5) (word_of_int k) = Some t"
    unfolding re_jump_def using assms(2,3) by (simp add: Let_def flip: assms(2))
  then show ?thesis using get_u32_le32 [of pre c k post] assms(1,5) by (simp add: jump_ok_def)
qed

lemma jump_at:
  assumes "n = length pre" "bc_buf s = pre @ (c # le32 k) @ post" "int t = int n + 5 + k" "t \<le> length (bc_buf s)" "length (bc_buf s) < 2 ^ 31"
    "D t = Some d"
  shows "jump_ok s D n d"
  using jump_to [of s pre c k post t D d] assms by simp

lemma is_frag_I:
  assumes "op \<notin> {REOP_range, REOP_range32, REOP_invalid}" "length a + 1 = reop_size op" "next_depth op 0 = Some 0"
    "\<And>D. D (reop_size op) = Some 0 \<Longrightarrow> op_extra (frag_ctx cc (reop_code op # a)) D 0 0 op"
  shows "is_frag cc (reop_code op # a)"
  using pieces_frag [of cc "[I op a]"] assms by simp

lemma is_frag_simple:
  assumes "op \<in> {REOP_char, REOP_char32, REOP_dot, REOP_any, REOP_line_start, REOP_line_end, REOP_match, REOP_word_boundary,
      REOP_not_word_boundary, REOP_back_reference, REOP_backward_back_reference, REOP_prev}"
    and "length a + 1 = reop_size op"
  shows "is_frag cc (reop_code op # a)"
  by (rule is_frag_I) (use assms in \<open>auto simp: op_extra_def\<close>)

lemma is_frag_save:
  assumes "op \<in> {REOP_save_start, REOP_save_end}" "unat v < cc"
  shows "is_frag cc [reop_code op, v]"
  by (rule is_frag_I) (use assms in \<open>auto simp: op_extra_def capture_arg_def arr_get_def\<close>)

lemma is_frag_reset:
  assumes "unat w < cc"
  shows "is_frag cc [reop_code REOP_save_reset, v, w]"
  by (rule is_frag_I) (use assms in \<open>auto simp: op_extra_def capture_arg_def arr_get_def\<close>)

lemma is_fragE:
  assumes "is_frag cc F"
  obtains ds where "frag cc F ds"
  using assms by (auto simp: is_frag_def)

text \<open>\<open>push_char_pos F check_advance\<close>\<close>

lemma is_frag_adv:
  assumes "is_frag cc F"
  shows "is_frag cc ([reop_code REOP_push_char_pos] @ F @ [reop_code REOP_check_advance])"
proof -
  obtain ds where f: "frag cc F ds" using assms by (rule is_fragE)
  show ?thesis using pieces_frag [of cc "[I REOP_push_char_pos [], Fr F ds, I REOP_check_advance []]"] f by (simp add: op_extra_def)
qed

text \<open>\<open>push_i32 n; L: F; loop L; drop\<close>\<close>

lemma is_frag_loop:
  assumes "is_frag cc F" "length F < 2 ^ 31 - 11"
  shows "is_frag cc (reop_code REOP_push_i32 # le32 n @ F @ (reop_code REOP_loop # le32 (- int (length F) - 5)) @ [reop_code REOP_drop])"
proof -
  obtain ds where f: "frag cc F ds" using assms(1) by (rule is_fragE)
  let ?ps = "[I REOP_push_i32 (le32 n), Fr F ds, I REOP_loop (le32 (- int (length F) - 5)), I REOP_drop []]"
  have "is_frag cc (pcode ?ps)"
  proof (rule pieces_frag)
    fix D
    assume D: "\<And>q e. (q, e) \<in> set (ptab 0 0 ?ps) \<Longrightarrow> D q = Some e" "D (length (pcode ?ps)) = Some 0"
    have "D 5 = Some 1" by (rule frag_entry [OF f]) (use D(1) in \<open>auto simp: set_shift\<close>)
    then have "jump_ok (frag_ctx cc (pcode ?ps)) D (5 + length F) 1"
      using assms(2) by (intro jump_at [of _ "reop_code REOP_push_i32 # le32 n @ F" _ "reop_code REOP_loop" "- int (length F) - 5" _ 5]) auto
    then show "ptyped (frag_ctx cc (pcode ?ps)) D 0 0 ?ps" by (simp add: op_extra_def)
  qed (use f in auto)
  then show ?thesis by simp
qed

text \<open>\<open>split E; F; E:\<close>\<close>

definition split_op :: "reop \<Rightarrow> bool" where
  "split_op op \<longleftrightarrow> op = REOP_split_goto_first \<or> op = REOP_split_next_first"

lemma is_frag_opt:
  assumes "is_frag cc F" "split_op op" "length F < 2 ^ 31 - 5"
  shows "is_frag cc (reop_code op # le32 (int (length F)) @ F)"
proof -
  obtain ds where f: "frag cc F ds" using assms(1) by (rule is_fragE)
  let ?ps = "[I op (le32 (int (length F))), Fr F ds]"
  have "is_frag cc (pcode ?ps)"
  proof (rule pieces_frag)
    fix D
    assume D: "\<And>q e. (q, e) \<in> set (ptab 0 0 ?ps) \<Longrightarrow> D q = Some e" "D (length (pcode ?ps)) = Some 0"
    then have "jump_ok (frag_ctx cc (pcode ?ps)) D 0 0"
      using assms(3) by (intro jump_at [of _ "[]" _ "reop_code op" "int (length F)" F "5 + length F"]) auto
    then show "ptyped (frag_ctx cc (pcode ?ps)) D 0 0 ?ps" using assms(2) by (auto simp: op_extra_def split_op_def)
  qed (use f assms(2) in \<open>auto simp: split_op_def\<close>)
  then show ?thesis by simp
qed

text \<open>\<open>L: split E; F; goto L; E:\<close>\<close>

lemma is_frag_star:
  assumes "is_frag cc F" "split_op op" "length F < 2 ^ 31 - 10"
  shows "is_frag cc (reop_code op # le32 (int (length F) + 5) @ F @ (reop_code REOP_goto # le32 (- int (length F) - 10)))"
proof -
  obtain ds where f: "frag cc F ds" using assms(1) by (rule is_fragE)
  let ?ps = "[I op (le32 (int (length F) + 5)), Fr F ds, I REOP_goto (le32 (- int (length F) - 10))]"
  have "is_frag cc (pcode ?ps)"
  proof (rule pieces_frag)
    fix D
    assume D: "\<And>q e. (q, e) \<in> set (ptab 0 0 ?ps) \<Longrightarrow> D q = Some e" "D (length (pcode ?ps)) = Some 0"
    have "jump_ok (frag_ctx cc (pcode ?ps)) D 0 0"
      using assms(3) D(2) by (intro jump_at [of _ "[]" _ "reop_code op" "int (length F) + 5" _ "10 + length F"]) auto
    moreover have "jump_ok (frag_ctx cc (pcode ?ps)) D (5 + length F) 0"
      using assms(3) D(1) by (intro jump_at [of _ "reop_code op # le32 (int (length F) + 5) @ F" _ "reop_code REOP_goto" "- int (length F) - 10" "[]" 0]) auto
    ultimately show "ptyped (frag_ctx cc (pcode ?ps)) D 0 0 ?ps" using assms(2) by (auto simp: op_extra_def split_op_def)
  qed (use f assms(2) in \<open>auto simp: split_op_def\<close>)
  then show ?thesis by simp
qed

text \<open>\<open>push_i32 n; L: split E; F; loop L; E: drop\<close>\<close>

lemma is_frag_upto:
  assumes "is_frag cc F" "split_op op" "length F < 2 ^ 31 - 16"
  shows "is_frag cc (reop_code REOP_push_i32 # le32 n @ (reop_code op # le32 (int (length F) + 5)) @ F @
    (reop_code REOP_loop # le32 (- int (length F) - 10)) @ [reop_code REOP_drop])"
proof -
  obtain ds where f: "frag cc F ds" using assms(1) by (rule is_fragE)
  let ?ps = "[I REOP_push_i32 (le32 n), I op (le32 (int (length F) + 5)), Fr F ds, I REOP_loop (le32 (- int (length F) - 10)), I REOP_drop []]"
  have "is_frag cc (pcode ?ps)"
  proof (rule pieces_frag)
    fix D
    assume D: "\<And>q e. (q, e) \<in> set (ptab 0 0 ?ps) \<Longrightarrow> D q = Some e" "D (length (pcode ?ps)) = Some 0"
    have t: "D 5 = Some 1" "D (15 + length F) = Some 1" using D(1) [of 5 1] D(1) [of "15 + length F" 1] assms(2) by (auto simp: split_op_def)
    have "jump_ok (frag_ctx cc (pcode ?ps)) D 5 1"
      using assms(3) t(2) by (intro jump_at [of _ "reop_code REOP_push_i32 # le32 n" _ "reop_code op" "int (length F) + 5" _ "15 + length F"]) auto
    moreover have "jump_ok (frag_ctx cc (pcode ?ps)) D (10 + length F) 1"
      using assms(3) t(1) by (intro jump_at [of _ "reop_code REOP_push_i32 # le32 n @ (reop_code op # le32 (int (length F) + 5)) @ F" _
            "reop_code REOP_loop" "- int (length F) - 10" _ 5]) auto
    ultimately show "ptyped (frag_ctx cc (pcode ?ps)) D 0 0 ?ps" using assms(2) by (auto simp: op_extra_def split_op_def)
  qed (use f assms(2) in \<open>auto simp: split_op_def\<close>)
  then show ?thesis by simp
qed

text \<open>\<open>L: F; split L\<close>\<close>

lemma is_frag_plus:
  assumes "is_frag cc F" "split_op op" "length F < 2 ^ 31 - 5"
  shows "is_frag cc (F @ reop_code op # le32 (- int (length F) - 5))"
proof -
  obtain ds where f: "frag cc F ds" using assms(1) by (rule is_fragE)
  let ?ps = "[Fr F ds, I op (le32 (- int (length F) - 5))]"
  have "is_frag cc (pcode ?ps)"
  proof (rule pieces_frag)
    fix D
    assume D: "\<And>q e. (q, e) \<in> set (ptab 0 0 ?ps) \<Longrightarrow> D q = Some e" "D (length (pcode ?ps)) = Some 0"
    have "D 0 = Some 0" by (rule frag_entry [OF f]) (use D(1) in \<open>auto simp: set_shift\<close>)
    then have "jump_ok (frag_ctx cc (pcode ?ps)) D (length F) 0"
      using assms(3) by (intro jump_at [of _ F _ "reop_code op" "- int (length F) - 5" "[]" 0]) auto
    then show "ptyped (frag_ctx cc (pcode ?ps)) D 0 0 ?ps" using assms(2) by (auto simp: op_extra_def split_op_def)
  qed (use f assms(2) in \<open>auto simp: split_op_def\<close>)
  then show ?thesis by simp
qed

text \<open>\<open>lookahead E; F; match; E:\<close>\<close>

lemma is_frag_lookahead:
  assumes "is_frag cc F" "op = REOP_lookahead \<or> op = REOP_negative_lookahead" "length F < 2 ^ 31 - 6"
  shows "is_frag cc (reop_code op # le32 (int (length F) + 1) @ F @ [reop_code REOP_match])"
proof -
  obtain ds where f: "frag cc F ds" using assms(1) by (rule is_fragE)
  let ?ps = "[I op (le32 (int (length F) + 1)), Fr F ds, I REOP_match []]"
  have "is_frag cc (pcode ?ps)"
  proof (rule pieces_frag)
    fix D
    assume D: "\<And>q e. (q, e) \<in> set (ptab 0 0 ?ps) \<Longrightarrow> D q = Some e" "D (length (pcode ?ps)) = Some 0"
    then have "jump_ok (frag_ctx cc (pcode ?ps)) D 0 0"
      using assms(3) by (intro jump_at [of _ "[]" _ "reop_code op" "int (length F) + 1" _ "6 + length F"]) auto
    then show "ptyped (frag_ctx cc (pcode ?ps)) D 0 0 ?ps" using assms(2) by (auto simp: op_extra_def)
  qed (use f assms(2) in auto)
  then show ?thesis by simp
qed

text \<open>\<open>split G; F; goto E; G; E:\<close>\<close>

lemma is_frag_alt:
  assumes "is_frag cc F" "is_frag cc G" "length F + length G < 2 ^ 31 - 10"
  shows "is_frag cc (reop_code REOP_split_next_first # le32 (int (length F) + 5) @ F @ (reop_code REOP_goto # le32 (int (length G))) @ G)"
proof -
  obtain ds es where f: "frag cc F ds" "frag cc G es" using assms(1,2) by (auto simp: is_frag_def)
  let ?ps = "[I REOP_split_next_first (le32 (int (length F) + 5)), Fr F ds, I REOP_goto (le32 (int (length G))), Fr G es]"
  have "is_frag cc (pcode ?ps)"
  proof (rule pieces_frag)
    fix D
    assume D: "\<And>q e. (q, e) \<in> set (ptab 0 0 ?ps) \<Longrightarrow> D q = Some e" "D (length (pcode ?ps)) = Some 0"
    have "D (10 + length F) = Some 0" by (rule frag_entry [OF f(2)]) (use D in \<open>auto simp: set_shift add.assoc\<close>)
    then have "jump_ok (frag_ctx cc (pcode ?ps)) D 0 0"
      using assms(3) by (intro jump_at [of _ "[]" _ "reop_code REOP_split_next_first" "int (length F) + 5" _ "10 + length F"]) auto
    moreover have "jump_ok (frag_ctx cc (pcode ?ps)) D (5 + length F) 0"
      using assms(3) D(2) by (intro jump_at [of _ "reop_code REOP_split_next_first # le32 (int (length F) + 5) @ F" _ "reop_code REOP_goto" "int (length G)" G
            "10 + length F + length G"]) (auto simp: add.assoc)
    ultimately show "ptyped (frag_ctx cc (pcode ?ps)) D 0 0 ?ps" by (auto simp: op_extra_def)
  qed (use f in auto)
  then show ?thesis by simp
qed

end
