(* ===== verification/Case_Ranges.thy ===== *)
theory Case_Ranges
  imports CharRange_Sort CaseConv_Correct
begin

text \<open>
  The case folding of a set of characters: \<open>unicode_case1\<close> and \<open>cr_regexp_canonicalize\<close> of
  \<open>src/libunicode.c\<close>.  The result of \<open>cr_regexp_canonicalize\<close> is shown to be the image of the set under
  \<open>lre_canonicalize\<close>, the function that the matcher applies to the characters of the input.
\<close>

section \<open>The characters that a conversion changes\<close>

abbreviation (input) "CASE_U \<equiv> 1 :: nat"
abbreviation (input) "CASE_L \<equiv> 2 :: nat"
abbreviation (input) "CASE_F \<equiv> 4 :: nat"

definition run_mask :: "nat \<Rightarrow> int set" where
  "run_mask case_mask = \<Union> (set (map (\<lambda>i. if bit case_mask i then tab_run_mask ! i else {}) [0, 1, 2]))"

function case1_ul :: "CharRange \<Rightarrow> u32 \<Rightarrow> nat \<Rightarrow> nat \<Rightarrow> (int \<times> CharRange) ub" where
  "case1_ul cr code len i =
     (if i < len then
        on_success (cr_add_interval cr (code + word_of_nat i) (code + word_of_nat i + 1)) (\<lambda>cr. case1_ul cr code len (i + 2))
      else Some (0, cr))"
  by pat_completeness auto
termination
  by (relation "measure (\<lambda>(cr, code, len, i). len - i)") auto

declare case1_ul.simps [simp del]

text \<open>\<open>(case_mask & CASE_U) && (case_mask & (CASE_L | CASE_F))\<close>\<close>

definition case1_both :: "nat \<Rightarrow> bool" where
  "case1_both case_mask \<longleftrightarrow> case_mask AND CASE_U \<noteq> 0 \<and> case_mask AND (CASE_L OR CASE_F) \<noteq> 0"

definition case1_entry :: "nat \<Rightarrow> int \<Rightarrow> CharRange \<Rightarrow> (int \<times> CharRange) ub" where
  "case1_entry case_mask v cr =
     (let type = entry_type v;
          code = (word_of_int (entry_code v) :: u32);
          len = nat (entry_len v);
          u = case_mask AND CASE_U \<noteq> 0
      in if type \<notin> run_mask case_mask then Some (0, cr)
         else if type = RUN_TYPE_UL \<and> \<not> case1_both case_mask then case1_ul cr (code + of_bool u) len 0
         else if type = RUN_TYPE_LSU \<and> \<not> case1_both case_mask then
           on_success (if \<not> u then cr_add_interval cr code (code + 1) else Some (0, cr)) (\<lambda>cr.
           on_success (cr_add_interval cr (code + 1) (code + 2)) (\<lambda>cr.
           if u then cr_add_interval cr (code + 2) (code + 3) else Some (0, cr)))
         else cr_add_interval cr code (code + word_of_nat len))"

fun case1_loop :: "nat \<Rightarrow> int list \<Rightarrow> CharRange \<Rightarrow> (int \<times> CharRange) ub" where
  "case1_loop case_mask [] cr = Some (0, cr)"
| "case1_loop case_mask (v # vs) cr = on_success (case1_entry case_mask v cr) (\<lambda>cr. case1_loop case_mask vs cr)"

definition unicode_case1 :: "CharRange \<Rightarrow> nat \<Rightarrow> (int \<times> CharRange) ub" where
  "unicode_case1 cr case_mask = (if case_mask = 0 then Some (0, cr) else case1_loop case_mask case_conv_table1 cr)"

section \<open>The canonicalisation\<close>

text \<open>The entry of the table with \<open>c\<close>, searched from \<open>idx\<close> on; the assertion fails at the end of the table.\<close>

function canon_seek :: "nat \<Rightarrow> int \<Rightarrow> nat ub" where
  "canon_seek idx c =
     (case arr_get case_conv_table1 idx of
        None \<Rightarrow> None
      | Some v \<Rightarrow> if entry_code v \<le> c \<and> c < entry_code v + entry_len v then Some idx else canon_seek (idx + 1) c)"
  by pat_completeness auto
termination
  by (relation "measure (\<lambda>(idx, c). length case_conv_table1 - idx)") (auto simp: arr_get_def split: if_splits)

declare canon_seek.simps [simp del]

text \<open>The current interval is merged with \<open>d\<close>, or added to the result; the outcome of \<open>cr_add_interval\<close> is ignored.\<close>

definition canon_merge :: "u32 \<Rightarrow> u32 \<times> u32 \<times> CharRange \<Rightarrow> (u32 \<times> u32 \<times> CharRange) ub" where
  "canon_merge d st =
     (case st of (d_start, d_end, cr_result) \<Rightarrow>
        if d_start = - 1 then Some (d, d + 1, cr_result)
        else if d_end = d then Some (d_start, d_end + 1, cr_result)
        else map_option (\<lambda>(r, cr). (d, d + 1, cr)) (cr_add_interval cr_result d_start d_end))"

lemma unat_succ: "unat (c :: u32) < unat (e :: u32) \<Longrightarrow> unat (c + 1) = Suc (unat c)"
proof -
  assume "unat c < unat e"
  then have "c < e" by (simp add: word_less_nat_alt)
  then have "c \<noteq> - 1" by auto
  then have "1 + c \<noteq> 0" by (metis add_eq_0_iff)
  then show ?thesis by (simp add: unatSuc add.commute)
qed

function canon_chars :: "bool \<Rightarrow> u32 \<Rightarrow> u32 \<Rightarrow> nat \<times> u32 \<times> u32 \<times> CharRange \<Rightarrow> (nat \<times> u32 \<times> u32 \<times> CharRange) ub" where
  "canon_chars is_unicode c end1 st =
     (if c < end1 then
        case st of (idx, m) \<Rightarrow>
          do {
            idx \<leftarrow> canon_seek idx (uint c);
            v \<leftarrow> arr_get case_conv_table1 idx;
            d \<leftarrow> lre_case_folding_entry (uint c) idx v is_unicode;
            m \<leftarrow> canon_merge (word_of_int d) m;
            canon_chars is_unicode (c + 1) end1 (idx, m)
          }
      else Some st)"
  by pat_completeness auto
termination
  by (relation "measure (\<lambda>(u, c, end1, st). unat end1 - unat c)") (auto simp: unat_succ word_less_nat_alt)

declare canon_chars.simps [simp del]

function canon_ranges :: "bool \<Rightarrow> CharRange \<Rightarrow> nat \<Rightarrow> nat \<times> u32 \<times> u32 \<times> CharRange \<Rightarrow> (nat \<times> u32 \<times> u32 \<times> CharRange) ub" where
  "canon_ranges is_unicode cr_inter i st =
     (if i < cr_len cr_inter then
        do {
          start \<leftarrow> arr_get (cr_points cr_inter) i;
          end1 \<leftarrow> arr_get (cr_points cr_inter) (i + 1);
          st \<leftarrow> canon_chars is_unicode start end1 st;
          canon_ranges is_unicode cr_inter (i + 2) st
        }
      else Some st)"
  by pat_completeness auto
termination
  by (relation "measure (\<lambda>(u, cr, i, st). cr_len cr - i)") auto

declare canon_ranges.simps [simp del]

text \<open>The part behind the set operations: from \<open>cr_inter\<close> and \<open>cr_sub\<close> to the result.\<close>

definition canon_result :: "CharRange \<Rightarrow> bool \<Rightarrow> CharRange \<Rightarrow> CharRange \<Rightarrow> CharRange \<Rightarrow> (int \<times> CharRange) ub" where
  "canon_result cr is_unicode cr_inter cr_sub cr_result =
     do {
       (idx, d_start, d_end, cr_result) \<leftarrow> canon_ranges is_unicode cr_inter 0 (0, - 1, - 1, cr_result);
       (r, cr_result) \<leftarrow> (if d_start \<noteq> - 1 then cr_add_interval cr_result d_start d_end else Some (0, cr_result));
       if r \<noteq> 0 then Some (- 1, cr)
       else
         do {
           cr_result \<leftarrow> cr_sort_and_remove_overlap cr_result;
           (r, cr) \<leftarrow> cr_op (cr\<lparr>cr_len := 0\<rparr>) (cr_points cr_result) (cr_len cr_result) (cr_points cr_sub) (cr_len cr_sub) CR_OP_UNION;
           Some (if r \<noteq> 0 then - 1 else 0, cr)
         }
     }"

definition cr_regexp_canonicalize :: "CharRange \<Rightarrow> bool \<Rightarrow> (int \<times> CharRange) ub" where
  "cr_regexp_canonicalize cr is_unicode =
     (let new = cr_init (cr_realloc_func cr) (Some (cr_realloc_func cr))
      in do {
        (r, cr_mask) \<leftarrow> unicode_case1 new (if is_unicode then CASE_F else CASE_U);
        if r \<noteq> 0 then Some (- 1, cr)
        else do {
          (r, cr_inter) \<leftarrow> cr_op new (cr_points cr_mask) (cr_len cr_mask) (cr_points cr) (cr_len cr) CR_OP_INTER;
          if r \<noteq> 0 then Some (- 1, cr)
          else do {
            (r, cr_mask) \<leftarrow> cr_invert cr_mask;
            if r \<noteq> 0 then Some (- 1, cr)
            else do {
              (r, cr_sub) \<leftarrow> cr_op new (cr_points cr_mask) (cr_len cr_mask) (cr_points cr) (cr_len cr) CR_OP_INTER;
              if r \<noteq> 0 then Some (- 1, cr) else canon_result cr is_unicode cr_inter cr_sub new
            }
          }
        }
      })"

section \<open>The mask as a list of intervals\<close>

definition case1_ivs :: "nat \<Rightarrow> int \<Rightarrow> (int \<times> int) list" where
  "case1_ivs case_mask v =
     (let code = entry_code v; u = of_bool (case_mask AND CASE_U \<noteq> 0)
      in if entry_type v \<notin> run_mask case_mask then []
         else if entry_type v = RUN_TYPE_UL \<and> \<not> case1_both case_mask then
           map (\<lambda>k. (code + u + 2 * int k, code + u + 2 * int k + 1)) [0..<(nat (entry_len v) + 1) div 2]
         else if entry_type v = RUN_TYPE_LSU \<and> \<not> case1_both case_mask then [(code + u, code + u + 1), (code + u + 1, code + u + 2)]
         else [(code, code + entry_len v)])"

definition wiv :: "int \<times> int \<Rightarrow> interval" where
  "wiv = (\<lambda>(s, e). (word_of_int s, word_of_int e))"

lemma cr_add_interval_ret: "cr_add_interval cr a b = Some (r, cr') \<Longrightarrow> r = 0 \<or> r = - 1"
  by (auto simp: cr_add_interval_def on_success_def cr_put_def split: option.splits prod.splits if_splits bind_splits)

lemma on_success_add: "on_success (cr_add_interval cr a b) (\<lambda>cr. Some (0, cr)) = cr_add_interval cr a b"
  using cr_add_interval_ret [of cr a b] by (auto simp: on_success_def split: option.splits)

lemma on_success_assoc: "on_success (on_success m f) g = on_success m (\<lambda>s. on_success (f s) g)"
  by (auto simp: on_success_def split: option.splits)

lemma add_all_append: "add_all add s (xs @ ys) = on_success (add_all add s xs) (\<lambda>s. add_all add s ys)"
  by (induction add s xs rule: add_all.induct) (auto simp: on_success_assoc)

lemma case1_ul_add_all:
  "case1_ul cr code len i = add_all cr_add_interval cr
     (map (\<lambda>k. (code + word_of_nat (i + 2 * k), code + word_of_nat (i + 2 * k) + 1)) [0..<(len - i + 1) div 2])"
proof (induction cr code len i rule: case1_ul.induct)
  case (1 cr code len i)
  show ?case
  proof (cases "i < len")
    case True
    then have n: "(len - i + 1) div 2 = Suc ((len - (i + 2) + 1) div 2)" by presburger
    show ?thesis using True 1 unfolding n upt_conv_Cons [OF zero_less_Suc]
      by (subst case1_ul.simps) (simp add: map_Suc_upt [symmetric] comp_def algebra_simps del: upt_Suc)
  qed (subst case1_ul.simps, simp)
qed

lemma case1_entry_add_all: "case1_entry case_mask v cr = add_all cr_add_interval cr (map wiv (case1_ivs case_mask v))"
proof (cases "entry_type v = RUN_TYPE_UL \<and> \<not> case1_both case_mask")
  case True
  show ?thesis
  proof (cases "case_mask AND CASE_U = 0")
    case zero: True
    show ?thesis using True zero by (simp add: case1_entry_def case1_ivs_def Let_def case1_ul_add_all wiv_def comp_def algebra_simps)
  next
    case nz: False
    show ?thesis using True nz by (simp add: case1_entry_def case1_ivs_def Let_def case1_ul_add_all wiv_def comp_def algebra_simps)
  qed
next
  case False
  then show ?thesis
    by (cases "case_mask AND CASE_U = 0")
      (auto simp: case1_entry_def case1_ivs_def Let_def wiv_def on_success_add add.assoc entry_len_nonneg)
qed

lemma case1_loop_add_all:
  "case1_loop case_mask vs cr = add_all cr_add_interval cr (map wiv (concat (map (case1_ivs case_mask) vs)))"
proof (induction vs arbitrary: cr)
  case (Cons v vs)
  have "case1_loop case_mask vs = (\<lambda>cr. add_all cr_add_interval cr (map wiv (concat (map (case1_ivs case_mask) vs))))"
    by (rule ext) (rule Cons.IH)
  then show ?case by (simp add: case1_entry_add_all add_all_append)
qed simp

text \<open>Adding intervals at the end, in any order.\<close>

lemma add_all_interval_ok:
  assumes "cr_ok cr" "3 * (cr_len cr + 2 * length is) \<le> int_max"
  shows "\<exists>r cr'. add_all cr_add_interval cr is = Some (r, cr') \<and> cr_ok cr' \<and> cr_realloc_func cr' = cr_realloc_func cr \<and>
    (r = - 1 \<or> r = 0 \<and> pts cr' = pts cr @ flat is)"
  using assms
proof (induction "is" arbitrary: cr)
  case (Cons i "is")
  obtain s e where i: "i = (s, e)" by (cases i)
  have "3 * (cr_len cr + 2) \<le> int_max" using Cons.prems(2) by simp
  from cr_add_interval_ok [OF Cons.prems(1) this, of s e] show ?case
  proof
    assume "\<exists>cr'. cr_add_interval cr s e = Some (0, cr') \<and> cr_ok cr' \<and> pts cr' = pts cr @ [s, e] \<and> cr_len cr' = cr_len cr + 2 \<and>
      cr_realloc_func cr' = cr_realloc_func cr"
    then obtain cr1 where cr1: "cr_add_interval cr s e = Some (0, cr1)" "cr_ok cr1" "pts cr1 = pts cr @ [s, e]" "cr_len cr1 = cr_len cr + 2"
      "cr_realloc_func cr1 = cr_realloc_func cr" by blast
    then show ?thesis using Cons.IH [of cr1] Cons.prems(2) i by (auto simp: algebra_simps)
  qed (use Cons.prems(1) i in simp)
qed simp

section \<open>Facts of the table\<close>

definition mask_ivs :: "bool \<Rightarrow> (int \<times> int) list" where
  "mask_ivs is_unicode = concat (map (case1_ivs (if is_unicode then CASE_F else CASE_U)) case_conv_table1)"

definition entry_fine :: "int \<Rightarrow> bool" where
  "entry_fine v \<longleftrightarrow> 0 \<le> entry_code v \<and> 0 < entry_len v \<and> entry_code v + entry_len v \<le> 0x20000 \<and> entry_type v \<le> RUN_TYPE_UF_EXT3 \<and>
     (entry_type v = RUN_TYPE_UL \<longrightarrow> even (entry_len v)) \<and> (entry_type v = RUN_TYPE_LSU \<longrightarrow> entry_len v = 3)"

lemma table_fine: "list_all entry_fine case_conv_table1"
  by code_simp

text \<open>Intervals in increasing order between two bounds.\<close>

fun ivs_sorted :: "int \<Rightarrow> int \<Rightarrow> (int \<times> int) list \<Rightarrow> bool" where
  "ivs_sorted lo hi [] \<longleftrightarrow> lo \<le> hi"
| "ivs_sorted lo hi ((s, e) # r) \<longleftrightarrow> lo \<le> s \<and> s < e \<and> ivs_sorted e hi r"

lemma ivs_sorted_le: "ivs_sorted lo hi xs \<Longrightarrow> lo \<le> hi \<and> (\<forall>(s, e) \<in> set xs. lo \<le> s \<and> s < e \<and> e \<le> hi)"
  by (induction lo hi xs rule: ivs_sorted.induct) force+

lemma ivs_sorted_mono: "ivs_sorted lo hi xs \<Longrightarrow> lo' \<le> lo \<Longrightarrow> ivs_sorted lo' hi xs"
  by (cases xs) auto

lemma ivs_sorted_append: "ivs_sorted lo mid xs \<Longrightarrow> ivs_sorted mid hi ys \<Longrightarrow> ivs_sorted lo hi (xs @ ys)"
  by (induction lo mid xs rule: ivs_sorted.induct) (auto intro: ivs_sorted_mono)

lemma ivs_sorted_step:
  "ivs_sorted (a + 2 * int i) (a + 2 * int (i + n) + 1) (map (\<lambda>k. (a + 2 * int k, a + 2 * int k + 1)) [i..<i + Suc n])"
proof (induction n arbitrary: i)
  case (Suc n)
  have "[i..<i + Suc (Suc n)] = i # [Suc i..<Suc i + Suc n]" by (simp add: upt_conv_Cons del: upt_Suc)
  then show ?case using ivs_sorted_mono [OF Suc.IH [of "Suc i"], of "a + 2 * int i + 1"] by (simp del: upt_Suc)
qed simp

lemma case1_ivs_sorted:
  assumes "entry_fine v"
  shows "ivs_sorted (entry_code v) (entry_code v + entry_len v) (case1_ivs case_mask v)" (is ?s)
    and "length (case1_ivs case_mask v) \<le> 64" (is ?l)
proof -
  have f: "0 < entry_len v" "entry_len v < 128" using assms by (auto simp: entry_fine_def entry_len_def)
  define m where "m = nat (entry_len v) div 2 - 1"
  show ?s
  proof (cases "entry_type v = RUN_TYPE_UL")
    case True
    then obtain k where k: "entry_len v = 2 * k" using assms by (auto simp: entry_fine_def)
    then have m: "entry_len v = 2 * int m + 2" "nat (entry_len v) = 2 * m + 2" using f by (auto simp: m_def nat_mult_distrib)
    have "ivs_sorted (a + 2 * int 0) (a + 2 * int (0 + m) + 1) (map (\<lambda>k. (a + 2 * int k, a + 2 * int k + 1)) [0..<0 + Suc m])" for a
      by (rule ivs_sorted_step)
    then have s: "ivs_sorted a (a + 2 * int m + 1) (map (\<lambda>k. (a + 2 * int k, a + 2 * int k + 1)) [0..<Suc m])" for a by simp
    have s0: "ivs_sorted a (a + 2 * int m + 2) (map (\<lambda>k. (a + 2 * int k, a + 2 * int k + 1)) [0..<Suc m])" for a
      using ivs_sorted_append [OF s [of a], of "a + 2 * int m + 2" "[]"] by simp
    have s1: "ivs_sorted a (a + 2 * int m + 2) (map (\<lambda>k. (a + 1 + 2 * int k, a + 1 + 2 * int k + 1)) [0..<Suc m])" for a
      using ivs_sorted_mono [OF s [of "a + 1"], of a] by (simp add: algebra_simps del: upt_Suc)
    have "(nat (entry_len v) + 1) div 2 = Suc m" using m by simp
    then show ?thesis using True s0 [of "entry_code v"] s1 [of "entry_code v"] f m(1)
      by (auto simp: case1_ivs_def Let_def add.assoc simp del: upt_Suc)
  next
    case False
    then show ?thesis using f assms by (auto simp: case1_ivs_def Let_def entry_fine_def)
  qed
  show ?l using f by (auto simp: case1_ivs_def Let_def)
qed

lemma ivs_concat_sorted:
  assumes "separated vs" "list_all entry_fine vs" "vs \<noteq> [] \<Longrightarrow> lo \<le> entry_code (hd vs)" "lo \<le> 0x20000"
  shows "ivs_sorted lo 0x20000 (concat (map (case1_ivs case_mask) vs))"
  using assms
proof (induction vs arbitrary: lo)
  case (Cons v vs)
  have v: "entry_fine v" using Cons.prems by simp
  have "ivs_sorted (entry_code v + entry_len v) 0x20000 (concat (map (case1_ivs case_mask) vs))"
    by (rule Cons.IH) (use Cons.prems v in \<open>auto simp: separated_tl entry_fine_def separated_Cons [of v vs]\<close>)
  from ivs_sorted_append [OF case1_ivs_sorted(1) [OF v] this] show ?case
    using Cons.prems(3) by (auto intro: ivs_sorted_mono)
qed simp

lemma mask_sorted: "ivs_sorted 0 0x20000 (mask_ivs is_unicode)"
proof -
  have "0 \<le> entry_code (hd case_conv_table1)" by (simp add: case_conv_table1_def entry_code_def)
  then show ?thesis unfolding mask_ivs_def by (intro ivs_concat_sorted table_separated table_fine) simp_all
qed

lemma mask_length: "length (mask_ivs is_unicode) \<le> 24192"
proof -
  have "length (concat (map (case1_ivs cm) vs)) \<le> 64 * length vs" if "list_all entry_fine vs" for cm vs
    using that
  proof (induction vs)
    case (Cons v vs)
    then show ?case using case1_ivs_sorted(2) [of v cm] by simp
  qed simp
  then show ?thesis using table_fine table_lengths(1) by (fastforce simp: mask_ivs_def)
qed

section \<open>The mask as a set\<close>

lemma member_flat: "sorted (flat ps) \<Longrightarrow> member (flat ps) c \<longleftrightarrow> covers ps c"
proof (induction ps rule: flat.induct)
  case (2 s e r)
  then have IH: "member (flat r) c = covers r c" and se: "s \<le> e" "\<forall>x \<in> set (flat r). e \<le> x" by auto
  have "set (flat r) = (\<Union>(a, b) \<in> set r. {a, b})" by (induction r rule: flat.induct) auto
  then have r: "\<forall>(a, b) \<in> set r. e \<le> a" using se(2) by auto
  show ?case
  proof (cases "e \<le> c")
    case True
    then show ?thesis using IH se(1) by (auto simp: member_def mem_simps covers_def)
  next
    case False
    then have "cnt (flat r) c = 0" using se(2) by (fastforce simp: cnt_def filter_empty_conv)
    moreover have "\<not> covers r c" using r False by (fastforce simp: covers_def)
    ultimately show ?thesis using False by (auto simp: member_def mem_simps covers_def)
  qed
qed (simp add: member_def mem_simps covers_def)

lemma wiv_sorted: "ivs_sorted lo hi xs \<Longrightarrow> 0 \<le> lo \<Longrightarrow> hi < 2 ^ 32 \<Longrightarrow>
  sorted (flat (map wiv xs)) \<and> (\<forall>x \<in> set (flat (map wiv xs)). word_of_int lo \<le> x)"
proof (induction lo hi xs rule: ivs_sorted.induct)
  case (2 lo hi s e r)
  then have b: "0 \<le> lo" "lo \<le> s" "s < e" "e < 2 ^ 32" using ivs_sorted_le [of e hi r] by auto
  have w: "(word_of_int x :: u32) \<le> word_of_int y" if "0 \<le> x" "x \<le> y" "y < 2 ^ 32" for x y
    using that by (simp add: word_le_def uint_word_of_int)
  have "sorted (flat (map wiv r)) \<and> (\<forall>x \<in> set (flat (map wiv r)). word_of_int e \<le> x)" using 2 b by simp
  then show ?case using w [of lo s] w [of s e] b by (fastforce simp: wiv_def)
qed simp

definition mask_chars :: "bool \<Rightarrow> int \<Rightarrow> bool" where
  "mask_chars is_unicode c \<longleftrightarrow> (\<exists>(s, e) \<in> set (mask_ivs is_unicode). s \<le> c \<and> c < e)"

lemma mask_points:
  "sorted (flat (map wiv (mask_ivs u)))" "member (flat (map wiv (mask_ivs u))) c \<longleftrightarrow> mask_chars u (uint c)"
proof -
  show s: "sorted (flat (map wiv (mask_ivs u)))" using wiv_sorted [OF mask_sorted [of u]] by simp
  have b: "\<forall>(s, e) \<in> set (mask_ivs u). 0 \<le> s \<and> s < e \<and> e \<le> 0x20000" using ivs_sorted_le [OF mask_sorted] by blast
  have w: "(word_of_int s \<le> c \<and> c < word_of_int e) \<longleftrightarrow> s \<le> uint c \<and> uint c < e" if "0 \<le> s" "s < e" "e \<le> 0x20000" for s e
    using that by (simp add: word_le_def word_less_def uint_word_of_int)
  have "covers (map wiv (mask_ivs u)) c \<longleftrightarrow> (\<exists>x \<in> set (mask_ivs u). case x of (s, e) \<Rightarrow> word_of_int s \<le> c \<and> c < word_of_int e)"
    by (simp add: covers_def wiv_def case_prod_beta)
  also have "\<dots> \<longleftrightarrow> mask_chars u (uint c)" unfolding mask_chars_def
  proof (rule bex_cong [OF refl])
    fix x
    assume "x \<in> set (mask_ivs u)"
    then obtain s e where "x = (s, e)" "0 \<le> s" "s < e" "e \<le> 0x20000" using b by (metis (mono_tags, lifting) case_prodD surj_pair)
    then show "(case x of (s, e) \<Rightarrow> word_of_int s \<le> c \<and> c < word_of_int e) \<longleftrightarrow> (case x of (s, e) \<Rightarrow> s \<le> uint c \<and> uint c < e)"
      using w [of s e] by simp
  qed
  finally show "member (flat (map wiv (mask_ivs u))) c \<longleftrightarrow> mask_chars u (uint c)" by (simp add: member_flat [OF s])
qed

lemma mask_charsE:
  assumes "mask_chars u c"
  obtains idx where "idx < 378" "contains (case_conv_table1 ! idx) c"
proof -
  obtain v s e where v: "v \<in> set case_conv_table1" "(s, e) \<in> set (case1_ivs (if u then 4 else 1) v)" "s \<le> c" "c < e"
    using assms by (auto simp: mask_chars_def mask_ivs_def)
  have "entry_fine v" using v(1) table_fine by (simp add: list_all_iff)
  then have "contains v c" using ivs_sorted_le [OF case1_ivs_sorted(1)] v(2-4) by (fastforce simp: contains_def)
  then show ?thesis using v(1) that by (auto simp: in_set_conv_nth table_lengths)
qed

section \<open>The two ways to fold a character\<close>

lemma first_entries:
  "case_conv_table1 ! 0 = 0x00209a30" "case_conv_table1 ! 1 = 0x00309a00" "case_conv_table1 ! 2 = 0x005a8173"
  "case_conv_table2 ! 0 = 1" "case_conv_table2 ! 1 = 0"
  by (simp_all add: case_conv_table1_def case_conv_table2_def)

lemma ascii_entry: "idx < 378 \<Longrightarrow> contains (case_conv_table1 ! idx) c \<Longrightarrow> c < 128 \<Longrightarrow> idx = 0 \<or> idx = 1"
proof (rule ccontr)
  assume a: "idx < 378" "contains (case_conv_table1 ! idx) c" "c < 128" "\<not> (idx = 0 \<or> idx = 1)"
  have "entry_code (case_conv_table1 ! 2) \<le> entry_code (case_conv_table1 ! idx)"
  proof (cases "idx = 2")
    case False
    then have "2 < idx" using a(4) by linarith
    then show ?thesis using separated_nth [OF table_separated, of 2 idx] a(1) entry_len_nonneg [of "case_conv_table1 ! 2"] by (simp add: table_lengths)
  qed simp
  then show False using a(2,3) by (simp add: contains_def first_entries entry_code_def)
qed

lemma ascii_conv_entry:
  "0x41 \<le> c \<Longrightarrow> c < 0x5b \<Longrightarrow> lre_case_conv_entry c 2 0 0x00209a30 = Some [c - 0x41 + 0x61]"
  "lre_case_conv_entry c 2 1 0x00309a00 = Some [c]"
proof -
  have g: "arr_get case_conv_table2 0 = Some 1" "arr_get case_conv_table2 1 = Some 0" "arr_get case_conv_table1 1 = Some 0x00309a00"
    using first_entries by (simp_all add: arr_get_def table_lengths)
  show "0x41 \<le> c \<Longrightarrow> c < 0x5b \<Longrightarrow> lre_case_conv_entry c 2 0 0x00209a30 = Some [c - 0x41 + 0x61]"
    "lre_case_conv_entry c 2 1 0x00309a00 = Some [c]"
    unfolding lre_case_conv_entry.simps g by (simp_all add: g [simplified] entry_type_def entry_code_def)
qed

lemma ascii_fold:
  assumes "idx = 0 \<or> idx = 1" "contains (case_conv_table1 ! idx) c"
  shows "lre_case_folding_entry c idx (case_conv_table1 ! idx) True = lre_canonicalize c True"
  using assms(1)
proof
  assume i: "idx = 0"
  then have "0x41 \<le> c" "c < 0x5b" using assms(2) by (simp_all add: first_entries contains_def entry_code_def entry_len_def)
  then show ?thesis using i ascii_conv_entry(1) [of c]
    by (simp add: first_entries(1) lre_case_folding_entry_def lre_canonicalize_def arr_get_def)
next
  assume i: "idx = 1"
  then have "0x61 \<le> c" "c < 0x7b" using assms(2) first_entries(2) by (simp_all add: contains_def entry_code_def entry_len_def)
  then show ?thesis using i ascii_conv_entry(2) [of c] first_entries(2)
    by (simp add: lre_case_folding_entry_def lre_canonicalize_def arr_get_def)
qed

lemma contains_unique:
  assumes "i < 378" "j < 378" "contains (case_conv_table1 ! i) c" "contains (case_conv_table1 ! j) c"
  shows "i = j"
proof -
  have "\<not> i < j" if "i < 378" "j < 378" "contains (case_conv_table1 ! i) c" "contains (case_conv_table1 ! j) c" for i j
    using separated_nth [OF table_separated, of i j] that by (auto simp: contains_def table_lengths)
  then show ?thesis using assms by (meson linorder_neqE_nat)
qed

lemma find_case_entry_unique:
  assumes "idx < 378" "contains (case_conv_table1 ! idx) c"
  shows "find_case_entry c = Some (Some (idx, case_conv_table1 ! idx))"
  using find_case_entry_spec [of c] contains_unique [OF _ assms(1) _ assms(2)] assms by blast

lemma folding_entry_canonicalize:
  assumes "idx < 378" "contains (case_conv_table1 ! idx) c"
  shows "lre_case_folding_entry c idx (case_conv_table1 ! idx) u = lre_canonicalize c u"
proof (cases "c < 128")
  case True
  then show ?thesis using ascii_entry [OF assms True] ascii_fold [OF _ assms(2)]
    by (cases u) (auto simp: lre_case_folding_entry_def lre_canonicalize_def)
next
  case False
  then show ?thesis using find_case_entry_unique [OF assms] by (simp add: lre_canonicalize_def)
qed

lemma run_mask_cases:
  "run_mask (Suc 0) = {0, 2, 4, 5, 6, 7, 8, 9, 11, 13}" "run_mask 4 = {2, 3, 4, 5, 6, 7, 8, 10, 11, 12, 13}"
  by (auto simp: run_mask_def tab_run_mask_def bit_numeral_rec bit_Suc_0_iff)

lemma case1_both_cases: "\<not> case1_both (Suc 0)" "\<not> case1_both 4"
  by (simp_all add: case1_both_def)

lemma type_cases:
  fixes t :: int
  assumes "0 \<le> t" "t \<le> 13"
  obtains "t = 0" | "t = 1" | "t = 2" | "t = 3" | "t = 4" | "t = 5" | "t = 6" | "t = 7" | "t = 8" | "t = 9" | "t = 10" | "t = 11" | "t = 12" | "t = 13"
proof -
  have "t = 0 \<or> t = 1 \<or> t = 2 \<or> t = 3 \<or> t = 4 \<or> t = 5 \<or> t = 6 \<or> t = 7 \<or> t = 8 \<or> t = 9 \<or> t = 10 \<or> t = 11 \<or> t = 12 \<or> t = 13"
    using assms by presburger
  then show ?thesis using that by blast
qed

lemma ul_ivs_cover:
  assumes "0 \<le> a" "a < l" "even l"
  shows "(\<exists>x \<in> set (map (\<lambda>k. (b + 2 * int k, b + 2 * int k + 1)) [0..<(nat l + 1) div 2]). fst x \<le> b + a \<and> b + a < snd x) \<longleftrightarrow> even a"
proof
  assume "even a"
  then obtain k where "a = 2 * int k" using assms(1) by (metis dvdE mult_less_0_iff nat_0_le not_le zero_less_numeral)
  then have "k \<in> set [0..<(nat l + 1) div 2]" using assms(2) by auto
  then show "\<exists>x \<in> set (map (\<lambda>k. (b + 2 * int k, b + 2 * int k + 1)) [0..<(nat l + 1) div 2]). fst x \<le> b + a \<and> b + a < snd x"
    using \<open>a = 2 * int k\<close> by force
next
  assume "\<exists>x \<in> set (map (\<lambda>k. (b + 2 * int k, b + 2 * int k + 1)) [0..<(nat l + 1) div 2]). fst x \<le> b + a \<and> b + a < snd x"
  then obtain k where "2 * int k \<le> a" "a < 2 * int k + 1" by auto
  then have "a = 2 * int k" by linarith
  then show "even a" by simp
qed

lemma entry_unchanged:
  assumes "idx < 378" "v = case_conv_table1 ! idx" "contains v c" "128 \<le> c"
    "\<forall>x \<in> set (case1_ivs (if u then CASE_F else CASE_U) v). \<not> (fst x \<le> c \<and> c < snd x)"
  shows "lre_case_folding_entry c idx v u = Some c"
proof -
  have f: "entry_fine v" using assms(1,2) table_fine by (simp add: list_all_length table_lengths)
  have d2: "arr_get case_conv_table2 idx = Some (case_conv_table2 ! idx)" using assms(1) by (simp add: arr_get_def table_lengths)
  have c: "entry_code v \<le> c" "c < entry_code v + entry_len v" using assms(3) by (auto simp: contains_def)
  define a where "a = c - entry_code v"
  have a: "0 \<le> a" "a < entry_len v" "c = entry_code v + a" using c by (auto simp: a_def)
  have tp: "entry_type v \<in> {0, 1, 9} \<and> u \<or> \<not> u \<and> entry_type v \<in> {1, 3, 10, 12} \<or> entry_type v = 4 \<and> (if u then odd a else even a) \<or>
    entry_type v = 5 \<and> a = (if u then 2 else 0)"
  proof (rule type_cases [of "entry_type v"])
    show "0 \<le> entry_type v" "entry_type v \<le> 13" using f by (auto simp: entry_fine_def entry_type_def)
  next
    assume t: "entry_type v = 4"
    have "\<not> (if u then even a else even (a - 1) \<and> 1 \<le> a)"
      using assms(5) ul_ivs_cover [of a "entry_len v" "entry_code v"] ul_ivs_cover [of "a - 1" "entry_len v" "entry_code v + 1"] a f t
      by (cases u) (auto simp: case1_ivs_def Let_def run_mask_cases case1_both_cases entry_fine_def)
    then show ?thesis using t a(1) by (cases "a = 0") (auto split: if_splits)
  next
    assume t: "entry_type v = 5"
    then show ?thesis using assms(5) a f
      by (cases u) (auto simp: case1_ivs_def Let_def run_mask_cases case1_both_cases entry_fine_def split: if_splits)
  qed (cases u; use assms(5) c in \<open>auto simp: case1_ivs_def Let_def run_mask_cases case1_both_cases split: if_splits\<close>)+
  have "lre_case_conv_entry c (if u then 2 else 0) idx v = Some [c]"
    using tp by (elim disjE conjE insertE emptyE; cases u; simp add: lre_case_conv_entry.simps d2 Let_def a_def even_iff_mod_2_eq_zero odd_iff_mod_2_eq_one)
  then show ?thesis using assms(4) by (cases u) (simp_all add: lre_case_folding_entry_def arr_get_def)
qed

lemma mask_charsI: "idx < 378 \<Longrightarrow> x \<in> set (case1_ivs (if u then CASE_F else CASE_U) (case_conv_table1 ! idx)) \<Longrightarrow>
  fst x \<le> c \<Longrightarrow> c < snd x \<Longrightarrow> mask_chars u c"
  unfolding mask_chars_def mask_ivs_def using table_lengths(1) by (cases x) (fastforce simp: in_set_conv_nth)

lemma letters_masked: "0x61 \<le> c \<Longrightarrow> c < 0x7b \<Longrightarrow> mask_chars False c" "0x41 \<le> c \<Longrightarrow> c < 0x5b \<Longrightarrow> mask_chars True c"
  using mask_charsI [of 1 "(0x61, 0x7b)" False c] mask_charsI [of 0 "(0x41, 0x5b)" True c]
  by (simp_all add: first_entries [simplified] case1_ivs_def entry_code_def entry_len_def entry_type_def run_mask_cases)

lemma canonicalize_unmasked:
  assumes "\<not> mask_chars u c" "0 \<le> c"
  shows "lre_canonicalize c u = Some c"
proof (cases "c < 128")
  case True
  then show ?thesis using assms letters_masked [of c] by (cases u) (auto simp: lre_canonicalize_def)
next
  case False
  from find_case_entry_spec [of c] show ?thesis
  proof
    assume "\<exists>idx < 378. find_case_entry c = Some (Some (idx, case_conv_table1 ! idx)) \<and> contains (case_conv_table1 ! idx) c"
    then obtain idx where i: "idx < 378" "find_case_entry c = Some (Some (idx, case_conv_table1 ! idx))" "contains (case_conv_table1 ! idx) c"
      by blast
    have "lre_case_folding_entry c idx (case_conv_table1 ! idx) u = Some c"
      by (rule entry_unchanged [OF i(1) refl i(3)]) (use False assms(1) mask_charsI [OF i(1)] in auto)
    then show ?thesis using False i(2) by (simp add: lre_canonicalize_def)
  qed (use False in \<open>simp add: lre_canonicalize_def\<close>)
qed

lemma ext_bounds: "ext i = Some e \<Longrightarrow> 0 \<le> e \<and> e < 0x20000"
proof -
  have "list_all (\<lambda>e. 0 \<le> e \<and> e < 0x20000) case_conv_ext" by code_simp
  then show "ext i = Some e \<Longrightarrow> 0 \<le> e \<and> e < 0x20000" by (auto simp: ext_def arr_get_def list_all_length split: if_splits)
qed

lemma table2_small: "list_all (\<lambda>d. d < 256) case_conv_table2"
  by code_simp

lemma conv_entry_bounds:
  assumes "idx < 378" "v = case_conv_table1 ! idx" "contains v c" "lre_case_conv_entry c t idx v = Some [d]"
  shows "0 \<le> d \<and> d < 0x40000"
proof -
  have f: "entry_fine v" using assms(1,2) table_fine by (simp add: list_all_length table_lengths)
  obtain d2 where d2: "arr_get case_conv_table2 idx = Some d2" "entry_safe v d2" "d2 < 256" and d20: "0 \<le> d2"
    using assms(1,2) table_safe table2_small by (auto simp: arr_get_def list_all2_conv_all_nth list_all_length table_lengths entry_safe_def Let_def)
  have md: "0 \<le> v mod 16" "v mod 16 \<le> 15" by simp_all
  have w: "0 \<le> entry_code w \<and> entry_code w \<le> 0x20000" if "arr_get case_conv_table1 i = Some w" for i w
    using that table_fine by (fastforce simp: arr_get_def list_all_length entry_fine_def split: if_splits)
  have c: "entry_code v \<le> c" "c < entry_code v + entry_len v" "0 \<le> entry_code v" "entry_code v + entry_len v \<le> 0x20000"
    "entry_len v < 128" using assms(3) f by (auto simp: contains_def entry_fine_def entry_len_def)
  have par: "even c \<noteq> even (entry_code v) \<Longrightarrow> 0 < c" using c by (cases "c = entry_code v") auto
  show ?thesis
  proof (rule type_cases [of "entry_type v"])
    show "0 \<le> entry_type v" "entry_type v \<le> 13" using f by (auto simp: entry_fine_def entry_type_def)
  qed (use assms(4) d2 d20 md c par in \<open>auto simp: lre_case_conv_entry.simps Let_def bind_eq_Some_conv
      dest!: w ext_bounds split: if_splits\<close>)
qed

lemma contains_bounds: "idx < 378 \<Longrightarrow> contains (case_conv_table1 ! idx) c \<Longrightarrow> 0 \<le> c \<and> c < 0x20000"
  using table_fine by (fastforce simp: list_all_length table_lengths contains_def entry_fine_def)

lemma folding_bounds:
  assumes "idx < 378" "contains (case_conv_table1 ! idx) c" "lre_canonicalize c u = Some d"
  shows "0 \<le> d \<and> d < 0x40000"
proof -
  let ?v = "case_conv_table1 ! idx"
  have e: "lre_case_folding_entry c idx ?v u = Some d" using folding_entry_canonicalize [OF assms(1,2)] assms(3) by simp
  have c: "0 \<le> c" "c < 0x20000" using contains_bounds [OF assms(1,2)] by auto
  have one: "0 \<le> x \<and> x < 0x40000" if "lre_case_conv_entry c t idx ?v = Some [x]" for t x
    using conv_entry_bounds [OF assms(1) refl assms(2) that] .
  show ?thesis
  proof (cases u)
    case True
    then obtain res where r: "lre_case_conv_entry c 2 idx ?v = Some res"
      "(if length res = 1 then arr_get res 0
        else Some (if c = 0xfb06 then 0xfb05 else if c = 0x1fd3 then 0x390 else if c = 0x1fe3 then 0x3b0 else c)) = Some d"
      using e by (auto simp: lre_case_folding_entry_def bind_eq_Some_conv)
    show ?thesis using r c one [of 2 d] by (cases res) (auto simp: arr_get_def split: if_splits)
  next
    case False
    show ?thesis
    proof (cases "c < 128")
      case True
      then show ?thesis using e False c by (auto simp: lre_case_folding_entry_def split: if_splits)
    next
      case c128: False
      then obtain res r0 where r: "lre_case_conv_entry c 0 idx ?v = Some res" "arr_get res 0 = Some r0"
        "d = (if length res = 1 \<and> r0 \<ge> 128 then r0 else c)"
        using e False by (auto simp: lre_case_folding_entry_def bind_eq_Some_conv)
      show ?thesis using r c one [of 0 r0] by (cases res) (auto simp: arr_get_def split: if_splits)
    qed
  qed
qed

section \<open>The loops\<close>

lemma canon_seek_ok:
  assumes "idx \<le> k" "k < 378" "contains (case_conv_table1 ! k) c"
  shows "canon_seek idx c = Some k"
  using assms(1)
proof (induction "k - idx" arbitrary: idx)
  case 0
  then show ?case using assms(2,3) by (subst canon_seek.simps) (auto simp: arr_get_def table_lengths contains_def)
next
  case (Suc n)
  then have "\<not> contains (case_conv_table1 ! idx) c" using contains_unique [of idx k c] assms by auto
  moreover have "canon_seek (idx + 1) c = Some k" using Suc by simp
  ultimately show ?case using Suc(2) assms(2) by (subst canon_seek.simps) (auto simp: arr_get_def table_lengths contains_def)
qed

lemma cr_add_interval_fails: "cr_add_interval cr a b = Some (- 1, cr') \<Longrightarrow> \<not> never_fails (cr_realloc_func cr)"
  by (auto simp: cr_add_interval_def cr_realloc_def cr_put_def on_success_def never_fails_def Let_def bind_eq_Some_conv
      split: option.splits if_splits)

lemma pairs_of_snoc: "even (length xs) \<Longrightarrow> pairs_of (xs @ [s, e]) = pairs_of xs @ [(s, e)]"
  by (induction xs rule: pairs_of.induct) auto

definition canon_image :: "bool \<Rightarrow> u32 set \<Rightarrow> u32 set" where
  "canon_image u P = {d. \<exists>c \<in> P. lre_canonicalize (uint c) u = Some (uint d)}"

text \<open>
  The state of the loop when the characters \<open>P\<close> are done and the next one is at least \<open>n\<close>.
\<close>

definition canon_inv :: "bool \<Rightarrow> u32 realloc \<Rightarrow> nat \<Rightarrow> u32 set \<Rightarrow> nat \<times> u32 \<times> u32 \<times> CharRange \<Rightarrow> bool" where
  "canon_inv u rf n P st \<longleftrightarrow>
     (case st of (idx, ds, de, cr) \<Rightarrow>
        cr_ok cr \<and> cr_realloc_func cr = rf \<and> even (cr_len cr) \<and> cr_len cr \<le> 2 * n \<and>
        (\<forall>(s, e) \<in> set (pairs_of (pts cr)). s \<le> e) \<and>
        (\<forall>k < 378. \<forall>x. int n \<le> x \<and> contains (case_conv_table1 ! k) x \<longrightarrow> idx \<le> k) \<and>
        (if ds = - 1 then P = {} \<and> cr_len cr = 0 else ds < de) \<and>
        (never_fails rf \<longrightarrow> (\<forall>d. covers (pairs_of (pts cr)) d \<or> ds \<noteq> - 1 \<and> ds \<le> d \<and> d < de \<longleftrightarrow> d \<in> canon_image u P)))"

lemma canon_inv_mono: "canon_inv u rf n P st \<Longrightarrow> n \<le> n' \<Longrightarrow> canon_inv u rf n' P st"
  by (fastforce simp: canon_inv_def)

lemma canon_merge_ok:
  assumes "canon_inv u rf (unat c) P (idx, ds, de, cr)" "k < 378" "contains (case_conv_table1 ! k) (uint c)"
    "lre_canonicalize (uint c) u = Some d"
  shows "\<exists>m. canon_merge (word_of_int d) (ds, de, cr) = Some m \<and> canon_inv u rf (Suc (unat c)) (insert c P) (k, m)"
proof -
  have db: "0 \<le> d" "d < 0x40000" using folding_bounds [OF assms(2-4)] by auto
  define w where "w = (word_of_int d :: u32)"
  have w: "uint w = d" "w \<noteq> - 1" "w < w + 1"
  proof -
    show "uint w = d" using db by (simp add: w_def uint_word_of_int)
    then show "w \<noteq> - 1" using db by (auto simp: unsigned_minus_1_eq_mask mask_eq_exp_minus_1)
    then show "w < w + 1" using word_succ_le [of w "w + 1"] by simp
  qed
  have range: "x \<in> canon_image u (insert c P) \<longleftrightarrow> x = w \<or> x \<in> canon_image u P" for x
    using assms(4) w(1) by (auto simp: canon_image_def word_uint_eq_iff)
  have one: "w \<le> x \<and> x < w + 1 \<longleftrightarrow> x = w" for x
    using word_succ_le [OF w(2), of x] w(3) by (auto simp: not_less [symmetric])
  note inv = assms(1) [unfolded canon_inv_def, simplified]
  have idx: "k \<le> j" if "j < 378" "int (Suc (unat c)) \<le> x" "contains (case_conv_table1 ! j) x" for j x
    using separated_nth [OF table_separated, of j k] that assms(2,3) by (cases "j < k") (auto simp: contains_def table_lengths)
  consider (first) "ds = - 1" | (merge) "ds \<noteq> - 1" "de = w" | (add) "ds \<noteq> - 1" "de \<noteq> w" by blast
  then show ?thesis
  proof cases
    case first
    then have "pts cr = []" "P = {}" using inv by (auto simp: pts_def)
    then show ?thesis using first inv idx w range one
      by (auto simp: canon_merge_def canon_inv_def w_def [symmetric] covers_def canon_image_def)
  next
    case merge
    have ds: "ds < w" using merge inv by auto
    have "ds \<le> x \<and> x < w + 1 \<longleftrightarrow> x = w \<or> ds \<le> x \<and> x < w" for x
      using word_succ_le [OF w(2), of x] ds by (auto simp: not_less [symmetric])
    moreover have "ds < w + 1" using ds w(3) by (rule less_trans)
    ultimately show ?thesis using merge inv idx range
      by (auto simp: canon_merge_def canon_inv_def w_def [symmetric])
  next
    case add
    have "int (unat c) < 0x20000" using contains_bounds [OF assms(2,3)] by simp
    then have "unat c < 0x20000" by linarith
    moreover have "cr_len cr \<le> 2 * unat c" using inv by blast
    ultimately have "3 * (cr_len cr + 2) \<le> int_max" by (simp add: int_max_def)
    from cr_add_interval_ok [OF _ this, of ds de] inv
    consider cr' where "cr_add_interval cr ds de = Some (0, cr')" "cr_ok cr'" "pts cr' = pts cr @ [ds, de]" "cr_len cr' = cr_len cr + 2"
        "cr_realloc_func cr' = cr_realloc_func cr"
      | "cr_add_interval cr ds de = Some (- 1, cr)" by blast
    then show ?thesis
    proof cases
      case (1 cr')
      have "pairs_of (pts cr') = pairs_of (pts cr) @ [(ds, de)]" using 1(3) inv by (simp add: pairs_of_snoc length_pts)
      then have cov: "covers (pairs_of (pts cr')) x \<longleftrightarrow> covers (pairs_of (pts cr)) x \<or> ds \<le> x \<and> x < de"
        "\<forall>(s, e) \<in> set (pairs_of (pts cr')). s \<le> e" for x using inv add by (auto simp: covers_def)
      then show ?thesis using add inv idx w range one 1(1,2,4,5)
        by (auto simp: canon_merge_def canon_inv_def w_def [symmetric])
    next
      case 2
      then show ?thesis using add inv idx w cr_add_interval_fails [OF 2]
        by (auto simp: canon_merge_def canon_inv_def w_def [symmetric])
    qed
  qed
qed

lemma canon_chars_ok:
  assumes "canon_inv u rf (unat c) P st" "\<forall>x. c \<le> x \<and> x < e \<longrightarrow> mask_chars u (uint x)" "c \<le> e"
  shows "\<exists>st'. canon_chars u c e st = Some st' \<and> canon_inv u rf (unat e) (P \<union> {x. c \<le> x \<and> x < e}) st'"
  using assms
proof (induction "unat e - unat c" arbitrary: c P st)
  case 0
  then have "c = e" by (simp add: word_le_nat_alt word_unat_eq_iff)
  have none: "P \<union> {x. e \<le> x \<and> x < e} = P" by auto
  show ?case using 0 \<open>c = e\<close> by (subst canon_chars.simps) (simp add: none)
next
  case (Suc n)
  then have ce: "unat c < unat e" "c < e" by (simp_all add: word_less_nat_alt)
  obtain idx ds de cr where st: "st = (idx, ds, de, cr)" by (cases st)
  obtain k where k: "k < 378" "contains (case_conv_table1 ! k) (uint c)" using Suc.prems(2) ce(2) mask_charsE by blast
  have "idx \<le> k" using Suc.prems(1) k by (auto simp: canon_inv_def st)
  then have seek: "canon_seek idx (uint c) = Some k" using canon_seek_ok k by blast
  obtain d where d: "lre_canonicalize (uint c) u = Some d" using lre_canonicalize_total by blast
  obtain m where m: "canon_merge (word_of_int d) (ds, de, cr) = Some m" "canon_inv u rf (Suc (unat c)) (insert c P) (k, m)"
    using canon_merge_ok [OF Suc.prems(1) [unfolded st] k d] by blast
  have s: "unat (c + 1) = Suc (unat c)" using unat_succ [OF ce(1)] .
  have split: "insert c P \<union> {x. c + 1 \<le> x \<and> x < e} = P \<union> {x. c \<le> x \<and> x < e}"
    using ce s by (auto simp: word_le_nat_alt word_less_nat_alt word_unat_eq_iff Suc_le_eq le_less)
  have "\<exists>st'. canon_chars u (c + 1) e (k, m) = Some st' \<and> canon_inv u rf (unat e) (insert c P \<union> {x. c + 1 \<le> x \<and> x < e}) st'"
    by (rule Suc.hyps(1)) (use Suc.hyps(2) Suc.prems(2) s m(2) ce in \<open>auto simp: word_le_nat_alt\<close>)
  moreover have "canon_chars u c e st = canon_chars u (c + 1) e (k, m)"
    using ce(2) seek k folding_entry_canonicalize [OF k, of u] d m(1)
    by (subst canon_chars.simps) (simp add: st arr_get_def table_lengths)
  ultimately show ?case unfolding split by simp
qed

lemma canon_ranges_ok:
  assumes "cr_ok cr" "even (cr_len cr)" "sorted_wrt (<) (pts cr)"
    "even i" "i \<le> cr_len cr" "canon_inv u rf n P st" "n \<le> 0x20000" "i < cr_len cr \<Longrightarrow> n \<le> unat (pts cr ! i)"
    "\<forall>x. covers (pairs_of (drop i (pts cr))) x \<longrightarrow> mask_chars u (uint x)"
  shows "\<exists>st'. canon_ranges u cr i st = Some st' \<and> canon_inv u rf 0x20000 (P \<union> {x. covers (pairs_of (drop i (pts cr))) x}) st'"
  using assms(4-9)
proof (induction "cr_len cr - i" arbitrary: i n P st rule: less_induct)
  case less
  have len: "length (pts cr) = cr_len cr" "cr_len cr \<le> length (cr_points cr)" using assms(1) by (auto simp: length_pts cr_ok_def)
  show ?case
  proof (cases "i < cr_len cr")
    case False
    then have none: "P \<union> {x. covers (pairs_of (drop i (pts cr))) x} = P" using len by (simp add: covers_def)
    show ?thesis unfolding none using False less.prems(3,4) by (subst canon_ranges.simps) (auto intro: canon_inv_mono)
  next
    case True
    then have i1: "i + 1 < cr_len cr" using less.prems(1) assms(2) by (metis Suc_eq_plus1 Suc_lessI even_Suc)
    let ?s = "pts cr ! i" and ?e = "pts cr ! (i + 1)"
    have dr: "drop i (pts cr) = ?s # ?e # drop (i + 2) (pts cr)"
      using i1 len by (simp add: Cons_nth_drop_Suc [symmetric])
    have se: "?s < ?e" using assms(3) i1 len by (simp add: sorted_wrt_iff_nth_less)
    have get: "arr_get (cr_points cr) i = Some ?s" "arr_get (cr_points cr) (i + 1) = Some ?e"
      using i1 len by (auto simp: arr_get_def pts_def)
    have m: "\<forall>x. ?s \<le> x \<and> x < ?e \<longrightarrow> mask_chars u (uint x)" using less.prems(6) by (simp add: dr covers_def)
    have "canon_inv u rf (unat ?s) P st" using less.prems(3,5) True by (blast intro: canon_inv_mono)
    then obtain st1 where st1: "canon_chars u ?s ?e st = Some st1" "canon_inv u rf (unat ?e) (P \<union> {x. ?s \<le> x \<and> x < ?e}) st1"
      using canon_chars_ok [OF _ m order_less_imp_le [OF se]] by blast
    have e1: "?e \<noteq> 0" using se by auto
    have "unat (?e - 1) = unat ?e - 1" using e1 by (rule unat_minus_one)
    moreover have "0 < unat ?e" using e1 by (simp add: unat_gt_0)
    ultimately have "?s \<le> ?e - 1" "?e - 1 < ?e" using se by (simp_all add: word_le_nat_alt word_less_nat_alt)
    then have "mask_chars u (uint (?e - 1))" using m by blast
    then have "uint (?e - 1) < 0x20000" using mask_charsE contains_bounds by metis
    then have "int (unat (?e - 1)) < 0x20000" by simp
    then have eb: "unat ?e \<le> 0x20000" using \<open>unat (?e - 1) = unat ?e - 1\<close> by linarith
    have nx: "unat ?e \<le> unat (pts cr ! (i + 2))" if "i + 2 < cr_len cr"
      using assms(3) that len by (simp add: sorted_wrt_iff_nth_less word_less_nat_alt less_imp_le)
    have "\<exists>st'. canon_ranges u cr (i + 2) st1 = Some st' \<and>
      canon_inv u rf 0x20000 ((P \<union> {x. ?s \<le> x \<and> x < ?e}) \<union> {x. covers (pairs_of (drop (i + 2) (pts cr))) x}) st'"
      by (rule less.hyps [OF _ _ _ st1(2)]) (use i1 True less.prems(1,6) eb nx in \<open>auto simp: dr covers_def\<close>)
    moreover have "P \<union> {x. covers (pairs_of (drop i (pts cr))) x} =
        (P \<union> {x. ?s \<le> x \<and> x < ?e}) \<union> {x. covers (pairs_of (drop (i + 2) (pts cr))) x}"
      by (auto simp: dr covers_def)
    moreover have "canon_ranges u cr i st = canon_ranges u cr (i + 2) st1"
      using True get st1(1) by (subst canon_ranges.simps) simp
    ultimately show ?thesis by simp
  qed
qed

lemma blames_unicode_case1: "blames rf (unicode_case1 (cr_init d (Some rf)) m)"
  by (simp add: unicode_case1_def case1_loop_add_all cr_init_def blames_add_all blames_add_interval)

lemma unicode_case1_ok:
  assumes "allocator rf"
  shows "\<exists>r cr. unicode_case1 (cr_init d (Some rf)) (if u then CASE_F else CASE_U) = Some (r, cr) \<and> cr_ok cr \<and> cr_realloc_func cr = rf \<and>
    (r = - 1 \<or> r = 0 \<and> pts cr = flat (map wiv (mask_ivs u)))"
proof -
  have i: "cr_ok (cr_init d (Some rf))" "cr_len (cr_init d (Some rf)) = 0" "cr_realloc_func (cr_init d (Some rf)) = rf"
    using assms by (simp_all add: cr_init_def cr_ok_def)
  have "3 * (cr_len (cr_init d (Some rf)) + 2 * length (map wiv (mask_ivs u))) \<le> int_max"
    using mask_length [of u] i by (simp add: int_max_def)
  from add_all_interval_ok [OF i(1) this] show ?thesis using i(3)
    by (auto simp: unicode_case1_def case1_loop_add_all mask_ivs_def)
qed

lemma canon_result_ok:
  assumes "allocator rf" "cr_ok cr" "cr_realloc_func cr = rf" "cr_ok ci" "even (cr_len ci)" "sorted_wrt (<) (pts ci)"
    "\<forall>x. member (pts ci) x \<longrightarrow> mask_chars u (uint x)"
    "cr_ok sub" "even (cr_len sub)" "sorted_wrt (<) (pts sub)" "3 * (cr_len sub + 0x40002) \<le> int_max"
  shows "\<exists>r cr'. canon_result cr u ci sub (cr_init d (Some rf)) = Some (r, cr') \<and> cr_ok cr' \<and> cr_realloc_func cr' = rf \<and>
    (r = - 1 \<and> \<not> never_fails rf \<or> r = 0 \<and> even (length (pts cr')) \<and> sorted_wrt (<) (pts cr') \<and> length (pts cr') \<le> cr_len sub + 0x40002 \<and>
      (never_fails rf \<longrightarrow> (\<forall>x. member (pts cr') x \<longleftrightarrow> x \<in> canon_image u {c. member (pts ci) c} \<or> member (pts sub) x)))"
proof -
  have srt: "sorted (pts ci)" using assms(6) by (rule sorted_wrt_mono_rel [rotated]) auto
  have mem: "member (pts ci) x = covers (pairs_of (pts ci)) x" for x
    using member_flat [of "pairs_of (pts ci)" x] srt assms(4,5) by (simp add: length_pts)
  have inv0: "canon_inv u rf 0 {} (0, - 1, - 1, cr_init d (Some rf))"
    using assms(1) by (simp add: canon_inv_def cr_init_def cr_ok_def pts_def covers_def canon_image_def)
  obtain idx ds de res where rng: "canon_ranges u ci 0 (0, - 1, - 1, cr_init d (Some rf)) = Some (idx, ds, de, res)"
      "canon_inv u rf 0x20000 {x. member (pts ci) x} (idx, ds, de, res)"
    using canon_ranges_ok [OF assms(4-6) _ _ inv0, where i = 0] assms(7) by (auto simp: mem)
  note inv = rng(2) [unfolded canon_inv_def, simplified]
  have l: "3 * (cr_len res + 2) \<le> int_max" using inv by (auto simp: int_max_def)
  have fin: "\<exists>r res'. (if ds \<noteq> - 1 then cr_add_interval res ds de else Some (0, res)) = Some (r, res') \<and> (r = - 1 \<and> \<not> never_fails rf \<or>
    r = 0 \<and> cr_ok res' \<and> even (cr_len res') \<and> cr_len res' \<le> 0x40002 \<and> (\<forall>(s, e) \<in> set (pairs_of (pts res')). s \<le> e) \<and>
      (never_fails rf \<longrightarrow> (\<forall>x. covers (pairs_of (pts res')) x \<longleftrightarrow> x \<in> canon_image u {c. member (pts ci) c})))"
  proof (cases "ds = - 1")
    case True
    then show ?thesis using inv by (auto simp: canon_image_def)
  next
    case False
    from cr_add_interval_ok [OF _ l, of ds de] inv consider res' where "cr_add_interval res ds de = Some (0, res')" "cr_ok res'"
        "pts res' = pts res @ [ds, de]" "cr_len res' = cr_len res + 2" | "cr_add_interval res ds de = Some (- 1, res)" by blast
    then show ?thesis
    proof cases
      case (1 res')
      have p: "pairs_of (pts res') = pairs_of (pts res) @ [(ds, de)]" using 1(3) inv by (simp add: pairs_of_snoc length_pts)
      then have "covers (pairs_of (pts res')) x \<longleftrightarrow> covers (pairs_of (pts res)) x \<or> ds \<le> x \<and> x < de" for x by (auto simp: covers_def)
      then show ?thesis using False inv 1(1,2,4) p by (auto simp: less_imp_le)
    qed (use False inv cr_add_interval_fails [of res ds de res] in auto)
  qed
  then obtain r res' where r: "(if ds \<noteq> - 1 then cr_add_interval res ds de else Some (0, res)) = Some (r, res')" "r = - 1 \<and> \<not> never_fails rf \<or> r = 0" by blast
  show ?thesis
  proof (cases "r = 0")
    case False
    then show ?thesis using r assms(2,3) rng(1) by (auto simp: canon_result_def)
  next
    case True
    then have res': "cr_ok res'" "even (cr_len res')" "cr_len res' \<le> 0x40002" "\<forall>(s, e) \<in> set (pairs_of (pts res')). s \<le> e"
      "never_fails rf \<Longrightarrow> covers (pairs_of (pts res')) x \<longleftrightarrow> x \<in> canon_image u {c. member (pts ci) c}" for x
      using fin r(1) by auto
    obtain srt where s: "cr_sort_and_remove_overlap res' = Some srt" "cr_ok srt" "even (cr_len srt)" "cr_len srt \<le> cr_len res'"
      "sorted (pts srt)" "\<forall>x. member (pts srt) x \<longleftrightarrow> (\<exists>(s, e) \<in> set (pairs_of (pts res')). s \<le> x \<and> x < e)"
      using cr_sort_ok [OF res'(1,2,4)] by blast
    have ok0: "cr_ok (cr\<lparr>cr_len := 0\<rparr>)" using assms(2) by (simp add: cr_ok_def)
    have ssub: "sorted (pts sub)" using assms(10) by (rule sorted_wrt_mono_rel [rotated]) auto
    have "\<exists>r cr'. cr_op (cr\<lparr>cr_len := 0\<rparr>) (cr_points srt) (cr_len srt) (cr_points sub) (cr_len sub) CR_OP_UNION = Some (r, cr') \<and>
      cr_ok cr' \<and> cr_realloc_func cr' = cr_realloc_func (cr\<lparr>cr_len := 0\<rparr>) \<and>
      (r = - 1 \<or> r = 0 \<and> even (length (pts cr')) \<and> sorted_wrt (<) (pts cr') \<and> length (pts cr') \<le> cr_len srt + cr_len sub \<and>
        (\<forall>c. member (pts cr') c = is_in CR_OP_UNION (member (pts srt) c) (member (pts sub) c)))"
      unfolding pts_def [of srt] pts_def [of sub]
      by (rule cr_op_ok [OF ok0]) (use s assms(8,9,11) ssub res'(3) in \<open>auto simp: pts_def cr_ok_def int_max_def\<close>)
    then obtain r2 cr' where u: "cr_op (cr\<lparr>cr_len := 0\<rparr>) (cr_points srt) (cr_len srt) (cr_points sub) (cr_len sub) CR_OP_UNION = Some (r2, cr')"
      "cr_ok cr'" "cr_realloc_func cr' = rf"
      "r2 = - 1 \<or> r2 = 0 \<and> even (length (pts cr')) \<and> sorted_wrt (<) (pts cr') \<and> length (pts cr') \<le> cr_len srt + cr_len sub \<and>
        (\<forall>c. member (pts cr') c = is_in CR_OP_UNION (member (pts srt) c) (member (pts sub) c))"
      using assms(3) by auto
    have "canon_result cr u ci sub (cr_init d (Some rf)) = Some (if r2 \<noteq> 0 then - 1 else 0, cr')"
      using rng(1) r(1) True s(1) u(1) by (simp add: canon_result_def)
    moreover have "member (pts srt) x = covers (pairs_of (pts res')) x" for x using s(6) by (simp add: covers_def)
    moreover have "r2 \<noteq> 0 \<Longrightarrow> \<not> never_fails rf"
      using blames_op [of "cr\<lparr>cr_len := 0\<rparr>" rf "cr_points srt" "cr_len srt" "cr_points sub" "cr_len sub" CR_OP_UNION] u(1) assms(3)
      by (simp add: blames_def)
    ultimately show ?thesis using u res' s(4) by (auto simp: is_in_def)
  qed
qed

section \<open>Correctness\<close>

lemma member_max: "even (length xs) \<Longrightarrow> \<not> member xs (- 1)"
  by (simp add: member_def cnt_def)

lemma canon_image_split:
  assumes "\<not> mem (- 1)"
  shows "(x \<in> canon_image u {c. mask_chars u (uint c) \<and> mem c} \<or> x \<noteq> - 1 \<and> \<not> mask_chars u (uint x) \<and> mem x) \<longleftrightarrow> x \<in> canon_image u {c. mem c}"
proof -
  have "lre_canonicalize (uint c) u = Some (uint x) \<longleftrightarrow> c = x" if "\<not> mask_chars u (uint c)" for c
    using canonicalize_unmasked [OF that] by (auto simp: word_uint_eq_iff)
  then show ?thesis using assms by (auto simp: canon_image_def)
qed

lemma cr_regexp_canonicalize_ok:
  assumes "cr_ok cr" "sorted (pts cr)" "even (cr_len cr)" "3 * (cr_len cr + 400000) \<le> int_max"
  shows "\<exists>r cr'. cr_regexp_canonicalize cr u = Some (r, cr') \<and> cr_ok cr' \<and> cr_realloc_func cr' = cr_realloc_func cr \<and>
    (r = - 1 \<and> \<not> never_fails (cr_realloc_func cr) \<or> r = 0 \<and> even (length (pts cr')) \<and> sorted_wrt (<) (pts cr') \<and> length (pts cr') \<le> cr_len cr + 400000 \<and>
      (never_fails (cr_realloc_func cr) \<longrightarrow> (\<forall>x. member (pts cr') x \<longleftrightarrow> x \<in> canon_image u {c. member (pts cr) c})))"
proof -
  let ?rf = "cr_realloc_func cr"
  let ?new = "cr_init ?rf (Some ?rf)"
  have rf: "allocator ?rf" using assms(1) by (simp add: cr_ok_def)
  have new: "cr_ok ?new" "cr_len ?new = 0" using rf by (simp_all add: cr_init_def cr_ok_def)
  have lc: "cr_len cr \<le> length (cr_points cr)" using assms(1) by (simp add: cr_ok_def)
  obtain r1 m where m: "unicode_case1 ?new (if u then CASE_F else CASE_U) = Some (r1, m)" "cr_ok m" "cr_realloc_func m = ?rf"
      "r1 = - 1 \<or> r1 = 0 \<and> pts m = flat (map wiv (mask_ivs u))"
    using unicode_case1_ok [OF rf, of ?rf u] by blast
  have b1: "r1 \<noteq> 0 \<Longrightarrow> \<not> never_fails ?rf" using blames_unicode_case1 [of ?rf ?rf "if u then CASE_F else CASE_U"] m(1) by (simp add: blames_def)
  have op: "r \<noteq> 0 \<Longrightarrow> \<not> never_fails ?rf" if "cr_op ?new x k y l CR_OP_INTER = Some (r, c')" for x k y l r c'
    using blames_op [of ?new ?rf x k y l CR_OP_INTER] that by (simp add: blames_def cr_init_def)
  show ?thesis
  proof (cases "r1 = 0")
    case True
    then have pm: "pts m = flat (map wiv (mask_ivs u))" using m(4) by simp
    then have l2: "cr_len m = 2 * length (mask_ivs u)" using length_pts [OF m(2)] by simp
    have lm: "cr_len m \<le> 48384" "even (cr_len m)" "sorted (pts m)" "\<And>x. member (pts m) x = mask_chars u (uint x)"
      using l2 mask_length [of u] mask_points [of u] by (simp_all add: pm)
    have inter: "\<exists>r cr'. cr_op ?new (cr_points a) (cr_len a) (cr_points cr) (cr_len cr) CR_OP_INTER = Some (r, cr') \<and> cr_ok cr' \<and>
        cr_realloc_func cr' = cr_realloc_func ?new \<and>
        (r = - 1 \<or> r = 0 \<and> even (length (pts cr')) \<and> sorted_wrt (<) (pts cr') \<and> length (pts cr') \<le> cr_len a + cr_len cr \<and>
          (\<forall>c. member (pts cr') c = is_in CR_OP_INTER (member (pts a) c) (member (pts cr) c)))"
      if "cr_ok a" "cr_len a \<le> 48386" "even (cr_len a)" "sorted (pts a)" for a
      unfolding pts_def [of a] pts_def [of cr]
      by (rule cr_op_ok [OF new]) (use that assms lc in \<open>auto simp: pts_def cr_ok_def int_max_def\<close>)
    have "cr_len m \<le> 48386" using lm(1) by simp
    from inter [OF m(2) this lm(2,3)] obtain r2 i where i: "cr_op ?new (cr_points m) (cr_len m) (cr_points cr) (cr_len cr) CR_OP_INTER = Some (r2, i)"
      "cr_ok i" "r2 = - 1 \<or> r2 = 0 \<and> even (length (pts i)) \<and> sorted_wrt (<) (pts i) \<and>
        (\<forall>c. member (pts i) c = (mask_chars u (uint c) \<and> member (pts cr) c))" using lm(4) by (auto simp: is_in_def)
    have "3 * (cr_len m + 2) \<le> int_max" using lm(1) by (simp add: int_max_def)
    from cr_invert_ok [OF m(2) lm(3,2) this] obtain r3 n where n: "cr_invert m = Some (r3, n)" "cr_ok n"
      "r3 = - 1 \<or> r3 = 0 \<and> even (length (pts n)) \<and> sorted_wrt (<) (pts n) \<and> length (pts n) \<le> cr_len m + 2 \<and>
        (\<forall>c. c \<noteq> - 1 \<longrightarrow> member (pts n) c = (\<not> member (pts m) c))" by blast
    have b3: "r3 \<noteq> 0 \<Longrightarrow> \<not> never_fails ?rf" using blames_invert [OF m(3)] n(1) by (simp add: blames_def)
    show ?thesis
    proof (cases "r2 = 0 \<and> r3 = 0")
      case r23: True
      have sn: "sorted (pts n)" using n(3) r23 sorted_wrt_mono_rel [of "pts n" "(<)" "(\<le>)"] by auto
      have "cr_len n \<le> 48386" "even (cr_len n)" using n r23 lm(1) length_pts [OF n(2)] by auto
      from inter [OF n(2) this sn] obtain r4 s where s: "cr_op ?new (cr_points n) (cr_len n) (cr_points cr) (cr_len cr) CR_OP_INTER = Some (r4, s)"
        "cr_ok s" "r4 = - 1 \<or> r4 = 0 \<and> even (length (pts s)) \<and> sorted_wrt (<) (pts s) \<and> length (pts s) \<le> cr_len n + cr_len cr \<and>
          (\<forall>c. member (pts s) c = (member (pts n) c \<and> member (pts cr) c))" by (auto simp: is_in_def)
      show ?thesis
      proof (cases "r4 = 0")
        case r4: True
        have ls: "cr_len s \<le> 48386 + cr_len cr" using s r4 \<open>cr_len n \<le> 48386\<close> length_pts [OF s(2)] by auto
        have "\<exists>r cr'. canon_result cr u i s ?new = Some (r, cr') \<and> cr_ok cr' \<and> cr_realloc_func cr' = ?rf \<and>
          (r = - 1 \<and> \<not> never_fails ?rf \<or> r = 0 \<and> even (length (pts cr')) \<and> sorted_wrt (<) (pts cr') \<and> length (pts cr') \<le> cr_len s + 0x40002 \<and>
            (never_fails ?rf \<longrightarrow> (\<forall>x. member (pts cr') x \<longleftrightarrow> x \<in> canon_image u {c. member (pts i) c} \<or> member (pts s) x)))"
          by (rule canon_result_ok [OF rf assms(1) refl i(2) _ _ _ s(2)])
            (use i s r23 r4 ls assms(4) length_pts [OF i(2)] length_pts [OF s(2)] in \<open>auto simp: int_max_def\<close>)
        then obtain r5 cr' where res: "canon_result cr u i s ?new = Some (r5, cr')" "cr_ok cr'" "cr_realloc_func cr' = ?rf"
          "r5 = - 1 \<and> \<not> never_fails ?rf \<or> r5 = 0 \<and> even (length (pts cr')) \<and> sorted_wrt (<) (pts cr') \<and> length (pts cr') \<le> cr_len s + 0x40002 \<and>
            (never_fails ?rf \<longrightarrow> (\<forall>x. member (pts cr') x \<longleftrightarrow> x \<in> canon_image u {c. member (pts i) c} \<or> member (pts s) x))" by blast
        have mx: "\<not> member (pts cr) (- 1)" using assms(1,3) by (simp add: member_max length_pts)
        have set: "x \<in> canon_image u {c. member (pts i) c} \<or> member (pts s) x \<longleftrightarrow> x \<in> canon_image u {c. member (pts cr) c}" for x
        proof -
          have "member (pts s) x \<longleftrightarrow> x \<noteq> - 1 \<and> \<not> mask_chars u (uint x) \<and> member (pts cr) x" using s(3) r4 n(3) r23 lm(4) mx by (cases "x = - 1") auto
          moreover have "{c. member (pts i) c} = {c. mask_chars u (uint c) \<and> member (pts cr) c}" using i(3) r23 by auto
          ultimately show ?thesis using canon_image_split [of "member (pts cr)" x u] mx by simp
        qed
        show ?thesis using m(1) True i(1) n(1) r23 s(1) r4 res ls set by (auto simp: cr_regexp_canonicalize_def Let_def)
      qed (use m(1) True i(1) n(1) r23 s(1) assms(1) op [OF s(1)] in \<open>simp add: cr_regexp_canonicalize_def Let_def\<close>)
    qed (use m(1) True i(1,3) n(1,3) assms(1) b3 op [OF i(1)] in \<open>auto simp: cr_regexp_canonicalize_def Let_def\<close>)
  qed (use m(1) assms(1) b1 in \<open>simp add: cr_regexp_canonicalize_def Let_def\<close>)
qed

text \<open>
  C19: A character class is case folded correctly.  \<open>cr_regexp_canonicalize\<close> on a sorted boundary list reads and
  writes only inside of its arrays, for either mode, and its assertion holds.  If the allocator can fail, it returns
  \<open>- 1\<close> or leaves a strictly increasing list with an even number of boundaries; if the
  allocator has memory for every request, it returns 0 and the new set is exactly the image of the old one under \<open>lre_canonicalize\<close>: a
  character of the input matches the compiled class if and only if its folding is the folding of a member of the class.
\<close>

theorem cr_regexp_canonicalize_image:
  assumes "cr_ok cr" "sorted (pts cr)" "even (cr_len cr)" "3 * (cr_len cr + 400000) \<le> int_max"
  shows "\<exists>r cr'. cr_regexp_canonicalize cr is_unicode = Some (r, cr') \<and> cr_ok cr' \<and>
    (r = - 1 \<or> r = 0 \<and> even (length (pts cr')) \<and> sorted_wrt (<) (pts cr')) \<and>
    ((\<forall>old n. cr_realloc_func cr old n \<noteq> None) \<longrightarrow>
      r = 0 \<and> (\<forall>d. member (pts cr') d \<longleftrightarrow> (\<exists>c. member (pts cr) c \<and> lre_canonicalize (uint c) is_unicode = Some (uint d))))"
  using cr_regexp_canonicalize_ok [OF assms, of is_unicode] unfolding never_fails_def [symmetric] by (auto simp: canon_image_def)

theorem cr_regexp_canonicalize_image_witness:
  "\<exists>cr'. cr_regexp_canonicalize \<lparr>cr_len = 2, cr_size = 2, cr_points = [0x61, 0x64], cr_realloc_func = cr_default_realloc (\<lambda>_. True) (\<lambda>_. 0)\<rparr>
      False = Some (0, cr') \<and> cr_ok cr' \<and> member (pts cr') 0x42"
proof -
  let ?cr = "\<lparr>cr_len = 2, cr_size = 2, cr_points = [0x61, 0x64], cr_realloc_func = cr_default_realloc (\<lambda>_. True) (\<lambda>_. 0)\<rparr>"
  have "cr_ok ?cr" "sorted (pts ?cr)" "even (cr_len ?cr)" "3 * (cr_len ?cr + 400000) \<le> int_max"
    by (simp_all add: cr_ok_def cr_default_allocator pts_def int_max_def)
  note canon = cr_regexp_canonicalize_image [OF this, of False]
  have "\<forall>old n. cr_realloc_func ?cr old n \<noteq> None" by (simp add: cr_default_realloc_def c_realloc_def)
  then obtain r cr' where "cr_regexp_canonicalize ?cr False = Some (r, cr')" "r = 0" "cr_ok cr'"
    "\<forall>d. member (pts cr') d \<longleftrightarrow> (\<exists>c. member (pts ?cr) c \<and> lre_canonicalize (uint c) False = Some (uint d))" using canon by blast
  moreover have "member (pts ?cr) 0x62" "lre_canonicalize (uint (0x62 :: u32)) False = Some (uint (0x42 :: u32))"
    by (simp_all add: member_def mem_simps pts_def lre_canonicalize_def)
  ultimately show ?thesis by blast
qed

end
