(* ===== verification/Lre_Lex.thy ===== *)
theory Lre_Lex
  imports Case_Ranges Lre_Code Unicode_Lookup
begin

text \<open>
  The functions of the regular expression compiler of \<open>src/libregexp.c\<close> that only read the pattern: numbers, escape
  sequences, group names, the count of the captures, class escapes and the atoms of character classes.

  A pattern is the list of its bytes with the terminating zero byte; a pointer into it is an index, and a
  read behind the zero byte is undefined behaviour (\<open>None\<close>).  What the compiler calls elsewhere and what
  is not modelled is a field of the context: the allocators, \<open>lre_check_stack_overflow\<close> of the host (by
  the number of the call), and \<open>unicode_script\<close>, \<open>unicode_general_category\<close> and \<open>unicode_prop\<close>.
\<close>

section \<open>Context and results\<close>

record re_pctx =
  p_buf :: "u8 list"
  p_end :: nat
  p_unicode :: bool
  p_ignore_case :: bool
  p_dotall :: bool
  p_realloc :: "u8 realloc"
  p_cr_realloc :: "u32 realloc"
  p_unicode_script :: "CharRange \<Rightarrow> u8 list \<Rightarrow> bool \<Rightarrow> (int \<times> CharRange) ub"
  p_unicode_gc :: "CharRange \<Rightarrow> u8 list \<Rightarrow> (int \<times> CharRange) ub"
  p_unicode_prop :: "CharRange \<Rightarrow> u8 list \<Rightarrow> (int \<times> CharRange) ub"
  p_stack_overflow :: "nat \<Rightarrow> bool"

text \<open>
  A parsing function returns a value, or \<open>- 1\<close> with the message of \<open>re_parse_error\<close> (\<open>P_err None\<close> when
  no message was set).  \<open>P_big\<close> stands for byte code of \<open>2 ^ 31\<close> bytes, whose positions
  do not fit the type \<open>int\<close>, and \<open>P_fuel\<close> for a recursion deeper than the fuel.
\<close>

datatype 'a pres = P_ok 'a | P_err "string option" | P_big | P_fuel

type_synonym 'a pr = "'a pres ub"

definition pbind :: "'a pr \<Rightarrow> ('a \<Rightarrow> 'b pr) \<Rightarrow> 'b pr" where
  "pbind m f =
     (case m of
        None \<Rightarrow> None
      | Some (P_ok x) \<Rightarrow> f x
      | Some (P_err e) \<Rightarrow> Some (P_err e)
      | Some P_big \<Rightarrow> Some P_big
      | Some P_fuel \<Rightarrow> Some P_fuel)"

definition plift :: "'a ub \<Rightarrow> 'a pr" where
  "plift m = map_option P_ok m"

definition re_parse_error :: "string \<Rightarrow> 'a pr" where
  "re_parse_error msg = Some (P_err (Some msg))"

definition re_parse_out_of_memory :: "'a pr" where
  "re_parse_out_of_memory = re_parse_error ''out of memory''"

lemma pbind_simps [simp]:
  "pbind None f = None"
  "pbind (Some (P_ok x)) f = f x"
  "pbind (Some (P_err e)) f = Some (P_err e)"
  "pbind (Some P_big) f = Some P_big"
  "pbind (Some P_fuel) f = Some P_fuel"
  by (simp_all add: pbind_def)

section \<open>Numbers and escape sequences\<close>

abbreviation (input) "INT32_MAX \<equiv> 2147483647 :: int"

definition is_digit :: "u8 \<Rightarrow> bool" where
  "is_digit c \<longleftrightarrow> 0x30 \<le> c \<and> c \<le> 0x39"

function digits_loop :: "u8 list \<Rightarrow> bool \<Rightarrow> nat \<Rightarrow> int \<Rightarrow> (int \<times> nat) option ub" where
  "digits_loop buf allow_overflow p v =
     (case arr_get buf p of
        None \<Rightarrow> None
      | Some c \<Rightarrow>
          if c < 0x30 \<or> 0x39 < c then Some (Some (v, p))
          else
            let v = v * 10 + uint c - 0x30
            in if INT32_MAX \<le> v then
                 if allow_overflow then digits_loop buf allow_overflow (p + 1) INT32_MAX else Some None
               else digits_loop buf allow_overflow (p + 1) v)"
  by pat_completeness auto
termination
  by (relation "measure (\<lambda>(buf, a, p, v). length buf - p)") (auto simp: arr_get_def split: if_splits)

declare digits_loop.simps [simp del]

text \<open>The number and the pointer behind it; \<open>- 1\<close> for an overflow, with the pointer unchanged.\<close>

definition parse_digits :: "u8 list \<Rightarrow> nat \<Rightarrow> bool \<Rightarrow> (int \<times> nat) ub" where
  "parse_digits buf p allow_overflow =
     map_option (\<lambda>r. case r of None \<Rightarrow> (- 1, p) | Some (v, p') \<Rightarrow> (v, p')) (digits_loop buf allow_overflow p 0)"

definition re_parse_expect :: "u8 list \<Rightarrow> nat \<Rightarrow> char \<Rightarrow> nat pr" where
  "re_parse_expect buf p c =
     (case arr_get buf p of
        None \<Rightarrow> None
      | Some b \<Rightarrow> if b \<noteq> of_char c then re_parse_error (''expecting '' @ [CHR 0x27, c, CHR 0x27]) else Some (P_ok (p + 1)))"

text \<open>The loop over the digits of \<open>\u{...}\<close>, from the first digit on.\<close>

function hex_brace_loop :: "u8 list \<Rightarrow> nat \<Rightarrow> int \<Rightarrow> (int \<times> nat) option ub" where
  "hex_brace_loop buf p c =
     (case arr_get buf p of
        None \<Rightarrow> None
      | Some b \<Rightarrow>
          let h = from_hex (uint b)
          in if h < 0 then Some None
             else
               let c = c * 16 + h
               in if 0x10FFFF < c then Some None
                  else
                    case arr_get buf (p + 1) of
                      None \<Rightarrow> None
                    | Some b \<Rightarrow> if b = 0x7d then Some (Some (c, p + 2)) else hex_brace_loop buf (p + 1) c)"
  by pat_completeness auto
termination
  by (relation "measure (\<lambda>(buf, p, c). length buf - p)") (auto simp: arr_get_def split: if_splits)

declare hex_brace_loop.simps [simp del]

text \<open>\<open>n\<close> hexadecimal digits.\<close>

fun hex_digits :: "u8 list \<Rightarrow> nat \<Rightarrow> nat \<Rightarrow> int \<Rightarrow> (int \<times> nat) option ub" where
  "hex_digits buf 0 p c = Some (Some (c, p))"
| "hex_digits buf (Suc n) p c =
     (case arr_get buf p of
        None \<Rightarrow> None
      | Some b \<Rightarrow> let h = from_hex (uint b) in if h < 0 then Some None else hex_digits buf n (p + 1) (c * 16 + h))"

text \<open>The low surrogate behind a high one, if there is one.\<close>

definition escape_pair :: "u8 list \<Rightarrow> nat \<Rightarrow> int \<Rightarrow> nat \<Rightarrow> (int \<times> nat) option ub" where
  "escape_pair buf p c allow_utf16 =
     (if is_hi_surrogate (word_of_int c) \<and> allow_utf16 = 2 then
        do {
          b0 \<leftarrow> arr_get buf p;
          if b0 \<noteq> 0x5c then Some (Some (c, p))
          else do {
            b1 \<leftarrow> arr_get buf (p + 1);
            if b1 \<noteq> 0x75 then Some (Some (c, p))
            else do {
              r \<leftarrow> hex_digits buf 4 (p + 2) 0;
              Some (case r of
                  None \<Rightarrow> Some (c, p)
                | Some (c1, p1) \<Rightarrow>
                    if is_lo_surrogate (word_of_int c1) then Some (uint (from_surrogate (word_of_int c) (word_of_int c1)), p + 6) else Some (c, p))
            }
          }
        }
      else Some (Some (c, p)))"

definition escape_hex :: "u8 list \<Rightarrow> nat \<Rightarrow> u8 \<Rightarrow> nat \<Rightarrow> (int \<times> nat) option ub" where
  "escape_hex buf p c allow_utf16 =
     do {
       b \<leftarrow> arr_get buf p;
       if b = 0x7b \<and> allow_utf16 \<noteq> 0 then hex_brace_loop buf (p + 1) 0
       else do {
         r \<leftarrow> hex_digits buf (if c = 0x78 then 2 else 4) p 0;
         case r of None \<Rightarrow> Some None | Some (c, p) \<Rightarrow> escape_pair buf p c allow_utf16
       }
     }"

text \<open>\<open>\0\<close> and the legacy octal escapes; \<open>c\<close> is the first digit.\<close>

definition escape_octal :: "u8 list \<Rightarrow> nat \<Rightarrow> int \<Rightarrow> nat \<Rightarrow> (int \<times> nat) option ub" where
  "escape_octal buf p c allow_utf16 =
     do {
       b \<leftarrow> arr_get buf p;
       if allow_utf16 = 2 then Some (if c \<noteq> 0 \<or> is_digit b then None else Some (c, p))
       else
         let v = uint (ucast b - 0x30 :: u32)
         in if 7 < v then Some (Some (c, p))
            else
              let c = c * 8 + v
              in if 32 \<le> c then Some (Some (c, p + 1))
                 else do {
                   b \<leftarrow> arr_get buf (p + 1);
                   let v = uint (ucast b - 0x30 :: u32);
                   Some (Some (if 7 < v then (c, p + 1) else (c * 8 + v, p + 2)))
                 }
     }"

text \<open>The character and the pointer behind the escape, or \<open>- 1\<close> (malformed) or \<open>- 2\<close> with the pointer unchanged.\<close>

definition lre_parse_escape :: "u8 list \<Rightarrow> nat \<Rightarrow> nat \<Rightarrow> (int \<times> nat) ub" where
  "lre_parse_escape buf p allow_utf16 =
     do {
       c \<leftarrow> arr_get buf p;
       if c = 0x62 then Some (8, p + 1)
       else if c = 0x66 then Some (12, p + 1)
       else if c = 0x6e then Some (10, p + 1)
       else if c = 0x72 then Some (13, p + 1)
       else if c = 0x74 then Some (9, p + 1)
       else if c = 0x76 then Some (11, p + 1)
       else if c = 0x78 \<or> c = 0x75 then
         map_option (\<lambda>r. case r of None \<Rightarrow> (- 1, p) | Some r \<Rightarrow> r) (escape_hex buf (p + 1) c allow_utf16)
       else if 0x30 \<le> c \<and> c \<le> 0x37 then
         map_option (\<lambda>r. case r of None \<Rightarrow> (- 1, p) | Some r \<Rightarrow> r) (escape_octal buf (p + 1) (uint c - 0x30) allow_utf16)
       else Some (- 2, p)
     }"

section \<open>Identifiers\<close>

definition lre_ctype_bits :: "u8 list" where
  "lre_ctype_bits =
     [0, 0, 0, 0, 0, 0, 0, 0,
      0, 1, 1, 1, 1, 1, 0, 0,
      0, 0, 0, 0, 0, 0, 0, 0,
      0, 0, 0, 0, 0, 0, 0, 0,
      1, 0, 0, 0, 32, 0, 0, 0,
      0, 0, 0, 0, 0, 0, 0, 0,
      66, 66, 66, 66, 66, 66, 66, 66,
      66, 66, 0, 0, 0, 0, 0, 0,
      0, 68, 68, 68, 68, 68, 68, 4,
      4, 4, 4, 4, 4, 4, 4, 4,
      4, 4, 4, 4, 4, 4, 4, 4,
      4, 4, 4, 0, 0, 0, 0, 16,
      0, 72, 72, 72, 72, 72, 72, 8,
      8, 8, 8, 8, 8, 8, 8, 8,
      8, 8, 8, 8, 8, 8, 8, 8,
      8, 8, 8, 0, 0, 0, 0, 0] @
     replicate 32 0 @ [1] @ replicate 95 0"

definition lre_is_id_start_byte :: "u8 \<Rightarrow> bool" where
  "lre_is_id_start_byte c \<longleftrightarrow> lre_ctype_bits ! unat c AND (4 OR 8 OR 16 OR 32) \<noteq> 0"

definition lre_is_id_continue_byte :: "u8 \<Rightarrow> bool" where
  "lre_is_id_continue_byte c \<longleftrightarrow> lre_ctype_bits ! unat c AND (4 OR 8 OR 16 OR 32 OR 2) \<noteq> 0"

definition lre_js_is_ident_first :: "int \<Rightarrow> bool ub" where
  "lre_js_is_ident_first c = (if c < 128 then Some (lre_is_id_start_byte (word_of_int c)) else lre_is_id_start c)"

definition lre_js_is_ident_next :: "int \<Rightarrow> bool ub" where
  "lre_js_is_ident_next c =
     (if c < 128 then Some (lre_is_id_continue_byte (word_of_int c))
      else if 0x200C \<le> c \<and> c \<le> 0x200D then Some True else lre_is_id_continue c)"

section \<open>Group names\<close>

abbreviation (input) "UTF8_CHAR_LEN_MAX \<equiv> 6 :: int"
abbreviation (input) "TMP_BUF_SIZE \<equiv> 128 :: nat"

text \<open>\<open>unicode_from_utf8\<close> at a position: the code point and the position behind it, \<open>None\<close> for its return value \<open>- 1\<close>.\<close>

definition utf8_at :: "u8 list \<Rightarrow> nat \<Rightarrow> (u32 \<times> nat) option ub" where
  "utf8_at buf p =
     map_option (map_option (\<lambda>(c, rest). (c, length buf - length rest))) (unicode_from_utf8 (drop p buf) UTF8_CHAR_LEN_MAX)"

text \<open>A code point that is not ASCII, with surrogates encoded one by one (CESU-8) joined.\<close>

definition group_name_utf8 :: "u8 list \<Rightarrow> nat \<Rightarrow> (int \<times> nat) option ub" where
  "group_name_utf8 buf p =
     (case utf8_at buf p of
        None \<Rightarrow> None
      | Some None \<Rightarrow> Some None
      | Some (Some (c, p)) \<Rightarrow>
          if is_hi_surrogate c then
            case utf8_at buf p of
              None \<Rightarrow> None
            | Some None \<Rightarrow> Some (Some (uint c, p))
            | Some (Some (d, p1)) \<Rightarrow> Some (Some (if is_lo_surrogate d then (uint (from_surrogate c d), p1) else (uint c, p)))
          else Some (Some (uint c, p)))"

text \<open>The next character of a group name, \<open>None\<close> if it is malformed.\<close>

definition group_name_char :: "u8 list \<Rightarrow> nat \<Rightarrow> (int \<times> nat) option ub" where
  "group_name_char buf p =
     do {
       c \<leftarrow> arr_get buf p;
       if c = 0x5c then do {
         b \<leftarrow> arr_get buf (p + 1);
         if b \<noteq> 0x75 then Some None
         else do {
           (c, p) \<leftarrow> lre_parse_escape buf (p + 1) 2;
           Some (if c < 0 then None else Some (c, p))
         }
       }
       else if 128 \<le> c then group_name_utf8 buf p
       else Some (Some (uint c, p + 1))
     }"

definition group_name_bytes :: "int \<Rightarrow> u8 list" where
  "group_name_bytes c = (if c < 128 then [word_of_int c] else unicode_to_utf8 (word_of_int c))"

lemma group_name_bytes_nonempty: "c \<le> 0x10FFFF \<Longrightarrow> 0 < length (group_name_bytes c)"
  by (auto simp: group_name_bytes_def unicode_to_utf8_def Let_def word_less_def uint_word_of_int)

text \<open>The name, without its terminating zero, and the pointer behind \<open>>\<close>; \<open>None\<close> is the return value \<open>- 1\<close>.\<close>

function group_name_loop :: "u8 list \<Rightarrow> nat \<Rightarrow> nat \<Rightarrow> u8 list \<Rightarrow> (u8 list \<times> nat) option ub" where
  "group_name_loop buf buf_size p q =
     (case arr_get buf p of
        None \<Rightarrow> None
      | Some b \<Rightarrow>
          if b = 0x3e then Some (if q = [] then None else Some (q, p + 1))
          else
            case group_name_char buf p of
              None \<Rightarrow> None
            | Some None \<Rightarrow> Some None
            | Some (Some (c, p)) \<Rightarrow>
                if 0x10FFFF < c then Some None
                else
                  case (if q = [] then lre_js_is_ident_first c else lre_js_is_ident_next c) of
                    None \<Rightarrow> None
                  | Some ok \<Rightarrow>
                      if \<not> ok then Some None
                      else if buf_size < length q + 7 then Some None
                      else group_name_loop buf buf_size p (q @ group_name_bytes c))"
  by pat_completeness auto
termination
  by (relation "measure (\<lambda>(buf, buf_size, p, q). buf_size - length q)")
    (auto simp: not_less dest!: group_name_bytes_nonempty intro!: diff_less_mono2)

declare group_name_loop.simps [simp del]

definition re_parse_group_name :: "u8 list \<Rightarrow> nat \<Rightarrow> (u8 list \<times> nat) option ub" where
  "re_parse_group_name buf p = group_name_loop buf TMP_BUF_SIZE p []"

text \<open>Every function that consumes characters moves the pointer forward.\<close>

lemma utf8_cont_rest: "utf8_cont l c p = Some (Some (c', p')) \<Longrightarrow> length p' + l = length p"
  by (induction l c p rule: utf8_cont.induct) (auto split: if_splits)

lemma unicode_from_utf8_rest: "unicode_from_utf8 q m = Some (Some (c, rest)) \<Longrightarrow> length rest < length q"
  by (auto simp: unicode_from_utf8_def Let_def dest!: utf8_cont_rest split: list.splits option.splits if_splits)

lemma utf8_at_forward: "utf8_at buf p = Some (Some (c, p')) \<Longrightarrow> p < p' \<and> p' \<le> length buf"
  by (auto simp: utf8_at_def dest!: unicode_from_utf8_rest)

lemma hex_digits_forward: "hex_digits buf n p c = Some (Some (c', p')) \<Longrightarrow> p' = p + n"
  by (induction buf n p c rule: hex_digits.induct) (auto simp: Let_def split: option.splits if_splits)

lemma hex_brace_forward: "hex_brace_loop buf p c = Some (Some (c', p')) \<Longrightarrow> p + 2 \<le> p'"
proof (induction buf p c rule: hex_brace_loop.induct)
  case (1 buf p c)
  then show ?case by (subst (asm) (2) hex_brace_loop.simps) (force simp: Let_def split: option.splits if_splits)
qed

lemma escape_pair_forward: "escape_pair buf p c a = Some (Some (c', p')) \<Longrightarrow> p \<le> p'"
  by (auto simp: escape_pair_def bind_eq_Some_conv split: option.splits if_splits)

lemma escape_hex_forward: "escape_hex buf p b a = Some (Some (c', p')) \<Longrightarrow> p < p'"
  by (auto simp: escape_hex_def bind_eq_Some_conv
      dest!: hex_brace_forward hex_digits_forward escape_pair_forward split: option.splits if_splits)

lemma escape_octal_forward: "escape_octal buf p c a = Some (Some (c', p')) \<Longrightarrow> p \<le> p'"
  by (auto simp: escape_octal_def bind_eq_Some_conv Let_def split: if_splits)

lemma lre_parse_escape_forward: "lre_parse_escape buf p a = Some (c, p') \<Longrightarrow> 0 \<le> c \<Longrightarrow> p < p'"
  by (auto simp: lre_parse_escape_def bind_eq_Some_conv dest!: escape_hex_forward escape_octal_forward
      split: if_splits option.splits)

lemma group_name_char_forward: "group_name_char buf p = Some (Some (c, p')) \<Longrightarrow> p < p'"
  by (auto simp: group_name_char_def group_name_utf8_def bind_eq_Some_conv dest!: utf8_at_forward lre_parse_escape_forward
      split: if_splits option.splits prod.splits)

lemma group_name_loop_forward: "group_name_loop buf n p q = Some (Some (q', p')) \<Longrightarrow> p < p'"
proof (induction buf n p q rule: group_name_loop.induct)
  case (1 buf n p q)
  show ?case using 1(2) 1(1)
    by (subst (asm) group_name_loop.simps) (force dest!: group_name_char_forward split: option.splits if_splits)
qed

section \<open>Counting captures\<close>

text \<open>\<open>for (p += 1 + (*p == ']'); p < s->buf_end && *p != ']'; p++)\<close>, where \<open>*p\<close> is \<open>[\<close> at first.\<close>

function skip_class :: "u8 list \<Rightarrow> nat \<Rightarrow> nat \<Rightarrow> nat ub" where
  "skip_class buf buf_end p =
     (if p < buf_end then
        case arr_get buf p of
          None \<Rightarrow> None
        | Some b \<Rightarrow> if b = 0x5d then Some p else skip_class buf buf_end (if b = 0x5c then p + 2 else p + 1)
      else Some p)"
  by pat_completeness auto
termination
  by (relation "measure (\<lambda>(buf, e, p). e - p)") auto

declare skip_class.simps [simp del]

lemma skip_class_forward: "skip_class buf e p = Some p' \<Longrightarrow> p \<le> p'"
proof (induction buf e p rule: skip_class.induct)
  case (1 buf e p)
  show ?case using 1(2) 1(1) by (subst (asm) skip_class.simps) (force split: option.splits if_splits)
qed

text \<open>What an opening parenthesis at \<open>p\<close> starts.\<close>

datatype paren = Paren_capture | Paren_named | Paren_other

definition paren_kind :: "u8 list \<Rightarrow> nat \<Rightarrow> paren ub" where
  "paren_kind buf p =
     do {
       b1 \<leftarrow> arr_get buf (p + 1);
       if b1 \<noteq> 0x3f then Some Paren_capture
       else do {
         b2 \<leftarrow> arr_get buf (p + 2);
         if b2 \<noteq> 0x3c then Some Paren_other
         else do {
           b3 \<leftarrow> arr_get buf (p + 3);
           Some (if b3 \<noteq> 0x3d \<and> b3 \<noteq> 0x21 then Paren_named else Paren_other)
         }
       }
     }"

text \<open>The potential name behind \<open>(?<\<close>: whether it is \<open>capture_name\<close>, and the new pointer.\<close>

definition capture_match :: "u8 list \<Rightarrow> u8 list option \<Rightarrow> nat \<Rightarrow> (bool \<times> nat) ub" where
  "capture_match buf capture_name p =
     (case capture_name of
        None \<Rightarrow> Some (False, p)
      | Some cn \<Rightarrow>
          map_option (\<lambda>r. case r of None \<Rightarrow> (False, p + 3) | Some (name, p') \<Rightarrow> (name = cn, p')) (re_parse_group_name buf (p + 3)))"

lemma capture_match_forward: "capture_match buf cn p = Some (r, p') \<Longrightarrow> p \<le> p'"
  by (auto simp: capture_match_def re_parse_group_name_def dest!: group_name_loop_forward split: option.splits)

definition captures_done :: "u8 list option \<Rightarrow> int \<Rightarrow> int" where
  "captures_done capture_name capture_index = (if capture_name = None then capture_index else - 1)"

text \<open>The return value and \<open>*phas_named_captures\<close>.\<close>

function captures_loop :: "u8 list \<Rightarrow> nat \<Rightarrow> u8 list option \<Rightarrow> nat \<Rightarrow> int \<Rightarrow> bool \<Rightarrow> (int \<times> bool) ub" where
  "captures_loop buf buf_end capture_name p capture_index named =
     (if p < buf_end then
        case arr_get buf p of
          None \<Rightarrow> None
        | Some b \<Rightarrow>
            if b = 0x28 then
              case paren_kind buf p of
                None \<Rightarrow> None
              | Some Paren_other \<Rightarrow> captures_loop buf buf_end capture_name (p + 1) capture_index named
              | Some Paren_capture \<Rightarrow>
                  if CAPTURE_COUNT_MAX \<le> capture_index + 1 then Some (captures_done capture_name (capture_index + 1), named)
                  else captures_loop buf buf_end capture_name (p + 1) (capture_index + 1) named
              | Some Paren_named \<Rightarrow>
                  (case capture_match buf capture_name p of
                     None \<Rightarrow> None
                   | Some (found, p) \<Rightarrow>
                       if found then Some (capture_index, True)
                       else if CAPTURE_COUNT_MAX \<le> capture_index + 1 then Some (captures_done capture_name (capture_index + 1), True)
                       else captures_loop buf buf_end capture_name (p + 1) (capture_index + 1) True)
            else if b = 0x5c then captures_loop buf buf_end capture_name (p + 2) capture_index named
            else if b = 0x5b then
              case skip_class buf buf_end (p + 1) of
                None \<Rightarrow> None
              | Some p \<Rightarrow> captures_loop buf buf_end capture_name (p + 1) capture_index named
            else captures_loop buf buf_end capture_name (p + 1) capture_index named
      else Some (captures_done capture_name capture_index, named))"
  by pat_completeness auto
termination
  by (relation "measure (\<lambda>(buf, e, cn, p, i, n). e - p)") (auto dest!: capture_match_forward skip_class_forward)

declare captures_loop.simps [simp del]

definition re_parse_captures :: "re_pctx \<Rightarrow> u8 list option \<Rightarrow> (int \<times> bool) ub" where
  "re_parse_captures c capture_name = captures_loop (p_buf c) (p_end c) capture_name 0 1 False"

end
