(* ===== verification/Lre_Class.thy ===== *)
theory Lre_Class
  imports Lre_Lex
begin

text \<open>
  Class escapes, Unicode properties, class atoms and the set of a character class of
  \<open>src/libregexp.c\<close>.  A \<open>CharRange\<close> that has not been initialised is \<open>None\<close>.
\<close>

section \<open>Class escapes\<close>

definition char_range_d :: "u32 list" where
  "char_range_d = [1, 0x0030, 0x0039 + 1]"

definition char_range_s :: "u32 list" where
  "char_range_s =
     [10, 0x0009, 0x000D + 1, 0x0020, 0x0020 + 1, 0x00A0, 0x00A0 + 1, 0x1680, 0x1680 + 1, 0x2000, 0x200A + 1,
      0x2028, 0x2029 + 1, 0x202F, 0x202F + 1, 0x205F, 0x205F + 1, 0x3000, 0x3000 + 1, 0xFEFF, 0xFEFF + 1]"

definition char_range_w :: "u32 list" where
  "char_range_w = [4, 0x0030, 0x0039 + 1, 0x0041, 0x005A + 1, 0x005F, 0x005F + 1, 0x0061, 0x007A + 1]"

datatype CharRangeEnum = CHAR_RANGE_d | CHAR_RANGE_D | CHAR_RANGE_s | CHAR_RANGE_S | CHAR_RANGE_w | CHAR_RANGE_W

text \<open>\<open>char_range_table[c >> 1]\<close> and \<open>c & 1\<close>\<close>

fun char_range_table :: "CharRangeEnum \<Rightarrow> u32 list \<times> bool" where
  "char_range_table CHAR_RANGE_d = (char_range_d, False)"
| "char_range_table CHAR_RANGE_D = (char_range_d, True)"
| "char_range_table CHAR_RANGE_s = (char_range_s, False)"
| "char_range_table CHAR_RANGE_S = (char_range_s, True)"
| "char_range_table CHAR_RANGE_w = (char_range_w, False)"
| "char_range_table CHAR_RANGE_W = (char_range_w, True)"

fun cr_add_points :: "CharRange \<Rightarrow> u32 list \<Rightarrow> (int \<times> CharRange) ub" where
  "cr_add_points cr [] = Some (0, cr)"
| "cr_add_points cr (x # xs) = on_success (cr_add_point cr x) (\<lambda>cr. cr_add_points cr xs)"

definition cr_new :: "re_pctx \<Rightarrow> CharRange" where
  "cr_new c = cr_init (p_cr_realloc c) (Some (p_cr_realloc c))"

definition cr_init_char_range :: "re_pctx \<Rightarrow> CharRangeEnum \<Rightarrow> (int \<times> CharRange) ub" where
  "cr_init_char_range c e =
     (case char_range_table e of (tab, invert) \<Rightarrow>
        on_success (cr_add_points (cr_new c) (take (2 * unat (hd tab)) (tl tab))) (\<lambda>cr.
        if invert then on_success (cr_invert cr) (\<lambda>cr. Some (0, cr)) else Some (0, cr)))"

section \<open>Unicode properties\<close>

definition is_unicode_char :: "u8 \<Rightarrow> bool" where
  "is_unicode_char c \<longleftrightarrow> (0x30 \<le> c \<and> c \<le> 0x39) \<or> (0x41 \<le> c \<and> c \<le> 0x5a) \<or> (0x61 \<le> c \<and> c \<le> 0x7a) \<or> c = 0x5f"

text \<open>A name of at most 63 characters, \<open>None\<close> if it is longer.\<close>

function unicode_name_loop :: "u8 list \<Rightarrow> nat \<Rightarrow> u8 list \<Rightarrow> (u8 list \<times> nat) option ub" where
  "unicode_name_loop buf p q =
     (case arr_get buf p of
        None \<Rightarrow> None
      | Some b \<Rightarrow>
          if is_unicode_char b then
            if 63 \<le> length q then Some None else unicode_name_loop buf (p + 1) (q @ [b])
          else Some (Some (q, p)))"
  by pat_completeness auto
termination
  by (relation "measure (\<lambda>(buf, p, q). length buf - p)") (auto simp: arr_get_def split: if_splits)

declare unicode_name_loop.simps [simp del]

definition str_bytes :: "string \<Rightarrow> u8 list" where
  "str_bytes s = map of_char s"

text \<open>\<open>{name}\<close> or \<open>{name=value}\<close>, and the pointer behind it.\<close>

definition property_name :: "u8 list \<Rightarrow> nat \<Rightarrow> (u8 list \<times> u8 list \<times> nat) pr" where
  "property_name buf p =
     pbind (plift (arr_get buf p)) (\<lambda>b.
     if b \<noteq> 0x7b then re_parse_error (''expecting '' @ [CHR 0x27, CHR 0x7b, CHR 0x27] @ '' after '' @ [CHR 0x5c, CHR 0x70])
     else pbind (plift (unicode_name_loop buf (p + 1) [])) (\<lambda>r.
       case r of
         None \<Rightarrow> re_parse_error ''unknown unicode property name''
       | Some (name, p) \<Rightarrow>
           pbind (plift (arr_get buf p)) (\<lambda>b.
           pbind (if b = 0x3d then plift (unicode_name_loop buf (p + 1) []) else Some (P_ok (Some ([], p)))) (\<lambda>r.
           case r of
             None \<Rightarrow> re_parse_error ''unknown unicode property value''
           | Some (value, p) \<Rightarrow>
               pbind (plift (arr_get buf p)) (\<lambda>b.
               if b \<noteq> 0x7d then re_parse_error (''expecting '' @ [CHR 0x27, CHR 0x7d, CHR 0x27]) else Some (P_ok (name, value, p + 1)))))))"

text \<open>A nonzero return value becomes an error: \<open>- 2\<close> with the message \<open>msg\<close>, others are \<open>out of memory\<close>.\<close>

definition property_result :: "string \<Rightarrow> int \<times> CharRange \<Rightarrow> CharRange pr" where
  "property_result msg r =
     (case r of (ret, cr) \<Rightarrow>
        if ret = 0 then Some (P_ok cr) else if ret = - 2 then re_parse_error msg else re_parse_out_of_memory)"

definition property_set :: "re_pctx \<Rightarrow> u8 list \<Rightarrow> u8 list \<Rightarrow> CharRange pr" where
  "property_set c name value =
     (if name = str_bytes ''Script'' \<or> name = str_bytes ''sc'' then
        pbind (plift (p_unicode_script c (cr_new c) value False)) (property_result ''unknown unicode script'')
      else if name = str_bytes ''Script_Extensions'' \<or> name = str_bytes ''scx'' then
        pbind (plift (p_unicode_script c (cr_new c) value True)) (property_result ''unknown unicode script'')
      else if name = str_bytes ''General_Category'' \<or> name = str_bytes ''gc'' then
        pbind (plift (p_unicode_gc c (cr_new c) value)) (property_result ''unknown unicode general category'')
      else if value = [] then
        pbind (plift (p_unicode_gc c (cr_new c) name)) (\<lambda>(ret, cr).
        if ret = - 1 then re_parse_out_of_memory
        else if ret < 0 then pbind (plift (p_unicode_prop c cr name)) (property_result ''unknown unicode property name'')
        else Some (P_ok cr))
      else re_parse_error ''unknown unicode property name'')"

definition parse_unicode_property :: "re_pctx \<Rightarrow> nat \<Rightarrow> bool \<Rightarrow> (CharRange \<times> nat) pr" where
  "parse_unicode_property c p is_inv =
     pbind (property_name (p_buf c) p) (\<lambda>(name, value, p).
     pbind (property_set c name value) (\<lambda>cr.
     if is_inv then
       pbind (plift (cr_invert cr)) (\<lambda>(r, cr). if r \<noteq> 0 then Some (P_err None) else Some (P_ok (cr, p)))
     else Some (P_ok (cr, p))))"

section \<open>Class atoms\<close>

abbreviation (input) "CLASS_RANGE_BASE \<equiv> 0x40000000 :: u32"

text \<open>An atom is a character, or \<open>CLASS_RANGE_BASE\<close> and a set; and the pointer behind it.\<close>

type_synonym class_atom = "u32 \<times> CharRange option \<times> nat"

definition invalid_escape :: "'a pr" where
  "invalid_escape = re_parse_error ''invalid escape sequence in regular expression''"

text \<open>The label \<open>normal_char\<close>; \<open>b\<close> is the byte at \<open>p\<close>.\<close>

definition atom_normal_char :: "re_pctx \<Rightarrow> nat \<Rightarrow> u8 \<Rightarrow> class_atom pr" where
  "atom_normal_char c p b =
     (if 128 \<le> b then
        pbind (plift (utf8_at (p_buf c) p)) (\<lambda>r.
        case r of
          None \<Rightarrow> if p_unicode c then Some (P_err None) else re_parse_error ''malformed unicode char''
        | Some (ch, p) \<Rightarrow>
            if 0xffff < ch \<and> \<not> p_unicode c then re_parse_error ''malformed unicode char'' else Some (P_ok (ch, None, p)))
      else Some (P_ok (ucast b, None, p + 1)))"

text \<open>\<open>\c\<close>, with \<open>p\<close> behind it.\<close>

definition atom_control :: "re_pctx \<Rightarrow> nat \<Rightarrow> bool \<Rightarrow> class_atom pr" where
  "atom_control c p inclass =
     pbind (plift (arr_get (p_buf c) p)) (\<lambda>b.
     if (0x61 \<le> b \<and> b \<le> 0x7a) \<or> (0x41 \<le> b \<and> b \<le> 0x5a) \<or> ((is_digit b \<or> b = 0x5f) \<and> inclass \<and> \<not> p_unicode c) then
       Some (P_ok (ucast b AND 0x1f, None, p + 1))
     else if p_unicode c then invalid_escape
     else Some (P_ok (0x5c, None, p - 1)))"

text \<open>The characters \<open>^$\.*+?()[]{}|/\<close>\<close>

definition escapable :: "u8 list" where
  "escapable = [0x5e, 0x24, 0x5c, 0x2e, 0x2a, 0x2b, 0x3f, 0x28, 0x29, 0x5b, 0x5d, 0x7b, 0x7d, 0x7c, 0x2f]"

text \<open>The \<open>default\<close> case of an escape, with \<open>p\<close> at the byte \<open>b\<close> behind the backslash.\<close>

definition atom_escape :: "re_pctx \<Rightarrow> nat \<Rightarrow> u8 \<Rightarrow> class_atom pr" where
  "atom_escape c p b =
     pbind (plift (lre_parse_escape (p_buf c) p (if p_unicode c then 2 else 0))) (\<lambda>(ret, p').
     if 0 \<le> ret then Some (P_ok (word_of_int ret, None, p'))
     else if ret = - 2 \<and> b \<noteq> 0 \<and> b \<in> set escapable then atom_normal_char c p b
     else if p_unicode c then invalid_escape
     else atom_normal_char c p b)"

fun class_escape :: "u8 \<Rightarrow> CharRangeEnum option" where
  "class_escape b =
     (if b = 0x64 then Some CHAR_RANGE_d
      else if b = 0x44 then Some CHAR_RANGE_D
      else if b = 0x73 then Some CHAR_RANGE_s
      else if b = 0x53 then Some CHAR_RANGE_S
      else if b = 0x77 then Some CHAR_RANGE_w
      else if b = 0x57 then Some CHAR_RANGE_W
      else None)"

definition get_class_atom :: "re_pctx \<Rightarrow> nat \<Rightarrow> bool \<Rightarrow> class_atom pr" where
  "get_class_atom c p inclass =
     pbind (plift (arr_get (p_buf c) p)) (\<lambda>b.
     if b = 0x5c then
       if p_end c \<le> p + 1 then re_parse_error ''unexpected end''
       else pbind (plift (arr_get (p_buf c) (p + 1))) (\<lambda>b.
         case class_escape b of
           Some e \<Rightarrow>
             pbind (plift (cr_init_char_range c e)) (\<lambda>(r, cr).
             if r \<noteq> 0 then Some (P_err None) else Some (P_ok (CLASS_RANGE_BASE, Some cr, p + 2)))
         | None \<Rightarrow>
             if b = 0x63 then atom_control c (p + 2) inclass
             else if b = 0x2d then
               if \<not> inclass \<and> p_unicode c then invalid_escape else Some (P_ok (0x2d, None, p + 2))
             else if (b = 0x70 \<or> b = 0x50) \<and> p_unicode c then
               pbind (parse_unicode_property c (p + 2) (b = 0x50)) (\<lambda>(cr, p). Some (P_ok (CLASS_RANGE_BASE, Some cr, p)))
             else atom_escape c (p + 1) b)
     else if b = 0 \<and> p_end c \<le> p then re_parse_error ''unexpected end''
     else atom_normal_char c p b)"

section \<open>Character classes\<close>

text \<open>\<open>if (op) goto memory_error\<close>\<close>

definition or_memory_error :: "(int \<times> CharRange) ub \<Rightarrow> CharRange pr" where
  "or_memory_error m = pbind (plift m) (\<lambda>(r, cr). if r \<noteq> 0 then re_parse_out_of_memory else Some (P_ok cr))"

text \<open>The label \<open>class_atom\<close>.\<close>

definition class_add_atom :: "CharRange \<Rightarrow> u32 \<Rightarrow> CharRange option \<Rightarrow> CharRange pr" where
  "class_add_atom cr c1 cr1 =
     (if CLASS_RANGE_BASE \<le> c1 then
        case cr1 of None \<Rightarrow> None | Some cr1 \<Rightarrow> or_memory_error (cr_union1 cr (cr_points cr1) (cr_len cr1))
      else or_memory_error (cr_union_interval cr c1 c1))"

text \<open>The atom \<open>c1\<close> with the pointer \<open>p\<close> behind it, perhaps the start of a range: the new set and pointer.\<close>

definition class_add_range :: "re_pctx \<Rightarrow> CharRange \<Rightarrow> class_atom \<Rightarrow> (CharRange \<times> nat) pr" where
  "class_add_range c cr a =
     (case a of (c1, cr1, p) \<Rightarrow>
        pbind (plift (arr_get (p_buf c) p)) (\<lambda>b.
        pbind (if b = 0x2d then plift (map_option (\<lambda>b1. b1 \<noteq> 0x5d) (arr_get (p_buf c) (p + 1))) else Some (P_ok False)) (\<lambda>range.
        if \<not> range then pbind (class_add_atom cr c1 cr1) (\<lambda>cr. Some (P_ok (cr, p)))
        else if CLASS_RANGE_BASE \<le> c1 then
          if p_unicode c then re_parse_error ''invalid class range''
          else pbind (class_add_atom cr c1 cr1) (\<lambda>cr. Some (P_ok (cr, p)))
        else pbind (get_class_atom c (p + 1) True) (\<lambda>(c2, cr2, p0).
          if CLASS_RANGE_BASE \<le> c2 then
            if p_unicode c then re_parse_error ''invalid class range''
            else pbind (class_add_atom cr c1 cr1) (\<lambda>cr. Some (P_ok (cr, p)))
          else if c2 < c1 then re_parse_error ''invalid class range''
          else pbind (or_memory_error (cr_union_interval cr c1 c2)) (\<lambda>cr. Some (P_ok (cr, p0)))))))"

text \<open>The loop up to \<open>]\<close>, with the pointer at it in the end.  The fuel bounds the number of rounds.\<close>

fun class_loop :: "nat \<Rightarrow> re_pctx \<Rightarrow> CharRange \<Rightarrow> nat \<Rightarrow> (CharRange \<times> nat) pr" where
  "class_loop 0 c cr p = Some P_fuel"
| "class_loop (Suc fuel) c cr p =
     pbind (plift (arr_get (p_buf c) p)) (\<lambda>b.
     if b = 0x5d then Some (P_ok (cr, p))
     else pbind (get_class_atom c p True) (\<lambda>a.
       pbind (class_add_range c cr a) (\<lambda>(cr, p). class_loop fuel c cr p)))"

text \<open>\<open>re_parse_char_class\<close> up to \<open>re_emit_range\<close>: the set, and the pointer at the closing bracket.\<close>

definition class_set :: "nat \<Rightarrow> re_pctx \<Rightarrow> nat \<Rightarrow> (CharRange \<times> nat) pr" where
  "class_set fuel c p =
     pbind (plift (arr_get (p_buf c) (p + 1))) (\<lambda>b.
     let invert = (b = 0x5e)
     in pbind (class_loop fuel c (cr_new c) (if invert then p + 2 else p + 1)) (\<lambda>(cr, p).
        pbind (if p_ignore_case c then or_memory_error (cr_regexp_canonicalize cr (p_unicode c)) else Some (P_ok cr)) (\<lambda>cr.
        pbind (if invert then or_memory_error (cr_invert cr) else Some (P_ok cr)) (\<lambda>cr. Some (P_ok (cr, p))))))"

end
