(* ===== verification/Lre_Parse.thy ===== *)
theory Lre_Parse
  imports Lre_Class
begin

text \<open>
  The regular expression compiler of \<open>src/libregexp.c\<close>: the emission of byte code, the
  quantifiers, terms, alternatives and disjunctions, and \<open>lre_compile\<close>.

  The state record has the fields of \<open>REParseState\<close> that change: the two dynamic buffers, the
  position in the pattern and the counters; \<open>overflow_checks\<close> counts the calls of
  \<open>lre_check_stack_overflow\<close>.  The error message is part of the result.  The fuel
  bounds the depth of the recursion, which is at most the number of opening parentheses; \<open>lre_compile\<close> passes the length of the pattern and one.
\<close>

section \<open>State\<close>

record re_ps =
  byte_code :: DynBuf
  buf_ptr :: nat
  ps_capture_count :: nat
  total_capture_count :: int
  has_named_captures :: int
  group_names :: DynBuf
  overflow_checks :: nat

abbreviation bc_size :: "re_ps \<Rightarrow> nat" where
  "bc_size s \<equiv> db_size (byte_code s)"

text \<open>The outcome of an operation on the byte code.\<close>

definition bc_result :: "re_ps \<Rightarrow> (int \<times> DynBuf) ub \<Rightarrow> (int \<times> re_ps) pr" where
  "bc_result s m =
     (case m of
        None \<Rightarrow> None
      | Some (r, b) \<Rightarrow> if 2 ^ 31 \<le> db_size b then Some P_big else Some (P_ok (r, s\<lparr>byte_code := b\<rparr>)))"

text \<open>An append whose return value is ignored, and an operation whose failure is \<open>out of memory\<close>.\<close>

definition bc_put :: "re_ps \<Rightarrow> (int \<times> DynBuf) ub \<Rightarrow> re_ps pr" where
  "bc_put s m = pbind (bc_result s m) (\<lambda>(r, s). Some (P_ok s))"

definition bc_insert :: "re_ps \<Rightarrow> nat \<Rightarrow> nat \<Rightarrow> re_ps pr" where
  "bc_insert s pos len =
     pbind (bc_result s (dbuf_insert (byte_code s) pos len)) (\<lambda>(r, s). if r \<noteq> 0 then re_parse_out_of_memory else Some (P_ok s))"

text \<open>An assignment into the buffer.\<close>

definition bc_poke :: "re_ps \<Rightarrow> nat \<Rightarrow> u8 list \<Rightarrow> re_ps pr" where
  "bc_poke s pos data =
     plift (map_option (\<lambda>b. s\<lparr>byte_code := (byte_code s)\<lparr>db_buf := b\<rparr>\<rparr>) (arr_write (db_buf (byte_code s)) pos data))"

definition bc_poke_u32 :: "re_ps \<Rightarrow> nat \<Rightarrow> u32 \<Rightarrow> re_ps pr" where
  "bc_poke_u32 s pos val = plift (map_option (\<lambda>b. s\<lparr>byte_code := (byte_code s)\<lparr>db_buf := b\<rparr>\<rparr>) (put_u32 (db_buf (byte_code s)) pos val))"

section \<open>Emission\<close>

definition re_emit_op :: "re_ps \<Rightarrow> reop \<Rightarrow> re_ps pr" where
  "re_emit_op s op = bc_put s (dbuf_putc (byte_code s) (reop_code op))"

definition re_emit_op_u32 :: "re_ps \<Rightarrow> reop \<Rightarrow> u32 \<Rightarrow> (nat \<times> re_ps) pr" where
  "re_emit_op_u32 s op val =
     pbind (bc_put s (dbuf_putc (byte_code s) (reop_code op))) (\<lambda>s.
     pbind (bc_put s (dbuf_put_u32 (byte_code s) val)) (\<lambda>s1. Some (P_ok (bc_size s, s1))))"

definition re_emit_goto :: "re_ps \<Rightarrow> reop \<Rightarrow> nat \<Rightarrow> re_ps pr" where
  "re_emit_goto s op val =
     pbind (bc_put s (dbuf_putc (byte_code s) (reop_code op))) (\<lambda>s.
     bc_put s (dbuf_put_u32 (byte_code s) (word_of_nat val - word_of_nat (bc_size s + 4))))"

definition re_emit_op_u8 :: "re_ps \<Rightarrow> reop \<Rightarrow> nat \<Rightarrow> re_ps pr" where
  "re_emit_op_u8 s op val =
     pbind (bc_put s (dbuf_putc (byte_code s) (reop_code op))) (\<lambda>s. bc_put s (dbuf_putc (byte_code s) (word_of_nat val)))"

definition re_emit_op_u16 :: "re_ps \<Rightarrow> reop \<Rightarrow> nat \<Rightarrow> re_ps pr" where
  "re_emit_op_u16 s op val =
     pbind (bc_put s (dbuf_putc (byte_code s) (reop_code op))) (\<lambda>s. bc_put s (dbuf_put_u16 (byte_code s) (word_of_nat val)))"

text \<open>\<open>if (cond) re_emit_op (s, op)\<close>\<close>

definition re_emit_if :: "bool \<Rightarrow> re_ps \<Rightarrow> reop \<Rightarrow> re_ps pr" where
  "re_emit_if b s op = (if b then re_emit_op s op else Some (P_ok s))"

text \<open>The two loops of \<open>re_emit_range\<close>, over the points from index \<open>i\<close> on.\<close>

function emit_range16_loop :: "re_ps \<Rightarrow> CharRange \<Rightarrow> nat \<Rightarrow> re_ps pr" where
  "emit_range16_loop s cr i =
     (if i < cr_len cr then
        pbind (plift (arr_get (cr_points cr) i)) (\<lambda>low.
        pbind (bc_put s (dbuf_put_u16 (byte_code s) (ucast low))) (\<lambda>s.
        pbind (plift (arr_get (cr_points cr) (i + 1))) (\<lambda>pt.
        let high = (if pt - 1 = - 1 - 1 then 0xffff else pt - 1)
        in pbind (bc_put s (dbuf_put_u16 (byte_code s) (ucast high))) (\<lambda>s. emit_range16_loop s cr (i + 2)))))
      else Some (P_ok s))"
  by pat_completeness auto
termination
  by (relation "measure (\<lambda>(s, cr, i). cr_len cr - i)") auto

declare emit_range16_loop.simps [simp del]

function emit_range32_loop :: "re_ps \<Rightarrow> CharRange \<Rightarrow> nat \<Rightarrow> re_ps pr" where
  "emit_range32_loop s cr i =
     (if i < cr_len cr then
        pbind (plift (arr_get (cr_points cr) i)) (\<lambda>low.
        pbind (bc_put s (dbuf_put_u32 (byte_code s) low)) (\<lambda>s.
        pbind (plift (arr_get (cr_points cr) (i + 1))) (\<lambda>pt.
        pbind (bc_put s (dbuf_put_u32 (byte_code s) (pt - 1))) (\<lambda>s. emit_range32_loop s cr (i + 2)))))
      else Some (P_ok s))"
  by pat_completeness auto
termination
  by (relation "measure (\<lambda>(s, cr, i). cr_len cr - i)") auto

declare emit_range32_loop.simps [simp del]

text \<open>Whether the ranges fit 16 bits, with \<open>UINT32_MAX\<close> as the last point for infinity.\<close>

definition range_high :: "CharRange \<Rightarrow> u32 ub" where
  "range_high cr =
     do {
       high \<leftarrow> arr_get (cr_points cr) (cr_len cr - 1);
       if high = - 1 then arr_get (cr_points cr) (cr_len cr - 2) else Some high
     }"

definition re_emit_range :: "re_ps \<Rightarrow> CharRange \<Rightarrow> re_ps pr" where
  "re_emit_range s cr =
     (let len = cr_len cr div 2
      in if 65535 \<le> len then re_parse_error ''too many ranges''
         else if len = 0 then pbind (re_emit_op_u32 s REOP_char32 (- 1)) (\<lambda>(pos, s). Some (P_ok s))
         else pbind (plift (range_high cr)) (\<lambda>high.
           if high \<le> 0xffff then pbind (re_emit_op_u16 s REOP_range len) (\<lambda>s. emit_range16_loop s cr 0)
           else pbind (re_emit_op_u16 s REOP_range32 len) (\<lambda>s. emit_range32_loop s cr 0)))"

section \<open>Captures and group names\<close>

definition re_count_captures :: "re_pctx \<Rightarrow> re_ps \<Rightarrow> (int \<times> re_ps) ub" where
  "re_count_captures c s =
     (if total_capture_count s < 0 then
        map_option (\<lambda>(n, named). (n, s\<lparr>total_capture_count := n, has_named_captures := of_bool named\<rparr>)) (re_parse_captures c None)
      else Some (total_capture_count s, s))"

definition re_has_named_captures :: "re_pctx \<Rightarrow> re_ps \<Rightarrow> (bool \<times> re_ps) ub" where
  "re_has_named_captures c s =
     map_option (\<lambda>s. (has_named_captures s \<noteq> 0, s)) (if has_named_captures s < 0 then map_option snd (re_count_captures c s) else Some s)"

function find_name_loop :: "u8 list \<Rightarrow> nat \<Rightarrow> u8 list \<Rightarrow> nat \<Rightarrow> int \<Rightarrow> int ub" where
  "find_name_loop buf names_end name p capture_index =
     (if p < names_end then
        case c_strlen (drop p buf) of
          None \<Rightarrow> None
        | Some len \<Rightarrow>
            if take len (drop p buf) = name then Some capture_index
            else find_name_loop buf names_end name (p + len + 1) (capture_index + 1)
      else Some (- 1))"
  by pat_completeness auto
termination
  by (relation "measure (\<lambda>(buf, e, name, p, i). e - p)") auto

declare find_name_loop.simps [simp del]

definition find_group_name :: "re_ps \<Rightarrow> u8 list \<Rightarrow> int ub" where
  "find_group_name s name =
     (if db_buf (group_names s) = [] then Some (- 1)
      else find_name_loop (db_buf (group_names s)) (db_size (group_names s)) name 0 1)"

text \<open>An append to the group names; the return value is ignored.\<close>

definition gn_put :: "re_ps \<Rightarrow> u8 list \<Rightarrow> re_ps pr" where
  "gn_put s data = plift (map_option (\<lambda>(r, b). s\<lparr>group_names := b\<rparr>) (dbuf_put (group_names s) data))"

section \<open>Quantifiers\<close>

text \<open>The bounds of the quantifier at \<open>p\<close>, \<open>None\<close> if there is none, and the pointer behind it.\<close>

definition quant_braces :: "re_pctx \<Rightarrow> nat \<Rightarrow> ((int \<times> int) option \<times> nat) pr" where
  "quant_braces c p =
     pbind (plift (arr_get (p_buf c) (p + 1))) (\<lambda>b.
     if \<not> is_digit b then
       if p_unicode c then re_parse_error ''invalid repetition count'' else Some (P_ok (None, p))
     else
       pbind (plift (parse_digits (p_buf c) (p + 1) True)) (\<lambda>(quant_min, q).
       pbind (plift (arr_get (p_buf c) q)) (\<lambda>b.
       pbind
         (if b = 0x2c then
            pbind (plift (arr_get (p_buf c) (q + 1))) (\<lambda>b.
            if is_digit b then
              pbind (plift (parse_digits (p_buf c) (q + 1) True)) (\<lambda>(quant_max, q).
              if quant_max < quant_min then re_parse_error ''invalid repetition count'' else Some (P_ok (quant_max, q)))
            else Some (P_ok (INT32_MAX, q + 1)))
          else Some (P_ok (quant_min, q))) (\<lambda>(quant_max, q).
       pbind (plift (arr_get (p_buf c) q)) (\<lambda>b.
       if b \<noteq> 0x7d \<and> \<not> p_unicode c then Some (P_ok (None, p))
       else pbind (re_parse_expect (p_buf c) q (CHR 0x7d)) (\<lambda>q. Some (P_ok (Some (quant_min, quant_max), q))))))))"

definition quant_bounds :: "re_pctx \<Rightarrow> nat \<Rightarrow> ((int \<times> int) option \<times> nat) pr" where
  "quant_bounds c p =
     pbind (plift (arr_get (p_buf c) p)) (\<lambda>b.
     if b = 0x2a then Some (P_ok (Some (0, INT32_MAX), p + 1))
     else if b = 0x2b then Some (P_ok (Some (1, INT32_MAX), p + 1))
     else if b = 0x3f then Some (P_ok (Some (0, 1), p + 1))
     else if b = 0x7b then quant_braces c p
     else Some (P_ok (None, p)))"

text \<open>The code of the atom, from its start to the end of the byte code.\<close>

definition atom_code :: "re_ps \<Rightarrow> nat \<Rightarrow> u8 list ub" where
  "atom_code s las = arr_slice (db_buf (byte_code s)) las (bc_size s - las)"

text \<open>\<open>REOP_split_goto_first + greedy\<close>\<close>

definition split_greedy :: "bool \<Rightarrow> reop" where
  "split_greedy greedy = (if greedy then REOP_split_next_first else REOP_split_goto_first)"

text \<open>The simple greedy quantifier around an atom of \<open>len\<close> characters.\<close>

definition quant_simple :: "re_ps \<Rightarrow> nat \<Rightarrow> int \<Rightarrow> int \<Rightarrow> int \<Rightarrow> re_ps pr" where
  "quant_simple s las quant_min quant_max len =
     pbind (re_emit_op s REOP_match) (\<lambda>s.
     pbind (bc_insert s las 17) (\<lambda>s.
     pbind (bc_poke s las [reop_code REOP_simple_greedy_quant]) (\<lambda>s.
     pbind (bc_poke_u32 s (las + 1) (word_of_nat (bc_size s - las - 17))) (\<lambda>s.
     pbind (bc_poke_u32 s (las + 5) (word_of_int quant_min)) (\<lambda>s.
     pbind (bc_poke_u32 s (las + 9) (word_of_int quant_max)) (\<lambda>s.
     bc_poke_u32 s (las + 13) (word_of_int len)))))))"

text \<open>\<open>quant_min == 0\<close>: the reset of the captures in front of the atom, with the new start of the atom.\<close>

definition quant_reset :: "re_ps \<Rightarrow> nat \<Rightarrow> nat \<Rightarrow> (nat \<times> re_ps) pr" where
  "quant_reset s las last_capture_count =
     (if last_capture_count \<noteq> ps_capture_count s then
        pbind (bc_insert s las 3) (\<lambda>s.
        pbind (bc_poke s las [reop_code REOP_save_reset, word_of_nat last_capture_count, word_of_nat (ps_capture_count s - 1)]) (\<lambda>s.
        Some (P_ok (las + 3, s))))
      else Some (P_ok (las, s)))"

text \<open>\<open>?\<close> and \<open>*\<close>\<close>

definition quant_star :: "re_ps \<Rightarrow> nat \<Rightarrow> nat \<Rightarrow> bool \<Rightarrow> bool \<Rightarrow> bool \<Rightarrow> re_ps pr" where
  "quant_star s las len greedy adv has_goto =
     pbind (bc_insert s las (5 + of_bool adv)) (\<lambda>s.
     pbind (bc_poke s las [reop_code (split_greedy greedy)]) (\<lambda>s.
     pbind (bc_poke_u32 s (las + 1) (word_of_nat (len + 5 * of_bool has_goto + of_bool adv * 2))) (\<lambda>s.
     pbind (if adv then pbind (bc_poke s (las + 5) [reop_code REOP_push_char_pos]) (\<lambda>s. re_emit_op s REOP_check_advance) else Some (P_ok s)) (\<lambda>s.
     if has_goto then re_emit_goto s REOP_goto las else Some (P_ok s)))))"

text \<open>At most \<open>quant_max\<close> times.\<close>

definition quant_upto :: "re_ps \<Rightarrow> nat \<Rightarrow> nat \<Rightarrow> bool \<Rightarrow> bool \<Rightarrow> int \<Rightarrow> re_ps pr" where
  "quant_upto s las len greedy adv quant_max =
     pbind (bc_insert s las (10 + of_bool adv)) (\<lambda>s.
     pbind (bc_poke s las [reop_code REOP_push_i32]) (\<lambda>s.
     pbind (bc_poke_u32 s (las + 1) (word_of_int quant_max)) (\<lambda>s.
     pbind (bc_poke s (las + 5) [reop_code (split_greedy greedy)]) (\<lambda>s.
     pbind (bc_poke_u32 s (las + 6) (word_of_nat (len + 5 + of_bool adv * 2))) (\<lambda>s.
     pbind (if adv then pbind (bc_poke s (las + 10) [reop_code REOP_push_char_pos]) (\<lambda>s. re_emit_op s REOP_check_advance) else Some (P_ok s)) (\<lambda>s.
     pbind (re_emit_goto s REOP_loop (las + 5)) (\<lambda>s.
     re_emit_op s REOP_drop)))))))"

definition quant_zero :: "re_ps \<Rightarrow> nat \<Rightarrow> nat \<Rightarrow> nat \<Rightarrow> bool \<Rightarrow> bool \<Rightarrow> int \<Rightarrow> re_ps pr" where
  "quant_zero s las len last_capture_count greedy adv quant_max =
     pbind (quant_reset s las last_capture_count) (\<lambda>(las, s).
     if quant_max = 0 then Some (P_ok (s\<lparr>byte_code := (byte_code s)\<lparr>db_size := las\<rparr>\<rparr>))
     else if quant_max = 1 \<or> quant_max = INT32_MAX then quant_star s las len greedy adv (quant_max = INT32_MAX)
     else quant_upto s las len greedy adv quant_max)"

text \<open>\<open>quant_min\<close> repetitions of the atom, with the start of the atom.\<close>

definition quant_times :: "re_ps \<Rightarrow> nat \<Rightarrow> int \<Rightarrow> (nat \<times> re_ps) pr" where
  "quant_times s las quant_min =
     (if quant_min = 1 then Some (P_ok (las, s))
      else
        pbind (bc_insert s las 5) (\<lambda>s.
        pbind (bc_poke s las [reop_code REOP_push_i32]) (\<lambda>s.
        pbind (bc_poke_u32 s (las + 1) (word_of_int quant_min)) (\<lambda>s.
        pbind (re_emit_goto s REOP_loop (las + 5)) (\<lambda>s.
        pbind (re_emit_op s REOP_drop) (\<lambda>s. Some (P_ok (las + 5, s))))))))"

text \<open>A split, a copy of the atom, and the jump \<open>op\<close> back to the split.\<close>

definition quant_copy :: "re_ps \<Rightarrow> nat \<Rightarrow> nat \<Rightarrow> bool \<Rightarrow> bool \<Rightarrow> reop \<Rightarrow> re_ps pr" where
  "quant_copy s las len greedy adv op =
     (let pos = bc_size s
      in pbind (re_emit_op_u32 s (split_greedy greedy) (word_of_nat (len + 5 + of_bool adv * 2))) (\<lambda>(_, s).
         pbind (re_emit_if adv s REOP_push_char_pos) (\<lambda>s.
         pbind (bc_put s (dbuf_put_self (byte_code s) las len)) (\<lambda>s.
         pbind (re_emit_if adv s REOP_check_advance) (\<lambda>s.
         re_emit_goto s op pos)))))"

definition quant_more :: "re_ps \<Rightarrow> nat \<Rightarrow> nat \<Rightarrow> bool \<Rightarrow> bool \<Rightarrow> int \<Rightarrow> int \<Rightarrow> re_ps pr" where
  "quant_more s las len greedy adv quant_min quant_max =
     pbind (quant_times s las quant_min) (\<lambda>(las, s).
     if quant_max = INT32_MAX then quant_copy s las len greedy adv REOP_goto
     else if quant_min < quant_max then
       pbind (re_emit_op_u32 s REOP_push_i32 (word_of_int (quant_max - quant_min))) (\<lambda>(_, s).
       pbind (quant_copy s las len greedy adv REOP_loop) (\<lambda>s.
       re_emit_op s REOP_drop))
     else Some (P_ok s))"

text \<open>The code for a quantifier that is not simple; \<open>adv\<close> is \<open>add_zero_advance_check\<close>.\<close>

definition quant_general :: "re_ps \<Rightarrow> nat \<Rightarrow> nat \<Rightarrow> bool \<Rightarrow> bool \<Rightarrow> int \<Rightarrow> int \<Rightarrow> re_ps pr" where
  "quant_general s las last_capture_count greedy adv quant_min quant_max =
     (let len = bc_size s - las
      in if quant_min = 0 then quant_zero s las len last_capture_count greedy adv quant_max
         else if quant_min = 1 \<and> quant_max = INT32_MAX \<and> \<not> adv then
           re_emit_goto s (if greedy then REOP_split_goto_first else REOP_split_next_first) las
         else quant_more s las len greedy adv quant_min quant_max)"

text \<open>The number of characters of the atom if the simple quantifier can be used, otherwise a number that is not positive.\<close>

definition quant_simple_len :: "re_ps \<Rightarrow> nat \<Rightarrow> bool \<Rightarrow> int \<Rightarrow> int pr" where
  "quant_simple_len s las greedy quant_max =
     (if greedy then
        if dbuf_error (byte_code s) then re_parse_out_of_memory
        else if 0 < quant_max then plift (Option.bind (atom_code s las) re_is_simple_quantifier)
        else Some (P_ok (- 1))
      else Some (P_ok (- 1)))"

definition re_emit_quant :: "re_ps \<Rightarrow> nat \<Rightarrow> nat \<Rightarrow> bool \<Rightarrow> int \<Rightarrow> int \<Rightarrow> re_ps pr" where
  "re_emit_quant s las last_capture_count greedy quant_min quant_max =
     pbind (quant_simple_len s las greedy quant_max) (\<lambda>len.
     if 0 < len then quant_simple s las quant_min quant_max len
     else pbind (plift (Option.bind (atom_code s las) re_need_check_advance)) (\<lambda>adv.
       quant_general s las last_capture_count greedy adv quant_min quant_max))"

text \<open>The part of \<open>re_parse_term\<close> behind the atom: \<open>las\<close> is \<open>last_atom_start\<close>, \<open>None\<close> for \<open>- 1\<close>.\<close>

definition re_parse_quantifier :: "re_pctx \<Rightarrow> re_ps \<Rightarrow> nat option \<Rightarrow> nat \<Rightarrow> nat \<Rightarrow> re_ps pr" where
  "re_parse_quantifier c s las last_capture_count p =
     (case las of
        None \<Rightarrow> Some (P_ok (s\<lparr>buf_ptr := p\<rparr>))
      | Some las \<Rightarrow>
          pbind (quant_bounds c p) (\<lambda>(q, p).
          case q of
            None \<Rightarrow> Some (P_ok (s\<lparr>buf_ptr := p\<rparr>))
          | Some (quant_min, quant_max) \<Rightarrow>
              pbind (plift (arr_get (p_buf c) p)) (\<lambda>b.
              pbind (re_emit_quant s las last_capture_count (b \<noteq> 0x3f) quant_min quant_max) (\<lambda>s.
              Some (P_ok (s\<lparr>buf_ptr := (if b = 0x3f then p + 1 else p)\<rparr>))))))"

section \<open>Terms\<close>

text \<open>
  What the atom of a term leaves for the quantifier: \<open>last_atom_start\<close>, \<open>last_capture_count\<close> and the
  pointer behind the atom.
\<close>

type_synonym re_atom = "(nat option \<times> nat \<times> nat) \<times> re_ps"

definition atom_at :: "re_ps \<Rightarrow> re_ps \<Rightarrow> nat \<Rightarrow> re_atom pr" where
  "atom_at s0 s p = Some (P_ok ((Some (bc_size s0), ps_capture_count s0, p), s))"

definition no_atom :: "re_ps \<Rightarrow> nat \<Rightarrow> re_atom pr" where
  "no_atom s p = Some (P_ok ((None, 0, p), s))"

text \<open>An operation between two \<open>REOP_prev\<close> if the direction is backward.\<close>

definition with_prev :: "bool \<Rightarrow> re_ps \<Rightarrow> (re_ps \<Rightarrow> re_ps pr) \<Rightarrow> re_ps pr" where
  "with_prev back s f =
     pbind (re_emit_if back s REOP_prev) (\<lambda>s. pbind (f s) (\<lambda>s. re_emit_if back s REOP_prev))"

text \<open>The label \<open>normal_char\<close>.\<close>

definition emit_char :: "re_pctx \<Rightarrow> u32 \<Rightarrow> CharRange option \<Rightarrow> re_ps \<Rightarrow> re_ps pr" where
  "emit_char c ch cr s =
     (if CLASS_RANGE_BASE \<le> ch then
        case cr of None \<Rightarrow> None | Some cr \<Rightarrow> re_emit_range s cr
      else
        pbind (plift (if p_ignore_case c then lre_canonicalize (uint ch) (p_unicode c) else Some (uint ch))) (\<lambda>d.
        if d \<le> 0xffff then re_emit_op_u16 s REOP_char (nat d)
        else pbind (re_emit_op_u32 s REOP_char32 (word_of_int d)) (\<lambda>(pos, s). Some (P_ok s))))"

definition term_normal_char :: "re_pctx \<Rightarrow> re_ps \<Rightarrow> bool \<Rightarrow> class_atom \<Rightarrow> re_atom pr" where
  "term_normal_char c s back a =
     (case a of (ch, cr, p) \<Rightarrow> pbind (with_prev back s (emit_char c ch cr)) (\<lambda>s1. atom_at s s1 p))"

text \<open>The label \<open>parse_class_atom\<close>.\<close>

definition term_class_atom :: "re_pctx \<Rightarrow> re_ps \<Rightarrow> bool \<Rightarrow> nat \<Rightarrow> re_atom pr" where
  "term_class_atom c s back p = pbind (get_class_atom c p False) (term_normal_char c s back)"

text \<open>The rest of \<open>re_parse_char_class\<close>; the result is the pointer behind the class.\<close>

definition re_parse_char_class :: "re_pctx \<Rightarrow> re_ps \<Rightarrow> nat \<Rightarrow> (nat \<times> re_ps) pr" where
  "re_parse_char_class c s p =
     pbind (class_set (Suc (p_end c)) c p) (\<lambda>(cr, p). pbind (re_emit_range s cr) (\<lambda>s. Some (P_ok (p + 1, s))))"

definition term_char_class :: "re_pctx \<Rightarrow> re_ps \<Rightarrow> bool \<Rightarrow> nat \<Rightarrow> re_atom pr" where
  "term_char_class c s back p =
     pbind (re_emit_if back s REOP_prev) (\<lambda>s1.
     pbind (re_parse_char_class c s1 p) (\<lambda>(p, s1).
     pbind (re_emit_if back s1 REOP_prev) (\<lambda>s1. atom_at s s1 p)))"

text \<open>\<open>{\<close> at the start of a term: whether it is like a repetition count.\<close>

definition like_repetition :: "re_pctx \<Rightarrow> nat \<Rightarrow> bool ub" where
  "like_repetition c p =
     do {
       b \<leftarrow> arr_get (p_buf c) (p + 1);
       if \<not> is_digit b then Some False
       else do {
         (_, p1) \<leftarrow> parse_digits (p_buf c) (p + 1) True;
         b \<leftarrow> arr_get (p_buf c) p1;
         p1 \<leftarrow>
           (if b = 0x2c then do {
              b \<leftarrow> arr_get (p_buf c) (p1 + 1);
              if is_digit b then map_option snd (parse_digits (p_buf c) (p1 + 1) True) else Some (p1 + 1)
            }
            else Some p1);
         b \<leftarrow> arr_get (p_buf c) p1;
         Some (b = 0x7d)
       }
     }"

text \<open>The label \<open>emit_back_reference\<close>.\<close>

definition term_back_reference :: "re_ps \<Rightarrow> bool \<Rightarrow> int \<Rightarrow> nat \<Rightarrow> re_atom pr" where
  "term_back_reference s back n p =
     pbind (re_emit_op_u8 s (if back then REOP_backward_back_reference else REOP_back_reference) (nat n)) (\<lambda>s1. atom_at s s1 p)"

text \<open>In unicode mode, and if the pattern has named groups, \<open>\k\<close> must be a valid reference; otherwise it is an atom.\<close>

definition named_or_atom :: "re_pctx \<Rightarrow> re_ps \<Rightarrow> bool \<Rightarrow> nat \<Rightarrow> string \<Rightarrow> re_atom pr" where
  "named_or_atom c s back p msg =
     (if p_unicode c then re_parse_error msg
      else pbind (plift (re_has_named_captures c s)) (\<lambda>(named, s). if named then re_parse_error msg else term_class_atom c s back p))"

definition term_named_reference :: "re_pctx \<Rightarrow> re_ps \<Rightarrow> bool \<Rightarrow> nat \<Rightarrow> re_atom pr" where
  "term_named_reference c s back p =
     pbind (plift (arr_get (p_buf c) (p + 2))) (\<lambda>b.
     if b \<noteq> 0x3c then named_or_atom c s back p ''expecting group name''
     else pbind (plift (re_parse_group_name (p_buf c) (p + 3))) (\<lambda>r.
       case r of
         None \<Rightarrow> named_or_atom c s back p ''invalid group name''
       | Some (name, p1) \<Rightarrow>
           pbind (plift (find_group_name s name)) (\<lambda>n.
           if 0 \<le> n then term_back_reference s back n p1
           else pbind (plift (re_parse_captures c (Some name))) (\<lambda>(n, _).
             if n < 0 then named_or_atom c s back p ''group name not defined'' else term_back_reference s back n p1))))"

text \<open>\<open>\0\<close> with up to two octal digits, with \<open>p\<close> behind \<open>0\<close>.\<close>

definition is_octal :: "u8 \<Rightarrow> bool" where
  "is_octal b \<longleftrightarrow> 0x30 \<le> b \<and> b \<le> 0x37"

text \<open>At most \<open>n\<close> octal digits, added to \<open>v\<close>.\<close>

fun octal_digits :: "u8 list \<Rightarrow> nat \<Rightarrow> nat \<Rightarrow> u32 \<Rightarrow> (u32 \<times> nat) ub" where
  "octal_digits buf 0 p v = Some (v, p)"
| "octal_digits buf (Suc n) p v =
     (case arr_get buf p of
        None \<Rightarrow> None
      | Some b \<Rightarrow> if is_octal b then octal_digits buf n (p + 1) (push_bit 3 v + ucast b - 0x30) else Some (v, p))"

definition term_null :: "re_pctx \<Rightarrow> re_ps \<Rightarrow> bool \<Rightarrow> nat \<Rightarrow> re_atom pr" where
  "term_null c s back p =
     (if p_unicode c then
        pbind (plift (arr_get (p_buf c) p)) (\<lambda>b.
        if is_digit b then re_parse_error ''invalid decimal escape in regular expression''
        else term_normal_char c s back (0, None, p))
      else pbind (plift (octal_digits (p_buf c) 2 p 0)) (\<lambda>(v, p). term_normal_char c s back (v, None, p)))"

text \<open>A legacy octal escape at \<open>q\<close>, or the digit itself.\<close>

definition term_legacy_octal :: "re_pctx \<Rightarrow> re_ps \<Rightarrow> bool \<Rightarrow> nat \<Rightarrow> re_atom pr" where
  "term_legacy_octal c s back q =
     pbind (plift (arr_get (p_buf c) q)) (\<lambda>b.
     if b \<le> 0x37 then
       if b \<le> 0x33 then
         pbind (plift (octal_digits (p_buf c) 2 (q + 1) (ucast b - 0x30))) (\<lambda>(v, p). term_normal_char c s back (v, None, p))
       else pbind (plift (octal_digits (p_buf c) 2 q 0)) (\<lambda>(v, p). term_normal_char c s back (v, None, p))
     else term_normal_char c s back (ucast b, None, q + 1))"

text \<open>A decimal escape, with \<open>q\<close> at its first digit.\<close>

definition term_decimal :: "re_pctx \<Rightarrow> re_ps \<Rightarrow> bool \<Rightarrow> nat \<Rightarrow> re_atom pr" where
  "term_decimal c s back q =
     pbind (plift (parse_digits (p_buf c) q False)) (\<lambda>(n, p).
     pbind
       (if n < 0 then Some (P_ok (True, s))
        else if n < int (ps_capture_count s) then Some (P_ok (False, s))
        else plift (map_option (\<lambda>(total, s). (total \<le> n, s)) (re_count_captures c s))) (\<lambda>(out, s).
     if \<not> out then term_back_reference s back n p
     else if p_unicode c then re_parse_error ''back reference out of range in regular expression''
     else term_legacy_octal c s back q))"

definition term_backslash :: "re_pctx \<Rightarrow> re_ps \<Rightarrow> bool \<Rightarrow> nat \<Rightarrow> re_atom pr" where
  "term_backslash c s back p =
     pbind (plift (arr_get (p_buf c) (p + 1))) (\<lambda>b.
     if b = 0x62 \<or> b = 0x42 then
       pbind (re_emit_op s (if b = 0x62 then REOP_word_boundary else REOP_not_word_boundary)) (\<lambda>s. no_atom s (p + 2))
     else if b = 0x6b then term_named_reference c s back p
     else if b = 0x30 then term_null c s back (p + 2)
     else if 0x31 \<le> b \<and> b \<le> 0x39 then term_decimal c s back (p + 1)
     else term_class_atom c s back p)"

text \<open>The atoms without recursion; \<open>b\<close> is the byte at \<open>p\<close>.\<close>

definition term_simple :: "re_pctx \<Rightarrow> re_ps \<Rightarrow> bool \<Rightarrow> nat \<Rightarrow> u8 \<Rightarrow> re_atom pr" where
  "term_simple c s back p b =
     (if b = 0x5e then pbind (re_emit_op s REOP_line_start) (\<lambda>s. no_atom s (p + 1))
      else if b = 0x24 then pbind (re_emit_op s REOP_line_end) (\<lambda>s. no_atom s (p + 1))
      else if b = 0x2e then
        pbind (with_prev back s (\<lambda>s. re_emit_op s (if p_dotall c then REOP_any else REOP_dot))) (\<lambda>s1. atom_at s s1 (p + 1))
      else if b = 0x7b then
        if p_unicode c then re_parse_error ''syntax error''
        else pbind (plift (like_repetition c p)) (\<lambda>rep.
          if rep then re_parse_error ''nothing to repeat'' else term_class_atom c s back p)
      else if b = 0x2a \<or> b = 0x2b \<or> b = 0x3f then re_parse_error ''nothing to repeat''
      else if b = 0x5c then term_backslash c s back p
      else if b = 0x5b then term_char_class c s back p
      else if b = 0x5d \<or> b = 0x7d then
        if p_unicode c then re_parse_error ''syntax error'' else term_class_atom c s back p
      else term_class_atom c s back p)"

text \<open>What an opening parenthesis at \<open>p\<close> starts, with the pointer to its contents.\<close>

datatype re_group =
    Group_plain nat
  | Group_lookahead bool bool nat
  | Group_named nat
  | Group_capture nat

definition group_kind :: "re_pctx \<Rightarrow> nat \<Rightarrow> re_group pr" where
  "group_kind c p =
     pbind (plift (arr_get (p_buf c) (p + 1))) (\<lambda>b1.
     if b1 \<noteq> 0x3f then Some (P_ok (Group_capture (p + 1)))
     else pbind (plift (arr_get (p_buf c) (p + 2))) (\<lambda>b2.
       if b2 = 0x3a then Some (P_ok (Group_plain (p + 3)))
       else if b2 = 0x3d \<or> b2 = 0x21 then Some (P_ok (Group_lookahead (b2 = 0x21) False (p + 3)))
       else if b2 = 0x3c then
         pbind (plift (arr_get (p_buf c) (p + 3))) (\<lambda>b3.
         if b3 = 0x3d \<or> b3 = 0x21 then Some (P_ok (Group_lookahead (b3 = 0x21) True (p + 4))) else Some (P_ok (Group_named (p + 3))))
       else re_parse_error ''invalid group''))"

text \<open>The name of a named capture is recorded; the result is the pointer behind it.\<close>

definition named_capture :: "re_pctx \<Rightarrow> re_ps \<Rightarrow> nat \<Rightarrow> (nat \<times> re_ps) pr" where
  "named_capture c s p =
     pbind (plift (re_parse_group_name (p_buf c) p)) (\<lambda>r.
     case r of
       None \<Rightarrow> re_parse_error ''invalid group name''
     | Some (name, p) \<Rightarrow>
         pbind (plift (find_group_name s name)) (\<lambda>n.
         if 0 < n then re_parse_error ''duplicate group name''
         else pbind (gn_put s (name @ [0])) (\<lambda>s. Some (P_ok (p, s\<lparr>has_named_captures := 1\<rparr>)))))"

text \<open>The closing parenthesis, and the code behind the group.\<close>

definition close_group :: "re_pctx \<Rightarrow> re_ps \<Rightarrow> nat pr" where
  "close_group c s = re_parse_expect (p_buf c) (buf_ptr s) (CHR 0x29)"

definition close_lookahead :: "re_pctx \<Rightarrow> re_ps \<Rightarrow> nat \<Rightarrow> (nat \<times> re_ps) pr" where
  "close_lookahead c s pos =
     pbind (close_group c s) (\<lambda>p.
     pbind (re_emit_op s REOP_match) (\<lambda>s.
     if dbuf_error (byte_code s) then Some (P_err None)
     else pbind (bc_poke_u32 s pos (word_of_nat (bc_size s - (pos + 4)))) (\<lambda>s. Some (P_ok (p, s)))))"

text \<open>The code in front of a capture: the index of the capture.\<close>

definition open_capture :: "re_ps \<Rightarrow> bool \<Rightarrow> nat \<Rightarrow> (nat \<times> re_ps) pr" where
  "open_capture s back p =
     (if CAPTURE_COUNT_MAX \<le> int (ps_capture_count s) then re_parse_error ''too many captures''
      else
        pbind (re_emit_op_u8 (s\<lparr>ps_capture_count := ps_capture_count s + 1\<rparr>) (if back then REOP_save_end else REOP_save_start) (ps_capture_count s)) (\<lambda>s1.
        Some (P_ok (ps_capture_count s, s1\<lparr>buf_ptr := p\<rparr>))))"

definition close_capture :: "re_pctx \<Rightarrow> re_ps \<Rightarrow> bool \<Rightarrow> nat \<Rightarrow> (nat \<times> re_ps) pr" where
  "close_capture c s back capture_index =
     pbind (re_emit_op_u8 s (if back then REOP_save_start else REOP_save_end) capture_index) (\<lambda>s1.
     pbind (close_group c s) (\<lambda>p. Some (P_ok (p, s1))))"

text \<open>The terms of a lookbehind are put in reverse order: the last term moves to \<open>start\<close>.\<close>

definition reorder_terms :: "re_ps \<Rightarrow> nat \<Rightarrow> nat \<Rightarrow> re_ps pr" where
  "reorder_terms s start term_start =
     (let e = bc_size s; term_size = e - term_start
      in pbind (bc_result s (dbuf_realloc (byte_code s) (size_wrap (e + term_size)))) (\<lambda>(r, s).
         if r \<noteq> 0 then Some (P_err None)
         else pbind (plift (arr_slice (db_buf (byte_code s)) start (e - start))) (\<lambda>moved.
           pbind (bc_poke s (start + term_size) moved) (\<lambda>s.
           pbind (plift (arr_slice (db_buf (byte_code s)) e term_size)) (\<lambda>last.
           bc_poke s start last)))))"

text \<open>The code around the alternatives: the split in front of what there is from \<open>start\<close> on and the jump behind it.\<close>

definition open_alternative :: "re_ps \<Rightarrow> nat \<Rightarrow> (nat \<times> re_ps) pr" where
  "open_alternative s start =
     (let len = bc_size s - start
      in pbind (bc_insert s start 5) (\<lambda>s.
         pbind (bc_poke s start [reop_code REOP_split_next_first]) (\<lambda>s.
         pbind (bc_poke_u32 s (start + 1) (word_of_nat (len + 5))) (\<lambda>s.
         re_emit_op_u32 s REOP_goto 0))))"

text \<open>
  The functions call each other recursively.  Each one gets the function \<open>nested\<close> for the disjunctions nested in it; a loop
  gets a bound for its rounds.
\<close>

type_synonym parse_fun = "re_ps \<Rightarrow> bool \<Rightarrow> re_ps pr"

text \<open>A capture with the contents at \<open>p\<close>.\<close>

definition term_capture :: "parse_fun \<Rightarrow> re_pctx \<Rightarrow> re_ps \<Rightarrow> bool \<Rightarrow> nat \<Rightarrow> re_atom pr" where
  "term_capture nested c s back p =
     pbind (open_capture s back p) (\<lambda>(capture_index, s1).
     pbind (nested s1 back) (\<lambda>s1.
     pbind (close_capture c s1 back capture_index) (\<lambda>(p, s1). atom_at s s1 p)))"

definition term_lookahead :: "parse_fun \<Rightarrow> re_pctx \<Rightarrow> re_ps \<Rightarrow> bool \<Rightarrow> bool \<Rightarrow> nat \<Rightarrow> re_atom pr" where
  "term_lookahead nested c s is_neg is_backward p =
     pbind (re_emit_op_u32 s (if is_neg then REOP_negative_lookahead else REOP_lookahead) 0) (\<lambda>(pos, s1).
     pbind (nested (s1\<lparr>buf_ptr := p\<rparr>) is_backward) (\<lambda>s1.
     pbind (close_lookahead c s1 pos) (\<lambda>(p, s1).
     if \<not> p_unicode c \<and> \<not> is_backward then atom_at s s1 p else no_atom s1 p)))"

definition term_group :: "parse_fun \<Rightarrow> re_pctx \<Rightarrow> re_ps \<Rightarrow> bool \<Rightarrow> nat \<Rightarrow> re_atom pr" where
  "term_group nested c s back p =
     pbind (group_kind c p) (\<lambda>g.
     case g of
       Group_plain p \<Rightarrow> pbind (nested (s\<lparr>buf_ptr := p\<rparr>) back) (\<lambda>s1. pbind (close_group c s1) (\<lambda>p. atom_at s s1 p))
     | Group_lookahead is_neg is_backward p \<Rightarrow> term_lookahead nested c s is_neg is_backward p
     | Group_named p \<Rightarrow> pbind (named_capture c s p) (\<lambda>(p, s). term_capture nested c s back p)
     | Group_capture p \<Rightarrow> pbind (gn_put s [0]) (\<lambda>s. term_capture nested c s back p))"

definition re_parse_term :: "parse_fun \<Rightarrow> re_pctx \<Rightarrow> re_ps \<Rightarrow> bool \<Rightarrow> re_ps pr" where
  "re_parse_term nested c s back =
     pbind (plift (arr_get (p_buf c) (buf_ptr s))) (\<lambda>b.
     pbind (if b = 0x28 then term_group nested c s back (buf_ptr s) else term_simple c s back (buf_ptr s) b) (\<lambda>((las, last_capture_count, p), s).
     re_parse_quantifier c s las last_capture_count p))"

primrec alternative_loop :: "nat \<Rightarrow> parse_fun \<Rightarrow> re_pctx \<Rightarrow> re_ps \<Rightarrow> bool \<Rightarrow> nat \<Rightarrow> re_ps pr" where
  "alternative_loop 0 nested c s back start = Some P_fuel"
| "alternative_loop (Suc n) nested c s back start =
     (if p_end c \<le> buf_ptr s then Some (P_ok s)
      else pbind (plift (arr_get (p_buf c) (buf_ptr s))) (\<lambda>b.
        if b = 0x7c \<or> b = 0x29 then Some (P_ok s)
        else pbind (re_parse_term nested c s back) (\<lambda>s1.
          pbind (if back then reorder_terms s1 start (bc_size s) else Some (P_ok s1)) (\<lambda>s1.
          alternative_loop n nested c s1 back start))))"

definition re_parse_alternative :: "parse_fun \<Rightarrow> re_pctx \<Rightarrow> re_ps \<Rightarrow> bool \<Rightarrow> re_ps pr" where
  "re_parse_alternative nested c s back = alternative_loop (Suc (p_end c)) nested c s back (bc_size s)"

primrec disjunction_loop :: "nat \<Rightarrow> parse_fun \<Rightarrow> re_pctx \<Rightarrow> re_ps \<Rightarrow> bool \<Rightarrow> nat \<Rightarrow> re_ps pr" where
  "disjunction_loop 0 nested c s back start = Some P_fuel"
| "disjunction_loop (Suc n) nested c s back start =
     pbind (plift (arr_get (p_buf c) (buf_ptr s))) (\<lambda>b.
     if b \<noteq> 0x7c then Some (P_ok s)
     else pbind (open_alternative (s\<lparr>buf_ptr := buf_ptr s + 1\<rparr>) start) (\<lambda>(pos, s).
       pbind (re_parse_alternative nested c s back) (\<lambda>s.
       pbind (bc_poke_u32 s pos (word_of_nat (bc_size s - (pos + 4)))) (\<lambda>s.
       disjunction_loop n nested c s back start))))"

primrec re_parse_disjunction :: "nat \<Rightarrow> re_pctx \<Rightarrow> re_ps \<Rightarrow> bool \<Rightarrow> re_ps pr" where
  "re_parse_disjunction 0 c s back = Some P_fuel"
| "re_parse_disjunction (Suc fuel) c s back =
     (if p_stack_overflow c (overflow_checks s) then re_parse_error ''stack overflow''
      else
        pbind (re_parse_alternative (re_parse_disjunction fuel c) c (s\<lparr>overflow_checks := overflow_checks s + 1\<rparr>) back) (\<lambda>s1.
        disjunction_loop (Suc (p_end c)) (re_parse_disjunction fuel c) c s1 back (bc_size s)))"

section \<open>The compiler\<close>

text \<open>The parts of \<open>lre_compile\<close> in front of the parser, behind it, and the header and the group names in the end.\<close>

definition compile_start :: "re_pctx \<Rightarrow> u32 \<Rightarrow> re_ps pr" where
  "compile_start c re_flags =
     (let b = dbuf_init2 (p_realloc c) (Some (p_realloc c));
          s = \<lparr>byte_code = b, buf_ptr = 0, ps_capture_count = 1, total_capture_count = - 1, has_named_captures = - 1,
               group_names = b, overflow_checks = 0\<rparr>
      in pbind (bc_put s (dbuf_putc (byte_code s) (ucast re_flags))) (\<lambda>s.
         pbind (bc_put s (dbuf_putc (byte_code s) 0)) (\<lambda>s.
         pbind (bc_put s (dbuf_putc (byte_code s) 0)) (\<lambda>s.
         pbind (bc_put s (dbuf_put_u32 (byte_code s) 0)) (\<lambda>s.
         pbind
           (if re_flags AND LRE_FLAG_STICKY = 0 then
              pbind (re_emit_op_u32 s REOP_split_goto_first (1 + 5)) (\<lambda>(_, s).
              pbind (re_emit_op s REOP_any) (\<lambda>s.
              pbind (re_emit_op_u32 s REOP_goto (- (5 + 1 + 5))) (\<lambda>(_, s). Some (P_ok s))))
            else Some (P_ok s)) (\<lambda>s.
         re_emit_op_u8 s REOP_save_start 0))))))"

definition compile_names :: "re_ps \<Rightarrow> re_ps pr" where
  "compile_names s =
     (if ps_capture_count s - 1 < db_size (group_names s) then
        pbind (plift (arr_slice (db_buf (group_names s)) 0 (db_size (group_names s)))) (\<lambda>names.
        pbind (bc_put s (dbuf_put (byte_code s) names)) (\<lambda>s.
        pbind (plift (arr_get (db_buf (byte_code s)) RE_HEADER_FLAGS)) (\<lambda>flags.
        bc_poke s RE_HEADER_FLAGS [flags OR ucast LRE_FLAG_NAMED_GROUPS])))
      else Some (P_ok s))"

definition compile_finish :: "re_pctx \<Rightarrow> re_ps \<Rightarrow> re_ps pr" where
  "compile_finish c s =
     pbind (re_emit_op_u8 s REOP_save_end 0) (\<lambda>s.
     pbind (re_emit_op s REOP_match) (\<lambda>s.
     pbind (plift (arr_get (p_buf c) (buf_ptr s))) (\<lambda>b.
     if b \<noteq> 0 then re_parse_error ''extraneous characters at the end''
     else if dbuf_error (byte_code s) then re_parse_out_of_memory
     else
       pbind (plift (Option.bind (arr_slice (db_buf (byte_code s)) 0 (bc_size s)) compute_stack_size)) (\<lambda>stack_size.
       if stack_size < 0 then re_parse_error ''too many imbricated quantifiers''
       else
         pbind (bc_poke s RE_HEADER_CAPTURE_COUNT [word_of_nat (ps_capture_count s)]) (\<lambda>s.
         pbind (bc_poke s RE_HEADER_STACK_SIZE [word_of_int stack_size]) (\<lambda>s.
         pbind (bc_poke_u32 s RE_HEADER_BYTECODE_LEN (word_of_nat (bc_size s - RE_HEADER_LEN))) (\<lambda>s.
         compile_names s)))))))"

text \<open>
  The arguments beside the flags are in the context; its booleans are those of the flags.
  The result is the byte code.
\<close>

definition lre_compile_ctx :: "re_pctx \<Rightarrow> u8 list \<Rightarrow> nat \<Rightarrow> u32 \<Rightarrow> re_pctx" where
  "lre_compile_ctx host buf buf_len re_flags =
     host\<lparr>p_buf := buf, p_end := buf_len, p_unicode := (re_flags AND LRE_FLAG_UNICODE \<noteq> 0),
       p_ignore_case := (re_flags AND LRE_FLAG_IGNORECASE \<noteq> 0), p_dotall := (re_flags AND LRE_FLAG_DOTALL \<noteq> 0)\<rparr>"

definition lre_compile :: "re_pctx \<Rightarrow> u8 list \<Rightarrow> nat \<Rightarrow> u32 \<Rightarrow> u8 list pr" where
  "lre_compile host buf buf_len re_flags =
     (let c = lre_compile_ctx host buf buf_len re_flags
      in pbind (compile_start c re_flags) (\<lambda>s.
         pbind (re_parse_disjunction (Suc buf_len) c s False) (\<lambda>s.
         pbind (compile_finish c s) (\<lambda>s.
         plift (arr_slice (db_buf (byte_code s)) 0 (bc_size s))))))"

end
