(* ===== verification/Spec2Isabelle.thy ===== *)
theory Spec2Isabelle
  imports Utf8 Cutils_Strings DynBuf List_Head Rqsort_Correct Exchange CharRange_Sort Unicode_Lookup Atod_Nearest Lre_Live Lre_Frag Lre_Parse
begin

text \<open>
  Verification of the C core libraries of go-quickjs.

  The repository embeds the QuickJS engine.  The engine (\<open>src/quickjs.c\<close>) rests on a layer of C
  libraries that hold most of its algorithms on plain data: \<open>src/cutils.c\<close> and \<open>src/cutils.h\<close> (byte and bit
  helpers, UTF-8, strings, the dynamic buffer, sorting), \<open>src/list.h\<close> (intrusive lists), \<open>src/libunicode.c\<close>
  with its generated tables (character ranges, case conversion, character properties), \<open>src/libregexp.c\<close> (the
  regular expression compiler and matcher) and \<open>src/dtoa.c\<close> (printing and reading of numbers).  This
  development models these libraries.  The higher ones call the lower ones: the regular expression compiler
  writes its code into dynamic buffers, reads the pattern with the UTF-8 decoder, builds character classes with the
  character ranges and folds them with the case tables; character ranges are sorted by \<open>rqsort\<close>; the matcher runs what
  the compiler wrote and folds characters with the same tables.

  Conventions.  C integers are words of their width or integers with the wrap-around
  written out.  A block of memory is a list and a pointer into it an index; an access outside of the block, a
  signed overflow, overlapping \<open>memcpy\<close> regions and a failed assertion are the value \<open>None\<close> of the type
  \<open>'a ub\<close>, so every theorem that a function returns \<open>Some\<close> is also a proof of memory safety.  Error returns
  are values.  Allocators, comparison functions, and callbacks of the host are arguments of the model; their laws are
  the locale \<open>allocator\<close> and hypotheses of the theorems.

  Theories, in the order of the imports.

  \<^item> \<open>QJS_Prelude\<close>: the type \<open>'a ub\<close>, accesses to arrays, little-endian numbers, and lemmas on lists and words.
  \<^item> \<open>Cutils_Bytes\<close>, \<open>Utf8\<close>, \<open>Cutils_Strings\<close>, \<open>DynBuf\<close>: \<open>src/cutils.h\<close> and \<open>src/cutils.c\<close>.  The UTF-8 encoder and
    decoder are inverse to each other and the decoder accepts only canonical sequences; \<open>pstrcat\<close> never
    writes outside of its buffer; a dynamic buffer whose error flag is unset holds everything that was put into it
    (locale \<open>byte_sink\<close>).
  \<^item> \<open>List_Head\<close>: \<open>src/list.h\<close> on an explicit store, refined to sequences.
  \<^item> \<open>Rqsort\<close>, \<open>Rqsort_Correct\<close>, \<open>Exchange\<close>: the sorting function of \<open>src/cutils.c\<close> with its explicit stack, its heap
    sort and its insertion sort.  It returns for every comparison function, and sorts for total preorders.
  \<^item> \<open>CharRange\<close>, \<open>CharRange_Sort\<close>: sets of code points as boundary lists, \<open>src/libunicode.c\<close> and \<open>src/libunicode.h\<close>.
  \<^item> \<open>Case_Tables\<close>, \<open>CaseConv\<close>, \<open>CaseConv_Correct\<close>, \<open>Case_Ranges\<close>: case conversion of characters and of sets.
    The folding of a set is its image under the folding of characters.
  \<^item> \<open>Prop_Tables\<close>, \<open>Unicode_Lookup\<close>: indexed run-length tables of character properties.
  \<^item> \<open>Mp_Arith\<close>, \<open>Mp_Div\<close>, \<open>Mpb\<close>, \<open>Itoa\<close>, \<open>Log2_Radix\<close>, \<open>Dtoa_Pow\<close>, \<open>Dtoa_Round\<close>, \<open>Dtoa\<close>, \<open>Dtoa_Double\<close>, \<open>Dtoa_Text\<close>, \<open>Dtoa_Free\<close>,
    \<open>Atod\<close>, \<open>Atod_Correct\<close>, \<open>Atod_Text\<close>, \<open>Dtoa_Roundtrip\<close>, \<open>Atod_Nearest\<close>: \<open>src/dtoa.c\<close>, from arithmetic on arrays of limbs to
    \<open>js_dtoa\<close> and \<open>js_atod\<close>.  Printed numbers are read back exactly and reading is correctly rounded.
  \<^item> \<open>Lre_Code\<close>, \<open>Lre_Exec\<close>: the byte code and the backtracking matcher of \<open>src/libregexp.c\<close>; \<open>Lre_Type\<close> is a type
    system for byte code, \<open>Lre_Safe\<close> shows that typed code runs without undefined behaviour and \<open>Lre_Live\<close>
    that the matcher returns as soon as the host asks it to stop.  \<open>Lre_Frag\<close> shows that the pieces of code that the
    compiler puts together are typed, one lemma for each construct.
  \<^item> \<open>Lre_Lex\<close>, \<open>Lre_Class\<close>, \<open>Lre_Parse\<close>: the regular expression compiler, from the lexer to \<open>lre_compile\<close>.

  Fuel.  Most loops are total functions with a termination proof.  Fuel is an argument in three places.  The
  matcher may run exponentially long: its theorems hold for every fuel, and \<open>lre_exec_interruptible\<close> shows that enough fuel
  gives the result.  The loop of \<open>rqsort\<close> gets fuel that is shown to be enough.
  The recursion of the regular expression compiler goes one level deeper for each opening parenthesis and its
  loops consume a character in each round, so it runs with the length of the pattern and one.

  Not modelled.  \<open>src/quickjs.c\<close> (the parser, byte code interpreter, garbage collector and builtins of the engine: one
  heap of mutable objects with reference counts), \<open>src/quickjs-libc.c\<close> (operating system calls), the Go bindings,
  the Unicode normalisation, and the functions \<open>unicode_script\<close>, \<open>unicode_general_category\<close> and \<open>unicode_prop\<close>, which
  decode large generated tables: they are arguments of the model of the regular expression compiler.  Debug output and
  code behind disabled preprocessor switches is left out.
\<close>

end
